(* ===== verification/Prelude.thy ===== *)
theory Prelude
  imports Main "HOL-Library.Word" "HOL-Library.Signed_Division"
begin

text \<open>
  The C integer model that every component shares.  The types \<open>su_int\<close>, \<open>si_int\<close>, \<open>du_int\<close>,
  \<open>di_int\<close>, \<open>tu_int\<close> and \<open>ti_int\<close> of \<open>int_types.h\<close> and \<open>int_lib.h\<close> are words of 32, 64 and
  128 bits; a signed type and its unsigned counterpart are the same word type, and the
  operators tell them apart: signed comparison is \<open><s\<close>, signed right shift is \<open>sar\<close>,
  signed division is \<open>sdiv_c\<close>.  The unions \<open>dwords\<close>, \<open>udwords\<close>, \<open>twords\<close>, \<open>utwords\<close> are
  the two projections \<open>low_half\<close> and \<open>high_half\<close> and the constructor \<open>make_dword\<close>.
  The theory also holds the generic facts on bits and widths that the component proofs use.
\<close>

unbundle bit_operations_syntax

named_theorems c_unat \<open>the value of a C expression on unsigned words, as a natural number\<close>
named_theorems c_int \<open>the value of a C expression on signed words, as an integer\<close>

type_synonym su_int = "32 word"
type_synonym si_int = "32 word"
type_synonym du_int = "64 word"
type_synonym di_int = "64 word"
type_synonym tu_int = "128 word"
type_synonym ti_int = "128 word"

text \<open>The type \<open>unsigned int\<close> of a 32-bit host; on the MSP430 itself it has 16 bits.\<close>

type_synonym c_unsigned = "32 word"

section \<open>C operators\<close>

text \<open>The shift operators; a shift by the width or more is undefined in C.\<close>

abbreviation shl :: "'a::len word \<Rightarrow> nat \<Rightarrow> 'a word" where
  "shl w n \<equiv> push_bit n w"

abbreviation shr :: "'a::len word \<Rightarrow> nat \<Rightarrow> 'a word" where
  "shr w n \<equiv> drop_bit n w"

abbreviation sar :: "'a::len word \<Rightarrow> nat \<Rightarrow> 'a word" where
  "sar w n \<equiv> signed_drop_bit n w"

text \<open>Signed division and remainder truncate towards zero.\<close>

definition sdiv_c :: "'a::len word \<Rightarrow> 'a word \<Rightarrow> 'a word" where
  "sdiv_c a b = word_of_int (sint a sdiv sint b)"

text \<open>The smallest signed value, \<open>(T)1 << (N - 1)\<close>.\<close>

definition int_min :: "'a::len word" where
  "int_min = push_bit (LENGTH('a) - 1) 1"

text \<open>The two halves of a double word and the double word of two halves.\<close>

definition low_half :: "'d::len word \<Rightarrow> 'h::len word" where
  "low_half w = ucast w"

definition high_half :: "'d::len word \<Rightarrow> 'h::len word" where
  "high_half w = ucast (drop_bit LENGTH('h) w)"

definition make_dword :: "'h::len word \<Rightarrow> 'h word \<Rightarrow> 'd::len word" where
  "make_dword h l = push_bit LENGTH('h) (ucast h) OR ucast l"

section \<open>Outcomes of routines that may abort\<close>

text \<open>\<open>compilerrt_abort()\<close> does not return; a routine that calls it has the outcome \<open>Inl Abort\<close>.\<close>

datatype abort = Abort

type_synonym 'a fallible = "abort + 'a"

section \<open>Values of words as numbers\<close>

lemma unat_shr [c_unat]: "unat (shr w n) = unat w div 2 ^ n"
  by (simp only: unat_drop_bit_eq, simp only: drop_bit_eq_div)

lemma unat_shl [c_unat]: "unat (shl w n) = (unat w * 2 ^ n) mod 2 ^ LENGTH('a)"
  for w :: "'a::len word"
  by (simp only: unsigned_push_bit_eq, simp only: push_bit_eq_mult take_bit_eq_mod)

lemma unat_shl_small:
  fixes w :: "'a::len word"
  assumes "unat w * 2 ^ n < 2 ^ LENGTH('a)"
  shows "unat (shl w n) = unat w * 2 ^ n"
  using assms by (simp add: unat_shl)

lemma unat_exp_word: "n < LENGTH('a) \<Longrightarrow> unat (2 ^ n :: 'a::len word) = 2 ^ n"
  using unat_shl [of n "1 :: 'a word"] by (simp add: push_bit_eq_mult)

lemma unat_plus_mod [c_unat]: "unat (a + b) = (unat a + unat b) mod 2 ^ LENGTH('a)"
  for a b :: "'a::len word"
  by (rule unat_word_ariths)

lemma unat_times_mod [c_unat]: "unat (a * b) = (unat a * unat b) mod 2 ^ LENGTH('a)"
  for a b :: "'a::len word"
  by (rule unat_word_ariths)

lemma unat_minus_le [c_unat]: "b \<le> a \<Longrightarrow> unat (a - b) = unat a - unat b"
  for a b :: "'a::len word"
  by (rule unat_sub)

lemma unat_and_mask_low [c_unat]: "unat (w AND mask n) = unat w mod 2 ^ n"
  by (simp only: unsigned_take_bit_eq flip: take_bit_eq_mask, simp only: take_bit_eq_mod)

lemma unat_or_disjoint:
  assumes "\<And>n. \<not> (bit a n \<and> bit b n)"
  shows "unat (a OR b) = unat a + unat b"
proof -
  have "unat a + unat b = unat a OR unat b"
    by (rule disjunctive_add_eq_or) (use assms in \<open>auto simp: bit_eq_iff bit_and_iff bit_unsigned_iff\<close>)
  then show ?thesis by (simp add: unsigned_or_eq)
qed

lemma nat_less_exp_not_bit: "x < 2 ^ m \<Longrightarrow> m \<le> n \<Longrightarrow> \<not> bit x n" for x :: nat
  by (metis bit_take_bit_iff linorder_not_less take_bit_nat_eq_self_iff)

lemma not_bit_of_unat_less: "unat w < 2 ^ m \<Longrightarrow> m \<le> n \<Longrightarrow> \<not> bit w n"
  using nat_less_exp_not_bit [of "unat w" m n] by (auto simp: bit_unsigned_iff dest: bit_imp_le_length)

text \<open>Joining bit fields: the lower operand fits below the shift of the upper one.\<close>

lemma unat_shl_or:
  assumes "unat l < 2 ^ n"
  shows "unat (shl h n OR l) = unat (shl h n) + unat l"
proof (rule unat_or_disjoint)
  fix k
  show "\<not> (bit (shl h n) k \<and> bit l k)"
    using not_bit_of_unat_less [OF assms, of k] by (auto simp: bit_push_bit_iff)
qed

lemma unat_less_exp_len [simp]: "unat w < 2 ^ LENGTH('a)" for w :: "'a::len word"
  by (rule unsigned_less)

lemma word_eq_0_iff_bits: "w = 0 \<longleftrightarrow> (\<forall>n. \<not> bit w n)" for w :: "'a::len word"
  by (auto intro: bit_word_eqI)

section \<open>Halves\<close>

lemma unat_low_half [c_unat]:
  "unat (low_half w :: 'h::len word) = unat w mod 2 ^ LENGTH('h)"
  by (simp add: low_half_def unsigned_ucast_eq take_bit_eq_mod)

lemma unat_high_half [c_unat]:
  fixes w :: "'d::len word"
  assumes "LENGTH('d) = 2 * LENGTH('h::len)"
  shows "unat (high_half w :: 'h word) = unat w div 2 ^ LENGTH('h)"
proof -
  have "unat w div 2 ^ LENGTH('h) < 2 ^ LENGTH('h)"
    using unat_less_exp_len [of w] assms by (simp add: less_mult_imp_div_less mult_2 power_add)
  then show ?thesis
    by (simp add: high_half_def unsigned_ucast_eq take_bit_eq_mod unat_shr)
qed

lemma unat_make_dword [c_unat]:
  fixes h l :: "'h::len word"
  assumes "LENGTH('d::len) = 2 * LENGTH('h)"
  shows "unat (make_dword h l :: 'd word) = unat h * 2 ^ LENGTH('h) + unat l"
proof -
  have exp: "(2::nat) ^ LENGTH('d) = 2 ^ LENGTH('h) * 2 ^ LENGTH('h)"
    using assms by (simp add: mult_2 power_add)
  have ge: "(2::nat) ^ LENGTH('h) \<le> 2 ^ LENGTH('d)"
    using assms by simp
  have u: "unat (ucast x :: 'd word) = unat x" for x :: "'h word"
    using less_le_trans [OF unat_less_exp_len ge, of x]
    by (simp add: unsigned_ucast_eq take_bit_eq_mod)
  have "unat (shl (ucast h :: 'd word) LENGTH('h)) = unat h * 2 ^ LENGTH('h)"
    using unat_less_exp_len [of h] by (simp add: unat_shl u exp)
  moreover have "unat (ucast l :: 'd word) < 2 ^ LENGTH('h)"
    by (simp add: u)
  ultimately show ?thesis
    by (simp add: make_dword_def unat_shl_or u)
qed

lemma low_half_make_dword [simp]:
  fixes h l :: "'h::len word"
  assumes "LENGTH('d::len) = 2 * LENGTH('h)"
  shows "low_half (make_dword h l :: 'd word) = l"
proof -
  have "unat (low_half (make_dword h l :: 'd word) :: 'h word) = unat l"
    by (simp add: c_unat assms)
  then show ?thesis by (simp add: word_unat_eq_iff)
qed

lemma high_half_make_dword [simp]:
  fixes h l :: "'h::len word"
  assumes "LENGTH('d::len) = 2 * LENGTH('h)"
  shows "high_half (make_dword h l :: 'd word) = h"
proof -
  have "unat (high_half (make_dword h l :: 'd word) :: 'h word) = unat h"
    by (simp add: c_unat assms)
  then show ?thesis by (simp add: word_unat_eq_iff)
qed

lemma make_dword_halves [simp]:
  fixes w :: "'d::len word"
  assumes "LENGTH('d) = 2 * LENGTH('h::len)"
  shows "make_dword (high_half w :: 'h word) (low_half w) = w"
proof -
  have "unat (make_dword (high_half w :: 'h word) (low_half w) :: 'd word) = unat w"
    using assms by (simp add: c_unat div_mult_mod_eq)
  then show ?thesis by (simp add: word_unat_eq_iff)
qed

lemma unat_halves:
  fixes w :: "'d::len word"
  assumes "LENGTH('d) = 2 * LENGTH('h::len)"
  shows "unat w = unat (high_half w :: 'h word) * 2 ^ LENGTH('h) + unat (low_half w :: 'h word)"
  using assms by (simp add: c_unat div_mult_mod_eq)

lemma bit_halves:
  fixes a :: "'d::len word"
  assumes width: "LENGTH('d) = 2 * LENGTH('h::len)"
  shows "bit (low_half a :: 'h word) n \<longleftrightarrow> n < LENGTH('h) \<and> bit a n"
    and "bit (high_half a :: 'h word) n \<longleftrightarrow> bit a (LENGTH('h) + n)"
  using width bit_imp_le_length [of a "LENGTH('h) + n"]
  by (auto simp: low_half_def high_half_def bit_ucast_iff bit_drop_bit_eq)

lemma halves_eq_0:
  fixes a :: "'d::len word"
  assumes "LENGTH('d) = 2 * LENGTH('h::len)"
  shows "a = 0 \<longleftrightarrow> high_half a = (0 :: 'h word) \<and> low_half a = (0 :: 'h word)"
  using unat_halves [OF assms, of a] by (auto simp: word_unat_eq_iff)

lemma bit_make_dword:
  fixes h l :: "'h::len word"
  assumes "LENGTH('d::len) = 2 * LENGTH('h)"
  shows "bit (make_dword h l :: 'd word) n \<longleftrightarrow>
    (if n < LENGTH('h) then bit l n else bit h (n - LENGTH('h)))"
  using assms bit_imp_le_length [of l n] bit_imp_le_length [of h "n - LENGTH('h)"]
  by (auto simp: make_dword_def bit_or_iff bit_push_bit_iff bit_ucast_iff)

text \<open>Shifts of a double word by a distance below, at and above the width of a half.\<close>

lemma shl_dword_low:
  fixes w :: "'d::len word" and nh nl :: "'h::len word"
  assumes width: "LENGTH('d) = 2 * LENGTH('h)" and k: "0 < k" "k < LENGTH('h)"
    and "nh = high_half w" "nl = low_half w"
  shows "shl w k = make_dword (shl nh k OR shr nl (LENGTH('h) - k)) (shl nl k)"
  using assms bit_imp_le_length [of w]
  by (intro bit_word_eqI) (auto simp: bit_make_dword bit_halves bit_push_bit_iff bit_or_iff bit_drop_bit_eq
      add.commute intro!: arg_cong [where f = "bit w"])

lemma shl_dword_high:
  fixes w :: "'d::len word" and nl :: "'h::len word"
  assumes width: "LENGTH('d) = 2 * LENGTH('h)" and k: "LENGTH('h) \<le> k"
    and "nl = low_half w"
  shows "shl w k = make_dword (shl nl (k - LENGTH('h))) 0"
  using assms bit_imp_le_length [of w]
  by (intro bit_word_eqI) (auto simp: bit_make_dword bit_halves bit_push_bit_iff bit_or_iff bit_drop_bit_eq)

lemma shr_dword_low:
  fixes w :: "'d::len word" and nh nl :: "'h::len word"
  assumes width: "LENGTH('d) = 2 * LENGTH('h)" and k: "0 < k" "k < LENGTH('h)"
    and "nh = high_half w" "nl = low_half w"
  shows "shr w k = make_dword (shr nh k) (shl nh (LENGTH('h) - k) OR shr nl k)"
  using assms bit_imp_le_length [of w]
  by (intro bit_word_eqI) (auto simp: bit_make_dword bit_halves bit_push_bit_iff bit_or_iff bit_drop_bit_eq
      add.commute intro!: arg_cong [where f = "bit w"])

lemma shr_dword_high:
  fixes w :: "'d::len word" and nh :: "'h::len word"
  assumes width: "LENGTH('d) = 2 * LENGTH('h)" and k: "LENGTH('h) \<le> k"
    and "nh = high_half w"
  shows "shr w k = make_dword 0 (shr nh (k - LENGTH('h)))"
  using assms
  by (intro bit_word_eqI) (auto simp: bit_make_dword bit_halves bit_drop_bit_eq dest: bit_imp_le_length)

section \<open>Signs\<close>

lemma sar_sign: "sar a (LENGTH('a) - 1) = (if sint a < 0 then - 1 else 0)"
  for a :: "'a::len word"
proof (rule bit_word_eqI)
  fix n
  assume n: "n < LENGTH('a)"
  have "LENGTH('a) - Suc 0 \<le> LENGTH('a) - Suc 0 + n" by simp
  moreover have "sint a < 0 \<longleftrightarrow> bit a (LENGTH('a) - Suc 0)"
    by (simp add: sint_uint signed_take_bit_negative_iff bit_unsigned_iff)
  ultimately show "bit (sar a (LENGTH('a) - 1)) n = bit (if sint a < 0 then - 1 else 0 :: 'a word) n"
    using n by (cases n) (auto simp: bit_signed_drop_bit_iff)
qed

text \<open>The branch-free negation \<open>(a ^ s) - s\<close> for \<open>s\<close> in \<open>{0, -1}\<close>.\<close>

lemma xor_minus_sign:
  "(a XOR (if p then - 1 else 0)) - (if p then - 1 else 0) = (if p then - a else a)"
  for a :: "'a::len word"
  by (simp add: not_eq_complement)

lemma uint_sint_mod: "uint a = sint a mod 2 ^ LENGTH('a)" for a :: "'a::len word"
proof -
  have "uint (word_of_int (sint a) :: 'a word) = sint a mod 2 ^ LENGTH('a)"
    by (simp only: unsigned_of_int take_bit_eq_mod, simp)
  then show ?thesis by simp
qed

lemma uint_minus_sint_mod: "uint (- a) = (- sint a) mod 2 ^ LENGTH('a)" for a :: "'a::len word"
proof -
  have "uint (word_of_int (- sint a) :: 'a word) = (- sint a) mod 2 ^ LENGTH('a)"
    by (simp only: unsigned_of_int take_bit_eq_mod, simp)
  then show ?thesis by simp
qed

lemma uint_abs_word: "uint (if sint a < 0 then - a else a) = \<bar>sint a\<bar>"
  for a :: "'a::len word"
proof (cases "sint a < 0")
  case True
  have "- sint a \<le> 2 ^ (LENGTH('a) - 1)" using sint_ge [of a] by simp
  also have "(2::int) ^ (LENGTH('a) - 1) < 2 ^ LENGTH('a)" by simp
  finally have "(- sint a) mod 2 ^ LENGTH('a) = - sint a"
    using True by (intro mod_pos_pos_trivial) auto
  then show ?thesis using True by (simp add: uint_minus_sint_mod)
next
  case False
  have "sint a < 2 ^ LENGTH('a)"
    using sint_lt [of a] less_le_trans [of "sint a" "2 ^ (LENGTH('a) - 1)" "2 ^ LENGTH('a)"] by simp
  then have "uint a = sint a"
    using False by (simp add: uint_sint_mod)
  with False show ?thesis by simp
qed

lemma sint_eq_of_range:
  fixes a :: "'a::len word"
  assumes "a = word_of_int k" "- (2 ^ (LENGTH('a) - 1)) \<le> k" "k < 2 ^ (LENGTH('a) - 1)"
  shows "sint a = k"
  using assms by (simp add: signed_of_int signed_take_bit_int_eq_self)

lemma sint_int_min [simp]: "sint (int_min :: 'a::len word) = - (2 ^ (LENGTH('a) - 1))"
proof (rule sint_eq_of_range)
  have "word_of_int (- (2 ^ (LENGTH('a) - 1))) = (word_of_int (2 ^ (LENGTH('a) - 1)) :: 'a word)"
  proof -
    have "(2 ^ LENGTH('a) :: 'a word) = 0" by simp
    moreover have "(2::'a word) ^ LENGTH('a) = 2 ^ (LENGTH('a) - 1) + 2 ^ (LENGTH('a) - 1)"
      by (metis len_gt_0 mult_2 power_minus_mult mult.commute)
    ultimately show ?thesis by (simp add: add_eq_0_iff)
  qed
  then show "int_min = (word_of_int (- (2 ^ (LENGTH('a) - 1))) :: 'a word)"
    by (simp add: int_min_def push_bit_eq_mult)
qed simp_all

lemma eq_int_min_iff: "a = int_min \<longleftrightarrow> sint a = - (2 ^ (LENGTH('a) - 1))" for a :: "'a::len word"
  by (metis sint_int_min signed_word_eqI)

lemma exp_double: "(2::int) ^ LENGTH('a::len) = 2 ^ (LENGTH('a) - 1) + 2 ^ (LENGTH('a) - 1)"
  by (metis len_gt_0 mult_2 power_minus_mult mult.commute)

lemma word_of_int_period:
  "word_of_int (k - 2 ^ LENGTH('a)) = (word_of_int k :: 'a::len word)"
  "word_of_int (k + 2 ^ LENGTH('a)) = (word_of_int k :: 'a::len word)"
  by (simp_all add: word_of_int_eq_iff take_bit_eq_mod)

text \<open>The signed value of a double word, from the signed high half and the unsigned low half.\<close>

lemma sint_halves:
  fixes w :: "'d::len word"
  assumes width: "LENGTH('d) = 2 * LENGTH('h::len)"
  shows "sint w = sint (high_half w :: 'h word) * 2 ^ LENGTH('h) + uint (low_half w :: 'h word)"
proof (rule sint_eq_of_range)
  let ?h = "high_half w :: 'h word" and ?l = "low_half w :: 'h word"
  define P where "P = (2::int) ^ LENGTH('h)"
  define Q where "Q = (2::int) ^ (LENGTH('h) - 1)"
  have P: "P = Q + Q" unfolding P_def Q_def by (rule exp_double)
  have D: "(2::int) ^ LENGTH('d) = P * P" by (simp add: P_def width mult_2 power_add)
  have "(2::int) ^ (LENGTH('d) - 1) = 2 ^ (LENGTH('h) - 1) * 2 ^ LENGTH('h)"
    by (simp only: power_add [symmetric] width) (simp add: mult_2)
  then have E: "(2::int) ^ (LENGTH('d) - 1) = Q * P" by (simp only: P_def Q_def)
  have h: "- Q \<le> sint ?h" "sint ?h \<le> Q - 1" using sint_ge [of ?h] sint_lt [of ?h] by (simp_all add: Q_def)
  have l: "0 \<le> uint ?l" "uint ?l < P" using unsigned_less [of ?l, where ?'a = int] by (simp_all add: P_def)
  have P0: "0 < P" by (simp add: P_def)
  have "sint ?h mod P = uint ?h" by (simp only: P_def uint_sint_mod)
  then obtain c where c: "sint ?h = uint ?h + c * P"
    by (metis mod_div_decomp mult.commute add.commute)
  have "int (unat w) = uint ?h * P + uint ?l"
    using unat_halves [OF width, of w] by (simp add: P_def)
  then have w: "w = word_of_int (uint ?h * P + uint ?l)" by (metis uint_nat word_of_int_uint)
  have "sint ?h * P + uint ?l = (uint ?h * P + uint ?l) + c * 2 ^ LENGTH('d)"
    by (simp add: c D distrib_right)
  then show "w = word_of_int (sint ?h * 2 ^ LENGTH('h) + uint ?l)"
    unfolding P_def [symmetric] by (subst w) (simp only: word_of_int_eq_iff take_bit_eq_mod mod_mult_self1)
  have "- Q * P \<le> sint ?h * P" using h P0 by (intro mult_right_mono) auto
  then show "- (2 ^ (LENGTH('d) - 1)) \<le> sint ?h * 2 ^ LENGTH('h) + uint ?l"
    unfolding E P_def [symmetric] using l by linarith
  have "sint ?h * P \<le> (Q - 1) * P" using h P0 by (intro mult_right_mono) auto
  then show "sint ?h * 2 ^ LENGTH('h) + uint ?l < 2 ^ (LENGTH('d) - 1)"
    unfolding E P_def [symmetric] using l by (simp add: left_diff_distrib)
qed

lemma uint_halves:
  fixes w :: "'d::len word"
  assumes width: "LENGTH('d) = 2 * LENGTH('h::len)"
  shows "uint w = uint (high_half w :: 'h word) * 2 ^ LENGTH('h) + uint (low_half w :: 'h word)"
  using unat_halves [OF width, of w] by (metis of_nat_add of_nat_mult of_nat_numeral of_nat_power uint_nat)

text \<open>Testing the bit at the width of a half decides which half a shift distance reaches.\<close>

lemma and_exp_eq_0_iff:
  fixes b :: "'a::len word"
  assumes "unat b < 2 * 2 ^ n"
  shows "b AND 2 ^ n = 0 \<longleftrightarrow> unat b < 2 ^ n"
proof -
  have "bit b n \<longleftrightarrow> odd (unat b div 2 ^ n)"
    using bit_imp_le_length [of b n] by (auto simp: bit_unsigned_iff simp flip: bit_iff_odd)
  moreover have "unat b div 2 ^ n < 2" using assms by (simp add: less_mult_imp_div_less)
  moreover have "unat b div 2 ^ n = 0 \<longleftrightarrow> unat b < 2 ^ n" by (auto simp: div_eq_0_iff)
  ultimately show ?thesis
    using and_exp_eq_0_iff_not_bit [of b n] by (cases "unat b div 2 ^ n") (auto simp: less_Suc_eq)
qed

section \<open>Arithmetic without overflow\<close>

lemma unat_plus_small: "unat a + unat b < 2 ^ LENGTH('a) \<Longrightarrow> unat (a + b) = unat a + unat b"
  for a b :: "'a::len word"
  by (simp add: unat_plus_mod)

lemma unat_times_small: "unat a * unat b < 2 ^ LENGTH('a) \<Longrightarrow> unat (a * b) = unat a * unat b"
  for a b :: "'a::len word"
  by (simp add: unat_times_mod)

lemma digit_product_bound:
  fixes x y z B :: nat
  assumes "x < B" "y < B" "z < B"
  shows "x * y + z < B * B"
proof -
  have "x * y \<le> (B - 1) * (B - 1)" using assms by (intro mult_le_mono) auto
  also have "(B - 1) * (B - 1) + (B - 1) = (B - 1) * B" using assms by (cases B) auto
  finally have "x * y + z \<le> (B - 1) * B" using assms
    by (metis (no_types, opaque_lifting) One_nat_def Suc_pred add_le_mono less_Suc_eq_le
        \<open>(B - 1) * (B - 1) + (B - 1) = (B - 1) * B\<close> \<open>x * y \<le> (B - 1) * (B - 1)\<close> gr_zeroI not_less_zero)
  also have "\<dots> < B * B" using assms by simp
  finally show ?thesis .
qed


lemma bit_field: "l < 2 ^ m \<Longrightarrow> bit (l + 2 ^ m * h) i \<longleftrightarrow> (if i < m then bit l i else bit h (i - m))" for l h :: nat
proof -
  assume l: "l < 2 ^ m"
  have "l + push_bit m h = l OR push_bit m h"
    by (rule disjunctive_add_eq_or)
      (use nat_less_exp_not_bit [OF l] in \<open>auto simp: bit_eq_iff bit_and_iff bit_push_bit_iff\<close>)
  moreover have "l + 2 ^ m * h = l + push_bit m h" by (simp add: push_bit_eq_mult mult.commute)
  ultimately show ?thesis
    using nat_less_exp_not_bit [OF l, of i] by (auto simp: bit_or_iff bit_push_bit_iff)
qed


lemma word_of_unat_eq: "unat w = n \<Longrightarrow> w = of_nat n" for w :: "'a::len word"
  by (drule arg_cong [where f = "of_nat :: nat \<Rightarrow> 'a word"]) simp

text \<open>The signed value of an integer beyond the range of the word, and the largest signed value.\<close>

lemma sint_wrap_above:
  assumes "2 ^ (LENGTH('a) - 1) \<le> k" "k < 2 ^ LENGTH('a)"
  shows "sint (word_of_int k :: 'a::len word) = k - 2 ^ LENGTH('a)"
  using assms exp_double [where 'a = 'a]
  by (intro sint_eq_of_range) (rule word_of_int_period(1) [symmetric], linarith+)

lemma sint_wrap_below:
  assumes "k < - (2 ^ (LENGTH('a) - 1))" "- (2 ^ LENGTH('a)) \<le> k"
  shows "sint (word_of_int k :: 'a::len word) = k + 2 ^ LENGTH('a)"
  using assms exp_double [where 'a = 'a]
  by (intro sint_eq_of_range) (rule word_of_int_period(2) [symmetric], linarith+)

lemma sint_int_max: "sint (NOT int_min :: 'a::len word) = 2 ^ (LENGTH('a) - 1) - 1"
proof (rule sint_eq_of_range)
  have "NOT int_min = (word_of_int (- (sint (int_min :: 'a word)) - 1) :: 'a word)"
    unfolding not_eq_complement by (simp only: of_int_diff of_int_minus of_int_1 of_int_sint scast_id id_apply)
  then show "NOT int_min = (word_of_int (2 ^ (LENGTH('a) - 1) - 1) :: 'a word)"
    by (simp only: sint_int_min minus_minus)
qed simp_all

end
