(* ===== verification/Bit_Count.thy ===== *)
theory Bit_Count
  imports Prelude
begin

text \<open>
  Counting bits: \<open>clzsi2.c\<close>, \<open>clzdi2.c\<close>, \<open>clzti2.c\<close>, \<open>ctzsi2.c\<close>, \<open>ctzdi2.c\<close>, \<open>ctzti2.c\<close>,
  \<open>ffssi2.c\<close>, \<open>ffsdi2.c\<close>, \<open>ffsti2.c\<close>.  The compiler builtins \<open>__builtin_clz\<close>, \<open>__builtin_clzll\<close>,
  \<open>__builtin_ctz\<close> and \<open>__builtin_ctzll\<close> are given by their documented meaning: the number of
  0-bits starting at the most (least) significant bit.  The locale \<open>leading_zeros\<close> is the contract
  that normalisation and division rely on; the builtin and the three library routines satisfy it.
\<close>

section \<open>The compiler builtins\<close>

definition builtin_clz :: "'a::len word \<Rightarrow> nat" where
  "builtin_clz w = length (takeWhile (\<lambda>i. \<not> bit w i) (rev [0..<LENGTH('a)]))"

definition builtin_ctz :: "'a::len word \<Rightarrow> nat" where
  "builtin_ctz w = length (takeWhile (\<lambda>i. \<not> bit w i) [0..<LENGTH('a)])"

text \<open>A C truth value used as a number.\<close>

definition truth :: "bool \<Rightarrow> 'a::len word" where
  "truth b = (if b then 1 else 0)"

section \<open>The routines\<close>

text \<open>A step of the binary search of \<open>__clzsi2\<close>: \<open>t = ((x & m) == 0) << s; x >>= k - t; r += t\<close>.\<close>

definition clzsi2 :: "si_int \<Rightarrow> si_int" where
  "clzsi2 a =
     (let x = a;
          t = shl (truth (x AND 0xFFFF0000 = 0)) 4;
          x = shr x (unat (16 - t));
          r = t;
          t = shl (truth (x AND 0xFF00 = 0)) 3;
          x = shr x (unat (8 - t));
          r = r + t;
          t = shl (truth (x AND 0xF0 = 0)) 2;
          x = shr x (unat (4 - t));
          r = r + t;
          t = shl (truth (x AND 0xC = 0)) 1;
          x = shr x (unat (2 - t));
          r = r + t
      in r + ((2 - x) AND - truth (x AND 2 = 0)))"

definition clzdi2 :: "di_int \<Rightarrow> si_int" where
  "clzdi2 a =
     (let h = high_half a; l = low_half a;
          f = - truth (h = 0)
      in of_nat (builtin_clz ((h AND NOT f) OR (l AND f) :: su_int)) + (f AND 32))"

definition clzti2 :: "ti_int \<Rightarrow> si_int" where
  "clzti2 a =
     (let h = high_half a; l = low_half a;
          f = - truth (h = 0)
      in of_nat (builtin_clz ((h AND NOT f) OR (l AND f) :: du_int)) + (ucast f AND 64))"

definition ctzsi2 :: "si_int \<Rightarrow> si_int" where
  "ctzsi2 a =
     (let x = a;
          t = shl (truth (x AND 0x0000FFFF = 0)) 4;
          x = shr x (unat t);
          r = t;
          t = shl (truth (x AND 0x00FF = 0)) 3;
          x = shr x (unat t);
          r = r + t;
          t = shl (truth (x AND 0x0F = 0)) 2;
          x = shr x (unat t);
          r = r + t;
          t = shl (truth (x AND 0x3 = 0)) 1;
          x = shr x (unat t);
          x = x AND 3;
          r = r + t
      in r + ((2 - shr x 1) AND - truth (x AND 1 = 0)))"

definition ctzdi2 :: "di_int \<Rightarrow> si_int" where
  "ctzdi2 a =
     (let h = high_half a; l = low_half a;
          f = - truth (l = 0)
      in of_nat (builtin_ctz ((h AND f) OR (l AND NOT f) :: su_int)) + (f AND 32))"

definition ctzti2 :: "ti_int \<Rightarrow> si_int" where
  "ctzti2 a =
     (let h = high_half a; l = low_half a;
          f = - truth (l = 0)
      in of_nat (builtin_ctz ((h AND f) OR (l AND NOT f) :: du_int)) + (ucast f AND 64))"

definition ffssi2 :: "si_int \<Rightarrow> si_int" where
  "ffssi2 a = (if a = 0 then 0 else of_nat (builtin_ctz a) + 1)"

definition ffsdi2 :: "di_int \<Rightarrow> si_int" where
  "ffsdi2 a =
     (let h = high_half a :: si_int; l = low_half a :: su_int in
      if l = 0 then
        if h = 0 then 0
        else of_nat (builtin_ctz h) + (1 + 32)
      else of_nat (builtin_ctz l) + 1)"

definition ffsti2 :: "ti_int \<Rightarrow> si_int" where
  "ffsti2 a =
     (let h = high_half a :: di_int; l = low_half a :: du_int in
      if l = 0 then
        if h = 0 then 0
        else of_nat (builtin_ctz h) + (1 + 64)
      else of_nat (builtin_ctz l) + 1)"

section \<open>Meaning of the builtins\<close>

lemma takeWhile_index:
  assumes "\<exists>x \<in> set xs. P x"
  defines "n \<equiv> length (takeWhile (\<lambda>x. \<not> P x) xs)"
  shows "n < length xs" "P (xs ! n)" "i < n \<Longrightarrow> \<not> P (xs ! i)"
proof -
  show n: "n < length xs" unfolding n_def using assms(1) by (induction xs) auto
  show "P (xs ! n)" using nth_length_takeWhile [of "\<lambda>x. \<not> P x" xs] n by (simp add: n_def)
  show "i < n \<Longrightarrow> \<not> P (xs ! i)"
    unfolding n_def using nth_mem [of i "takeWhile (\<lambda>x. \<not> P x) xs"]
    by (auto simp: takeWhile_nth dest: set_takeWhileD)
qed

lemma word_nonzero_bit: "w \<noteq> 0 \<Longrightarrow> \<exists>n < LENGTH('a). bit w n" for w :: "'a::len word"
  using bit_word_eqI [of w 0] by auto

lemma nat_less_exp_iff_bits: "x < 2 ^ m \<longleftrightarrow> (\<forall>n\<ge>m. \<not> bit x n)" for x :: nat
proof
  assume "\<forall>n\<ge>m. \<not> bit x n"
  then have "take_bit m x = x"
    by (intro bit_eqI) (auto simp: bit_take_bit_iff not_le)
  then show "x < 2 ^ m" by (metis take_bit_nat_less_exp)
qed (auto simp: nat_less_exp_not_bit)

lemma unat_less_exp_iff_bits: "unat w < 2 ^ m \<longleftrightarrow> (\<forall>n\<ge>m. \<not> bit w n)" for w :: "'a::len word"
  by (auto simp: nat_less_exp_iff_bits bit_unsigned_iff dest: bit_imp_le_length)

lemma nat_bit_imp_ge: "bit x n \<Longrightarrow> 2 ^ n \<le> x" for x :: nat
  by (metis nat_less_exp_not_bit linorder_not_less order_refl)

lemma unat_bit_imp_ge: "bit w n \<Longrightarrow> 2 ^ n \<le> unat w"
  using nat_bit_imp_ge [of "unat w" n] by (auto simp: bit_unsigned_iff dest: bit_imp_le_length)

section \<open>The contract of a leading-zero count\<close>

locale leading_zeros =
  fixes clz :: "'a::len word \<Rightarrow> nat"
  assumes clz_less: "w \<noteq> 0 \<Longrightarrow> clz w < LENGTH('a)"
    and clz_lower: "w \<noteq> 0 \<Longrightarrow> 2 ^ (LENGTH('a) - 1 - clz w) \<le> unat w"
    and clz_upper: "w \<noteq> 0 \<Longrightarrow> unat w < 2 ^ (LENGTH('a) - clz w)"
begin

text \<open>The contract determines the count.\<close>

lemma clz_unique:
  assumes "w \<noteq> 0" "2 ^ (LENGTH('a) - 1 - k) \<le> unat w" "unat w < 2 ^ (LENGTH('a) - k)" "k < LENGTH('a)"
  shows "clz w = k"
proof -
  have "(2::nat) ^ (LENGTH('a) - 1 - clz w) < 2 ^ (LENGTH('a) - k)"
    using clz_lower [OF assms(1)] assms(3) by linarith
  moreover have "(2::nat) ^ (LENGTH('a) - 1 - k) < 2 ^ (LENGTH('a) - clz w)"
    using clz_upper [OF assms(1)] assms(2) by linarith
  ultimately have "LENGTH('a) - 1 - clz w < LENGTH('a) - k" "LENGTH('a) - 1 - k < LENGTH('a) - clz w"
    by (simp_all only: power_strict_increasing_iff one_less_numeral_iff semiring_norm)
  then show ?thesis using clz_less [OF assms(1)] assms(4) by linarith
qed

lemma clz_exp: "n < LENGTH('a) \<Longrightarrow> clz (2 ^ n) = LENGTH('a) - 1 - n"
  by (rule clz_unique) (auto simp: unat_exp_word word_unat_eq_iff Suc_diff_Suc)

lemma clz_antimono: "v \<noteq> 0 \<Longrightarrow> unat v \<le> unat w \<Longrightarrow> clz w \<le> clz v"
proof (rule ccontr)
  assume v: "v \<noteq> 0" and le: "unat v \<le> unat w" and "\<not> clz w \<le> clz v"
  then have w: "w \<noteq> 0" by (auto simp: word_unat_eq_iff)
  have "unat w < 2 ^ (LENGTH('a) - clz w)" by (rule clz_upper [OF w])
  also have "\<dots> \<le> 2 ^ (LENGTH('a) - 1 - clz v)"
    using \<open>\<not> clz w \<le> clz v\<close> by (intro power_increasing) auto
  also have "\<dots> \<le> unat v" by (rule clz_lower [OF v])
  finally show False using le by simp
qed

text \<open>Shifting by the count moves the leading bit to the top.\<close>

lemma unat_shl_clz: "w \<noteq> 0 \<Longrightarrow> n \<le> clz w \<Longrightarrow> unat (shl w n) = unat w * 2 ^ n"
proof -
  assume w: "w \<noteq> 0" and n: "n \<le> clz w"
  have "unat w * 2 ^ n < 2 ^ (LENGTH('a) - clz w) * 2 ^ n"
    using clz_upper [OF w] by simp
  also have "\<dots> \<le> 2 ^ LENGTH('a)"
    using n clz_less [OF w] by (simp flip: power_add)
  finally show ?thesis by (rule unat_shl_small)
qed

end

lemma builtin_clz_props:
  fixes w :: "'a::len word"
  assumes "w \<noteq> 0"
  shows "builtin_clz w < LENGTH('a)" "bit w (LENGTH('a) - 1 - builtin_clz w)"
    "\<And>i. LENGTH('a) - builtin_clz w \<le> i \<Longrightarrow> \<not> bit w i"
proof -
  have ex: "\<exists>i \<in> set (rev [0..<LENGTH('a)]). bit w i"
    using word_nonzero_bit [OF assms] by auto
  note tw = takeWhile_index [where P = "bit w", OF ex, folded builtin_clz_def]
  show len: "builtin_clz w < LENGTH('a)" using tw(1) by simp
  show "bit w (LENGTH('a) - 1 - builtin_clz w)" using tw(2) len by (simp add: rev_nth)
  fix i
  assume "LENGTH('a) - builtin_clz w \<le> i"
  then show "\<not> bit w i"
    using tw(3) [of "LENGTH('a) - 1 - i"] len bit_imp_le_length [of w i]
    by (cases "i < LENGTH('a)") (auto simp: rev_nth)
qed

interpretation builtin_clz: leading_zeros builtin_clz
proof
  fix w :: "'a word"
  assume w: "w \<noteq> 0"
  show "builtin_clz w < LENGTH('a)" by (rule builtin_clz_props(1) [OF w])
  show "2 ^ (LENGTH('a) - 1 - builtin_clz w) \<le> unat w"
    by (rule unat_bit_imp_ge) (rule builtin_clz_props(2) [OF w])
  show "unat w < 2 ^ (LENGTH('a) - builtin_clz w)"
    unfolding unat_less_exp_iff_bits using builtin_clz_props(3) [OF w] by blast
qed

section \<open>The contract of a trailing-zero count\<close>

locale trailing_zeros =
  fixes ctz :: "'a::len word \<Rightarrow> nat"
  assumes ctz_bit: "w \<noteq> 0 \<Longrightarrow> bit w (ctz w)"
    and ctz_below: "w \<noteq> 0 \<Longrightarrow> i < ctz w \<Longrightarrow> \<not> bit w i"
begin

lemma ctz_less: "w \<noteq> 0 \<Longrightarrow> ctz w < LENGTH('a)"
  by (rule bit_imp_le_length) (rule ctz_bit)

lemma ctz_unique: "w \<noteq> 0 \<Longrightarrow> bit w k \<Longrightarrow> (\<And>i. i < k \<Longrightarrow> \<not> bit w i) \<Longrightarrow> ctz w = k"
  using ctz_bit [of w] ctz_below [of w] by (meson linorder_neqE_nat)

text \<open>The power-of-two test \<open>(d & (d - 1)) == 0\<close> and its exponent.\<close>

lemma power_of_two:
  assumes d: "d \<noteq> 0" and test: "d AND (d - 1) = 0"
  shows "unat d = 2 ^ ctz d"
proof -
  define k where "k = LENGTH('a) - 1 - builtin_clz d"
  have k: "k < LENGTH('a)" "2 ^ k \<le> unat d" "unat d < 2 ^ Suc k" "bit d k"
    using builtin_clz.clz_less [OF d] builtin_clz.clz_lower [OF d] builtin_clz.clz_upper [OF d]
      builtin_clz_props(2) [OF d]
    by (auto simp: k_def Suc_diff_Suc)
  have eq: "unat d = 2 ^ k"
  proof (rule ccontr)
    assume "unat d \<noteq> 2 ^ k"
    with k have lower: "2 ^ k \<le> unat d - 1" by linarith
    have "1 \<le> d" using d by (simp add: word_le_nat_alt Suc_le_eq word_unat_eq_iff)
    then have u: "unat (d - 1) = unat d - 1" by (simp add: unat_minus_le)
    have "(unat d - 1) div 2 ^ k = 1"
      using lower k(3) by (intro div_nat_eqI) auto
    then have "bit (unat d - 1) k" by (simp add: bit_iff_odd)
    then have "bit (unat (d - 1)) k" by (simp add: u)
    then have "bit (d - 1) k" by (simp add: bit_unsigned_iff)
    with k(4) have "bit (d AND (d - 1)) k" by (simp add: bit_and_iff)
    with test show False by simp
  qed
  have "ctz d = k"
  proof (rule ctz_unique [OF d k(4)])
    fix i assume "i < k"
    then have "even (unat d div 2 ^ i)" using eq by (simp add: power_diff [symmetric])
    then show "\<not> bit d i" using bit_unsigned_iff [where 'a = nat, of d i] by (auto simp: bit_iff_odd)
  qed
  with eq show ?thesis by simp
qed

end

interpretation builtin_ctz: trailing_zeros builtin_ctz
proof
  fix w :: "'a word"
  assume w: "w \<noteq> 0"
  have ex: "\<exists>i \<in> set [0..<LENGTH('a)]. bit w i"
    using word_nonzero_bit [OF w] by auto
  note tw = takeWhile_index [where P = "bit w", OF ex, folded builtin_ctz_def]
  show "bit w (builtin_ctz w)" using tw(1,2) by simp
  show "\<not> bit w i" if "i < builtin_ctz w" for i using tw(1) tw(3) [OF that] that by simp
qed

section \<open>The binary search of \<open>__clzsi2\<close>\<close>

lemma and_high_mask_eq_0:
  fixes x :: "'a::len word"
  assumes "unat x < 2 ^ (2 * k)"
  shows "x AND push_bit k (mask k) = 0 \<longleftrightarrow> unat x < 2 ^ k"
proof -
  have high: "\<not> bit x n" if "2 * k \<le> n" for n
    using assms that by (auto simp: unat_less_exp_iff_bits)
  have "x AND push_bit k (mask k) = 0 \<longleftrightarrow> (\<forall>n. \<not> (bit x n \<and> k \<le> n \<and> n - k < k))"
    using bit_imp_le_length [of x] less_imp_diff_less [of _ "LENGTH('a)" k]
    by (auto simp: word_eq_0_iff_bits bit_and_iff bit_push_bit_iff bit_mask_iff)
  also have "\<dots> \<longleftrightarrow> (\<forall>n\<ge>k. \<not> bit x n)"
    using high by (metis diff_less_mono2 le_add_diff_inverse less_diff_conv2 mult_2 nat_add_left_cancel_less not_le)
  finally show ?thesis by (simp add: unat_less_exp_iff_bits)
qed

text \<open>
  The state of the search: \<open>r\<close> leading zeros are counted and \<open>x\<close>, below \<open>2 ^ k\<close>, holds
  the \<open>k\<close> bits of \<open>a\<close> that follow them.
\<close>

definition clz_search :: "su_int \<Rightarrow> nat \<Rightarrow> nat \<Rightarrow> su_int \<Rightarrow> bool" where
  "clz_search a r k x \<longleftrightarrow>
     r + k \<le> 32 \<and> x \<noteq> 0 \<and> unat x = unat a div 2 ^ (32 - k - r) \<and> unat x < 2 ^ k"

lemma clz_search_step:
  assumes inv: "clz_search a r (2 * k) x" and m: "m = push_bit k (mask k)"
    and t: "t = (if x AND m = 0 then k else 0)"
  shows "clz_search a (r + t) k (shr x (k - t))"
proof (cases "unat x < 2 ^ k")
  case True
  with inv m t have "t = k" by (simp add: clz_search_def and_high_mask_eq_0)
  have "32 - 2 * k - r = 32 - k - (r + k)" by simp
  with True inv \<open>t = k\<close> show ?thesis by (simp add: clz_search_def)
next
  case False
  with inv m t have t0: "t = 0" by (simp add: clz_search_def and_high_mask_eq_0)
  have "32 - 2 * k - r + k = 32 - k - r" using inv by (simp add: clz_search_def)
  then have "unat (shr x k) = unat a div 2 ^ (32 - k - r)"
    using inv by (simp add: clz_search_def unat_shr div_mult2_eq [symmetric] power_add [symmetric])
  moreover have "unat (shr x k) < 2 ^ k"
    using inv by (simp add: clz_search_def unat_shr less_mult_imp_div_less mult_2 power_add)
  moreover have "unat (shr x k) \<noteq> 0"
    using False by (simp add: unat_shr div_eq_0_iff)
  ultimately show ?thesis using inv t0 by (auto simp: clz_search_def word_unat_eq_iff)
qed

lemma clz_search_final:
  assumes inv: "clz_search a r 2 x" and a: "a \<noteq> 0"
  shows "builtin_clz a = (if unat x = 1 then r + 1 else r)"
proof -
  define e where "e = 30 - r"
  have r: "r \<le> 30" "e \<le> 30" "32 - r = e + 2" "31 - r = e + 1" "32 - 2 - r = e"
    using inv by (auto simp: clz_search_def e_def)
  have x: "unat x = unat a div 2 ^ e" "unat x < 4" "unat x \<noteq> 0"
    using inv r by (auto simp: clz_search_def word_unat_eq_iff)
  have lower: "unat x * 2 ^ e \<le> unat a" and upper: "unat a < (unat x + 1) * 2 ^ e"
    using x(1) by (simp_all add: div_times_less_eq_dividend mult.commute dividend_less_div_times
        dividend_less_times_div)
  show ?thesis
  proof (cases "unat x = 1")
    case True
    with lower upper r show ?thesis
      by (intro builtin_clz.clz_unique [OF a]) (auto simp: e_def [symmetric])
  next
    case False
    with x have "2 * 2 ^ e \<le> unat x * 2 ^ e" "(unat x + 1) * 2 ^ e \<le> 4 * 2 ^ e"
      by (auto intro!: mult_le_mono1)
    with lower upper have "2 * 2 ^ e \<le> unat a" "unat a < 4 * 2 ^ e" by linarith+
    with False r show ?thesis
      by (intro builtin_clz.clz_unique [OF a]) (auto simp: power_add)
  qed
qed

lemma shl_truth: "shl (truth c) n = (if c then 2 ^ n else 0)"
  by (simp add: truth_def push_bit_eq_mult)

lemma clz_tail:
  assumes "unat x < 4" "x \<noteq> 0"
  shows "(2 - x) AND - truth (x AND 2 = 0) = (if unat x = 1 then 1 else 0 :: su_int)"
proof -
  from assms have "unat x \<in> {1, 2, 3}" by (auto simp: word_unat_eq_iff)
  then have "x \<in> {1, 2, 3}" by (auto simp: word_unat_eq_iff)
  then show ?thesis by (auto simp: truth_def)
qed

lemma clzsi2_eq:
  assumes a: "a \<noteq> 0"
  shows "clzsi2 a = of_nat (builtin_clz a)"
proof -
  define t1 where "t1 = (if a AND 0xFFFF0000 = 0 then 16 else 0 :: nat)"
  define x1 where "x1 = shr a (16 - t1)"
  define t2 where "t2 = (if x1 AND 0xFF00 = 0 then 8 else 0 :: nat)"
  define x2 where "x2 = shr x1 (8 - t2)"
  define t3 where "t3 = (if x2 AND 0xF0 = 0 then 4 else 0 :: nat)"
  define x3 where "x3 = shr x2 (4 - t3)"
  define t4 where "t4 = (if x3 AND 0xC = 0 then 2 else 0 :: nat)"
  define x4 where "x4 = shr x3 (2 - t4)"
  have "clz_search a 0 (2 * 16) a"
    using a unat_less_exp_len [of a] by (simp add: clz_search_def)
  from clz_search_step [OF this _ t1_def] have "clz_search a t1 (2 * 8) x1"
    by (simp add: x1_def push_bit_eq_mult mask_eq_exp_minus_1)
  from clz_search_step [OF this _ t2_def] have "clz_search a (t1 + t2) (2 * 4) x2"
    by (simp add: x2_def push_bit_eq_mult mask_eq_exp_minus_1)
  from clz_search_step [OF this _ t3_def] have "clz_search a (t1 + t2 + t3) (2 * 2) x3"
    by (simp add: x3_def push_bit_eq_mult mask_eq_exp_minus_1)
  from clz_search_step [OF this _ t4_def] have final: "clz_search a (t1 + t2 + t3 + t4) 2 x4"
    by (simp add: x4_def push_bit_eq_mult mask_eq_exp_minus_1)
  have s: "shl (truth c) 4 = (of_nat (if c then 16 else 0) :: su_int)"
    "shl (truth c) 3 = (of_nat (if c then 8 else 0) :: su_int)"
    "shl (truth c) 2 = (of_nat (if c then 4 else 0) :: su_int)"
    "shl (truth c) 1 = (of_nat (if c then 2 else 0) :: su_int)" for c
    by (simp_all add: truth_def)
  have n: "unat (16 - of_nat t1 :: su_int) = 16 - t1" "unat (8 - of_nat t2 :: su_int) = 8 - t2"
    "unat (4 - of_nat t3 :: su_int) = 4 - t3" "unat (2 - of_nat t4 :: su_int) = 2 - t4"
    by (simp_all add: t1_def t2_def t3_def t4_def)
  have "clzsi2 a = of_nat (t1 + t2 + t3 + t4) + ((2 - x4) AND - truth (x4 AND 2 = 0))"
    unfolding clzsi2_def Let_def s
    unfolding t1_def [symmetric] n(1) x1_def [symmetric]
    unfolding t2_def [symmetric] n(2) x2_def [symmetric]
    unfolding t3_def [symmetric] n(3) x3_def [symmetric]
    unfolding t4_def [symmetric] n(4) x4_def [symmetric]
    by simp
  then show ?thesis
    using clz_search_final [OF final a] final by (simp add: clz_tail clz_search_def)
qed

section \<open>Counting over two halves\<close>

lemma builtin_clz_halves:
  fixes a :: "'d::len word"
  assumes width: "LENGTH('d) = 2 * LENGTH('h::len)" and a: "a \<noteq> 0"
  shows "builtin_clz a =
    (if high_half a = (0 :: 'h word) then LENGTH('h) + builtin_clz (low_half a :: 'h word)
     else builtin_clz (high_half a :: 'h word))"
proof -
  let ?h = "high_half a :: 'h word" and ?l = "low_half a :: 'h word"
  have split: "unat a = unat ?h * 2 ^ LENGTH('h) + unat ?l" by (rule unat_halves [OF width])
  show ?thesis
  proof (cases "?h = 0")
    case True
    with a split have l: "?l \<noteq> 0" by (auto simp: word_unat_eq_iff)
    have "builtin_clz a = LENGTH('h) + builtin_clz ?l"
      using True split width builtin_clz.clz_lower [OF l] builtin_clz.clz_upper [OF l]
        builtin_clz.clz_less [OF l]
      by (intro builtin_clz.clz_unique [OF a]) auto
    with True show ?thesis by simp
  next
    case False
    let ?k = "builtin_clz ?h" and ?H = "LENGTH('h)"
    note h = builtin_clz.clz_lower [OF False] builtin_clz.clz_upper [OF False] builtin_clz.clz_less [OF False]
    have "2 ^ (?H - 1 - ?k) * 2 ^ ?H \<le> unat ?h * 2 ^ ?H" using h(1) by (rule mult_le_mono1)
    then have lower: "2 ^ (?H - 1 - ?k + ?H) \<le> unat a"
      unfolding power_add using split by linarith
    have "unat ?h * 2 ^ ?H + 2 ^ ?H \<le> 2 ^ (?H - ?k) * 2 ^ ?H"
      using mult_le_mono1 [of "unat ?h + 1" "2 ^ (?H - ?k)" "2 ^ ?H"] h(2) by simp
    then have upper: "unat a < 2 ^ (?H - ?k + ?H)"
      unfolding power_add using split unat_less_exp_len [of ?l] by linarith
    have e: "LENGTH('d) - 1 - ?k = ?H - 1 - ?k + ?H" "LENGTH('d) - ?k = ?H - ?k + ?H"
      using h(3) width by auto
    have "builtin_clz a = ?k"
      by (rule builtin_clz.clz_unique [OF a]) (use lower upper e h(3) width in simp_all)
    with False show ?thesis by simp
  qed
qed

lemma builtin_ctz_halves:
  fixes a :: "'d::len word"
  assumes width: "LENGTH('d) = 2 * LENGTH('h::len)" and a: "a \<noteq> 0"
  shows "builtin_ctz a =
    (if low_half a = (0 :: 'h word) then LENGTH('h) + builtin_ctz (high_half a :: 'h word)
     else builtin_ctz (low_half a :: 'h word))"
proof -
  let ?h = "high_half a :: 'h word" and ?l = "low_half a :: 'h word"
  note bits = bit_halves [OF width]
  show ?thesis
  proof (cases "?l = 0")
    case True
    have h: "?h \<noteq> 0"
      using a True unat_halves [OF width, of a] by (auto simp: word_unat_eq_iff)
    have low: "\<not> bit a i" if "i < LENGTH('h)" for i
      using True bits(1) [of a i] that by simp
    have "builtin_ctz a = LENGTH('h) + builtin_ctz ?h"
    proof (rule builtin_ctz.ctz_unique [OF a])
      show "bit a (LENGTH('h) + builtin_ctz ?h)"
        using builtin_ctz.ctz_bit [OF h] by (simp add: bits)
      show "\<not> bit a i" if "i < LENGTH('h) + builtin_ctz ?h" for i
        using low [of i] builtin_ctz.ctz_below [OF h, of "i - LENGTH('h)"] bits(2) [of a "i - LENGTH('h)"] that
        by (cases "i < LENGTH('h)") auto
    qed
    with True show ?thesis by simp
  next
    case False
    have "builtin_ctz a = builtin_ctz ?l"
      using builtin_ctz.ctz_bit [OF False] builtin_ctz.ctz_below [OF False] builtin_ctz.ctz_less [OF False]
      by (intro builtin_ctz.ctz_unique [OF a]) (auto simp: bits)
    with False show ?thesis by simp
  qed
qed

lemma mask_select:
  "(x AND NOT (- truth c)) OR (y AND - truth c) = (if c then y else x)" for x y :: "'a::len word"
  by (simp add: truth_def)

lemma mask_select':
  "(x AND - truth c) OR (y AND NOT (- truth c)) = (if c then x else y)" for x y :: "'a::len word"
  by (simp add: truth_def)

lemma mask_constant:
  "(- truth c) AND y = (if c then y else 0)" for y :: "'a::len word"
  by (simp add: truth_def)

lemma ucast_mask_constant:
  "ucast (- truth c :: du_int) AND y = (if c then y else 0)" for y :: su_int
  by (auto simp: truth_def bit_simps intro!: bit_word_eqI dest: bit_imp_le_length)

lemma clzdi2_eq: "a \<noteq> 0 \<Longrightarrow> clzdi2 a = of_nat (builtin_clz a)"
  using builtin_clz_halves [where 'd = 64 and 'h = 32, of a]
  by (simp add: clzdi2_def Let_def mask_select mask_constant)

lemma clzti2_eq: "a \<noteq> 0 \<Longrightarrow> clzti2 a = of_nat (builtin_clz a)"
  using builtin_clz_halves [where 'd = 128 and 'h = 64, of a]
  by (simp add: clzti2_def Let_def mask_select ucast_mask_constant)

lemma ctzdi2_eq: "a \<noteq> 0 \<Longrightarrow> ctzdi2 a = of_nat (builtin_ctz a)"
  using builtin_ctz_halves [where 'd = 64 and 'h = 32, of a]
  by (simp add: ctzdi2_def Let_def mask_select' mask_constant)

lemma ctzti2_eq: "a \<noteq> 0 \<Longrightarrow> ctzti2 a = of_nat (builtin_ctz a)"
  using builtin_ctz_halves [where 'd = 128 and 'h = 64, of a]
  by (simp add: ctzti2_def Let_def mask_select' ucast_mask_constant)

text \<open>The library routines meet the contract of the builtins.\<close>

lemma clzsi2_value: "w \<noteq> 0 \<Longrightarrow> unat (clzsi2 w) = builtin_clz w"
  and clzdi2_value: "v \<noteq> 0 \<Longrightarrow> unat (clzdi2 v) = builtin_clz v"
  and clzti2_value: "u \<noteq> 0 \<Longrightarrow> unat (clzti2 u) = builtin_clz u"
  using builtin_clz.clz_less [of w] builtin_clz.clz_less [of v] builtin_clz.clz_less [of u]
  by (simp_all add: clzsi2_eq clzdi2_eq clzti2_eq unsigned_of_nat take_bit_nat_eq_self)

lemma leading_zeros_cong:
  assumes "\<And>w. w \<noteq> 0 \<Longrightarrow> f w = builtin_clz w"
  shows "leading_zeros f"
proof
  fix w :: "'a word"
  assume w: "w \<noteq> 0"
  show "f w < LENGTH('a)" "2 ^ (LENGTH('a) - 1 - f w) \<le> unat w" "unat w < 2 ^ (LENGTH('a) - f w)"
    using builtin_clz.clz_less [OF w] builtin_clz.clz_lower [OF w] builtin_clz.clz_upper [OF w]
    by (simp_all add: assms w)
qed

interpretation clzsi2: leading_zeros "\<lambda>w. unat (clzsi2 w)"
  by (rule leading_zeros_cong) (rule clzsi2_value)

interpretation clzdi2: leading_zeros "\<lambda>w. unat (clzdi2 w)"
  by (rule leading_zeros_cong) (rule clzdi2_value)

interpretation clzti2: leading_zeros "\<lambda>w. unat (clzti2 w)"
  by (rule leading_zeros_cong) (rule clzti2_value)

section \<open>The binary search of \<open>__ctzsi2\<close>\<close>

text \<open>
  The state of the search: the lowest \<open>r\<close> bits of \<open>a\<close> are zero, \<open>x\<close> is \<open>a\<close> without them, and
  one of its lowest \<open>k\<close> bits is set.
\<close>

definition ctz_search :: "su_int \<Rightarrow> nat \<Rightarrow> nat \<Rightarrow> su_int \<Rightarrow> bool" where
  "ctz_search a r k x \<longleftrightarrow> x = shr a r \<and> (\<forall>i<r. \<not> bit a i) \<and> (\<exists>i<k. bit x i)"

lemma and_low_mask_eq_0: "x AND mask k = 0 \<longleftrightarrow> (\<forall>i<k. \<not> bit x i)" for x :: "'a::len word"
  by (auto simp: word_eq_0_iff_bits bit_and_iff bit_mask_iff dest: bit_imp_le_length)

lemma ctz_search_step:
  assumes inv: "ctz_search a r (2 * k) x" and m: "m = mask k"
    and "t = (if x AND m = 0 then k else 0)"
  shows "ctz_search a (r + t) k (shr x t)"
proof -
  have t: "t = (if x AND mask k = 0 then k else 0)" using assms by simp
  show ?thesis
  proof (cases "x AND mask k = 0")
    case True
    with t have t': "t = k" by simp
    from True have low: "\<not> bit x i" if "i < k" for i using that by (simp add: and_low_mask_eq_0)
    obtain i where i: "i < 2 * k" "bit x i" using inv by (auto simp: ctz_search_def)
    with low have "k \<le> i" by (meson not_le)
    with i have "\<exists>i<k. bit (shr x k) i" by (intro exI [of _ "i - k"]) (auto simp: bit_drop_bit_eq)
    moreover have "\<not> bit a j" if "j < r + k" for j
      using inv low [of "j - r"] that by (cases "j < r") (auto simp: ctz_search_def bit_drop_bit_eq)
    ultimately show ?thesis using inv t' by (auto simp: ctz_search_def add.commute)
  next
    case False
    with inv t show ?thesis by (auto simp: ctz_search_def and_low_mask_eq_0)
  qed
qed

lemma ctz_search_final:
  assumes inv: "ctz_search a r 2 x" and a: "a \<noteq> 0"
  shows "builtin_ctz a = (if bit x 0 then r else r + 1)"
proof (rule builtin_ctz.ctz_unique [OF a])
  have "bit x 0 \<or> bit x 1" using inv by (auto simp: ctz_search_def less_2_cases_iff)
  then show "bit a (if bit x 0 then r else r + 1)"
    using inv by (auto simp: ctz_search_def bit_drop_bit_eq)
  show "\<not> bit a i" if "i < (if bit x 0 then r else r + 1)" for i
    using inv that by (auto simp: ctz_search_def bit_drop_bit_eq less_Suc_eq split: if_splits)
qed

lemma ctz_tail:
  fixes x :: su_int
  assumes "\<exists>i<2. bit x i"
  shows "(2 - shr (x AND 3) 1) AND - truth ((x AND 3) AND 1 = 0) = (if bit x 0 then 0 else 1 :: su_int)"
proof -
  define y where "y = x AND 3"
  then have m: "y = x AND mask 2" by (simp add: mask_eq_exp_minus_1)
  have "unat y < 4" using unat_and_mask_low [of x 2] by (simp add: m)
  moreover have "y \<noteq> 0" unfolding m and_low_mask_eq_0 using assms by simp
  ultimately have "unat y \<in> {1, 2, 3}" by (auto simp: word_unat_eq_iff simp del: unat_eq_0)
  then have "y \<in> {1, 2, 3}" by (auto simp: word_unat_eq_iff)
  moreover have "bit x 0 = bit y 0" unfolding m by (simp add: bit_and_iff bit_mask_iff)
  ultimately show ?thesis unfolding y_def [symmetric] by (auto simp: truth_def)
qed

lemma ctzsi2_eq:
  assumes a: "a \<noteq> 0"
  shows "ctzsi2 a = of_nat (builtin_ctz a)"
proof -
  define t1 where "t1 = (if a AND 0xFFFF = 0 then 16 else 0 :: nat)"
  define x1 where "x1 = shr a t1"
  define t2 where "t2 = (if x1 AND 0xFF = 0 then 8 else 0 :: nat)"
  define x2 where "x2 = shr x1 t2"
  define t3 where "t3 = (if x2 AND 0xF = 0 then 4 else 0 :: nat)"
  define x3 where "x3 = shr x2 t3"
  define t4 where "t4 = (if x3 AND 3 = 0 then 2 else 0 :: nat)"
  define x4 where "x4 = shr x3 t4"
  have "ctz_search a 0 (2 * 16) a"
    using word_nonzero_bit [OF a] by (simp add: ctz_search_def)
  from ctz_search_step [OF this _ t1_def] have "ctz_search a t1 (2 * 8) x1"
    by (simp add: x1_def mask_eq_exp_minus_1)
  from ctz_search_step [OF this _ t2_def] have "ctz_search a (t1 + t2) (2 * 4) x2"
    by (simp add: x2_def mask_eq_exp_minus_1)
  from ctz_search_step [OF this _ t3_def] have "ctz_search a (t1 + t2 + t3) (2 * 2) x3"
    by (simp add: x3_def mask_eq_exp_minus_1)
  from ctz_search_step [OF this _ t4_def] have final: "ctz_search a (t1 + t2 + t3 + t4) 2 x4"
    by (simp add: x4_def mask_eq_exp_minus_1)
  have s: "shl (truth c) 4 = (of_nat (if c then 16 else 0) :: su_int)"
    "shl (truth c) 3 = (of_nat (if c then 8 else 0) :: su_int)"
    "shl (truth c) 2 = (of_nat (if c then 4 else 0) :: su_int)"
    "shl (truth c) 1 = (of_nat (if c then 2 else 0) :: su_int)" for c
    by (simp_all add: truth_def)
  have n: "unat (of_nat t1 :: su_int) = t1" "unat (of_nat t2 :: su_int) = t2"
    "unat (of_nat t3 :: su_int) = t3" "unat (of_nat t4 :: su_int) = t4"
    by (simp_all add: t1_def t2_def t3_def t4_def)
  have "ctzsi2 a = of_nat (t1 + t2 + t3 + t4)
      + ((2 - shr (x4 AND 3) 1) AND - truth ((x4 AND 3) AND 1 = 0))"
    unfolding ctzsi2_def Let_def s
    unfolding t1_def [symmetric] n(1) x1_def [symmetric]
    unfolding t2_def [symmetric] n(2) x2_def [symmetric]
    unfolding t3_def [symmetric] n(3) x3_def [symmetric]
    unfolding t4_def [symmetric] n(4) x4_def [symmetric]
    by simp
  moreover have "\<exists>i<2. bit x4 i" using final unfolding ctz_search_def by blast
  ultimately have "ctzsi2 a = of_nat (t1 + t2 + t3 + t4) + (if bit x4 0 then 0 else 1)"
    by (simp only: ctz_tail)
  then show ?thesis using ctz_search_final [OF final a] by simp
qed

text \<open>The three trailing-zero routines meet the contract of \<open>__builtin_ctz\<close>.\<close>

lemma ctzsi2_value: "w \<noteq> 0 \<Longrightarrow> unat (ctzsi2 w) = builtin_ctz w"
  and ctzdi2_value: "v \<noteq> 0 \<Longrightarrow> unat (ctzdi2 v) = builtin_ctz v"
  and ctzti2_value: "u \<noteq> 0 \<Longrightarrow> unat (ctzti2 u) = builtin_ctz u"
  using builtin_ctz.ctz_less [of w] builtin_ctz.ctz_less [of v] builtin_ctz.ctz_less [of u]
  by (simp_all add: ctzsi2_eq ctzdi2_eq ctzti2_eq unsigned_of_nat take_bit_nat_eq_self)

lemma trailing_zeros_cong:
  assumes "\<And>w. w \<noteq> 0 \<Longrightarrow> f w = builtin_ctz w"
  shows "trailing_zeros f"
  by unfold_locales (simp_all add: assms builtin_ctz.ctz_bit builtin_ctz.ctz_below)

interpretation ctzsi2: trailing_zeros "\<lambda>w. unat (ctzsi2 w)"
  by (rule trailing_zeros_cong) (rule ctzsi2_value)

interpretation ctzdi2: trailing_zeros "\<lambda>w. unat (ctzdi2 w)"
  by (rule trailing_zeros_cong) (rule ctzdi2_value)

interpretation ctzti2: trailing_zeros "\<lambda>w. unat (ctzti2 w)"
  by (rule trailing_zeros_cong) (rule ctzti2_value)

section \<open>Find first set\<close>

text \<open>The specification: zero for zero, else one more than the index of the lowest set bit.\<close>

definition first_set :: "'a::len word \<Rightarrow> nat" where
  "first_set a = (if a = 0 then 0 else Suc (builtin_ctz a))"

lemma ffssi2_eq: "ffssi2 a = of_nat (first_set a)"
  by (simp add: ffssi2_def first_set_def)

lemma ffsdi2_eq: "ffsdi2 a = of_nat (first_set a)"
  using builtin_ctz_halves [where 'd = 64 and 'h = 32, of a] halves_eq_0 [where 'd = 64 and 'h = 32, of a]
  by (auto simp: ffsdi2_def first_set_def Let_def)

lemma ffsti2_eq: "ffsti2 a = of_nat (first_set a)"
  using builtin_ctz_halves [where 'd = 128 and 'h = 64, of a] halves_eq_0 [where 'd = 128 and 'h = 64, of a]
  by (auto simp: ffsti2_def first_set_def Let_def)

section \<open>Properties\<close>

text \<open>C38. For a nonzero argument, \<open>__clzsi2\<close>, \<open>__clzdi2\<close> and \<open>__clzti2\<close> return the number of zero bits
  above the most significant one: the argument lies in the binade that the count determines.\<close>

theorem count_leading_zeros:
  assumes "a \<noteq> 0" "b \<noteq> 0" "c \<noteq> 0"
  shows "unat (clzsi2 a) < 32 \<and> 2 ^ (31 - unat (clzsi2 a)) \<le> unat a \<and> unat a < 2 ^ (32 - unat (clzsi2 a)) \<and>
    unat (clzdi2 b) < 64 \<and> 2 ^ (63 - unat (clzdi2 b)) \<le> unat b \<and> unat b < 2 ^ (64 - unat (clzdi2 b)) \<and>
    unat (clzti2 c) < 128 \<and> 2 ^ (127 - unat (clzti2 c)) \<le> unat c \<and> unat c < 2 ^ (128 - unat (clzti2 c))"
  using clzsi2.clz_less [OF assms(1)] clzsi2.clz_lower [OF assms(1)] clzsi2.clz_upper [OF assms(1)]
    clzdi2.clz_less [OF assms(2)] clzdi2.clz_lower [OF assms(2)] clzdi2.clz_upper [OF assms(2)]
    clzti2.clz_less [OF assms(3)] clzti2.clz_lower [OF assms(3)] clzti2.clz_upper [OF assms(3)]
  by simp

theorem count_leading_zeros_witness:
  "2 ^ (31 - unat (clzsi2 5)) \<le> unat (5 :: si_int) \<and> unat (5 :: si_int) < 2 ^ (32 - unat (clzsi2 5))"
  using count_leading_zeros [of 5 1 1] by simp

text \<open>For a nonzero argument, \<open>__ctzsi2\<close>, \<open>__ctzdi2\<close> and \<open>__ctzti2\<close> return the index of the least
  significant one bit; \<open>__ffssi2\<close>, \<open>__ffsdi2\<close> and \<open>__ffsti2\<close> return one more than it, and zero for zero.\<close>

theorem find_first_set:
  assumes "a \<noteq> 0" "b \<noteq> 0" "c \<noteq> 0"
  shows "bit a (unat (ctzsi2 a)) \<and> (\<forall>n < unat (ctzsi2 a). \<not> bit a n) \<and> ffssi2 a = ctzsi2 a + 1 \<and> ffssi2 0 = 0 \<and>
    bit b (unat (ctzdi2 b)) \<and> (\<forall>n < unat (ctzdi2 b). \<not> bit b n) \<and> ffsdi2 b = ctzdi2 b + 1 \<and> ffsdi2 0 = 0 \<and>
    bit c (unat (ctzti2 c)) \<and> (\<forall>n < unat (ctzti2 c). \<not> bit c n) \<and> ffsti2 c = ctzti2 c + 1 \<and> ffsti2 0 = 0"
  using assms ctzsi2.ctz_bit ctzsi2.ctz_below ctzdi2.ctz_bit ctzdi2.ctz_below ctzti2.ctz_bit ctzti2.ctz_below
  by (simp add: ffssi2_eq ffsdi2_eq ffsti2_eq first_set_def ctzsi2_eq ctzdi2_eq ctzti2_eq)

theorem find_first_set_witness:
  "bit (12 :: si_int) (unat (ctzsi2 12)) \<and> ffssi2 12 = ctzsi2 12 + 1"
  using find_first_set [of 12 1 1] by simp

end
