(* ===== verification/Udiv.thy ===== *)
theory Udiv
  imports Bit_Count
begin

text \<open>
  Unsigned division: \<open>udivsi3.c\<close>, \<open>udivmoddi4.c\<close>, \<open>udivmodti4.c\<close> and the routines that call them,
  \<open>udivmodsi4.c\<close>, \<open>umodsi3.c\<close>, \<open>udivdi3.c\<close>, \<open>umoddi3.c\<close>, \<open>udivti3.c\<close>, \<open>umodti3.c\<close>.  The three algorithms are
  the shift-and-subtract division of the PowerPC Compiler Writer's Guide.  \<open>udivmod\<close> is the
  text that \<open>__udivmoddi4\<close> and \<open>__udivmodti4\<close> share, over the half word type \<open>'h\<close>; a division
  by zero, undefined in C, is \<open>None\<close>.  An \<open>unsigned\<close> local is a 32-bit word.
\<close>


section \<open>Division of one word\<close>

text \<open>The loop of \<open>__udivsi3\<close>: \<open>sr\<close> iterations on \<open>q\<close>, \<open>r\<close> and \<open>carry\<close>.\<close>

fun udiv_loop :: "nat \<Rightarrow> 'a::len word \<Rightarrow> 'a word \<Rightarrow> 'a word \<Rightarrow> 'a word \<Rightarrow> 'a word \<times> 'a word \<times> 'a word" where
  "udiv_loop 0 d q r carry = (q, r, carry)"
| "udiv_loop (Suc sr) d q r carry =
     (let r = shl r 1 OR shr q (LENGTH('a) - 1);
          q = shl q 1 OR carry;
          s = sar (d - r - 1) (LENGTH('a) - 1);
          carry = s AND 1;
          r = r - (d AND s)
      in udiv_loop sr d q r carry)"

definition udivsi3 :: "su_int \<Rightarrow> su_int \<Rightarrow> su_int" where
  "udivsi3 n d =
     (if d = 0 then 0
      else if n = 0 then 0
      else
        let sr = of_nat (builtin_clz d) - of_nat (builtin_clz n) :: c_unsigned in
        if sr > 32 - 1 then 0
        else if sr = 32 - 1 then n
        else
          let sr = sr + 1;
              q = shl n (unat (32 - sr));
              r = shr n (unat sr);
              (q, r, carry) = udiv_loop (unat sr) d q r 0
          in shl q 1 OR carry)"

definition umodsi3 :: "su_int \<Rightarrow> su_int \<Rightarrow> su_int" where
  "umodsi3 a b = a - udivsi3 a b * b"

definition udivmodsi4 :: "su_int \<Rightarrow> su_int \<Rightarrow> su_int \<times> su_int" where
  "udivmodsi4 a b = (let d = udivsi3 a b in (d, a - (d * b)))"

section \<open>Division of two half words\<close>

fun udivmod_loop :: "'h::len itself \<Rightarrow> nat \<Rightarrow> 'd::len word \<Rightarrow> 'd word \<Rightarrow> 'd word \<Rightarrow> su_int \<Rightarrow> 'd word \<times> 'd word \<times> su_int" where
  "udivmod_loop H 0 d q r carry = (q, r, carry)"
| "udivmod_loop H (Suc sr) d q r carry =
     (let W = LENGTH('h);
          rh = high_half r :: 'h word; rl = low_half r :: 'h word;
          qh = high_half q :: 'h word; ql = low_half q :: 'h word;
          rh = shl rh 1 OR shr rl (W - 1);
          rl = shl rl 1 OR shr qh (W - 1);
          qh = shl qh 1 OR shr ql (W - 1);
          ql = shl ql 1 OR ucast carry;
          r = make_dword rh rl;
          q = make_dword qh ql;
          s = sar (d - r - 1) (LENGTH('d) - 1);
          carry = ucast (s AND 1);
          r = r - (d AND s)
      in udivmod_loop H sr d q r carry)"

text \<open>The common end of the general case: the loop, then the last carry into the quotient.\<close>

definition udivmod_finish :: "'h::len itself \<Rightarrow> c_unsigned \<Rightarrow> 'd::len word \<Rightarrow> 'd word \<Rightarrow> 'd word \<Rightarrow> 'd word \<times> 'd word" where
  "udivmod_finish H sr d q r =
     (let (q, r, carry) = udivmod_loop H (unat sr) d q r 0
      in (shl q 1 OR ucast carry, r))"

definition udivmod :: "'h::len itself \<Rightarrow> 'd::len word \<Rightarrow> 'd word \<Rightarrow> ('d word \<times> 'd word) option" where
  "udivmod H n d =
     (let W = LENGTH('h);
          nh = high_half n :: 'h word; nl = low_half n :: 'h word;
          dh = high_half d :: 'h word; dl = low_half d :: 'h word
      in
      if nh = 0 then
        if dh = 0 then
          (if dl = 0 then None else Some (ucast (nl div dl), ucast (nl mod dl)))
        else Some (0, ucast nl)
      else if dl = 0 then
        if dh = 0 then None
        else if nl = 0 then
          Some (ucast (nh div dh), make_dword (nh mod dh) 0)
        else if dh AND (dh - 1) = 0 then
          Some (ucast (shr nh (builtin_ctz dh)), make_dword (nh AND (dh - 1)) nl)
        else
          let sr = of_nat (builtin_clz dh) - of_nat (builtin_clz nh) :: c_unsigned in
          if sr > of_nat W - 2 then Some (0, n)
          else
            let sr = sr + 1; k = unat sr;
                q = make_dword (shl nl (W - k)) 0;
                r = make_dword (shr nh k) (shl nh (W - k) OR shr nl k)
            in Some (udivmod_finish H sr d q r)
      else if dh = 0 then
        if dl AND (dl - 1) = 0 then
          if dl = 1 then Some (n, ucast (nl AND (dl - 1)))
          else
            let k = builtin_ctz dl
            in Some (make_dword (shr nh k) (shl nh (W - k) OR shr nl k), ucast (nl AND (dl - 1)))
        else
          let sr = 1 + of_nat W + of_nat (builtin_clz dl) - of_nat (builtin_clz nh) :: c_unsigned;
              k = unat sr;
              (q, r) =
                (if sr = of_nat W then (make_dword nl 0, make_dword 0 nh)
                 else if sr < of_nat W then
                   (make_dword (shl nl (W - k)) 0,
                    make_dword (shr nh k) (shl nh (W - k) OR shr nl k))
                 else
                   (make_dword (shl nh (2 * W - k) OR shr nl (k - W)) (shl nl (2 * W - k)),
                    make_dword 0 (shr nh (k - W))))
          in Some (udivmod_finish H sr d q r)
      else
        let sr = of_nat (builtin_clz dh) - of_nat (builtin_clz nh) :: c_unsigned in
        if sr > of_nat W - 1 then Some (0, n)
        else
          let sr = sr + 1; k = unat sr;
              (q, r) =
                (if sr = of_nat W then (make_dword nl 0, make_dword 0 nh)
                 else
                   (make_dword (shl nl (W - k)) 0,
                    make_dword (shr nh k) (shl nh (W - k) OR shr nl k)))
          in Some (udivmod_finish H sr d q r))"

definition udivmoddi4 :: "du_int \<Rightarrow> du_int \<Rightarrow> (du_int \<times> du_int) option" where
  "udivmoddi4 a b = udivmod TYPE(32) a b"

definition udivmodti4 :: "tu_int \<Rightarrow> tu_int \<Rightarrow> (tu_int \<times> tu_int) option" where
  "udivmodti4 a b = udivmod TYPE(64) a b"

definition udivdi3 :: "du_int \<Rightarrow> du_int \<Rightarrow> du_int option" where
  "udivdi3 a b = map_option fst (udivmoddi4 a b)"

definition umoddi3 :: "du_int \<Rightarrow> du_int \<Rightarrow> du_int option" where
  "umoddi3 a b = map_option snd (udivmoddi4 a b)"

definition udivti3 :: "tu_int \<Rightarrow> tu_int \<Rightarrow> tu_int option" where
  "udivti3 a b = map_option fst (udivmodti4 a b)"

definition umodti3 :: "tu_int \<Rightarrow> tu_int \<Rightarrow> tu_int option" where
  "umodti3 a b = map_option snd (udivmodti4 a b)"

section \<open>The invariant of the loop\<close>

text \<open>
  With \<open>k\<close> iterations left, the upper bits of \<open>q\<close> are the \<open>k\<close> bits of the dividend \<open>N\<close> still to
  be shifted in, and \<open>r\<close>, the lower bits of \<open>q\<close> and \<open>carry\<close> are the remainder and the quotient of
  the bits shifted in so far.
\<close>

definition udiv_inv :: "nat \<Rightarrow> nat \<Rightarrow> 'a::len word \<Rightarrow> 'a word \<Rightarrow> 'a word \<Rightarrow> 'a word \<Rightarrow> bool" where
  "udiv_inv N k d q r carry \<longleftrightarrow>
     k < LENGTH('a) \<and> N < 2 ^ LENGTH('a) \<and> unat carry \<le> 1 \<and> unat r < unat d \<and>
     unat q div 2 ^ (LENGTH('a) - k) = N mod 2 ^ k \<and>
     N div 2 ^ k = (2 * (unat q mod 2 ^ (LENGTH('a) - k)) + unat carry) * unat d + unat r"

text \<open>
  The subtraction test reads a sign bit.  It is right when the divisor has a clear top bit, or
  when the dividend has a set top bit and a single iteration is left.
\<close>

definition sign_test_safe :: "nat \<Rightarrow> nat \<Rightarrow> 'a::len word \<Rightarrow> bool" where
  "sign_test_safe N k d \<longleftrightarrow>
     unat d \<le> 2 ^ (LENGTH('a) - 1) \<or> (k \<le> 1 \<and> 2 ^ (LENGTH('a) - 1) \<le> N)"

lemma sign_test:
  fixes d r :: "'a::len word"
  assumes "unat d \<le> 2 ^ (LENGTH('a) - 1) \<and> unat r < 2 * unat d \<or> 2 ^ (LENGTH('a) - 1) \<le> unat r \<and> 2 ^ (LENGTH('a) - 1) \<le> unat d"
  shows "sar (d - r - 1) (LENGTH('a) - 1) = (if unat d \<le> unat r then - 1 else 0)"
proof -
  define M :: nat where "M = 2 ^ (LENGTH('a) - 1)"
  have W: "(2::nat) ^ LENGTH('a) = 2 * M"
    using power_Suc [of "2::nat" "LENGTH('a) - 1"] by (simp add: M_def)
  have eq: "d - r - 1 = word_of_int (int (unat d) - int (unat r) - 1)"
    by simp
  have bound: "unat d < 2 * M" "unat r < 2 * M"
    using unat_less_exp_len [of d] unat_less_exp_len [of r] unfolding W by blast+
  have "- int M \<le> int (unat d) - int (unat r) - 1" "int (unat d) - int (unat r) - 1 < int M"
    using assms bound unfolding M_def [symmetric] by linarith+
  moreover have "int M = 2 ^ (LENGTH('a) - 1)" by (simp add: M_def)
  ultimately have "sint (d - r - 1) = int (unat d) - int (unat r) - 1"
    by (intro sint_eq_of_range [OF eq]) simp_all
  then have "sint (d - r - 1) < 0 \<longleftrightarrow> unat d \<le> unat r" by (intro iffI) linarith+
  then show ?thesis unfolding sar_sign by simp
qed

text \<open>One iteration, on the values of the words.\<close>

lemma udiv_shift:
  fixes q r carry :: "'a::len word"
  assumes "unat carry \<le> 1"
  shows "unat (shl r 1 OR shr q (LENGTH('a) - 1)) =
      (2 * unat r) mod 2 ^ LENGTH('a) + unat q div 2 ^ (LENGTH('a) - 1)"
    and "unat (shl q 1 OR carry) = (2 * unat q) mod 2 ^ LENGTH('a) + unat carry"
proof -
  have W: "(2::nat) ^ LENGTH('a) = 2 * 2 ^ (LENGTH('a) - 1)"
    using power_Suc [of "2::nat" "LENGTH('a) - 1"] by simp
  have lt: "unat (shr q (LENGTH('a) - 1)) < 2 ^ 1"
    using unat_less_exp_len [of q] by (simp add: unat_shr W less_mult_imp_div_less)
  show "unat (shl r 1 OR shr q (LENGTH('a) - 1)) =
      (2 * unat r) mod 2 ^ LENGTH('a) + unat q div 2 ^ (LENGTH('a) - 1)"
    unfolding unat_shl_or [OF lt] unat_shl unat_shr power_one_right by (simp only: mult.commute)
  have lt: "unat carry < 2 ^ 1" using assms by simp
  show "unat (shl q 1 OR carry) = (2 * unat q) mod 2 ^ LENGTH('a) + unat carry"
    unfolding unat_shl_or [OF lt] unat_shl power_one_right by (simp only: mult.commute)
qed

lemma mod_mult_div_swap: "0 < a \<Longrightarrow> (x mod (a * b)) div a = x div a mod b" for a b x :: nat
  by (simp add: mod_mult2_eq)

text \<open>Moving the top bit of a field of \<open>k\<close> bits: the arithmetic of the shift of \<open>q\<close>.\<close>

lemma shift_out_top:
  fixes Q N :: nat
  assumes Q: "Q < 2 ^ W" and top: "Q div 2 ^ (W - Suc k) = N mod 2 ^ Suc k" and k: "Suc k \<le> W"
  shows "Q div 2 ^ (W - 1) = N div 2 ^ k mod 2"
    and "(2 * Q) mod 2 ^ W div 2 ^ (W - k) = N mod 2 ^ k"
    and "(2 * Q) mod 2 ^ W mod 2 ^ (W - k) = 2 * (Q mod 2 ^ (W - Suc k))"
proof -
  define e where "e = W - Suc k"
  have W: "W = k + e + 1" using k by (simp add: e_def)
  have "Q div 2 ^ (W - 1) = Q div 2 ^ e div 2 ^ k"
    by (simp add: W div_mult2_eq [symmetric] power_add [symmetric] add.commute)
  also have "\<dots> = N mod 2 ^ Suc k div 2 ^ k" using top by (simp add: e_def)
  also have "\<dots> = N div 2 ^ k mod 2"
    using mod_mult_div_swap [of "2 ^ k" N 2] by (simp add: mult.commute)
  finally show "Q div 2 ^ (W - 1) = N div 2 ^ k mod 2" .
  have e1: "W - k = e + 1" "(2::nat) ^ W = 2 ^ (e + 1) * 2 ^ k"
    by (simp_all add: W power_add)
  have "(2 * Q) mod 2 ^ W div 2 ^ (W - k) = (2 * Q) div 2 ^ (e + 1) mod 2 ^ k"
    unfolding e1 by (rule mod_mult_div_swap) simp
  also have "\<dots> = N mod 2 ^ Suc k mod 2 ^ k" using top by (simp add: e_def)
  also have "\<dots> = N mod 2 ^ k" by (simp add: mod_mod_cancel)
  finally show "(2 * Q) mod 2 ^ W div 2 ^ (W - k) = N mod 2 ^ k" .
  have "(2 * Q) mod 2 ^ W mod 2 ^ (W - k) = (2 * Q) mod 2 ^ (e + 1)"
    unfolding e1 by (rule mod_mod_cancel) simp
  then show "(2 * Q) mod 2 ^ W mod 2 ^ (W - k) = 2 * (Q mod 2 ^ (W - Suc k))"
    by (simp add: e_def mod_mult_mult1)
qed

lemma half_exp: "(2::nat) ^ LENGTH('a::len) = 2 * 2 ^ (LENGTH('a) - 1)"
  using power_Suc [of "2::nat" "LENGTH('a) - 1"] by simp

lemma prefix_bit: "N div 2 ^ k = 2 * (N div 2 ^ Suc k) + N div 2 ^ k mod 2" for N :: nat
  using div_mult_mod_eq [of "N div 2 ^ k" 2] by (simp add: div_mult2_eq [symmetric] mult.commute)

text \<open>The new remainder before subtraction is the remainder of one more bit of the dividend.\<close>

lemma udiv_new_remainder:
  fixes d q r carry :: "'a::len word"
  assumes inv: "udiv_inv N (Suc k) d q r carry" and safe: "sign_test_safe N (Suc k) d"
  defines "r' \<equiv> shl r 1 OR shr q (LENGTH('a) - 1)"
  shows "unat r' = 2 * unat r + N div 2 ^ k mod 2"
    and "unat r' < 2 * unat d"
    and "unat d \<le> 2 ^ (LENGTH('a) - 1) \<and> unat r' < 2 * unat d
         \<or> 2 ^ (LENGTH('a) - 1) \<le> unat r' \<and> 2 ^ (LENGTH('a) - 1) \<le> unat d"
proof -
  let ?M = "2 ^ (LENGTH('a) - 1) :: nat"
  have top: "unat q div ?M = N div 2 ^ k mod 2"
    using inv by (intro shift_out_top(1)) (auto simp: udiv_inv_def)
  have r: "unat r < unat d" using inv by (simp add: udiv_inv_def)
  have small: "unat r < ?M"
  proof (cases "unat d \<le> ?M")
    case True
    with r show ?thesis by simp
  next
    case False
    with safe have k: "k = 0" by (simp add: sign_test_safe_def)
    have "N div 2 < ?M"
      using inv half_exp [where 'a = 'a] by (simp add: udiv_inv_def less_mult_imp_div_less)
    moreover have "unat r \<le> N div 2"
      using inv k by (simp add: udiv_inv_def)
    ultimately show ?thesis by simp
  qed
  show eq: "unat r' = 2 * unat r + N div 2 ^ k mod 2"
    using inv small half_exp [where 'a = 'a] top
    unfolding r'_def by (subst udiv_shift(1) [of carry]) (auto simp: udiv_inv_def)
  have "N div 2 ^ k mod 2 < 2" by simp
  then show lt: "unat r' < 2 * unat d" using eq r by linarith
  show "unat d \<le> ?M \<and> unat r' < 2 * unat d \<or> ?M \<le> unat r' \<and> ?M \<le> unat d"
  proof (cases "unat d \<le> ?M")
    case True
    with lt show ?thesis by simp
  next
    case False
    with safe have k: "k = 0" and N: "?M \<le> N" by (simp_all add: sign_test_safe_def)
    define X where "X = 2 * (unat q mod 2 ^ (LENGTH('a) - 1)) + unat carry"
    have "N div 2 = X * unat d + unat r" using inv k by (simp add: udiv_inv_def X_def)
    moreover have "N div 2 < unat d"
      using inv half_exp [where 'a = 'a] False by (simp add: udiv_inv_def less_mult_imp_div_less)
    ultimately have "unat r = N div 2" by (cases X) auto
    with eq k N False show ?thesis by simp
  qed
qed

lemma add_below_modulus:
  fixes y c m :: nat
  assumes "y mod m + c < m"
  shows "(y + c) div m = y div m" "(y + c) mod m = y mod m + c"
proof -
  have gen: "(a * m + b) div m = a" "(a * m + b) mod m = b" if "b < m" for a b
    using that by auto
  have "y + c = y div m * m + (y mod m + c)" by (simp add: add.assoc [symmetric] div_mult_mod_eq)
  then show "(y + c) div m = y div m" "(y + c) mod m = y mod m + c"
    by (simp_all only: gen [OF assms])
qed

lemma udiv_step:
  fixes d q r carry :: "'a::len word"
  assumes inv: "udiv_inv N (Suc k) d q r carry" and safe: "sign_test_safe N (Suc k) d"
  defines "r' \<equiv> shl r 1 OR shr q (LENGTH('a) - 1)"
  defines "q' \<equiv> shl q 1 OR carry"
  defines "s \<equiv> sar (d - r' - 1) (LENGTH('a) - 1)"
  shows "udiv_inv N k d q' (r' - (d AND s)) (s AND 1)"
proof -
  note r' = udiv_new_remainder [OF inv safe, folded r'_def]
  have s: "s = (if unat d \<le> unat r' then - 1 else 0)"
    unfolding s_def by (rule sign_test) (rule r'(3))
  have k: "Suc k < LENGTH('a)" using inv by (simp add: udiv_inv_def)
  have c: "unat carry \<le> 1" using inv by (simp add: udiv_inv_def)
  have top: "unat q div 2 ^ (LENGTH('a) - Suc k) = N mod 2 ^ Suc k" using inv by (simp add: udiv_inv_def)
  note sh = shift_out_top [OF unat_less_exp_len top]
  have q': "unat q' = (2 * unat q) mod 2 ^ LENGTH('a) + unat carry"
    unfolding q'_def by (rule udiv_shift(2)) (rule c)
  have exp: "(2::nat) ^ (LENGTH('a) - k) = 2 * 2 ^ (LENGTH('a) - Suc k)"
    using k by (metis Suc_diff_Suc Suc_lessD power_Suc)
  have q'_div: "unat q' div 2 ^ (LENGTH('a) - k) = N mod 2 ^ k"
    and q'_mod: "unat q' mod 2 ^ (LENGTH('a) - k) = 2 * (unat q mod 2 ^ (LENGTH('a) - Suc k)) + unat carry"
  proof -
    let ?Y = "(2 * unat q) mod 2 ^ LENGTH('a)" and ?m = "2 ^ (LENGTH('a) - k) :: nat"
    have "unat q mod 2 ^ (LENGTH('a) - Suc k) < 2 ^ (LENGTH('a) - Suc k)" by simp
    moreover have "?Y mod ?m = 2 * (unat q mod 2 ^ (LENGTH('a) - Suc k))" by (rule sh(3)) (use k in simp)
    ultimately have "?Y mod ?m + unat carry < ?m" using c exp by linarith
    from add_below_modulus [OF this] show "unat q' div ?m = N mod 2 ^ k"
      "unat q' mod ?m = 2 * (unat q mod 2 ^ (LENGTH('a) - Suc k)) + unat carry"
      using sh(2,3) k q' by simp_all
  qed
  let ?X = "2 * (unat q mod 2 ^ (LENGTH('a) - Suc k)) + unat carry"
  have "N div 2 ^ k = 2 * (N div 2 ^ Suc k) + N div 2 ^ k mod 2" by (rule prefix_bit)
  also have "N div 2 ^ Suc k = ?X * unat d + unat r" using inv by (simp add: udiv_inv_def)
  finally have "N div 2 ^ k = 2 * ?X * unat d + unat r'" using r'(1) by (simp add: algebra_simps)
  then show ?thesis
    using inv r'(2) k q'_div q'_mod s
    by (auto simp: udiv_inv_def unat_minus_le word_le_nat_alt algebra_simps)
qed

lemma sign_test_safe_Suc: "sign_test_safe N (Suc k) d \<Longrightarrow> sign_test_safe N k d"
  by (auto simp: sign_test_safe_def)

lemma udiv_loop_inv:
  assumes "udiv_inv N k d q r carry" "sign_test_safe N k d"
    and "udiv_loop k d q r carry = (q', r', carry')"
  shows "udiv_inv N 0 d q' r' carry'"
  using assms
proof (induction k arbitrary: q r carry)
  case (Suc k)
  then show ?case
    using udiv_step [OF Suc.prems(1,2)] sign_test_safe_Suc [OF Suc.prems(2)]
    by (intro Suc.IH) (simp_all add: Let_def)
qed simp

text \<open>What the end of the loop yields: the last carry goes into the quotient.\<close>

lemma udiv_inv_done:
  fixes d q r carry :: "'a::len word"
  assumes "udiv_inv N 0 d q r carry"
  shows "unat (shl q 1 OR carry) = N div unat d" "unat r = N mod unat d"
proof -
  let ?X = "2 * unat q + unat carry"
  have inv: "N = ?X * unat d + unat r" "unat r < unat d" "unat carry \<le> 1" "N < 2 ^ LENGTH('a)"
    using assms by (simp_all add: udiv_inv_def)
  have quotient: "N div unat d = ?X" using inv by simp
  show "unat r = N mod unat d" using inv by simp
  have "?X \<le> N" using quotient div_le_dividend [of N "unat d"] by simp
  then have "2 * unat q < 2 ^ LENGTH('a)" using inv(4) by linarith
  then show "unat (shl q 1 OR carry) = N div unat d"
    unfolding udiv_shift(2) [OF inv(3)] quotient by (simp only: mod_less)
qed

text \<open>Before the loop: \<open>q\<close> and \<open>r\<close> are the dividend shifted by one more than the difference of the
  leading zeros.\<close>

lemma udiv_inv_init:
  fixes n d :: "'a::len word"
  assumes n: "n \<noteq> 0" and d: "d \<noteq> 0" and le: "builtin_clz n \<le> builtin_clz d"
    and k: "k = builtin_clz d - builtin_clz n + 1" "k < LENGTH('a)"
  shows "udiv_inv (unat n) k d (shl n (LENGTH('a) - k)) (shr n k) 0"
    and "sign_test_safe (unat n) k d"
proof -
  let ?W = "LENGTH('a)"
  note cn = builtin_clz.clz_upper [OF n] builtin_clz.clz_less [OF n] builtin_clz.clz_lower [OF n]
  note cd = builtin_clz.clz_lower [OF d] builtin_clz.clz_upper [OF d] builtin_clz.clz_less [OF d]
  have exp: "(2::nat) ^ ?W = 2 ^ (?W - k) * 2 ^ k" using k(2) by (simp add: power_add [symmetric])
  have q: "unat (shl n (?W - k)) = 2 ^ (?W - k) * (unat n mod 2 ^ k)"
    unfolding unat_shl exp mult_mod_right by (simp only: mult.commute [of "unat n"])
  have "?W - builtin_clz n = ?W - 1 - builtin_clz d + k" using k le cd(3) by simp
  then have "unat n < 2 ^ (?W - 1 - builtin_clz d) * 2 ^ k"
    using cn(1) by (simp only: power_add)
  then have "unat n div 2 ^ k < 2 ^ (?W - 1 - builtin_clz d)"
    by (rule less_mult_imp_div_less)
  then have r: "unat (shr n k) < unat d" using cd(1) unfolding unat_shr by (rule less_le_trans)
  show "udiv_inv (unat n) k d (shl n (?W - k)) (shr n k) 0"
    using k(2) r q by (simp add: udiv_inv_def unat_shr)
  show "sign_test_safe (unat n) k d"
  proof (cases "builtin_clz d = 0")
    case True
    with le k(1) have "builtin_clz n = 0" "k \<le> 1" by simp_all
    with cn(3) show ?thesis by (simp add: sign_test_safe_def)
  next
    case False
    then have "(2::nat) ^ (?W - builtin_clz d) \<le> 2 ^ (?W - 1)" by (intro power_increasing) auto
    with cd(2) have "unat d < 2 ^ (?W - 1)" by (rule less_le_trans)
    then show ?thesis by (simp add: sign_test_safe_def)
  qed
qed

lemma smaller_by_clz:
  fixes n d :: "'a::len word"
  assumes n: "n \<noteq> 0" and d: "d \<noteq> 0" and less: "builtin_clz d < builtin_clz n"
  shows "unat n < unat d"
proof -
  have "unat n < 2 ^ (LENGTH('a) - builtin_clz n)" by (rule builtin_clz.clz_upper [OF n])
  also have "\<dots> \<le> 2 ^ (LENGTH('a) - 1 - builtin_clz d)" using less by (intro power_increasing) auto
  also have "\<dots> \<le> unat d" by (rule builtin_clz.clz_lower [OF d])
  finally show ?thesis .
qed

section \<open>Correctness over one word\<close>

text \<open>Subtraction of small counts in an \<open>unsigned\<close>.\<close>

lemma unat_of_nat_diff:
  assumes "a < 2 ^ 31" "b < 2 ^ 31"
  shows "unat (of_nat a - of_nat b :: c_unsigned) = (if b \<le> a then a - b else 2 ^ 32 + a - b)"
proof -
  have u: "unat (of_nat a :: c_unsigned) = a" "unat (of_nat b :: c_unsigned) = b"
    using assms by (simp_all add: unsigned_of_nat take_bit_nat_eq_self)
  show ?thesis
    using assms u by (simp add: unat_sub_if_size word_size) arith
qed

lemma udiv_general:
  fixes n d :: "'a::len word"
  assumes n: "n \<noteq> 0" and d: "d \<noteq> 0" and le: "builtin_clz n \<le> builtin_clz d"
    and k: "k = builtin_clz d - builtin_clz n + 1" "k < LENGTH('a)"
    and loop: "udiv_loop k d (shl n (LENGTH('a) - k)) (shr n k) 0 = (q, r, carry)"
  shows "shl q 1 OR carry = n div d" "r = n mod d"
proof -
  have "udiv_inv (unat n) 0 d q r carry"
    by (rule udiv_loop_inv [OF udiv_inv_init [OF n d le k] loop])
  from udiv_inv_done [OF this] show "shl q 1 OR carry = n div d" "r = n mod d"
    by (simp_all add: word_unat_eq_iff unat_div unat_mod)
qed

lemma udivsi3_eq: "udivsi3 n d = (if d = 0 then 0 else n div d)"
proof (cases "d = 0 \<or> n = 0")
  case True
  then show ?thesis by (auto simp: udivsi3_def)
next
  case False
  then have n: "n \<noteq> 0" and d: "d \<noteq> 0" by simp_all
  let ?sr = "of_nat (builtin_clz d) - of_nat (builtin_clz n) :: c_unsigned"
  have c: "builtin_clz n < 32" "builtin_clz d < 32"
    using builtin_clz.clz_less [OF n] builtin_clz.clz_less [OF d] by simp_all
  have sr: "unat ?sr = (if builtin_clz n \<le> builtin_clz d then builtin_clz d - builtin_clz n
      else 2 ^ 32 + builtin_clz d - builtin_clz n)"
    using c by (intro unat_of_nat_diff) auto
  consider (large) "builtin_clz d < builtin_clz n" | (one) "builtin_clz d = 31" "builtin_clz n = 0"
    | (general) "builtin_clz n \<le> builtin_clz d" "builtin_clz d - builtin_clz n < 31"
    using c by linarith
  then show ?thesis
  proof cases
    case large
    with sr c have "31 < ?sr" by (simp add: word_less_nat_alt)
    then show ?thesis using n d smaller_by_clz [OF n d large]
      by (simp add: udivsi3_def Let_def word_unat_eq_iff unat_div)
  next
    case one
    then have "?sr = 31" using sr by (simp add: word_unat_eq_iff)
    moreover have "unat d < 2" using builtin_clz.clz_upper [OF d] one by simp
    with d have "d = 1" by (auto simp: word_unat_eq_iff less_2_cases_iff)
    ultimately show ?thesis using n by (simp add: udivsi3_def Let_def)
  next
    case general
    let ?k = "builtin_clz d - builtin_clz n + 1"
    have sr': "unat ?sr = builtin_clz d - builtin_clz n" using sr general by simp
    with general have ne: "\<not> 31 < ?sr" "?sr \<noteq> 31" by (auto simp: word_less_nat_alt word_unat_eq_iff)
    have k1: "unat (?sr + 1) = ?k" unfolding unat_plus_mod sr' using general by simp
    with general have le: "?sr + 1 \<le> 32" by (simp add: word_le_nat_alt)
    have "unat (32 - (?sr + 1)) = 32 - ?k" unfolding unat_minus_le [OF le] k1 by simp
    note k = k1 this
    obtain q r carry where loop: "udiv_loop ?k d (shl n (32 - ?k)) (shr n ?k) 0 = (q, r, carry)"
      by (metis prod_cases3)
    have "udivsi3 n d =
        (case udiv_loop (unat (?sr + 1)) d (shl n (unat (32 - (?sr + 1)))) (shr n (unat (?sr + 1))) 0
         of (q, r, carry) \<Rightarrow> shl q 1 OR carry)"
      using n d ne by (simp add: udivsi3_def Let_def)
    also have "\<dots> = shl q 1 OR carry" unfolding k loop by simp
    also have "\<dots> = n div d"
      by (rule udiv_general [OF n d general(1) refl]) (use general loop in auto)
    finally show ?thesis using d by simp
  qed
qed

lemma umodsi3_eq: "b \<noteq> 0 \<Longrightarrow> umodsi3 a b = a mod b"
  by (simp add: umodsi3_def udivsi3_eq minus_div_mult_eq_mod)

lemma udivmodsi4_eq: "b \<noteq> 0 \<Longrightarrow> udivmodsi4 a b = (a div b, a mod b)"
  by (simp add: udivmodsi4_def udivsi3_eq minus_div_mult_eq_mod)

section \<open>The two-word loop refines the one-word loop\<close>

lemma make_dword_or:
  fixes a b c e :: "'h::len word"
  assumes "LENGTH('d::len) = 2 * LENGTH('h)"
  shows "make_dword a b OR make_dword c e = (make_dword (a OR c) (b OR e) :: 'd word)"
  using assms by (intro bit_word_eqI) (auto simp: bit_make_dword bit_or_iff)

lemma make_dword_0:
  fixes l :: "'h::len word"
  shows "make_dword 0 l = ucast l"
  by (simp add: make_dword_def)

lemma dword_shift_remainder:
  fixes r q :: "'d::len word" and rh rl qh :: "'h::len word"
  assumes width: "LENGTH('d) = 2 * LENGTH('h)" "1 < LENGTH('h)"
    and "rh = high_half r" "rl = low_half r" "qh = high_half q"
  shows "make_dword (shl rh 1 OR shr rl (LENGTH('h) - 1)) (shl rl 1 OR shr qh (LENGTH('h) - 1))
      = shl r 1 OR shr q (LENGTH('d) - 1)"
proof -
  have "LENGTH('d) - 1 - LENGTH('h) = LENGTH('h) - 1" using width by simp
  then have "shr q (LENGTH('d) - 1) = make_dword 0 (shr qh (LENGTH('h) - 1))"
    using shr_dword_high [OF width(1), of "LENGTH('d) - 1" qh q] assms by simp
  moreover have "shl r 1 = make_dword (shl rh 1 OR shr rl (LENGTH('h) - 1)) (shl rl 1)"
    using assms by (intro shl_dword_low) auto
  ultimately show ?thesis
    by (simp only: make_dword_or [OF width(1)] or.right_neutral)
qed

lemma dword_shift_quotient:
  fixes q :: "'d::len word" and qh ql c :: "'h::len word"
  assumes width: "LENGTH('d) = 2 * LENGTH('h)" "1 < LENGTH('h)"
    and "qh = high_half q" "ql = low_half q"
  shows "make_dword (shl qh 1 OR shr ql (LENGTH('h) - 1)) (shl ql 1 OR c) = shl q 1 OR ucast c"
proof -
  have "shl q 1 = make_dword (shl qh 1 OR shr ql (LENGTH('h) - 1)) (shl ql 1)"
    using assms by (intro shl_dword_low) auto
  then show ?thesis
    by (simp only: make_dword_0 [symmetric] make_dword_or [OF width(1)] or.right_neutral)
qed

lemma ucast_and_1: "ucast (s AND 1 :: 'a::len word) = (ucast s AND 1 :: 'b::len word)"
  by (intro bit_word_eqI) (auto simp: bit_ucast_iff bit_and_iff bit_1_iff)

lemma ucast_bit:
  fixes s :: "'a::len word"
  shows "ucast (ucast (s AND 1) :: 'b::len word) = s AND 1"
  by (intro bit_word_eqI) (auto simp: bit_ucast_iff bit_and_iff bit_1_iff)

lemma udivmod_loop_refines:
  fixes d q r :: "'d::len word"
  assumes width: "LENGTH('d) = 2 * LENGTH('h::len)" "1 < LENGTH('h)"
    and carry: "unat carry \<le> 1"
  shows "(case udivmod_loop TYPE('h) k d q r carry of (q, r, c) \<Rightarrow> (q, r, ucast c))
      = udiv_loop k d q r (ucast carry)"
  using carry
proof (induction k arbitrary: q r carry)
  case (Suc k)
  have "carry = 0 \<or> carry = 1" using Suc.prems by (auto simp: word_unat_eq_iff le_Suc_eq)
  then have c: "ucast (ucast carry :: 'h word) = (ucast carry :: 'd word)" by auto
  define r' where "r' = shl r 1 OR shr q (LENGTH('d) - 1)"
  define s where "s = sar (d - r' - 1) (LENGTH('d) - 1)"
  have "unat (ucast (s AND 1) :: su_int) \<le> 1"
    unfolding ucast_and_1 using unat_and_mask_low [of "ucast s :: su_int" 1]
    by (simp add: mask_eq_exp_minus_1 mod_le_divisor [of 2, simplified])
  from Suc.IH [OF this] show ?case
    unfolding udivmod_loop.simps udiv_loop.simps Let_def
      dword_shift_remainder [OF width refl refl refl, of r q]
      dword_shift_quotient [OF width refl refl, of q] c
      r'_def [symmetric] s_def [symmetric]
    by (simp only: ucast_bit)
qed simp

section \<open>Correctness over two words\<close>

lemma udivmod_finish_eq:
  fixes n d :: "'d::len word"
  assumes width: "LENGTH('d) = 2 * LENGTH('h::len)" "1 < LENGTH('h)"
    and n: "n \<noteq> 0" and d: "d \<noteq> 0" and le: "builtin_clz n \<le> builtin_clz d"
    and k: "unat sr = builtin_clz d - builtin_clz n + 1" "unat sr < LENGTH('d)"
    and q: "q = shl n (LENGTH('d) - unat sr)" and r: "r = shr n (unat sr)"
  shows "udivmod_finish TYPE('h) sr d q r = (n div d, n mod d)"
proof -
  obtain q' r' c where loop: "udivmod_loop TYPE('h) (unat sr) d q r 0 = (q', r', c)"
    by (metis prod_cases3)
  then have "udiv_loop (unat sr) d q r 0 = (q', r', ucast c)"
    using udivmod_loop_refines [OF width, of 0 "unat sr" d q r] by simp
  from udiv_general [OF n d le k this [unfolded q r]]
  show ?thesis by (simp add: udivmod_finish_def loop)
qed

lemma unat_ucast_half:
  fixes x :: "'h::len word"
  assumes "LENGTH('d::len) = 2 * LENGTH('h)"
  shows "unat (ucast x :: 'd word) = unat x"
  using assms by (simp flip: make_dword_0 add: unat_make_dword)

lemma clz_half_word:
  fixes w :: "'d::len word"
  assumes width: "LENGTH('d) = 2 * LENGTH('h::len)"
  shows "(high_half w :: 'h word) \<noteq> 0 \<Longrightarrow> w \<noteq> 0 \<and> builtin_clz w = builtin_clz (high_half w :: 'h word)"
    and "(high_half w :: 'h word) = 0 \<Longrightarrow> (low_half w :: 'h word) \<noteq> 0 \<Longrightarrow>
      w \<noteq> 0 \<and> builtin_clz w = LENGTH('h) + builtin_clz (low_half w :: 'h word)"
  using halves_eq_0 [OF width, of w] builtin_clz_halves [OF width, of w] by auto

text \<open>The early returns.\<close>

lemma udivmod_small:
  fixes n d :: "'d::len word"
  assumes width: "LENGTH('d) = 2 * LENGTH('h::len)" and nh: "(high_half n :: 'h word) = 0" and d: "d \<noteq> 0"
  shows "udivmod TYPE('h) n d = Some (n div d, n mod d)"
proof -
  note un = unat_halves [OF width, of n] and ud = unat_halves [OF width, of d]
    and uc = unat_ucast_half [OF width]
  show ?thesis
  proof (cases "(high_half d :: 'h word) = 0")
    case True
    then have "low_half d \<noteq> (0 :: 'h word)" using d halves_eq_0 [OF width, of d] by simp
    with True nh show ?thesis
      by (simp add: udivmod_def Let_def word_unat_eq_iff unat_div unat_mod un ud uc)
  next
    case False
    then have "0 < unat (high_half d :: 'h word)" by (simp add: word_unat_eq_iff)
    then have "1 * 2 ^ LENGTH('h) \<le> unat (high_half d :: 'h word) * 2 ^ LENGTH('h)"
      by (intro mult_le_mono1) simp
    moreover have "unat n < 2 ^ LENGTH('h)" using nh un by simp
    ultimately have "unat n < unat d" using ud by linarith
    with False nh show ?thesis using un uc
      by (simp add: udivmod_def Let_def word_unat_eq_iff unat_div unat_mod)
  qed
qed

text \<open>Divisors that are powers of two.\<close>

lemma power_of_two_mask:
  fixes w :: "'a::len word"
  assumes w: "w \<noteq> 0" and test: "w AND (w - 1) = 0"
  shows "unat w = 2 ^ builtin_ctz w" "unat (x AND (w - 1)) = unat x mod 2 ^ builtin_ctz w"
proof -
  show u: "unat w = 2 ^ builtin_ctz w" by (rule builtin_ctz.power_of_two [OF w test])
  then have "w = 2 ^ builtin_ctz w"
    using unat_exp_word [OF builtin_ctz.ctz_less [OF w]] by (simp add: word_unat_eq_iff)
  then have "w - 1 = mask (builtin_ctz w)" by (metis mask_eq_exp_minus_1)
  then show "unat (x AND (w - 1)) = unat x mod 2 ^ builtin_ctz w"
    by (simp only: unat_and_mask_low)
qed

text \<open>The shift count \<open>sr\<close> and its range tests.\<close>

lemma of_nat_unsigned:
  assumes "a < 2 ^ 31"
  shows "unat (of_nat a :: c_unsigned) = a"
    and "c \<le> a \<Longrightarrow> (of_nat a - of_nat c :: c_unsigned) = of_nat (a - c)"
  using assms by (auto simp: unsigned_of_nat take_bit_nat_eq_self of_nat_diff)

lemma of_nat_unsigned_less:
  "a < 2 ^ 31 \<Longrightarrow> b < 2 ^ 31 \<Longrightarrow> (of_nat a :: c_unsigned) < of_nat b \<longleftrightarrow> a < b"
  by (simp add: word_less_nat_alt of_nat_unsigned(1))

lemma of_nat_unsigned_eq:
  "a < 2 ^ 31 \<Longrightarrow> b < 2 ^ 31 \<Longrightarrow> (of_nat a :: c_unsigned) = of_nat b \<longleftrightarrow> a = b"
  by (simp add: word_unat_eq_iff of_nat_unsigned(1))

lemma sr_large:
  assumes "a < b" "b < 2 ^ 30" "c < 2 ^ 30"
  shows "(of_nat c :: c_unsigned) < of_nat a - of_nat b"
proof -
  have "unat (of_nat a - of_nat b :: c_unsigned) = 2 ^ 32 + a - b"
    using assms by (subst unat_of_nat_diff) auto
  moreover have "unat (of_nat c :: c_unsigned) = c" using assms by (intro of_nat_unsigned(1)) auto
  ultimately show ?thesis using assms by (simp add: word_less_nat_alt)
qed

lemma sr_plus_1:
  assumes "b \<le> a" "a < 2 ^ 30"
  shows "unat (of_nat a - of_nat b + 1 :: c_unsigned) = a - b + 1"
proof -
  have eq: "of_nat a - of_nat b + 1 = (of_nat (a - b + 1) :: c_unsigned)"
    using assms(1) by (simp add: of_nat_diff)
  have "a - b + 1 < 2 ^ 31" using assms by simp
  then show ?thesis unfolding eq by (rule of_nat_unsigned(1))
qed

lemma clz_not_power:
  fixes w :: "'a::len word"
  assumes w: "w \<noteq> 0" and test: "w AND (w - 1) \<noteq> 0"
  shows "builtin_clz w + 1 < LENGTH('a)"
proof (rule ccontr)
  assume "\<not> builtin_clz w + 1 < LENGTH('a)"
  then have "LENGTH('a) - builtin_clz w = 1" using builtin_clz.clz_less [OF w] by simp
  then have "unat w < 2" using builtin_clz.clz_upper [OF w] by simp
  with w have "w = 1" by (auto simp: word_unat_eq_iff less_2_cases_iff)
  with test show False by simp
qed

lemma udivmod_low_zero:
  fixes n d :: "'d::len word"
  assumes width: "LENGTH('d) = 2 * LENGTH('h::len)" "1 < LENGTH('h)" and bound: "LENGTH('h) < 2 ^ 28"
    and nh: "(high_half n :: 'h word) \<noteq> 0" and dl: "(low_half d :: 'h word) = 0"
    and dh: "(high_half d :: 'h word) \<noteq> 0"
  shows "udivmod TYPE('h) n d = Some (n div d, n mod d)"
proof -
  let ?nh = "high_half n :: 'h word" and ?nl = "low_half n :: 'h word" and ?dh = "high_half d :: 'h word"
  let ?H = "LENGTH('h)"
  note un = unat_halves [OF width(1), of n] and uc = unat_ucast_half [OF width(1)]
  have ud: "unat d = 2 ^ ?H * unat ?dh" using unat_halves [OF width(1), of d] dl by simp
  have quotient: "unat n div unat d = unat ?nh div unat ?dh"
    unfolding ud div_mult2_eq by (simp add: un)
  have remainder: "unat n mod unat d = 2 ^ ?H * (unat ?nh mod unat ?dh) + unat ?nl"
    unfolding ud mod_mult2_eq by (simp add: un)
  note join = unat_make_dword [OF width(1)]
  consider (zero) "?nl = 0" | (power) "?nl \<noteq> 0" "?dh AND (?dh - 1) = 0"
    | (general) "?nl \<noteq> 0" "?dh AND (?dh - 1) \<noteq> 0" by blast
  then show ?thesis
  proof cases
    case zero
    then show ?thesis using nh dl dh quotient remainder
      by (simp add: udivmod_def Let_def word_unat_eq_iff unat_div unat_mod uc join mult.commute)
  next
    case power
    note p = power_of_two_mask [OF dh power(2)]
    show ?thesis using nh dl dh power quotient remainder p
      by (simp add: udivmod_def Let_def word_unat_eq_iff unat_div unat_mod uc join unat_shr mult.commute)
  next
    case general
    let ?a = "builtin_clz ?dh" and ?b = "builtin_clz ?nh"
    let ?sr = "of_nat ?a - of_nat ?b :: c_unsigned"
    have a: "?a + 1 < ?H" by (rule clz_not_power [OF dh general(2)])
    have b: "?b < ?H" by (rule builtin_clz.clz_less [OF nh])
    have cn: "n \<noteq> 0" "builtin_clz n = ?b" and cd: "d \<noteq> 0" "builtin_clz d = ?a"
      using clz_half_word(1) [OF width(1) nh] clz_half_word(1) [OF width(1) dh] by simp_all
    have H2: "of_nat ?H - 2 = (of_nat (?H - 2) :: c_unsigned)"
      using width(2) of_nat_unsigned(2) [of ?H 2] bound by simp
    let ?k = "unat (?sr + 1)"
    have branch: "udivmod TYPE('h) n d =
        (if of_nat (?H - 2) < ?sr then Some (0, n)
         else Some (udivmod_finish TYPE('h) (?sr + 1) d (make_dword (shl ?nl (?H - ?k)) 0)
           (make_dword (shr ?nh ?k) (shl ?nh (?H - ?k) OR shr ?nl ?k))))"
      unfolding H2 [symmetric] using nh dl dh general by (simp add: udivmod_def Let_def)
    show ?thesis
    proof (cases "?a < ?b")
      case True
      then have "of_nat (?H - 2) < ?sr" using b bound by (intro sr_large) auto
      moreover have "unat n < unat d" using smaller_by_clz [OF cn(1) cd(1)] cn cd True by simp
      ultimately show ?thesis unfolding branch by (simp add: word_unat_eq_iff unat_div unat_mod)
    next
      case False
      have sr: "?sr = of_nat (?a - ?b)" using False a bound by (intro of_nat_unsigned(2)) auto
      have small: "\<not> of_nat (?H - 2) < ?sr"
        using a bound unfolding sr by (subst of_nat_unsigned_less) auto
      have k1: "?k = ?a - ?b + 1" using False a bound by (intro sr_plus_1) auto
      have k: "?k = ?a - ?b + 1" "0 < ?k" "?k < ?H" unfolding k1 using a by simp_all
      have "LENGTH('d) - ?k - ?H = ?H - ?k" using width by simp
      then have q: "make_dword (shl ?nl (?H - ?k)) 0 = shl n (LENGTH('d) - ?k)"
        using shl_dword_high [OF width(1), of "LENGTH('d) - ?k" ?nl n] k width by simp
      have r: "make_dword (shr ?nh ?k) (shl ?nh (?H - ?k) OR shr ?nl ?k) = shr n ?k"
        using shr_dword_low [OF width(1) k(2,3), of ?nh n ?nl] by simp
      have "udivmod_finish TYPE('h) (?sr + 1) d (make_dword (shl ?nl (?H - ?k)) 0)
          (make_dword (shr ?nh ?k) (shl ?nh (?H - ?k) OR shr ?nl ?k)) = (n div d, n mod d)"
        by (rule udivmod_finish_eq [OF width cn(1) cd(1) _ _ _ q r])
          (use False k cn cd width in simp_all)
      then show ?thesis unfolding branch using small by simp
    qed
  qed
qed

lemma udivmod_high_high:
  fixes n d :: "'d::len word"
  assumes width: "LENGTH('d) = 2 * LENGTH('h::len)" "1 < LENGTH('h)" and bound: "LENGTH('h) < 2 ^ 28"
    and nh: "(high_half n :: 'h word) \<noteq> 0" and dl: "(low_half d :: 'h word) \<noteq> 0"
    and dh: "(high_half d :: 'h word) \<noteq> 0"
  shows "udivmod TYPE('h) n d = Some (n div d, n mod d)"
proof -
  let ?nh = "high_half n :: 'h word" and ?nl = "low_half n :: 'h word" and ?dh = "high_half d :: 'h word"
  let ?H = "LENGTH('h)" and ?a = "builtin_clz ?dh" and ?b = "builtin_clz ?nh"
  let ?sr = "of_nat ?a - of_nat ?b :: c_unsigned"
  let ?k = "unat (?sr + 1)"
  have a: "?a < ?H" and b: "?b < ?H"
    using builtin_clz.clz_less [OF dh] builtin_clz.clz_less [OF nh] by simp_all
  have cn: "n \<noteq> 0" "builtin_clz n = ?b" and cd: "d \<noteq> 0" "builtin_clz d = ?a"
    using clz_half_word(1) [OF width(1) nh] clz_half_word(1) [OF width(1) dh] by simp_all
  have H1: "of_nat ?H - 1 = (of_nat (?H - 1) :: c_unsigned)"
    using width(2) of_nat_unsigned(2) [of ?H 1] bound by simp
  define q r where "q = (if ?sr + 1 = of_nat ?H then make_dword ?nl 0 else make_dword (shl ?nl (?H - ?k)) 0 :: 'd word)"
    and "r = (if ?sr + 1 = of_nat ?H then make_dword 0 ?nh
        else make_dword (shr ?nh ?k) (shl ?nh (?H - ?k) OR shr ?nl ?k) :: 'd word)"
  have branch: "udivmod TYPE('h) n d =
      (if of_nat (?H - 1) < ?sr then Some (0, n) else Some (udivmod_finish TYPE('h) (?sr + 1) d q r))"
    unfolding H1 [symmetric] q_def r_def using nh dl dh by (simp add: udivmod_def Let_def)
  show ?thesis
  proof (cases "?a < ?b")
    case True
    then have "of_nat (?H - 1) < ?sr" using b bound by (intro sr_large) auto
    moreover have "unat n < unat d" using smaller_by_clz [OF cn(1) cd(1)] cn cd True by simp
    ultimately show ?thesis unfolding branch by (simp add: word_unat_eq_iff unat_div unat_mod)
  next
    case False
    have sr: "?sr = of_nat (?a - ?b)" using False a bound by (intro of_nat_unsigned(2)) auto
    have small: "\<not> of_nat (?H - 1) < ?sr"
      using a bound unfolding sr by (subst of_nat_unsigned_less) auto
    have k1: "?k = ?a - ?b + 1" using False a bound by (intro sr_plus_1) auto
    have k: "0 < ?k" "?k \<le> ?H" unfolding k1 using a by simp_all
    have H: "unat (of_nat ?H :: c_unsigned) = ?H" using bound by (intro of_nat_unsigned(1)) simp
    then have full: "?sr + 1 = of_nat ?H \<longleftrightarrow> ?k = ?H" by (simp only: word_unat_eq_iff)
    have e: "LENGTH('d) - ?k - ?H = ?H - ?k" "?H \<le> LENGTH('d) - ?k" using width k by simp_all
    have q: "q = shl n (LENGTH('d) - ?k)"
      using shl_dword_high [OF width(1) e(2) refl, of n] unfolding q_def full e by simp
    have r: "r = shr n ?k"
      using shr_dword_low [OF width(1) k(1), of ?nh n ?nl] shr_dword_high [OF width(1), of ?H ?nh n] k
      unfolding r_def full by (cases "?k = ?H") simp_all
    have "udivmod_finish TYPE('h) (?sr + 1) d q r = (n div d, n mod d)"
      by (rule udivmod_finish_eq [OF width cn(1) cd(1) _ _ _ q r])
        (use False k k1 cn cd width in simp_all)
    then show ?thesis unfolding branch using small by simp
  qed
qed

lemma udivmod_high_zero:
  fixes n d :: "'d::len word"
  assumes width: "LENGTH('d) = 2 * LENGTH('h::len)" "1 < LENGTH('h)" and bound: "LENGTH('h) < 2 ^ 28"
    and nh: "(high_half n :: 'h word) \<noteq> 0" and dl: "(low_half d :: 'h word) \<noteq> 0"
    and dh: "(high_half d :: 'h word) = 0"
  shows "udivmod TYPE('h) n d = Some (n div d, n mod d)"
proof -
  let ?nh = "high_half n :: 'h word" and ?nl = "low_half n :: 'h word" and ?dl = "low_half d :: 'h word"
  let ?H = "LENGTH('h)"
  note un = unat_halves [OF width(1), of n] and uc = unat_ucast_half [OF width(1)]
  have ud: "unat d = unat ?dl" using unat_halves [OF width(1), of d] dh by simp
  show ?thesis
  proof (cases "?dl AND (?dl - 1) = 0")
    case True
    let ?k = "builtin_ctz ?dl"
    note p = power_of_two_mask [OF dl True]
    have k: "?k < ?H" by (rule builtin_ctz.ctz_less [OF dl])
    have "(2::nat) ^ ?k dvd unat ?nh * 2 ^ ?H" using k by (simp add: le_imp_power_dvd)
    then have remainder: "unat n mod unat d = unat ?nl mod 2 ^ ?k"
      unfolding un ud p by (metis dvd_imp_mod_0 mod_add_left_eq add_0)
    have one: "?dl = 1 \<longleftrightarrow> ?k = 0" using p(1) by (simp add: word_unat_eq_iff)
    have "shr n ?k = n div d" by (simp only: word_unat_eq_iff unat_shr unat_div ud p(1))
    moreover have "?k \<noteq> 0 \<Longrightarrow> make_dword (shr ?nh ?k) (shl ?nh (?H - ?k) OR shr ?nl ?k) = shr n ?k"
      using shr_dword_low [OF width(1) _ k, of ?nh n ?nl] by simp
    moreover have "ucast (?nl AND (?dl - 1)) = n mod d"
      by (simp only: word_unat_eq_iff uc p(2) unat_mod remainder)
    ultimately show ?thesis using nh dl dh True one
      by (cases "?k = 0") (simp_all add: udivmod_def Let_def)
  next
    case False
    let ?a = "builtin_clz ?dl" and ?b = "builtin_clz ?nh"
    let ?sr = "1 + of_nat ?H + of_nat ?a - of_nat ?b :: c_unsigned"
    let ?k = "unat ?sr"
    have a: "?a + 1 < ?H" by (rule clz_not_power [OF dl False])
    have b: "?b < ?H" by (rule builtin_clz.clz_less [OF nh])
    have cn: "n \<noteq> 0" "builtin_clz n = ?b" and cd: "d \<noteq> 0" "builtin_clz d = ?H + ?a"
      using clz_half_word(1) [OF width(1) nh] clz_half_word(2) [OF width(1) dh dl] by simp_all
    define q r where "q = (if ?sr = of_nat ?H then make_dword ?nl 0
        else if ?sr < of_nat ?H then make_dword (shl ?nl (?H - ?k)) 0
        else make_dword (shl ?nh (2 * ?H - ?k) OR shr ?nl (?k - ?H)) (shl ?nl (2 * ?H - ?k)) :: 'd word)"
      and "r = (if ?sr = of_nat ?H then make_dword 0 ?nh
        else if ?sr < of_nat ?H then make_dword (shr ?nh ?k) (shl ?nh (?H - ?k) OR shr ?nl ?k)
        else make_dword 0 (shr ?nh (?k - ?H)) :: 'd word)"
    have branch: "udivmod TYPE('h) n d = Some (udivmod_finish TYPE('h) ?sr d q r)"
      unfolding q_def r_def using nh dl dh False by (simp add: udivmod_def Let_def)
    have k1: "?k = ?H + ?a - ?b + 1"
    proof -
      have "?sr = of_nat (?H + ?a) - of_nat ?b + 1" by simp
      also have "unat \<dots> = ?H + ?a - ?b + 1" using a b bound by (intro sr_plus_1) auto
      finally show ?thesis .
    qed
    have k: "0 < ?k" "?k < 2 * ?H" unfolding k1 using a b by simp_all
    have H: "unat (of_nat ?H :: c_unsigned) = ?H" using bound by (intro of_nat_unsigned(1)) simp
    have tests: "?sr = of_nat ?H \<longleftrightarrow> ?k = ?H" "?sr < of_nat ?H \<longleftrightarrow> ?k < ?H"
      by (simp_all only: word_unat_eq_iff word_less_nat_alt H)
    have q: "q = shl n (LENGTH('d) - ?k)"
    proof (cases "?k \<le> ?H")
      case True
      then have e: "LENGTH('d) - ?k - ?H = ?H - ?k" "?H \<le> LENGTH('d) - ?k" using width by simp_all
      show ?thesis
        using True shl_dword_high [OF width(1) e(2) refl, of n] unfolding q_def tests e by auto
    next
      case False
      then have "0 < LENGTH('d) - ?k" "LENGTH('d) - ?k < ?H" "?H - (LENGTH('d) - ?k) = ?k - ?H"
        using width k by simp_all
      then show ?thesis
        using False shl_dword_low [OF width(1), of "LENGTH('d) - ?k" ?nh n ?nl] width
        unfolding q_def tests by simp
    qed
    have r: "r = shr n ?k"
      using shr_dword_low [OF width(1) k(1), of ?nh n ?nl] shr_dword_high [OF width(1), of ?k ?nh n] k
      unfolding r_def tests by (cases ?k ?H rule: linorder_cases) simp_all
    have "udivmod_finish TYPE('h) ?sr d q r = (n div d, n mod d)"
      by (rule udivmod_finish_eq [OF width cn(1) cd(1) _ _ _ q r])
        (use k k1 b cn cd width in simp_all)
    then show ?thesis unfolding branch by simp
  qed
qed

text \<open>Undefined exactly for a zero divisor, and the quotient and remainder otherwise.\<close>

lemma udivmod_eq:
  fixes n d :: "'d::len word"
  assumes width: "LENGTH('d) = 2 * LENGTH('h::len)" "1 < LENGTH('h)" and bound: "LENGTH('h) < 2 ^ 28"
  shows "udivmod TYPE('h) n d = (if d = 0 then None else Some (n div d, n mod d))"
proof (cases "d = 0")
  case True
  then show ?thesis by (simp add: udivmod_def Let_def low_half_def high_half_def)
next
  case False
  then have "(low_half d :: 'h word) \<noteq> 0 \<or> (high_half d :: 'h word) \<noteq> 0"
    using halves_eq_0 [OF width(1), of d] by blast
  then show ?thesis
    using False udivmod_small [OF width(1) _ False, of n] udivmod_low_zero [OF assms, of n d]
      udivmod_high_zero [OF assms, of n d] udivmod_high_high [OF assms, of n d]
    by (cases "(high_half n :: 'h word) = 0"; cases "(low_half d :: 'h word) = 0";
        cases "(high_half d :: 'h word) = 0") simp_all
qed

section \<open>The contract of an unsigned division\<close>

text \<open>
  What the signed routines and the quotient and remainder wrappers use of a division: it fails
  exactly on a zero divisor, and its result satisfies the division equation.
\<close>

locale unsigned_division =
  fixes div_rem :: "'a::len word \<Rightarrow> 'a word \<Rightarrow> ('a word \<times> 'a word) option"
  assumes div_zero: "div_rem n 0 = None"
    and div_defined: "d \<noteq> 0 \<Longrightarrow> div_rem n d \<noteq> None"
    and div_equation: "div_rem n d = Some (q, r) \<Longrightarrow> unat n = unat q * unat d + unat r"
    and div_remainder: "div_rem n d = Some (q, r) \<Longrightarrow> unat r < unat d"
begin

text \<open>The equation and the bound leave no choice.\<close>

lemma div_rem_Some:
  assumes "div_rem n d = Some (q, r)"
  shows "q = n div d" "r = n mod d"
  using div_equation [OF assms] div_remainder [OF assms]
  by (simp_all add: word_unat_eq_iff unat_div unat_mod)

lemma div_rem_eq: "div_rem n d = (if d = 0 then None else Some (n div d, n mod d))"
  using div_zero div_defined [of d n] div_rem_Some [of n d] by (cases "div_rem n d") auto

end

lemma unsigned_divisionI:
  assumes "\<And>n d. div_rem n d = (if d = 0 then None else Some (n div d, n mod d))"
  shows "unsigned_division div_rem"
proof
  fix n d q r :: "'a word"
  assume "div_rem n d = Some (q, r)"
  then have "d \<noteq> 0" "q = n div d" "r = n mod d" using assms [of n d] by (auto split: if_splits)
  then show "unat n = unat q * unat d + unat r" "unat r < unat d"
    by (simp_all add: unat_div unat_mod div_mult_mod_eq word_unat_eq_iff)
qed (simp_all add: assms)

lemma udivmoddi4_eq: "udivmoddi4 n d = (if d = 0 then None else Some (n div d, n mod d))"
  by (simp add: udivmoddi4_def udivmod_eq)

lemma udivmodti4_eq: "udivmodti4 n d = (if d = 0 then None else Some (n div d, n mod d))"
  by (simp add: udivmodti4_def udivmod_eq)

interpretation udivmoddi4: unsigned_division udivmoddi4
  by (rule unsigned_divisionI) (rule udivmoddi4_eq)

interpretation udivmodti4: unsigned_division udivmodti4
  by (rule unsigned_divisionI) (rule udivmodti4_eq)

interpretation udivmodsi4: unsigned_division "\<lambda>n d. if d = 0 then None else Some (udivmodsi4 n d)"
  by (rule unsigned_divisionI) (simp add: udivmodsi4_eq)

lemmas wide_division_defs = udivdi3_def umoddi3_def udivti3_def umodti3_def

lemma wide_division_eq:
  "udivdi3 a b = (if b = 0 then None else Some (a div b))"
  "umoddi3 a b = (if b = 0 then None else Some (a mod b))"
  "udivti3 c d = (if d = 0 then None else Some (c div d))"
  "umodti3 c d = (if d = 0 then None else Some (c mod d))"
  by (simp_all add: wide_division_defs udivmoddi4.div_rem_eq udivmodti4.div_rem_eq)

section \<open>Properties\<close>

text \<open>C8. Unsigned division is exact on every pair of operands: \<open>__udivmoddi4\<close> and \<open>__udivmodti4\<close> compute quotient
  and remainder through all their special cases and the shift-subtract loop, and trap exactly on a zero divisor;
  the bit-serial \<open>__udivsi3\<close> computes the quotient (zero for a zero divisor), and \<open>__umodsi3\<close> and \<open>__udivmodsi4\<close>
  built on it give the remainder, which for a zero divisor is the dividend.\<close>

theorem unsigned_division_correct:
  "udivmoddi4 n d = (if d = 0 then None else Some (n div d, n mod d)) \<and>
   udivmodti4 m e = (if e = 0 then None else Some (m div e, m mod e)) \<and>
   udivsi3 a b = (if b = 0 then 0 else a div b) \<and> umodsi3 a b = (if b = 0 then a else a mod b) \<and>
   udivmodsi4 a b = (udivsi3 a b, umodsi3 a b)"
proof -
  have "udivsi3 a b = (if b = 0 then 0 else a div b) \<and> umodsi3 a b = (if b = 0 then a else a mod b) \<and>
      udivmodsi4 a b = (udivsi3 a b, umodsi3 a b)"
    by (cases "b = 0") (simp add: udivsi3_eq umodsi3_def udivmodsi4_def,
      simp only: udivsi3_eq umodsi3_eq udivmodsi4_eq if_False not_False_eq_True simp_thms)
  then show ?thesis by (simp only: udivmoddi4_eq udivmodti4_eq simp_thms)
qed

text \<open>The entry points \<open>__udivdi3\<close>, \<open>__umoddi3\<close>, \<open>__udivti3\<close> and \<open>__umodti3\<close> agree with one
  another: quotient and remainder recompose the dividend without overflow and the remainder is below
  the divisor.\<close>

theorem udiv_umod_recompose:
  assumes "udivdi3 a b = Some q" "umoddi3 a b = Some r" "udivti3 c d = Some s" "umodti3 c d = Some t"
  shows "unat a = unat q * unat b + unat r \<and> r < b \<and> unat c = unat s * unat d + unat t \<and> t < d"
proof -
  have "b \<noteq> 0" "d \<noteq> 0" "q = a div b" "r = a mod b" "s = c div d" "t = c mod d"
    using assms by (auto simp: wide_division_eq split: if_splits)
  then show ?thesis
    by (simp add: unat_div_distrib unat_mod_distrib word_less_nat_alt div_mult_mod_eq unat_gt_0)
qed

theorem udiv_umod_recompose_witness:
  "udivdi3 100 7 = Some 14 \<and> umoddi3 100 7 = Some 2 \<and>
   unat (100 :: du_int) = unat (14 :: du_int) * unat (7 :: du_int) + unat (2 :: du_int)"
  using udiv_umod_recompose [of 100 7 14 2 100 7 14 2] by (simp add: wide_division_eq)

end
