(* ===== verification/Sdiv.thy ===== *)
theory Sdiv
  imports Udiv
begin

text \<open>
  Signed division: \<open>divsi3.c\<close>, \<open>divdi3.c\<close>, \<open>divti3.c\<close>, \<open>modsi3.c\<close>, \<open>moddi3.c\<close>, \<open>modti3.c\<close>,
  \<open>divmodsi4.c\<close>, \<open>divmoddi4.c\<close>.  Each strips the signs with the branch-free negation, divides
  unsigned, and puts the sign back.  The division of a 32-bit word is the C operator; a zero
  divisor is undefined in C and modelled by \<open>None\<close>.  (On a processor without a division instruction the operator
  is a call of \<open>__udivsi3\<close>, which returns 0 there, see theory \<open>Udiv\<close>; on others it may trap.)
\<close>

section \<open>The routines\<close>

definition divsi3 :: "si_int \<Rightarrow> si_int \<Rightarrow> si_int option" where
  "divsi3 a b =
     (let s_a = sar a (32 - 1);
          s_b = sar b (32 - 1);
          a = (a XOR s_a) - s_a;
          b = (b XOR s_b) - s_b;
          s_a = s_a XOR s_b
      in if b = 0 then None else Some ((a div b XOR s_a) - s_a))"

definition divdi3 :: "di_int \<Rightarrow> di_int \<Rightarrow> di_int option" where
  "divdi3 a b =
     (let s_a = sar a (64 - 1);
          s_b = sar b (64 - 1);
          a = (a XOR s_a) - s_a;
          b = (b XOR s_b) - s_b;
          s_a = s_a XOR s_b
      in map_option (\<lambda>(q, _). (q XOR s_a) - s_a) (udivmoddi4 a b))"

definition divti3 :: "ti_int \<Rightarrow> ti_int \<Rightarrow> ti_int option" where
  "divti3 a b =
     (let s_a = sar a (128 - 1);
          s_b = sar b (128 - 1);
          a = (a XOR s_a) - s_a;
          b = (b XOR s_b) - s_b;
          s_a = s_a XOR s_b
      in map_option (\<lambda>(q, _). (q XOR s_a) - s_a) (udivmodti4 a b))"

definition modsi3 :: "si_int \<Rightarrow> si_int \<Rightarrow> si_int option" where
  "modsi3 a b = map_option (\<lambda>d. a - d * b) (divsi3 a b)"

definition moddi3 :: "di_int \<Rightarrow> di_int \<Rightarrow> di_int option" where
  "moddi3 a b =
     (let s = sar b (64 - 1);
          b = (b XOR s) - s;
          s = sar a (64 - 1);
          a = (a XOR s) - s
      in map_option (\<lambda>(_, r). (r XOR s) - s) (udivmoddi4 a b))"

definition modti3 :: "ti_int \<Rightarrow> ti_int \<Rightarrow> ti_int option" where
  "modti3 a b =
     (let s = sar b (128 - 1);
          b = (b XOR s) - s;
          s = sar a (128 - 1);
          a = (a XOR s) - s
      in map_option (\<lambda>(_, r). (r XOR s) - s) (udivmodti4 a b))"

definition divmodsi4 :: "si_int \<Rightarrow> si_int \<Rightarrow> (si_int \<times> si_int) option" where
  "divmodsi4 a b = map_option (\<lambda>d. (d, a - (d * b))) (divsi3 a b)"

definition divmoddi4 :: "di_int \<Rightarrow> di_int \<Rightarrow> (di_int \<times> di_int) option" where
  "divmoddi4 a b = map_option (\<lambda>d. (d, a - (d * b))) (divdi3 a b)"

section \<open>Signed division over any unsigned division\<close>

definition smod_c :: "'a::len word \<Rightarrow> 'a word \<Rightarrow> 'a word" where
  "smod_c a b = word_of_int (sint a smod sint b)"

lemma smod_c_sdiv_c: "smod_c a b = a - sdiv_c a b * b"
proof -
  have "sint a smod sint b = sint a - sint a sdiv sint b * sint b"
    by (simp add: minus_sdiv_mult_eq_smod)
  then show ?thesis by (simp add: smod_c_def sdiv_c_def)
qed

lemma magnitude_eq_0: "(if sint b < 0 then - b else b) = 0 \<longleftrightarrow> b = 0" for b :: "'a::len word"
  by simp

lemma xor_signs: "(if p then - 1 else 0) XOR (if q then - 1 else 0) = (if p \<noteq> q then - 1 else 0 :: 'a::len word)"
  by simp

lemma signed_of_magnitudes:
  fixes a b :: "'a::len word"
  defines "ma \<equiv> (if sint a < 0 then - a else a)" and "mb \<equiv> (if sint b < 0 then - b else b)"
  shows "(if (sint a < 0) \<noteq> (sint b < 0) then - (ma div mb) else ma div mb) = sdiv_c a b"
    and "(if sint a < 0 then - (ma mod mb) else ma mod mb) = smod_c a b"
proof -
  have m: "uint ma = \<bar>sint a\<bar>" "uint mb = \<bar>sint b\<bar>"
    unfolding ma_def mb_def by (rule uint_abs_word)+
  have "ma div mb = word_of_int (\<bar>sint a\<bar> div \<bar>sint b\<bar>)"
    by (simp add: word_div_def m)
  moreover have "sint a sdiv sint b =
      (if (sint a < 0) \<noteq> (sint b < 0) then - (\<bar>sint a\<bar> div \<bar>sint b\<bar>) else \<bar>sint a\<bar> div \<bar>sint b\<bar>)"
    by (auto simp: signed_divide_int_def sgn_if)
  ultimately show "(if (sint a < 0) \<noteq> (sint b < 0) then - (ma div mb) else ma div mb) = sdiv_c a b"
    by (simp add: sdiv_c_def)
  have "ma mod mb = word_of_int (\<bar>sint a\<bar> mod \<bar>sint b\<bar>)"
    by (simp add: word_mod_def m)
  moreover have "sint a smod sint b =
      (if sint a < 0 then - (\<bar>sint a\<bar> mod \<bar>sint b\<bar>) else \<bar>sint a\<bar> mod \<bar>sint b\<bar>)"
    by (auto simp: signed_modulo_int_def sgn_if)
  ultimately show "(if sint a < 0 then - (ma mod mb) else ma mod mb) = smod_c a b"
    by (simp add: smod_c_def)
qed

context unsigned_division
begin

lemma signed_quotient:
  defines "W \<equiv> LENGTH('a) - 1"
  shows "map_option (\<lambda>(q, _). (q XOR (sar a W XOR sar b W)) - (sar a W XOR sar b W))
      (div_rem ((a XOR sar a W) - sar a W) ((b XOR sar b W) - sar b W))
    = (if b = 0 then None else Some (sdiv_c a b))"
  using signed_of_magnitudes(1) [of a b]
  unfolding W_def sar_sign xor_signs xor_minus_sign div_rem_eq magnitude_eq_0 by simp

lemma signed_remainder:
  defines "W \<equiv> LENGTH('a) - 1"
  shows "map_option (\<lambda>(_, r). (r XOR sar a W) - sar a W)
      (div_rem ((a XOR sar a W) - sar a W) ((b XOR sar b W) - sar b W))
    = (if b = 0 then None else Some (smod_c a b))"
  using signed_of_magnitudes(2) [of a b]
  unfolding W_def sar_sign xor_signs xor_minus_sign div_rem_eq magnitude_eq_0 by simp

end

section \<open>Correctness of the routines\<close>

lemma divdi3_eq: "divdi3 a b = (if b = 0 then None else Some (sdiv_c a b))"
  using udivmoddi4.signed_quotient [of a b] by (simp add: divdi3_def Let_def)

lemma divti3_eq: "divti3 a b = (if b = 0 then None else Some (sdiv_c a b))"
  using udivmodti4.signed_quotient [of a b] by (simp add: divti3_def Let_def)

lemma moddi3_eq: "moddi3 a b = (if b = 0 then None else Some (smod_c a b))"
  using udivmoddi4.signed_remainder [of a b] by (simp add: moddi3_def Let_def)

lemma modti3_eq: "modti3 a b = (if b = 0 then None else Some (smod_c a b))"
  using udivmodti4.signed_remainder [of a b] by (simp add: modti3_def Let_def)

text \<open>\<open>__divsi3\<close> divides with the C operator, which satisfies the contract as well.\<close>

interpretation c_division: unsigned_division "\<lambda>n d. if d = 0 then None else Some (n div d, n mod d)"
  by (rule unsigned_divisionI) (rule refl)

lemma divsi3_eq: "divsi3 a b = (if b = 0 then None else Some (sdiv_c a b))"
proof -
  have "divsi3 a b =
      map_option (\<lambda>(q, _). (q XOR (sar a 31 XOR sar b 31)) - (sar a 31 XOR sar b 31))
        (if (b XOR sar b 31) - sar b 31 = 0 then None
         else Some (((a XOR sar a 31) - sar a 31) div ((b XOR sar b 31) - sar b 31),
           ((a XOR sar a 31) - sar a 31) mod ((b XOR sar b 31) - sar b 31)))"
    by (simp add: divsi3_def Let_def)
  moreover have "LENGTH(32) - 1 = (31::nat)" by simp
  ultimately show ?thesis using c_division.signed_quotient [where 'a = 32, of a b] by (simp only:)
qed

lemma modsi3_eq: "modsi3 a b = (if b = 0 then None else Some (smod_c a b))"
  by (simp add: modsi3_def divsi3_eq smod_c_sdiv_c)

lemma divmodsi4_eq: "divmodsi4 a b = (if b = 0 then None else Some (sdiv_c a b, smod_c a b))"
  by (simp add: divmodsi4_def divsi3_eq smod_c_sdiv_c)

lemma divmoddi4_eq: "divmoddi4 a b = (if b = 0 then None else Some (sdiv_c a b, smod_c a b))"
  by (simp add: divmoddi4_def divdi3_eq smod_c_sdiv_c)

lemmas signed_division_eqs =
  divsi3_eq divdi3_eq divti3_eq modsi3_eq moddi3_eq modti3_eq divmodsi4_eq divmoddi4_eq

text \<open>Without the one overflowing quotient, the value of the result is the truncated quotient.\<close>

lemma sint_sdiv_c:
  fixes a b :: "'a::len word"
  assumes "b \<noteq> 0" and "\<not> (a = int_min \<and> b = - 1)"
  shows "sint (sdiv_c a b) = sint a sdiv sint b"
proof (rule sint_eq_of_range)
  let ?M = "2 ^ (LENGTH('a) - 1) :: int"
  show "sdiv_c a b = word_of_int (sint a sdiv sint b)" by (simp add: sdiv_c_def)
  have a: "- ?M \<le> sint a" "sint a < ?M" by (rule sint_ge, rule sint_lt)
  have M: "1 \<le> ?M" by simp
  have "sint a sdiv sint b \<in> {- ?M ..< ?M}"
  proof (cases "\<bar>sint b\<bar> = 1")
    case True
    then consider "sint b = 1" | "sint b = - 1" by linarith
    then show ?thesis
    proof cases
      case 1
      then show ?thesis using a by (simp add: signed_divide_int_def mult_sgn_abs)
    next
      case 2
      then have "b = - 1" by (intro signed_word_eqI) simp
      with assms(2) have "sint a \<noteq> - ?M" by (simp add: eq_int_min_iff)
      then show ?thesis using a 2 by (simp add: signed_divide_int_def mult_sgn_abs)
    qed
  next
    case False
    moreover have b0: "sint b \<noteq> 0" using assms(1) signed_word_eqI [of b 0] by auto
    ultimately have b: "2 \<le> \<bar>sint b\<bar>" by linarith
    have "\<bar>sint a\<bar> div \<bar>sint b\<bar> \<le> \<bar>sint a\<bar> div 2"
      using b by (intro zdiv_mono2) auto
    also have "\<dots> < ?M" using a M by linarith
    finally have q: "\<bar>sint a\<bar> div \<bar>sint b\<bar> < ?M" .
    have "0 \<le> \<bar>sint a\<bar> div \<bar>sint b\<bar>" using pos_imp_zdiv_nonneg_iff [of "\<bar>sint b\<bar>" "\<bar>sint a\<bar>"] b0 by simp
    with q show ?thesis by (auto simp: signed_divide_int_def sgn_if)
  qed
  then show "- ?M \<le> sint a sdiv sint b" "sint a sdiv sint b < ?M" by simp_all
qed

text \<open>The overflowing quotient wraps around to the smallest value.\<close>

lemma sdiv_c_overflow: "sdiv_c int_min (- 1) = (int_min :: 'a::len word)"
proof -
  have "sdiv_c int_min (- 1) = (word_of_int (2 ^ (LENGTH('a) - 1)) :: 'a word)"
    unfolding sdiv_c_def sint_int_min by (simp add: signed_divide_int_def)
  then show ?thesis by (simp add: int_min_def push_bit_eq_mult)
qed

lemma sdiv_c_cases:
  "sdiv_c a b = (if a = int_min \<and> b = - 1 then int_min else word_of_int (sint a sdiv sint b))" for a :: "'a::len word"
  using sdiv_c_overflow [where 'a = 'a] by (simp only: sdiv_c_def) metis

section \<open>Properties\<close>

text \<open>C33. Signed division \<open>__divsi3\<close>, \<open>__divdi3\<close>, \<open>__divti3\<close> rounds towards zero and wraps only for
  the smallest value divided by -1, where the quotient is that value again; it is undefined exactly for a zero
  divisor, where C leaves the division of the code undefined.\<close>

theorem signed_quotient_correct:
  "divsi3 a b = (if b = 0 then None else if a = int_min \<and> b = - 1 then Some int_min
     else Some (word_of_int (sint a sdiv sint b))) \<and>
   divdi3 c d = (if d = 0 then None else if c = int_min \<and> d = - 1 then Some int_min
     else Some (word_of_int (sint c sdiv sint d))) \<and>
   divti3 e f = (if f = 0 then None else if e = int_min \<and> f = - 1 then Some int_min
     else Some (word_of_int (sint e sdiv sint f)))"
  by (simp only: divsi3_eq divdi3_eq divti3_eq sdiv_c_cases if_distrib [of Some])

text \<open>Signed remainder \<open>__modsi3\<close>, \<open>__moddi3\<close>, \<open>__modti3\<close> has the exact value of C's \<open>%\<close>: its sign
  is that of the dividend and its magnitude is below the divisor's.\<close>

theorem signed_remainder_correct:
  "modsi3 a b = (if b = 0 then None else Some (word_of_int (sint a smod sint b))) \<and>
   moddi3 c d = (if d = 0 then None else Some (word_of_int (sint c smod sint d))) \<and>
   modti3 e f = (if f = 0 then None else Some (word_of_int (sint e smod sint f)))"
  by (simp add: modsi3_eq moddi3_eq modti3_eq smod_c_def)

text \<open>\<open>__divmodsi4\<close> and \<open>__divmoddi4\<close> return the quotient and the remainder of the separate
  routines in one call.\<close>

theorem divmod_agrees:
  "divmodsi4 a b = Option.bind (divsi3 a b) (\<lambda>q. map_option (Pair q) (modsi3 a b)) \<and>
   divmoddi4 c d = Option.bind (divdi3 c d) (\<lambda>q. map_option (Pair q) (moddi3 c d))"
  by (simp add: signed_division_eqs)

end
