(* ===== verification/Imul.thy ===== *)
theory Imul
  imports Prelude
begin

text \<open>
  Multiplication and negation: \<open>muldi3.c\<close>, \<open>multi3.c\<close>, \<open>negdi2.c\<close>, \<open>negti2.c\<close>.  \<open>mul_wide\<close> is the
  text that \<open>__muldsi3\<close> and \<open>__mulddi3\<close> share: the full product of two words of type \<open>'h\<close> from four
  products of their halves.  The locale \<open>full_product\<close> is its contract, from which the truncated
  product of two double words follows.
\<close>

section \<open>The routines\<close>

definition mul_wide :: "'h::len word \<Rightarrow> 'h word \<Rightarrow> 'd::len word" where
  "mul_wide a b =
     (let bits_2 = LENGTH('h) div 2;
          lower_mask = shr (- 1) bits_2;
          low = (a AND lower_mask) * (b AND lower_mask);
          t = shr low bits_2;
          low = low AND lower_mask;
          t = t + shr a bits_2 * (b AND lower_mask);
          low = low + shl (t AND lower_mask) bits_2;
          high = shr t bits_2;
          t = shr low bits_2;
          low = low AND lower_mask;
          t = t + shr b bits_2 * (a AND lower_mask);
          low = low + shl (t AND lower_mask) bits_2;
          high = high + shr t bits_2;
          high = high + shr a bits_2 * shr b bits_2
      in make_dword high low)"

definition muldsi3 :: "su_int \<Rightarrow> su_int \<Rightarrow> di_int" where
  "muldsi3 a b = mul_wide a b"

definition mulddi3 :: "du_int \<Rightarrow> du_int \<Rightarrow> ti_int" where
  "mulddi3 a b = mul_wide a b"

definition muldi3 :: "di_int \<Rightarrow> di_int \<Rightarrow> di_int" where
  "muldi3 a b =
     (let xh = high_half a :: su_int; xl = low_half a :: su_int;
          yh = high_half b :: su_int; yl = low_half b :: su_int;
          r = muldsi3 xl yl;
          rh = high_half r + (xh * yl + xl * yh)
      in make_dword rh (low_half r))"

definition multi3 :: "ti_int \<Rightarrow> ti_int \<Rightarrow> ti_int" where
  "multi3 a b =
     (let xh = high_half a :: du_int; xl = low_half a :: du_int;
          yh = high_half b :: du_int; yl = low_half b :: du_int;
          r = mulddi3 xl yl;
          rh = high_half r + (xh * yl + xl * yh)
      in make_dword rh (low_half r))"

definition negdi2 :: "di_int \<Rightarrow> di_int" where
  "negdi2 a = - a"

definition negti2 :: "ti_int \<Rightarrow> ti_int" where
  "negti2 a = - a"

section \<open>Products of half words\<close>

text \<open>The schoolbook sum, on the halves as digits to the base \<open>B\<close>.\<close>

lemma schoolbook_sum:
  fixes a0 a1 b0 b1 B :: nat
  defines "p0 \<equiv> a0 * b0"
  defines "t1 \<equiv> p0 div B + a1 * b0"
  defines "t3 \<equiv> t1 mod B + b1 * a0"
  shows "(t1 div B + t3 div B + a1 * b1) * (B * B) + (p0 mod B + t3 mod B * B)
    = (a1 * B + a0) * (b1 * B + b0)"
proof -
  have "(t1 div B + t3 div B + a1 * b1) * (B * B) + (p0 mod B + t3 mod B * B)
      = t1 div B * B * B + (t3 div B * B + t3 mod B) * B + a1 * b1 * (B * B) + p0 mod B"
    by (simp only: add_mult_distrib add_mult_distrib2 ac_simps)
  also have "\<dots> = t1 div B * B * B + t3 * B + a1 * b1 * (B * B) + p0 mod B"
    by (simp only: div_mult_mod_eq)
  also have "\<dots> = (t1 div B * B + t1 mod B) * B + b1 * a0 * B + a1 * b1 * (B * B) + p0 mod B"
    by (simp only: t3_def) (simp only: add_mult_distrib add.assoc add.commute add.left_commute)
  also have "\<dots> = t1 * B + b1 * a0 * B + a1 * b1 * (B * B) + p0 mod B"
    by (simp only: div_mult_mod_eq)
  also have "\<dots> = (p0 div B * B + p0 mod B) + a1 * b0 * B + b1 * a0 * B + a1 * b1 * (B * B)"
    by (simp only: t1_def) (simp only: add_mult_distrib add.assoc add.commute add.left_commute)
  also have "\<dots> = p0 + a1 * b0 * B + b1 * a0 * B + a1 * b1 * (B * B)"
    by (simp only: div_mult_mod_eq)
  also have "\<dots> = (a1 * B + a0) * (b1 * B + b0)"
    by (simp add: p0_def algebra_simps)
  finally show ?thesis .
qed

lemma mul_wide_eq:
  fixes a b :: "'h::len word"
  assumes width: "LENGTH('d::len) = 2 * LENGTH('h)" and even: "even LENGTH('h)"
  shows "unat (mul_wide a b :: 'd word) = unat a * unat b"
proof -
  define k where "k = LENGTH('h) div 2"
  define B :: nat where "B = 2 ^ k"
  have W: "LENGTH('h) = k + k" using even by (auto simp: k_def)
  have BB: "(2::nat) ^ LENGTH('h) = B * B" by (simp add: W B_def power_add)
  have B0: "0 < B" by (simp add: B_def)
  have mask: "shr (- 1) k = (mask k :: 'h word)"
    by (intro bit_word_eqI) (auto simp: W bit_drop_bit_eq bit_mask_iff)
  have lo: "unat (x AND mask k) = unat x mod B" for x :: "'h word" by (simp add: unat_and_mask_low B_def)
  have hi: "unat (shr x k) = unat x div B" for x :: "'h word" by (simp add: unat_shr B_def)
  have hi_lt: "unat x div B < B" for x :: "'h word"
    using unat_less_exp_len [of x] unfolding BB by (simp only: less_mult_imp_div_less)
  have lo_lt: "n mod B < B" for n using B0 by simp
  have up: "unat (shl (x AND mask k) k) = unat x mod B * B" for x :: "'h word"
    unfolding unat_shl lo BB using lo_lt [of "unat x"] B0 by (simp flip: B_def)
  define a0 a1 b0 b1 where "a0 = unat a mod B" and "a1 = unat a div B"
    and "b0 = unat b mod B" and "b1 = unat b div B"
  have digit: "a0 < B" "a1 < B" "b0 < B" "b1 < B"
    by (simp_all only: a0_def a1_def b0_def b1_def lo_lt hi_lt)
  define p0 where "p0 = (a AND mask k) * (b AND mask k)"
  have p0: "unat p0 = a0 * b0"
    using digit_product_bound [OF digit(1) digit(3) B0]
    unfolding p0_def by (subst unat_times_small) (simp_all add: lo BB a0_def b0_def)
  define t1 where "t1 = shr p0 k + shr a k * (b AND mask k)"
  have q1: "unat (shr a k * (b AND mask k)) = a1 * b0"
    using digit_product_bound [OF digit(2) digit(3) B0]
    by (subst unat_times_small) (simp_all add: lo hi BB a1_def b0_def)
  have t1: "unat t1 = a0 * b0 div B + a1 * b0"
    using digit_product_bound [OF digit(2) digit(3) hi_lt [of p0]]
    unfolding t1_def by (subst unat_plus_small) (simp_all add: q1 hi BB p0 add.commute)
  define low1 where "low1 = (p0 AND mask k) + shl (t1 AND mask k) k"
  have pack: "unat ((x AND mask k) + shl (y AND mask k) k) = unat x mod B + unat y mod B * B"
    for x y :: "'h word"
  proof -
    have "unat y mod B * B + unat x mod B < B * B"
    proof -
      have "unat y mod B * B + unat x mod B < unat y mod B * B + B" using lo_lt [of "unat x"] by simp
      also have "\<dots> = Suc (unat y mod B) * B" by simp
      also have "\<dots> \<le> B * B" using lo_lt [of "unat y"] by (intro mult_le_mono1) auto
      finally show ?thesis .
    qed
    then show ?thesis by (subst unat_plus_small) (simp_all only: lo up BB add.commute)
  qed
  have low1: "unat low1 = unat p0 mod B + unat t1 mod B * B"
    unfolding low1_def by (rule pack)
  have low1_lo: "unat (low1 AND mask k) = unat p0 mod B" using B0 by (simp add: lo low1)
  have low1_hi: "unat (shr low1 k) = unat t1 mod B" using B0 by (simp add: hi low1)
  define t3 where "t3 = shr low1 k + shr b k * (a AND mask k)"
  have q2: "unat (shr b k * (a AND mask k)) = b1 * a0"
    using digit_product_bound [OF digit(4) digit(1) B0]
    by (subst unat_times_small) (simp_all add: lo hi BB b1_def a0_def)
  have t3: "unat t3 = unat t1 mod B + b1 * a0"
    using digit_product_bound [OF digit(4) digit(1) lo_lt [of "unat t1"]]
    unfolding t3_def by (subst unat_plus_small) (simp_all add: q2 low1_hi BB add.commute)
  define low3 where "low3 = (low1 AND mask k) + shl (t3 AND mask k) k"
  have low3: "unat low3 = unat p0 mod B + unat t3 mod B * B"
    unfolding low3_def pack by (simp add: low1 B0)
  define high where "high = shr t1 k + shr t3 k + shr a k * shr b k"
  have q3: "unat (shr a k * shr b k) = a1 * b1"
    using digit_product_bound [OF digit(2) digit(4) B0]
    by (subst unat_times_small) (simp_all add: hi BB a1_def b1_def)
  define H where "H = unat t1 div B + unat t3 div B + a1 * b1"
  have total: "H * (B * B) + unat low3 = unat a * unat b"
    using schoolbook_sum [of a0 b0 B a1 b1]
    by (simp only: H_def low3 t3 t1 p0, simp only: a0_def a1_def b0_def b1_def div_mult_mod_eq)
  have "H * (B * B) < (B * B) * (B * B)"
  proof -
    have "H * (B * B) \<le> unat a * unat b" using total by simp
    also have "\<dots> < (B * B) * (B * B)"
      using unat_less_exp_len [of a] unat_less_exp_len [of b] unfolding BB by (intro mult_strict_mono') auto
    finally show ?thesis .
  qed
  then have H_lt: "H < B * B" by simp
  have high: "unat high = H"
    using H_lt unfolding high_def
    by (subst unat_plus_small, subst unat_plus_small)
      (simp_all add: hi q3 BB H_def, subst unat_plus_small, simp_all add: hi BB)
  have "mul_wide a b = (make_dword high low3 :: 'd word)"
    unfolding mul_wide_def Let_def k_def [symmetric] mask
    by (simp only: p0_def [symmetric] t1_def [symmetric] low1_def [symmetric] t3_def [symmetric]
        low3_def [symmetric] high_def [symmetric])
  then show ?thesis by (simp only: unat_make_dword [OF width] high BB total)
qed

section \<open>The contract of a full product\<close>

locale full_product =
  fixes mul :: "'h::len word \<Rightarrow> 'h word \<Rightarrow> 'd::len word"
  assumes double: "LENGTH('d) = 2 * LENGTH('h)"
    and product: "unat (mul a b) = unat a * unat b"
begin

text \<open>
  The product modulo the width of a double word: the cross products only matter modulo the width of
  a half, and the product of the high halves not at all.
\<close>

lemma truncated_product:
  fixes a b :: "'d word" and xh xl yh yl :: "'h word"
  assumes "xh = high_half a" "xl = low_half a" "yh = high_half b" "yl = low_half b"
  shows "make_dword (high_half (mul xl yl) + (xh * yl + xl * yh)) (low_half (mul xl yl) :: 'h word) = a * b"
proof -
  define P :: nat where "P = 2 ^ LENGTH('h)"
  have PP: "(2::nat) ^ LENGTH('d) = P * P" by (simp add: double mult_2 power_add P_def)
  let ?H = "unat xh * unat yl + unat xl * unat yh"
  let ?M = "unat xl * unat yl"
  have a: "unat a = unat xh * P + unat xl" and b: "unat b = unat yh * P + unat yl"
    using unat_halves [OF double, of a] unat_halves [OF double, of b] assms by (simp_all add: P_def)
  have high: "unat (high_half (mul xl yl) + (xh * yl + xl * yh)) = (?M div P + ?H) mod P"
    by (simp add: c_unat double product P_def mod_simps)
  have "unat (make_dword (high_half (mul xl yl) + (xh * yl + xl * yh)) (low_half (mul xl yl) :: 'h word) :: 'd word)
      = (?M div P + ?H) mod P * P + ?M mod P"
    unfolding unat_make_dword [OF double] high by (simp add: unat_low_half product P_def)
  also have "\<dots> = ((?M div P + ?H) * P + ?M mod P) mod (P * P)"
  proof -
    have "?M mod P < P" by (simp add: P_def)
    then show ?thesis
      using mod_mult2_eq [of "(?M div P + ?H) * P + ?M mod P" P P] by (simp add: mult.commute)
  qed
  also have "(?M div P + ?H) * P + ?M mod P = ?H * P + (?M div P * P + ?M mod P)"
    by (simp only: add_mult_distrib add_mult_distrib2 ac_simps)
  also have "\<dots> = ?H * P + ?M" by (simp only: div_mult_mod_eq)
  also have "(?H * P + ?M) mod (P * P) = (?H * P + ?M + unat xh * unat yh * (P * P)) mod (P * P)"
    by (simp only: mod_mult_self1)
  also have "?H * P + ?M + unat xh * unat yh * (P * P) = unat a * unat b"
    by (simp only: a b add_mult_distrib add_mult_distrib2 ac_simps)
  finally show ?thesis by (simp only: word_unat_eq_iff unat_times_mod PP)
qed

end

interpretation product_dword: full_product muldsi3
  by unfold_locales (simp_all add: muldsi3_def mul_wide_eq)

interpretation product_tword: full_product mulddi3
  by unfold_locales (simp_all add: mulddi3_def mul_wide_eq)

lemma muldi3_eq: "muldi3 a b = a * b"
  by (simp only: muldi3_def Let_def) (rule product_dword.truncated_product, rule refl, rule refl, rule refl, rule refl)

lemma multi3_eq: "multi3 a b = a * b"
  by (simp only: multi3_def Let_def) (rule product_tword.truncated_product, rule refl, rule refl, rule refl, rule refl)

section \<open>Properties\<close>

text \<open>C34. \<open>__muldsi3\<close> and \<open>__mulddi3\<close> return the full double-width product, and \<open>__muldi3\<close> and
  \<open>__multi3\<close> built on them the product modulo the width, for signed and unsigned operands alike.\<close>

theorem multiplication_correct:
  "unat (muldsi3 a b) = unat a * unat b \<and> unat (mulddi3 c d) = unat c * unat d \<and>
   muldi3 p q = p * q \<and> multi3 r s = r * s \<and> negdi2 p + p = 0 \<and> negti2 r + r = 0"
  by (simp add: product_dword.product product_tword.product muldi3_eq multi3_eq negdi2_def negti2_def)

end
