(* ===== verification/Overflow.thy ===== *)
theory Overflow
  imports Prelude
begin

text \<open>
  Overflow-checked arithmetic: the trapping routines \<open>addv*3.c\<close>, \<open>subv*3.c\<close>, \<open>absv*2.c\<close>,
  \<open>negv*2.c\<close>, \<open>mulv*3.c\<close> and the reporting routines \<open>mulosi4.c\<close>, \<open>mulodi4.c\<close>, \<open>muloti4.c\<close>.  The files
  of one family differ only in the integer type, so each text is written once over a word of any
  width and instantiated at 32, 64 and 128 bits.  The locales \<open>checked_unary\<close> and \<open>checked_binary\<close> state
  what every trapping routine promises: the exact result, or an abort when it does not fit.
  The signed operators of C that these files use on operands that may overflow are taken to wrap.
\<close>

section \<open>The routines\<close>

definition addv :: "'a::len word \<Rightarrow> 'a word \<Rightarrow> 'a word fallible" where
  "addv a b =
     (let s = a + b in
      if 0 \<le>s b then (if s <s a then Inl Abort else Inr s)
      else (if a \<le>s s then Inl Abort else Inr s))"

definition subv :: "'a::len word \<Rightarrow> 'a word \<Rightarrow> 'a word fallible" where
  "subv a b =
     (let s = a - b in
      if 0 \<le>s b then (if a <s s then Inl Abort else Inr s)
      else (if s \<le>s a then Inl Abort else Inr s))"

definition absv :: "'a::len word \<Rightarrow> 'a word fallible" where
  "absv a =
     (let N = LENGTH('a) in
      if a = shl 1 (N - 1) then Inl Abort
      else let t = sar a (N - 1) in Inr ((a XOR t) - t))"

definition negv :: "'a::len word \<Rightarrow> 'a word fallible" where
  "negv a = (let min_val = shl 1 (LENGTH('a) - 1) in if a = min_val then Inl Abort else Inr (- a))"

definition mulv :: "'a::len word \<Rightarrow> 'a word \<Rightarrow> 'a word fallible" where
  "mulv a b =
     (let N = LENGTH('a); min_val = shl 1 (N - 1); max_val = NOT min_val in
      if a = min_val then (if b = 0 \<or> b = 1 then Inr (a * b) else Inl Abort)
      else if b = min_val then (if a = 0 \<or> a = 1 then Inr (a * b) else Inl Abort)
      else
        let sa = sar a (N - 1); abs_a = (a XOR sa) - sa;
            sb = sar b (N - 1); abs_b = (b XOR sb) - sb in
        if abs_a <s 2 \<or> abs_b <s 2 then Inr (a * b)
        else if sa = sb then (if sdiv_c max_val abs_b <s abs_a then Inl Abort else Inr (a * b))
        else (if sdiv_c min_val (- abs_b) <s abs_a then Inl Abort else Inr (a * b)))"

text \<open>The out parameter \<open>*overflow\<close> is the second component of the result.\<close>

definition mulo :: "'a::len word \<Rightarrow> 'a word \<Rightarrow> 'a word \<times> int" where
  "mulo a b =
     (let N = LENGTH('a); min_val = shl 1 (N - 1); max_val = NOT min_val;
          overflow = 0; result = a * b in
      if a = min_val then (result, if b \<noteq> 0 \<and> b \<noteq> 1 then 1 else overflow)
      else if b = min_val then (result, if a \<noteq> 0 \<and> a \<noteq> 1 then 1 else overflow)
      else
        let sa = sar a (N - 1); abs_a = (a XOR sa) - sa;
            sb = sar b (N - 1); abs_b = (b XOR sb) - sb in
        if abs_a <s 2 \<or> abs_b <s 2 then (result, overflow)
        else if sa = sb then (result, if sdiv_c max_val abs_b <s abs_a then 1 else overflow)
        else (result, if sdiv_c min_val (- abs_b) <s abs_a then 1 else overflow))"

definition addvsi3 :: "si_int \<Rightarrow> si_int \<Rightarrow> si_int fallible" where "addvsi3 = addv"
definition addvdi3 :: "di_int \<Rightarrow> di_int \<Rightarrow> di_int fallible" where "addvdi3 = addv"
definition addvti3 :: "ti_int \<Rightarrow> ti_int \<Rightarrow> ti_int fallible" where "addvti3 = addv"
definition subvsi3 :: "si_int \<Rightarrow> si_int \<Rightarrow> si_int fallible" where "subvsi3 = subv"
definition subvdi3 :: "di_int \<Rightarrow> di_int \<Rightarrow> di_int fallible" where "subvdi3 = subv"
definition subvti3 :: "ti_int \<Rightarrow> ti_int \<Rightarrow> ti_int fallible" where "subvti3 = subv"
definition absvsi2 :: "si_int \<Rightarrow> si_int fallible" where "absvsi2 = absv"
definition absvdi2 :: "di_int \<Rightarrow> di_int fallible" where "absvdi2 = absv"
definition absvti2 :: "ti_int \<Rightarrow> ti_int fallible" where "absvti2 = absv"
definition negvsi2 :: "si_int \<Rightarrow> si_int fallible" where "negvsi2 = negv"
definition negvdi2 :: "di_int \<Rightarrow> di_int fallible" where "negvdi2 = negv"
definition negvti2 :: "ti_int \<Rightarrow> ti_int fallible" where "negvti2 = negv"
definition mulvsi3 :: "si_int \<Rightarrow> si_int \<Rightarrow> si_int fallible" where "mulvsi3 = mulv"
definition mulvdi3 :: "di_int \<Rightarrow> di_int \<Rightarrow> di_int fallible" where "mulvdi3 = mulv"
definition mulvti3 :: "ti_int \<Rightarrow> ti_int \<Rightarrow> ti_int fallible" where "mulvti3 = mulv"
definition mulosi4 :: "si_int \<Rightarrow> si_int \<Rightarrow> si_int \<times> int" where "mulosi4 = mulo"
definition mulodi4 :: "di_int \<Rightarrow> di_int \<Rightarrow> di_int \<times> int" where "mulodi4 = mulo"
definition muloti4 :: "ti_int \<Rightarrow> ti_int \<Rightarrow> ti_int \<times> int" where "muloti4 = mulo"

section \<open>Values that fit a signed type\<close>

definition signed_fits :: "nat \<Rightarrow> int \<Rightarrow> bool" where
  "signed_fits n k \<longleftrightarrow> - (2 ^ (n - 1)) \<le> k \<and> k < 2 ^ (n - 1)"

lemma sint_fits: "signed_fits LENGTH('a) (sint a)" for a :: "'a::len word"
  using sint_ge [of a] sint_lt [of a] by (simp add: signed_fits_def)

text \<open>The signed value of a wrapped result, when the exact one is off by at most one period.\<close>

lemma sint_wrap_exact: "signed_fits LENGTH('a) k \<Longrightarrow> sint (word_of_int k :: 'a::len word) = k"
  by (rule sint_eq_of_range) (auto simp: signed_fits_def)

lemma shl_int_min: "shl 1 (LENGTH('a) - 1) = (int_min :: 'a::len word)"
  by (simp add: int_min_def)

section \<open>Addition, subtraction, absolute value, negation\<close>

lemma addv_eq:
  "addv a b = (if signed_fits LENGTH('a) (sint a + sint b) then Inr (a + b) else Inl Abort)"
  for a b :: "'a::len word"
proof -
  have sum: "a + b = word_of_int (sint a + sint b)" by simp
  have ra: "signed_fits LENGTH('a) (sint a)" and rb: "signed_fits LENGTH('a) (sint b)"
    by (rule sint_fits)+
  consider "signed_fits LENGTH('a) (sint a + sint b)"
    | "2 ^ (LENGTH('a) - 1) \<le> sint a + sint b" | "sint a + sint b < - (2 ^ (LENGTH('a) - 1))"
    unfolding signed_fits_def by linarith
  then show ?thesis
  proof cases
    case 1
    then have "sint (a + b) = sint a + sint b" unfolding sum by (rule sint_wrap_exact)
    with 1 show ?thesis by (auto simp: addv_def Let_def word_sless_alt word_sle_eq)
  next
    case 2
    then have "sint (a + b) = sint a + sint b - 2 ^ LENGTH('a)"
      unfolding sum using ra rb exp_double [where 'a = 'a] by (intro sint_wrap_above) (auto simp: signed_fits_def)
    with 2 ra rb show ?thesis using exp_double [where 'a = 'a]
      by (auto simp: addv_def Let_def word_sless_alt word_sle_eq signed_fits_def)
  next
    case 3
    then have "sint (a + b) = sint a + sint b + 2 ^ LENGTH('a)"
      unfolding sum using ra rb exp_double [where 'a = 'a] by (intro sint_wrap_below) (auto simp: signed_fits_def)
    with 3 ra rb show ?thesis using exp_double [where 'a = 'a]
      by (auto simp: addv_def Let_def word_sless_alt word_sle_eq signed_fits_def)
  qed
qed

lemma subv_eq:
  "subv a b = (if signed_fits LENGTH('a) (sint a - sint b) then Inr (a - b) else Inl Abort)"
  for a b :: "'a::len word"
proof -
  have diff: "a - b = word_of_int (sint a - sint b)" by simp
  have ra: "signed_fits LENGTH('a) (sint a)" and rb: "signed_fits LENGTH('a) (sint b)"
    by (rule sint_fits)+
  consider "signed_fits LENGTH('a) (sint a - sint b)"
    | "2 ^ (LENGTH('a) - 1) \<le> sint a - sint b" | "sint a - sint b < - (2 ^ (LENGTH('a) - 1))"
    unfolding signed_fits_def by linarith
  then show ?thesis
  proof cases
    case 1
    then have "sint (a - b) = sint a - sint b" unfolding diff by (rule sint_wrap_exact)
    with 1 show ?thesis by (auto simp: subv_def Let_def word_sless_alt word_sle_eq)
  next
    case 2
    then have "sint (a - b) = sint a - sint b - 2 ^ LENGTH('a)"
      unfolding diff using ra rb exp_double [where 'a = 'a] by (intro sint_wrap_above) (auto simp: signed_fits_def)
    with 2 ra rb show ?thesis using exp_double [where 'a = 'a]
      by (auto simp: subv_def Let_def word_sless_alt word_sle_eq signed_fits_def)
  next
    case 3
    then have "sint (a - b) = sint a - sint b + 2 ^ LENGTH('a)"
      unfolding diff using ra rb exp_double [where 'a = 'a] by (intro sint_wrap_below) (auto simp: signed_fits_def)
    with 3 ra rb show ?thesis using exp_double [where 'a = 'a]
      by (auto simp: subv_def Let_def word_sless_alt word_sle_eq signed_fits_def)
  qed
qed

lemma neg_fits: "signed_fits LENGTH('a) (- sint a) \<longleftrightarrow> a \<noteq> int_min" for a :: "'a::len word"
  using sint_fits [of a] by (auto simp: signed_fits_def eq_int_min_iff)

lemma negv_eq:
  "negv a = (if signed_fits LENGTH('a) (- sint a) then Inr (- a) else Inl Abort)" for a :: "'a::len word"
  by (simp only: negv_def Let_def shl_int_min neg_fits) simp

lemma branch_free_abs:
  "(a XOR sar a (LENGTH('a) - 1)) - sar a (LENGTH('a) - 1) = (if sint a < 0 then - a else a)"
  for a :: "'a::len word"
  unfolding sar_sign by (rule xor_minus_sign)

lemma abs_fits: "signed_fits LENGTH('a) \<bar>sint a\<bar> \<longleftrightarrow> a \<noteq> int_min" for a :: "'a::len word"
  using sint_fits [of a] by (auto simp: signed_fits_def eq_int_min_iff)

lemma absv_eq:
  "absv a = (if signed_fits LENGTH('a) \<bar>sint a\<bar> then Inr (word_of_int \<bar>sint a\<bar>) else Inl Abort)"
  for a :: "'a::len word"
    unfolding absv_def Let_def branch_free_abs by (simp only: shl_int_min abs_fits) (simp add: abs_if)

section \<open>Multiplication\<close>

lemma less_of_div_iff: "0 < y \<Longrightarrow> c div y < x \<longleftrightarrow> c < x * y" for c x y :: int
proof -
  assume y: "0 < y"
  have c: "c = c div y * y + c mod y" and r: "0 \<le> c mod y" "c mod y < y" using y by simp_all
  show ?thesis
  proof
    assume "c div y < x"
    then have "(c div y + 1) * y \<le> x * y" using y by (intro mult_right_mono) auto
    then show "c < x * y" using c r unfolding distrib_right by linarith
  next
    assume "c < x * y"
    then have "c div y * y < x * y" using c r by linarith
    then show "c div y < x" using y by simp
  qed
qed

text \<open>A product of magnitudes that fits is one that the quotient test of the code accepts.\<close>

lemma product_fits_iff:
  fixes x y :: int
  assumes "x \<noteq> 0" "y \<noteq> 0"
  shows "signed_fits n (x * y) \<longleftrightarrow>
    (if (x < 0) = (y < 0) then \<not> (2 ^ (n - 1) - 1) div \<bar>y\<bar> < \<bar>x\<bar> else \<not> 2 ^ (n - 1) div \<bar>y\<bar> < \<bar>x\<bar>)"
proof -
  define m where "m = (2::int) ^ (n - 1)"
  define p where "p = \<bar>x\<bar> * \<bar>y\<bar>"
  have pos: "0 < p" "0 < m" "0 < \<bar>y\<bar>" using assms by (simp_all add: p_def m_def)
  have "x * y = (if (x < 0) = (y < 0) then p else - p)" by (simp add: p_def abs_if)
  then show ?thesis
    using pos unfolding signed_fits_def m_def [symmetric] less_of_div_iff [OF pos(3)] p_def [symmetric]
    by (simp split: if_split) linarith
qed

lemma small_magnitude_fits:
  fixes x y :: int
  assumes "signed_fits n x" "signed_fits n y" "x \<noteq> - (2 ^ (n - 1))" "\<bar>y\<bar> < 2"
  shows "signed_fits n (x * y)"
proof -
  have "y = - 1 \<or> y = 0 \<or> y = 1" using assms(4) by linarith
  then show ?thesis using assms by (auto simp: signed_fits_def)
qed

lemma int_min_product_fits:
  fixes y :: int
  shows "signed_fits n (- (2 ^ (n - 1)) * y) \<longleftrightarrow> y = 0 \<or> y = 1"
proof -
  define m where "m = (2::int) ^ (n - 1)"
  have m: "0 < m" by (simp add: m_def)
  have "- m \<le> - m * y \<longleftrightarrow> y \<le> 1" using m by (simp add: mult_le_cancel_left1)
  moreover have "- m * y < m \<longleftrightarrow> - 1 < y" using m mult_less_cancel_left_pos [OF m, of "- 1" y] by auto
  ultimately show ?thesis unfolding signed_fits_def m_def [symmetric] by linarith
qed

text \<open>The two quotient tests on the absolute values of operands other than the minimum.\<close>

lemma sint_abs_word:
  "a \<noteq> int_min \<Longrightarrow> sint (if sint a < 0 then - a else a) = \<bar>sint a\<bar>" for a :: "'a::len word"
proof -
  assume "a \<noteq> int_min"
  then have "sint (word_of_int \<bar>sint a\<bar> :: 'a word) = \<bar>sint a\<bar>"
    by (intro sint_wrap_exact) (simp only: abs_fits not_False_eq_True)
  then show ?thesis by (simp add: abs_if split: if_splits)
qed

definition abs_word :: "'a::len word \<Rightarrow> 'a word" where
  "abs_word a = (if sint a < 0 then - a else a)"

lemma sint_abs: "a \<noteq> int_min \<Longrightarrow> sint (abs_word a) = \<bar>sint a\<bar>"
  unfolding abs_word_def by (rule sint_abs_word)

lemma sless_two_iff: "2 < LENGTH('a) \<Longrightarrow> x <s 2 \<longleftrightarrow> sint x < 2" for x :: "'a::len word"
proof -
  assume wide: "2 < LENGTH('a)"
  have "(2::int) < 2 ^ (LENGTH('a) - 1)"
    using wide power_strict_increasing [of 1 "LENGTH('a) - 1" "2 :: int"] by simp
  then have "sint (2 :: 'a word) = 2"
    by (intro sint_eq_of_range) (simp_all add: order_trans [of _ 0])
  then show ?thesis by (simp only: word_sless_alt)
qed

lemma mul_small_fits:
  fixes a b :: "'a::len word"
  assumes wide: "2 < LENGTH('a)" and "a \<noteq> int_min" "b \<noteq> int_min"
    and small: "abs_word a <s 2 \<or> abs_word b <s 2"
  shows "signed_fits LENGTH('a) (sint a * sint b)"
  using small_magnitude_fits [OF sint_fits [of a] sint_fits [of b]]
    small_magnitude_fits [OF sint_fits [of b] sint_fits [of a]] assms
  unfolding eq_int_min_iff [symmetric] by (auto simp: sless_two_iff sint_abs mult.commute)

lemma sint_sdiv_pos:
  fixes c y :: "'a::len word"
  assumes "0 \<le> sint c" "0 < sint y"
  shows "sint (sdiv_c c y) = sint c div sint y"
proof -
  have "0 \<le> sint c div sint y" "sint c div sint y \<le> sint c"
    using assms zdiv_mono2 [of "sint c" 1 "sint y"] by (simp_all add: pos_imp_zdiv_nonneg_iff)
  then have "signed_fits LENGTH('a) (sint c div sint y)"
    using sint_fits [of c] by (simp add: signed_fits_def)
  then show ?thesis
    using assms by (cases "sint c = 0") (simp_all add: sdiv_c_def signed_divide_int_def sint_wrap_exact)
qed

lemma sint_min_sdiv_neg:
  fixes y :: "'a::len word"
  assumes "1 < sint y"
  shows "sint (sdiv_c int_min (- y)) = 2 ^ (LENGTH('a) - 1) div sint y"
proof -
  have "sint (- y) = - sint y"
    using assms sint_fits [of y] by (intro sint_eq_of_range) (simp_all add: signed_fits_def)
  moreover have "2 ^ (LENGTH('a) - 1) div sint y < 2 ^ (LENGTH('a) - 1)"
    using assms by (intro int_div_less_self) simp_all
  moreover have "0 \<le> 2 ^ (LENGTH('a) - 1) div sint y"
    using assms by (simp add: pos_imp_zdiv_nonneg_iff)
  ultimately show ?thesis
    using assms by (simp add: sdiv_c_def signed_divide_int_def sint_wrap_exact signed_fits_def order_trans [of _ 0])
qed

lemma mul_test_iff:
  fixes a b :: "'a::len word"
  assumes wide: "2 < LENGTH('a)" and "a \<noteq> int_min" "b \<noteq> int_min"
    and large: "\<not> (abs_word a <s 2 \<or> abs_word b <s 2)"
  shows "(if sar a (LENGTH('a) - 1) = sar b (LENGTH('a) - 1) then sdiv_c (NOT int_min) (abs_word b) <s abs_word a
      else sdiv_c int_min (- abs_word b) <s abs_word a) \<longleftrightarrow> \<not> signed_fits LENGTH('a) (sint a * sint b)"
proof -
  have big: "2 \<le> \<bar>sint a\<bar>" "2 \<le> \<bar>sint b\<bar>"
    using assms by (simp_all add: sless_two_iff sint_abs)
  have same: "sar a (LENGTH('a) - 1) = sar b (LENGTH('a) - 1) \<longleftrightarrow> (sint a < 0) = (sint b < 0)"
    unfolding sar_sign by simp
  have "sint (sdiv_c (NOT int_min) (abs_word b)) = (2 ^ (LENGTH('a) - 1) - 1) div \<bar>sint b\<bar>"
    using assms big by (subst sint_sdiv_pos) (simp_all add: sint_int_max sint_abs del: not_eq_complement)
  moreover have "sint (sdiv_c int_min (- abs_word b)) = 2 ^ (LENGTH('a) - 1) div \<bar>sint b\<bar>"
    using assms big by (subst sint_min_sdiv_neg) (simp_all add: sint_abs)
  ultimately show ?thesis
    using product_fits_iff [of "sint a" "sint b" "LENGTH('a)"] big assms
    unfolding same word_sless_alt by (auto simp: sint_abs)
qed

lemma int_min_mul_fits:
  fixes a b :: "'a::len word"
  assumes wide: "2 < LENGTH('a)"
  shows "signed_fits LENGTH('a) (sint (int_min :: 'a word) * sint b) \<longleftrightarrow> b = 0 \<or> b = 1"
    and "signed_fits LENGTH('a) (sint a * sint (int_min :: 'a word)) \<longleftrightarrow> a = 0 \<or> a = 1"
proof -
  have "(1::int) < 2 ^ (LENGTH('a) - 1)" using wide by simp
  then have "sint (1 :: 'a word) = 1" by (intro sint_eq_of_range) (simp_all add: order_trans [of _ 0])
  then have "sint x = 0 \<or> sint x = 1 \<longleftrightarrow> x = 0 \<or> x = 1" for x :: "'a word"
    by (metis signed_0 signed_word_eqI)
  then show "signed_fits LENGTH('a) (sint (int_min :: 'a word) * sint b) \<longleftrightarrow> b = 0 \<or> b = 1"
    and "signed_fits LENGTH('a) (sint a * sint (int_min :: 'a word)) \<longleftrightarrow> a = 0 \<or> a = 1"
    unfolding sint_int_min mult.commute [of "sint a"] int_min_product_fits by simp_all
qed

text \<open>The decision that \<open>mulv\<close> and \<open>mulo\<close> share.\<close>

definition mul_overflows :: "'a::len word \<Rightarrow> 'a word \<Rightarrow> bool" where
  "mul_overflows a b \<longleftrightarrow>
     (if a = int_min then b \<noteq> 0 \<and> b \<noteq> 1
      else if b = int_min then a \<noteq> 0 \<and> a \<noteq> 1
      else if abs_word a <s 2 \<or> abs_word b <s 2 then False
      else if sar a (LENGTH('a) - 1) = sar b (LENGTH('a) - 1) then sdiv_c (NOT int_min) (abs_word b) <s abs_word a
      else sdiv_c int_min (- abs_word b) <s abs_word a)"

lemma mul_overflows_iff:
  fixes a b :: "'a::len word"
  assumes wide: "2 < LENGTH('a)"
  shows "mul_overflows a b \<longleftrightarrow> \<not> signed_fits LENGTH('a) (sint a * sint b)"
proof -
  consider "a = int_min" | "a \<noteq> int_min" "b = int_min"
    | "a \<noteq> int_min" "b \<noteq> int_min" "abs_word a <s 2 \<or> abs_word b <s 2"
    | "a \<noteq> int_min" "b \<noteq> int_min" "\<not> (abs_word a <s 2 \<or> abs_word b <s 2)"
    by blast
  then show ?thesis
  proof cases
    case 1
    then show ?thesis using int_min_mul_fits(1) [OF wide, of b] by (simp only: mul_overflows_def) simp
  next
    case 2
    then show ?thesis using int_min_mul_fits(2) [OF wide, of a] by (simp only: mul_overflows_def) simp
  next
    case 3
    then show ?thesis using mul_small_fits [OF wide 3] by (simp add: mul_overflows_def)
  next
    case 4
    then show ?thesis using mul_test_iff [OF wide 4] by (simp only: mul_overflows_def if_False)
  qed
qed

lemma mulv_eq:
  fixes a b :: "'a::len word"
  assumes wide: "2 < LENGTH('a)"
  shows "mulv a b = (if signed_fits LENGTH('a) (sint a * sint b) then Inr (a * b) else Inl Abort)"
proof -
  have "mulv a b = (if mul_overflows a b then Inl Abort else Inr (a * b))"
    unfolding mulv_def Let_def branch_free_abs shl_int_min abs_word_def [symmetric] mul_overflows_def
    by presburger
  then show ?thesis by (simp only: mul_overflows_iff [OF wide] if_not_P) simp
qed

text \<open>The reporting routine wraps, and its flag tells whether the wrapped product is exact.\<close>

lemma mulo_eq:
  fixes a b :: "'a::len word"
  assumes wide: "2 < LENGTH('a)"
  shows "mulo a b = (a * b, if signed_fits LENGTH('a) (sint a * sint b) then 0 else 1)"
proof -
  have "mulo a b = (a * b, if mul_overflows a b then 1 else 0)"
    unfolding mulo_def Let_def branch_free_abs shl_int_min abs_word_def [symmetric] mul_overflows_def
    by (rule prod_eqI) (simp_all only: fst_conv snd_conv if_distrib [of fst] if_distrib [of snd] if_cancel, presburger)
  then show ?thesis by (simp only: mul_overflows_iff [OF wide]) simp
qed

section \<open>The contract of a trapping routine\<close>

locale checked_unary =
  fixes f :: "'a::len word \<Rightarrow> 'a word fallible" and exact :: "int \<Rightarrow> int"
  assumes returns_if_fits: "signed_fits LENGTH('a) (exact (sint a)) \<Longrightarrow> f a = Inr (word_of_int (exact (sint a)))"
    and aborts_if_not: "\<not> signed_fits LENGTH('a) (exact (sint a)) \<Longrightarrow> f a = Inl Abort"
begin

lemma returns_exact: "f a = Inr r \<Longrightarrow> sint r = exact (sint a)"
  using returns_if_fits [of a] aborts_if_not [of a] sint_wrap_exact [where k = "exact (sint a)" and 'a = 'a]
  by (cases "signed_fits LENGTH('a) (exact (sint a))") auto

lemma aborts_iff: "f a = Inl Abort \<longleftrightarrow> \<not> signed_fits LENGTH('a) (exact (sint a))"
  using returns_if_fits [of a] aborts_if_not [of a] by auto

lemma unary_spec: "f a = Inr r \<longleftrightarrow> sint r = exact (sint a)"
proof
  assume r: "sint r = exact (sint a)"
  then have "signed_fits LENGTH('a) (exact (sint a))" using sint_fits [of r] by simp
  then show "f a = Inr r" using returns_if_fits [of a] r [symmetric] by simp
qed (rule returns_exact)

end

locale checked_binary =
  fixes f :: "'a::len word \<Rightarrow> 'a word \<Rightarrow> 'a word fallible" and exact :: "int \<Rightarrow> int \<Rightarrow> int"
  assumes returns_if_fits: "signed_fits LENGTH('a) (exact (sint a) (sint b)) \<Longrightarrow>
      f a b = Inr (word_of_int (exact (sint a) (sint b)))"
    and aborts_if_not: "\<not> signed_fits LENGTH('a) (exact (sint a) (sint b)) \<Longrightarrow> f a b = Inl Abort"
begin

lemma left_operand: "checked_unary (\<lambda>b. f a b) (\<lambda>y. exact (sint a) y)"
  by unfold_locales (auto intro: returns_if_fits aborts_if_not)

lemma binary_spec: "f a b = Inr r \<longleftrightarrow> sint r = exact (sint a) (sint b)"
  by (rule checked_unary.unary_spec [OF left_operand])

lemma aborts_iff: "f a b = Inl Abort \<longleftrightarrow> \<not> signed_fits LENGTH('a) (exact (sint a) (sint b))"
  by (rule checked_unary.aborts_iff [OF left_operand])

lemma commute: "(\<And>x y. exact x y = exact y x) \<Longrightarrow> f a b = f b a"
  by (cases "signed_fits LENGTH('a) (exact (sint a) (sint b))") (auto simp: returns_if_fits aborts_if_not)

end

lemmas trapping_defs = addvsi3_def addvdi3_def addvti3_def subvsi3_def subvdi3_def subvti3_def
  absvsi2_def absvdi2_def absvti2_def negvsi2_def negvdi2_def negvti2_def mulvsi3_def mulvdi3_def mulvti3_def

lemmas trapping_eqs = addv_eq subv_eq absv_eq negv_eq mulv_eq

interpretation addv32: checked_binary addvsi3 "(+)" by unfold_locales (simp_all add: trapping_defs trapping_eqs)
interpretation addv64: checked_binary addvdi3 "(+)" by unfold_locales (simp_all add: trapping_defs trapping_eqs)
interpretation addv128: checked_binary addvti3 "(+)" by unfold_locales (simp_all add: trapping_defs trapping_eqs)
interpretation subv32: checked_binary subvsi3 "(-)" by unfold_locales (simp_all add: trapping_defs trapping_eqs)
interpretation subv64: checked_binary subvdi3 "(-)" by unfold_locales (simp_all add: trapping_defs trapping_eqs)
interpretation subv128: checked_binary subvti3 "(-)" by unfold_locales (simp_all add: trapping_defs trapping_eqs)
interpretation mulv32: checked_binary mulvsi3 "(*)" by unfold_locales (simp_all add: trapping_defs trapping_eqs)
interpretation mulv64: checked_binary mulvdi3 "(*)" by unfold_locales (simp_all add: trapping_defs trapping_eqs)
interpretation mulv128: checked_binary mulvti3 "(*)" by unfold_locales (simp_all add: trapping_defs trapping_eqs)
interpretation absv32: checked_unary absvsi2 abs by unfold_locales (simp_all add: trapping_defs trapping_eqs)
interpretation absv64: checked_unary absvdi2 abs by unfold_locales (simp_all add: trapping_defs trapping_eqs)
interpretation absv128: checked_unary absvti2 abs by unfold_locales (simp_all add: trapping_defs trapping_eqs)
interpretation negv32: checked_unary negvsi2 uminus by unfold_locales (simp_all add: trapping_defs trapping_eqs)
interpretation negv64: checked_unary negvdi2 uminus by unfold_locales (simp_all add: trapping_defs trapping_eqs)
interpretation negv128: checked_unary negvti2 uminus by unfold_locales (simp_all add: trapping_defs trapping_eqs)

section \<open>Properties\<close>

text \<open>C7. \<open>__mulosi4\<close>, \<open>__mulodi4\<close> and \<open>__muloti4\<close> return the wrapped product and set the overflow
  flag exactly when the product of the values does not fit the signed type.\<close>

theorem mulo_reports_overflow:
  "mulosi4 a b = (a * b, if signed_fits 32 (sint a * sint b) then 0 else 1) \<and>
   mulodi4 c d = (c * d, if signed_fits 64 (sint c * sint d) then 0 else 1) \<and>
   muloti4 e f = (e * f, if signed_fits 128 (sint e * sint f) then 0 else 1)"
  by (simp add: mulosi4_def mulodi4_def muloti4_def mulo_eq)

text \<open>C36. The trapping routines return a value exactly when the true sum, difference, product, absolute value or
  negation fits, and then it is that value; in every other case they abort.  The trapping and the reporting
  multiplication of one width agree on which operands overflow.\<close>

theorem trapping_arithmetic_exact:
  "(addvsi3 a b = Inr r \<longleftrightarrow> sint r = sint a + sint b) \<and> (subvsi3 a b = Inr r \<longleftrightarrow> sint r = sint a - sint b) \<and>
   (addvdi3 c d = Inr s \<longleftrightarrow> sint s = sint c + sint d) \<and> (subvdi3 c d = Inr s \<longleftrightarrow> sint s = sint c - sint d) \<and>
   (addvti3 e f = Inr t \<longleftrightarrow> sint t = sint e + sint f) \<and> (subvti3 e f = Inr t \<longleftrightarrow> sint t = sint e - sint f) \<and>
   (mulvsi3 a b = Inr r \<longleftrightarrow> sint r = sint a * sint b) \<and> (mulvsi3 a b = Inl Abort \<longleftrightarrow> snd (mulosi4 a b) = 1) \<and>
   (mulvdi3 c d = Inr s \<longleftrightarrow> sint s = sint c * sint d) \<and> (mulvdi3 c d = Inl Abort \<longleftrightarrow> snd (mulodi4 c d) = 1) \<and>
   (mulvti3 e f = Inr t \<longleftrightarrow> sint t = sint e * sint f) \<and> (mulvti3 e f = Inl Abort \<longleftrightarrow> snd (muloti4 e f) = 1) \<and>
   (absvsi2 a = Inr r \<longleftrightarrow> sint r = \<bar>sint a\<bar>) \<and> (negvsi2 a = Inr r \<longleftrightarrow> sint r = - sint a) \<and>
   (absvdi2 c = Inr s \<longleftrightarrow> sint s = \<bar>sint c\<bar>) \<and> (negvdi2 c = Inr s \<longleftrightarrow> sint s = - sint c) \<and>
   (absvti2 e = Inr t \<longleftrightarrow> sint t = \<bar>sint e\<bar>) \<and> (negvti2 e = Inr t \<longleftrightarrow> sint t = - sint e)"
  by (intro conjI)
    (simp_all add: addv32.binary_spec addv64.binary_spec addv128.binary_spec
      subv32.binary_spec subv64.binary_spec subv128.binary_spec mulv32.binary_spec mulv64.binary_spec mulv128.binary_spec
      mulv32.aborts_iff mulv64.aborts_iff mulv128.aborts_iff mulosi4_def mulodi4_def muloti4_def mulo_eq
      absv32.unary_spec absv64.unary_spec absv128.unary_spec negv32.unary_spec negv64.unary_spec negv128.unary_spec)

end
