(* ===== verification/Shift_Compare.thy ===== *)
theory Shift_Compare
  imports Prelude
begin

text \<open>
  Shifts and three-way comparisons of double words: \<open>ashldi3.c\<close>, \<open>ashlti3.c\<close>, \<open>ashrdi3.c\<close>,
  \<open>ashrti3.c\<close>, \<open>lshrdi3.c\<close>, \<open>lshrti3.c\<close>, \<open>cmpdi2.c\<close>, \<open>cmpti2.c\<close>, \<open>ucmpdi2.c\<close>, \<open>ucmpti2.c\<close>.
  The shift distance is the \<open>si_int\<close> argument of the code.  The locale \<open>three_way\<close> is the contract of
  a comparison that answers 0, 1 or 2.
\<close>

section \<open>Shifts\<close>

definition ashldi3 :: "di_int \<Rightarrow> si_int \<Rightarrow> di_int" where
  "ashldi3 a b =
     (let bits_in_word = 32; high = high_half a :: si_int; low = low_half a :: su_int in
      if b AND bits_in_word \<noteq> 0 then make_dword (shl low (unat (b - bits_in_word))) 0
      else if b = 0 then a
      else make_dword (shl high (unat b) OR shr low (unat (bits_in_word - b))) (shl low (unat b)))"

definition ashlti3 :: "ti_int \<Rightarrow> si_int \<Rightarrow> ti_int" where
  "ashlti3 a b =
     (let bits_in_dword = 64; high = high_half a :: di_int; low = low_half a :: du_int in
      if b AND bits_in_dword \<noteq> 0 then make_dword (shl low (unat (b - bits_in_dword))) 0
      else if b = 0 then a
      else make_dword (shl high (unat b) OR shr low (unat (bits_in_dword - b))) (shl low (unat b)))"

definition ashrdi3 :: "di_int \<Rightarrow> si_int \<Rightarrow> di_int" where
  "ashrdi3 a b =
     (let bits_in_word = 32; high = high_half a :: si_int; low = low_half a :: su_int in
      if b AND bits_in_word \<noteq> 0
      then make_dword (sar high (unat (bits_in_word - 1))) (sar high (unat (b - bits_in_word)))
      else if b = 0 then a
      else make_dword (sar high (unat b)) (shl high (unat (bits_in_word - b)) OR shr low (unat b)))"

definition ashrti3 :: "ti_int \<Rightarrow> si_int \<Rightarrow> ti_int" where
  "ashrti3 a b =
     (let bits_in_dword = 64; high = high_half a :: di_int; low = low_half a :: du_int in
      if b AND bits_in_dword \<noteq> 0
      then make_dword (sar high (unat (bits_in_dword - 1))) (sar high (unat (b - bits_in_dword)))
      else if b = 0 then a
      else make_dword (sar high (unat b)) (shl high (unat (bits_in_dword - b)) OR shr low (unat b)))"

definition lshrdi3 :: "di_int \<Rightarrow> si_int \<Rightarrow> di_int" where
  "lshrdi3 a b =
     (let bits_in_word = 32; high = high_half a :: su_int; low = low_half a :: su_int in
      if b AND bits_in_word \<noteq> 0 then make_dword 0 (shr high (unat (b - bits_in_word)))
      else if b = 0 then a
      else make_dword (shr high (unat b)) (shl high (unat (bits_in_word - b)) OR shr low (unat b)))"

definition lshrti3 :: "ti_int \<Rightarrow> si_int \<Rightarrow> ti_int" where
  "lshrti3 a b =
     (let bits_in_dword = 64; high = high_half a :: du_int; low = low_half a :: du_int in
      if b AND bits_in_dword \<noteq> 0 then make_dword 0 (shr high (unat (b - bits_in_dword)))
      else if b = 0 then a
      else make_dword (shr high (unat b)) (shl high (unat (bits_in_dword - b)) OR shr low (unat b)))"

section \<open>The shifts are the word shifts\<close>

text \<open>The distance tests of the code, for a distance below the width of the double word.\<close>

lemma distance:
  fixes b c :: si_int
  assumes "c = 2 ^ n" "n < 31" "unat b < 2 * unat c"
  shows "b AND c = 0 \<longleftrightarrow> unat b < unat c"
    and "unat c \<le> unat b \<Longrightarrow> unat (b - c) = unat b - unat c"
    and "unat b < unat c \<Longrightarrow> unat (c - b) = unat c - unat b"
proof -
  have c: "unat c = 2 ^ n" using assms by (simp only: unat_exp_word) (simp add: unat_exp_word)
  then show "b AND c = 0 \<longleftrightarrow> unat b < unat c"
    using assms(3) and_exp_eq_0_iff [of b n] by (simp only: assms(1) c)
qed (simp_all add: unat_minus_le word_le_nat_alt)

lemmas distance32 = distance [of 32 5, simplified]
lemmas distance64 = distance [of 64 6, simplified]

lemma ashldi3_eq: "unat b < 64 \<Longrightarrow> ashldi3 a b = shl a (unat b)"
  using distance32 [of b] shl_dword_high [of "unat b" "low_half a :: 32 word" a]
    shl_dword_low [of "unat b" "high_half a :: 32 word" a]
  by (cases "unat b < 32") (auto simp: ashldi3_def Let_def unat_gt_0)

lemma ashlti3_eq: "unat b < 128 \<Longrightarrow> ashlti3 a b = shl a (unat b)"
  using distance64 [of b] shl_dword_high [of "unat b" "low_half a :: 64 word" a]
    shl_dword_low [of "unat b" "high_half a :: 64 word" a]
  by (cases "unat b < 64") (auto simp: ashlti3_def Let_def unat_gt_0)

lemma lshrdi3_eq: "unat b < 64 \<Longrightarrow> lshrdi3 a b = shr a (unat b)"
  using distance32 [of b] shr_dword_high [of "unat b" "high_half a :: 32 word" a]
    shr_dword_low [of "unat b" "high_half a :: 32 word" a]
  by (cases "unat b < 32") (auto simp: lshrdi3_def Let_def unat_gt_0)

lemma lshrti3_eq: "unat b < 128 \<Longrightarrow> lshrti3 a b = shr a (unat b)"
  using distance64 [of b] shr_dword_high [of "unat b" "high_half a :: 64 word" a]
    shr_dword_low [of "unat b" "high_half a :: 64 word" a]
  by (cases "unat b < 64") (auto simp: lshrti3_def Let_def unat_gt_0)

lemma sar_dword_low:
  fixes w :: "'d::len word" and nh nl :: "'h::len word"
  assumes width: "LENGTH('d) = 2 * LENGTH('h)" and k: "0 < k" "k < LENGTH('h)"
    and n: "nh = high_half w" "nl = low_half w"
  shows "sar w k = make_dword (sar nh k) (shl nh (LENGTH('h) - k) OR shr nl k)"
proof (rule bit_word_eqI)
  fix i
  assume i: "i < LENGTH('d)"
  show "bit (sar w k) i = bit (make_dword (sar nh k) (shl nh (LENGTH('h) - k) OR shr nl k) :: 'd word) i"
    using i assms bit_imp_le_length [of w]
    by (auto simp: bit_make_dword bit_halves bit_signed_drop_bit_iff bit_push_bit_iff bit_or_iff bit_drop_bit_eq
        add.commute mult_2 intro!: arg_cong [where f = "bit w"])
qed

lemma sar_dword_high:
  fixes w :: "'d::len word" and nh :: "'h::len word"
  assumes width: "LENGTH('d) = 2 * LENGTH('h)" and k: "LENGTH('h) \<le> k" "k < LENGTH('d)"
    and n: "nh = high_half w"
  shows "sar w k = make_dword (sar nh (LENGTH('h) - 1)) (sar nh (k - LENGTH('h)))"
proof (rule bit_word_eqI)
  fix i
  assume i: "i < LENGTH('d)"
  show "bit (sar w k) i = bit (make_dword (sar nh (LENGTH('h) - 1)) (sar nh (k - LENGTH('h))) :: 'd word) i"
    using i assms bit_imp_le_length [of w]
    by (auto simp: bit_make_dword bit_halves bit_signed_drop_bit_iff
        add.commute mult_2 intro!: arg_cong [where f = "bit w"])
qed

lemma ashrdi3_eq: "unat b < 64 \<Longrightarrow> ashrdi3 a b = sar a (unat b)"
  using distance32 [of b] sar_dword_high [of "unat b" "high_half a :: 32 word" a]
    sar_dword_low [of "unat b" "high_half a :: 32 word" a]
  by (cases "unat b < 32") (auto simp: ashrdi3_def Let_def unat_gt_0)

lemma ashrti3_eq: "unat b < 128 \<Longrightarrow> ashrti3 a b = sar a (unat b)"
  using distance64 [of b] sar_dword_high [of "unat b" "high_half a :: 64 word" a]
    sar_dword_low [of "unat b" "high_half a :: 64 word" a]
  by (cases "unat b < 64") (auto simp: ashrti3_def Let_def unat_gt_0)

section \<open>Comparisons\<close>

definition cmpdi2 :: "di_int \<Rightarrow> di_int \<Rightarrow> si_int" where
  "cmpdi2 a b =
     (let xh = high_half a :: si_int; xl = low_half a :: su_int;
          yh = high_half b :: si_int; yl = low_half b :: su_int in
      if xh <s yh then 0 else if yh <s xh then 2
      else if xl < yl then 0 else if yl < xl then 2 else 1)"

definition aeabi_lcmp :: "di_int \<Rightarrow> di_int \<Rightarrow> si_int" where
  "aeabi_lcmp a b = cmpdi2 a b - 1"

definition cmpti2 :: "ti_int \<Rightarrow> ti_int \<Rightarrow> si_int" where
  "cmpti2 a b =
     (let xh = high_half a :: di_int; xl = low_half a :: du_int;
          yh = high_half b :: di_int; yl = low_half b :: du_int in
      if xh <s yh then 0 else if yh <s xh then 2
      else if xl < yl then 0 else if yl < xl then 2 else 1)"

definition ucmpdi2 :: "du_int \<Rightarrow> du_int \<Rightarrow> si_int" where
  "ucmpdi2 a b =
     (let xh = high_half a :: su_int; xl = low_half a :: su_int;
          yh = high_half b :: su_int; yl = low_half b :: su_int in
      if xh < yh then 0 else if yh < xh then 2
      else if xl < yl then 0 else if yl < xl then 2 else 1)"

definition aeabi_ulcmp :: "di_int \<Rightarrow> di_int \<Rightarrow> si_int" where
  "aeabi_ulcmp a b = ucmpdi2 a b - 1"

definition ucmpti2 :: "tu_int \<Rightarrow> tu_int \<Rightarrow> si_int" where
  "ucmpti2 a b =
     (let xh = high_half a :: du_int; xl = low_half a :: du_int;
          yh = high_half b :: du_int; yl = low_half b :: du_int in
      if xh < yh then 0 else if yh < xh then 2
      else if xl < yl then 0 else if yl < xl then 2 else 1)"

text \<open>Numbers with two digits compare by the high digit first.\<close>

lemma digits_less_iff:
  fixes x y B u v :: int
  assumes "0 \<le> u" "u < B" "0 \<le> v" "v < B"
  shows "x * B + u < y * B + v \<longleftrightarrow> x < y \<or> x = y \<and> u < v"
proof -
  have 1: "x < y \<Longrightarrow> x * B + B \<le> y * B" for x y :: int
    using mult_right_mono [of "x + 1" y B] assms by (simp add: distrib_right)
  show ?thesis
    using 1 [of x y] 1 [of y x] assms by (cases x y rule: linorder_cases) auto
qed

lemma digits_eq_iff:
  fixes x y B u v :: int
  assumes "0 \<le> u" "u < B" "0 \<le> v" "v < B"
  shows "x * B + u = y * B + v \<longleftrightarrow> x = y \<and> u = v"
  using digits_less_iff [OF assms, of x y] digits_less_iff [OF assms(3,4,1,2), of y x] by fastforce

lemma three_way_digits:
  fixes x y B u v :: int
  assumes "0 \<le> u" "u < B" "0 \<le> v" "v < B"
  shows "(if x < y then 0 else if y < x then 2 else if u < v then 0 else if v < u then 2 else 1)
    = (if x * B + u < y * B + v then 0 else if x * B + u = y * B + v then 1 else 2 :: si_int)"
  unfolding digits_less_iff [OF assms] digits_eq_iff [OF assms] by auto

locale three_way =
  fixes cmp :: "'a::len word \<Rightarrow> 'a word \<Rightarrow> si_int" and key :: "'a word \<Rightarrow> int"
  assumes key_inject: "key a = key b \<longleftrightarrow> a = b"
    and cmp_spec: "cmp a b = (if key a < key b then 0 else if key a = key b then 1 else 2)"
begin

lemma less_iff: "cmp a b = 0 \<longleftrightarrow> key a < key b"
  by (simp add: cmp_spec)

lemma equal_iff: "cmp a b = 1 \<longleftrightarrow> a = b"
  by (simp add: cmp_spec key_inject)

lemma greater_iff: "cmp a b = 2 \<longleftrightarrow> key b < key a"
  by (auto simp: cmp_spec)

lemma antisymmetric: "cmp b a = 2 - cmp a b"
  by (simp add: cmp_spec)

lemma transitive: "cmp a b \<noteq> 2 \<Longrightarrow> cmp b c \<noteq> 2 \<Longrightarrow> cmp a c \<noteq> 2"
  by (simp add: greater_iff)

lemma minus_one_is_sign: "sint (cmp a b - 1) = sgn (key a - key b)"
  by (simp add: cmp_spec sgn_if)

end

lemmas comparison_defs = cmpdi2_def cmpti2_def ucmpdi2_def ucmpti2_def

lemma cmp_halves_signed:
  fixes a b :: "'d::len word" and xh xl yh yl :: "'h::len word"
  assumes "LENGTH('d) = 2 * LENGTH('h)"
    and "xh = high_half a" "xl = low_half a" "yh = high_half b" "yl = low_half b"
  shows "(if xh <s yh then 0 else if yh <s xh then 2 else if xl < yl then 0 else if yl < xl then 2 else 1)
    = (if sint a < sint b then 0 else if sint a = sint b then 1 else 2 :: si_int)"
  unfolding sint_halves [OF assms(1)] assms(2-) word_sless_alt word_less_def
  by (rule three_way_digits) (simp_all add: unsigned_less)

lemma cmp_halves_unsigned:
  fixes a b :: "'d::len word" and xh xl yh yl :: "'h::len word"
  assumes "LENGTH('d) = 2 * LENGTH('h)"
    and "xh = high_half a" "xl = low_half a" "yh = high_half b" "yl = low_half b"
  shows "(if xh < yh then 0 else if yh < xh then 2 else if xl < yl then 0 else if yl < xl then 2 else 1)
    = (if uint a < uint b then 0 else if uint a = uint b then 1 else 2 :: si_int)"
  unfolding uint_halves [OF assms(1)] assms(2-) word_less_def
  by (rule three_way_digits) (simp_all add: unsigned_less)

interpretation cmp64: three_way cmpdi2 sint
  by unfold_locales (rule word_eq_iff_signed [symmetric], simp only: cmpdi2_def Let_def,
      rule cmp_halves_signed, simp_all)

interpretation cmp128: three_way cmpti2 sint
  by unfold_locales (rule word_eq_iff_signed [symmetric], simp only: cmpti2_def Let_def,
      rule cmp_halves_signed, simp_all)

interpretation ucmp64: three_way ucmpdi2 uint
  by unfold_locales (rule word_uint_eq_iff [symmetric], simp only: ucmpdi2_def Let_def, rule cmp_halves_unsigned, simp_all)

interpretation ucmp128: three_way ucmpti2 uint
  by unfold_locales (rule word_uint_eq_iff [symmetric], simp only: ucmpti2_def Let_def, rule cmp_halves_unsigned, simp_all)

lemma aeabi_lcmp_eq: "sint (aeabi_lcmp a b) = sgn (sint a - sint b)"
  unfolding aeabi_lcmp_def by (rule cmp64.minus_one_is_sign)

lemma aeabi_ulcmp_eq: "sint (aeabi_ulcmp a b) = sgn (uint a - uint b)"
  unfolding aeabi_ulcmp_def by (rule ucmp64.minus_one_is_sign)

section \<open>Properties\<close>

text \<open>C37. For a distance below the width, the double-word shifts built from the two halves are the
  shifts of the whole word: left, arithmetic right and logical right, at 64 and at 128 bits.\<close>

theorem shifts_correct:
  assumes "unat b < 64" "unat d < 128"
  shows "ashldi3 a b = shl a (unat b) \<and> ashrdi3 a b = sar a (unat b) \<and> lshrdi3 a b = shr a (unat b) \<and>
    ashlti3 c d = shl c (unat d) \<and> ashrti3 c d = sar c (unat d) \<and> lshrti3 c d = shr c (unat d)"
  using assms by (simp add: ashldi3_eq ashrdi3_eq lshrdi3_eq ashlti3_eq ashrti3_eq lshrti3_eq)

theorem shifts_correct_witness:
  "ashldi3 1 33 = shl 1 33 \<and> lshrti3 5 127 = shr 5 127"
  using shifts_correct [of 33 127 1 5] shifts_correct [of 33 127 1 5] by simp

text \<open>The three-way comparisons answer 0, 1, 2 for less, equal, greater, by the signed value for
  \<open>__cmpdi2\<close> and \<open>__cmpti2\<close> and by the unsigned value for \<open>__ucmpdi2\<close> and \<open>__ucmpti2\<close>; the AEABI
  variants answer with the sign of the difference.\<close>

theorem comparisons_correct:
  "cmpdi2 a b = (if a <s b then 0 else if a = b then 1 else 2) \<and>
   ucmpdi2 a b = (if a < b then 0 else if a = b then 1 else 2) \<and>
   cmpti2 c d = (if c <s d then 0 else if c = d then 1 else 2) \<and>
   ucmpti2 c d = (if c < d then 0 else if c = d then 1 else 2) \<and>
   sint (aeabi_lcmp a b) = sgn (sint a - sint b) \<and> sint (aeabi_ulcmp a b) = sgn (uint a - uint b)"
  by (simp only: cmp64.cmp_spec ucmp64.cmp_spec cmp128.cmp_spec ucmp128.cmp_spec aeabi_lcmp_eq aeabi_ulcmp_eq
      word_sless_alt word_less_def word_eq_iff_signed [symmetric] word_uint_eq_iff [symmetric])

end
