(* ===== verification/Bit_Sum.thy ===== *)
theory Bit_Sum
  imports Prelude
begin

text \<open>
  Counting one bits, their parity and byte order: \<open>popcountsi2.c\<close>, \<open>popcountdi2.c\<close>, \<open>popcountti2.c\<close>,
  \<open>paritysi2.c\<close>, \<open>paritydi2.c\<close>, \<open>parityti2.c\<close>, \<open>bswapsi2.c\<close>, \<open>bswapdi2.c\<close>.  The population count adds
  neighbouring fields in parallel; its proof reads a word as the list of its digits in base \<open>2 ^ w\<close>
  and shows that each step replaces neighbouring digits by their sums.
\<close>

section \<open>The routines\<close>

definition popcountsi2 :: "si_int \<Rightarrow> si_int" where
  "popcountsi2 a =
     (let x = a :: su_int;
          x = x - (shr x 1 AND 0x55555555);
          x = (shr x 2 AND 0x33333333) + (x AND 0x33333333);
          x = (x + shr x 4) AND 0x0F0F0F0F;
          x = x + shr x 16
      in (x + shr x 8) AND 0x0000003F)"

definition popcountdi2 :: "di_int \<Rightarrow> si_int" where
  "popcountdi2 a =
     (let x2 = a :: du_int;
          x2 = x2 - (shr x2 1 AND 0x5555555555555555);
          x2 = (shr x2 2 AND 0x3333333333333333) + (x2 AND 0x3333333333333333);
          x2 = (x2 + shr x2 4) AND 0x0F0F0F0F0F0F0F0F;
          x = ucast (x2 + shr x2 32) :: su_int;
          x = x + shr x 16
      in (x + shr x 8) AND 0x0000007F)"

definition popcountti2 :: "ti_int \<Rightarrow> si_int" where
  "popcountti2 a =
     (let x3 = a :: tu_int;
          x3 = x3 - (shr x3 1 AND (shl 0x5555555555555555 64 OR 0x5555555555555555));
          x3 = (shr x3 2 AND (shl 0x3333333333333333 64 OR 0x3333333333333333))
             + (x3 AND (shl 0x3333333333333333 64 OR 0x3333333333333333));
          x3 = (x3 + shr x3 4) AND (shl 0x0F0F0F0F0F0F0F0F 64 OR 0x0F0F0F0F0F0F0F0F);
          x2 = ucast (x3 + shr x3 64) :: du_int;
          x = ucast (x2 + shr x2 32) :: su_int;
          x = x + shr x 16
      in (x + shr x 8) AND 0xFF)"

definition paritysi2 :: "si_int \<Rightarrow> si_int" where
  "paritysi2 a =
     (let x = a :: su_int;
          x = x XOR shr x 16;
          x = x XOR shr x 8;
          x = x XOR shr x 4
      in shr 0x6996 (unat (x AND 0xF)) AND 1)"

definition paritydi2 :: "di_int \<Rightarrow> si_int" where
  "paritydi2 a = paritysi2 (high_half a XOR low_half a)"

definition parityti2 :: "ti_int \<Rightarrow> si_int" where
  "parityti2 a = paritydi2 (high_half a XOR low_half a)"

definition bswapsi2 :: "32 word \<Rightarrow> 32 word" where
  "bswapsi2 u = shr (u AND 0xff000000) 24 OR shr (u AND 0x00ff0000) 8
     OR shl (u AND 0x0000ff00) 8 OR shl (u AND 0x000000ff) 24"

definition bswapdi2 :: "64 word \<Rightarrow> 64 word" where
  "bswapdi2 u = shr (u AND 0xff00000000000000) 56 OR shr (u AND 0x00ff000000000000) 40
     OR shr (u AND 0x0000ff0000000000) 24 OR shr (u AND 0x000000ff00000000) 8
     OR shl (u AND 0x00000000ff000000) 8 OR shl (u AND 0x0000000000ff0000) 24
     OR shl (u AND 0x000000000000ff00) 40 OR shl (u AND 0x00000000000000ff) 56"

section \<open>What they count\<close>

definition ones :: "'a::len word \<Rightarrow> nat" where
  "ones a = length (filter (bit a) [0..<LENGTH('a)])"

lemma ones_card: "ones a = card {n. bit a n}" for a :: "'a::len word"
proof -
  have "set (filter (bit a) [0..<LENGTH('a)]) = {n. bit a n}" by (auto dest: bit_imp_le_length)
  then show ?thesis unfolding ones_def by (metis distinct_card distinct_filter distinct_upt)
qed

lemma ones_le: "ones (a :: 'a::len word) \<le> LENGTH('a)"
  unfolding ones_def by (metis length_filter_le length_upt minus_nat.diff_0)

lemma ones_halves:
  fixes a :: "'d::len word"
  assumes width: "LENGTH('d) = 2 * LENGTH('h::len)"
  shows "ones a = ones (high_half a :: 'h word) + ones (low_half a :: 'h word)"
proof -
  have upper: "map (\<lambda>i. i + LENGTH('h)) [0..<LENGTH('h)] = [LENGTH('h)..<LENGTH('h) + LENGTH('h)]"
    by (rule map_add_upt)
  have "[0..<LENGTH('d)] = [0..<LENGTH('h)] @ map (\<lambda>i. i + LENGTH('h)) [0..<LENGTH('h)]"
    unfolding width mult_2 upper by (rule upt_add_eq_append) simp
  moreover have "filter (bit (low_half a :: 'h word)) [0..<LENGTH('h)] = filter (bit a) [0..<LENGTH('h)]"
    by (rule filter_cong) (simp_all add: bit_halves [OF width])
  moreover have "bit (high_half a :: 'h word) = bit a \<circ> (\<lambda>i. i + LENGTH('h))"
    by (simp add: fun_eq_iff bit_halves [OF width] add.commute)
  ultimately show ?thesis
    by (simp add: ones_def filter_map)
qed

section \<open>Parity\<close>

fun xor_bits :: "'a::len word \<Rightarrow> nat \<Rightarrow> bool" where
  "xor_bits x 0 = False"
| "xor_bits x (Suc n) = (bit x n \<noteq> xor_bits x n)"

lemma xor_bits_ones: "xor_bits a n = odd (length (filter (bit a) [0..<n]))"
  by (induction n) auto

lemma xor_bits_xor: "xor_bits (x XOR y) n = (xor_bits x n \<noteq> xor_bits y n)"
  by (induction n) (auto simp: bit_xor_iff)

lemma xor_bits_add: "xor_bits x (m + n) = (xor_bits x m \<noteq> xor_bits (shr x m) n)"
  by (induction n) (auto simp: bit_drop_bit_eq add.commute)

text \<open>Folding the upper half of the bits onto the lower half keeps the parity.\<close>

lemma xor_bits_fold: "xor_bits (x XOR shr x n) n = xor_bits x (n + n)"
  by (simp add: xor_bits_xor xor_bits_add)

lemma parity_nibbles:
  "list_all (\<lambda>k. shr 0x6996 k AND 1 = (of_bool (xor_bits (word_of_nat k :: su_int) 4) :: si_int)) [0..<16]"
  by code_simp

lemma parity_table: "shr 0x6996 (unat (x AND 0xF)) AND 1 = (of_bool (xor_bits x 4) :: si_int)" for x :: su_int
proof -
  have mask: "x AND 0xF = take_bit 4 x" by (simp add: take_bit_eq_mask mask_eq_exp_minus_1)
  have bits: "xor_bits x 4 = xor_bits (x AND 0xF) 4"
    unfolding mask by (simp add: numeral_eq_Suc bit_take_bit_iff)
  define k where "k = unat (x AND 0xF)"
  have "k < 16" using take_bit_nat_less_exp [of 4 "unat x"]
    unfolding k_def mask unsigned_take_bit_eq by simp
  moreover have "x AND 0xF = of_nat k" by (simp add: k_def)
  ultimately show ?thesis
    using parity_nibbles unfolding bits k_def [symmetric] list_all_iff by auto
qed

lemma paritysi2_eq: "paritysi2 a = of_nat (ones a mod 2)"
  unfolding paritysi2_def Let_def parity_table
  using xor_bits_fold [of a 16] xor_bits_fold [of "a XOR shr a 16" 8]
    xor_bits_fold [of "(a XOR shr a 16) XOR shr (a XOR shr a 16) 8" 4]
  by (simp add: xor_bits_ones ones_def odd_iff_mod_2_eq_one)

lemma ones_xor_parity: "ones (x XOR y) mod 2 = (ones x + ones y) mod 2" for x y :: "'a::len word"
  using xor_bits_xor [of x y "LENGTH('a)"]
  by (simp add: xor_bits_ones flip: ones_def) presburger

lemma paritydi2_eq: "paritydi2 a = of_nat (ones a mod 2)"
  by (simp add: paritydi2_def paritysi2_eq ones_xor_parity ones_halves [where 'h = 32 and a = a])

lemma parityti2_eq: "parityti2 a = of_nat (ones a mod 2)"
  by (simp add: parityti2_def paritydi2_eq ones_xor_parity ones_halves [where 'h = 64 and a = a])

section \<open>Byte order\<close>

text \<open>Byte \<open>k\<close> of the result is byte \<open>3 - k\<close>, respectively \<open>7 - k\<close>, of the argument.\<close>

lemma byte_masks32:
  "(0x000000ff :: 32 word) = mask 8" "(0x0000ff00 :: 32 word) = shl (mask 8) 8"
  "(0x00ff0000 :: 32 word) = shl (mask 8) 16" "(0xff000000 :: 32 word) = shl (mask 8) 24"
  by (simp_all add: mask_eq_exp_minus_1 push_bit_eq_mult)

lemma byte_masks64:
  "(0xff :: 64 word) = mask 8" "(0xff00 :: 64 word) = shl (mask 8) 8"
  "(0xff0000 :: 64 word) = shl (mask 8) 16" "(0xff000000 :: 64 word) = shl (mask 8) 24"
  "(0xff00000000 :: 64 word) = shl (mask 8) 32" "(0xff0000000000 :: 64 word) = shl (mask 8) 40"
  "(0xff000000000000 :: 64 word) = shl (mask 8) 48" "(0xff00000000000000 :: 64 word) = shl (mask 8) 56"
  by (simp_all add: mask_eq_exp_minus_1 push_bit_eq_mult)

lemma bit_bswapsi2: "n < 32 \<Longrightarrow> bit (bswapsi2 u) n = bit u (8 * (3 - n div 8) + n mod 8)"
proof -
  assume n: "n < 32"
  define q r where "q = n div 8" and "r = n mod 8"
  have nqr: "n = 8 * q + r" and r: "r < 8" and q: "q < 4" using n by (auto simp: q_def r_def)
  have "q = 0 \<or> q = 1 \<or> q = 2 \<or> q = 3" using q by linarith
  then have "bit (bswapsi2 u) (8 * q + r) = bit u (8 * (3 - q) + r)"
    using r unfolding bswapsi2_def byte_masks32
    by (elim disjE) (simp_all add: bit_or_iff bit_and_iff bit_push_bit_iff bit_drop_bit_eq bit_mask_iff)
  then show ?thesis unfolding nqr [symmetric] unfolding q_def r_def .
qed

lemma bit_bswapdi2: "n < 64 \<Longrightarrow> bit (bswapdi2 u) n = bit u (8 * (7 - n div 8) + n mod 8)"
proof -
  assume n: "n < 64"
  define q r where "q = n div 8" and "r = n mod 8"
  have nqr: "n = 8 * q + r" and r: "r < 8" and q: "q < 8" using n by (auto simp: q_def r_def)
  have "q = 0 \<or> q = 1 \<or> q = 2 \<or> q = 3 \<or> q = 4 \<or> q = 5 \<or> q = 6 \<or> q = 7" using q by linarith
  then have "bit (bswapdi2 u) (8 * q + r) = bit u (8 * (7 - q) + r)"
    using r unfolding bswapdi2_def byte_masks64
    by (elim disjE) (simp_all add: bit_or_iff bit_and_iff bit_push_bit_iff bit_drop_bit_eq bit_mask_iff)
  then show ?thesis unfolding nqr [symmetric] unfolding q_def r_def .
qed

lemma byte_swap_index: "n < 8 * Suc k \<Longrightarrow> 8 * (k - (8 * (k - n div 8) + n mod 8) div 8) + n mod 8 = n"
  by (simp add: less_Suc_eq_le div_le_mono)

lemma bswapsi2_involution: "bswapsi2 (bswapsi2 u) = u"
proof (rule bit_word_eqI)
  fix n
  assume n: "n < LENGTH(32)"
  then have "8 * (3 - n div 8) + n mod 8 < 32" by simp
  then show "bit (bswapsi2 (bswapsi2 u)) n = bit u n"
    using n byte_swap_index [of n 3] by (simp add: bit_bswapsi2)
qed

lemma bswapdi2_involution: "bswapdi2 (bswapdi2 u) = u"
proof (rule bit_word_eqI)
  fix n
  assume n: "n < LENGTH(64)"
  then have "8 * (7 - n div 8) + n mod 8 < 64" by simp
  then show "bit (bswapdi2 (bswapdi2 u)) n = bit u n"
    using n byte_swap_index [of n 7] by (simp add: bit_bswapdi2)
qed

section \<open>Digits\<close>

fun digits :: "nat \<Rightarrow> nat list \<Rightarrow> nat" where
  "digits B [] = 0"
| "digits B (d # ds) = d + B * digits B ds"

fun evens :: "'a list \<Rightarrow> 'a list" where
  "evens (x # y # zs) = x # evens zs"
| "evens _ = []"

fun odds :: "'a list \<Rightarrow> 'a list" where
  "odds (x # y # zs) = y # odds zs"
| "odds _ = []"

definition pair_sums :: "nat list \<Rightarrow> nat list" where
  "pair_sums ds = map2 (+) (evens ds) (odds ds)"

text \<open>The masks of the code: ones in every second field of \<open>w\<close> bits.\<close>

fun alt_mask :: "nat \<Rightarrow> nat \<Rightarrow> nat" where
  "alt_mask w 0 = 0"
| "alt_mask w (Suc k) = mask w + 2 ^ (w + w) * alt_mask w k"

lemma digits_less: "\<forall>d\<in>set ds. d < B \<Longrightarrow> digits B ds < B ^ length ds"
proof (induction ds)
  case (Cons d ds)
  then have "d + B * digits B ds < B + B * digits B ds" by simp
  also have "\<dots> = B * Suc (digits B ds)" by simp
  also have "\<dots> \<le> B * B ^ length ds" using Cons by (intro mult_le_mono2) auto
  finally show ?case by simp
qed simp

lemma digits_add: "length xs = length ys \<Longrightarrow> digits B (map2 (+) xs ys) = digits B xs + digits B ys"
  by (induction xs ys rule: list_induct2) (simp_all add: algebra_simps)

lemma digits_append: "digits B (xs @ ys) = digits B xs + B ^ length xs * digits B ys"
  by (induction xs) (simp_all add: algebra_simps)

lemma length_evens_odds: "even (length ds) \<Longrightarrow> length (evens ds) = length ds div 2 \<and> length (odds ds) = length ds div 2"
  by (induction ds rule: evens.induct) auto

lemma digits_evens_odds:
  "even (length ds) \<Longrightarrow> digits B ds = digits (B * B) (evens ds) + B * digits (B * B) (odds ds)"
  by (induction ds rule: evens.induct) (auto simp: algebra_simps)

lemma sum_list_pair_sums: "even (length ds) \<Longrightarrow> sum_list (pair_sums ds) = sum_list ds"
  unfolding pair_sums_def by (induction ds rule: evens.induct) auto

lemma length_pair_sums: "even (length ds) \<Longrightarrow> length (pair_sums ds) = length ds div 2"
  unfolding pair_sums_def using length_evens_odds [of ds] by simp

lemma pair_sums_bound: "even (length ds) \<Longrightarrow> \<forall>d\<in>set ds. d \<le> c \<Longrightarrow> \<forall>d\<in>set (pair_sums ds). d \<le> 2 * c"
  unfolding pair_sums_def by (induction ds rule: evens.induct) auto

text \<open>Conjunction works on two bit fields independently.\<close>

lemma and_fields:
  fixes l l' h h' :: nat
  assumes "l < 2 ^ m" "l' < 2 ^ m"
  shows "(l + 2 ^ m * h) AND (l' + 2 ^ m * h') = (l AND l') + 2 ^ m * (h AND h')"
proof -
  have "l AND l' < 2 ^ m" using assms by (metis take_bit_and take_bit_nat_eq_self_iff)
  then show ?thesis by (intro bit_eqI) (auto simp: bit_and_iff bit_field assms)
qed

lemma mask_self: "d < 2 ^ w \<Longrightarrow> d AND mask w = d" for d :: nat
  by (simp add: take_bit_nat_eq_self flip: take_bit_eq_mask)

lemma evens_and_mask:
  assumes "even (length ds)" "\<forall>d\<in>set ds. d < 2 ^ w"
  shows "digits (2 ^ w) ds AND alt_mask w (length ds div 2) = digits (2 ^ w * 2 ^ w) (evens ds)"
  using assms
proof (induction ds rule: evens.induct)
  case (1 x y zs)
  have x: "x + 2 ^ w * y < 2 ^ (w + w)" and m: "mask w < (2::nat) ^ (w + w)"
    using digits_less [of "[x, y]" "2 ^ w"] 1 by (simp_all add: power2_eq_square power_add mask_nat_less_exp less_le_trans [OF mask_nat_less_exp])
  have "(x + 2 ^ w * y) AND (mask w + 2 ^ w * 0) = (x AND mask w) + 2 ^ w * (y AND 0)"
    using 1 by (intro and_fields) (simp_all add: mask_nat_less_exp)
  then have "(x + 2 ^ w * y) AND mask w = x" using 1 by (simp add: mask_self)
  moreover have "digits (2 ^ w) (x # y # zs) = (x + 2 ^ w * y) + 2 ^ (w + w) * digits (2 ^ w) zs"
    by (simp add: algebra_simps power_add)
  ultimately show ?case
    using 1 and_fields [OF x m, unfolded power_add] by (simp add: power_add del: digits.simps) simp
qed simp_all

lemma odds_and_mask:
  assumes "even (length ds)" "\<forall>d\<in>set ds. d < 2 ^ w"
  shows "(digits (2 ^ w) ds div 2 ^ w) AND alt_mask w (length ds div 2) = digits (2 ^ w * 2 ^ w) (odds ds)"
  using assms
proof (induction ds rule: evens.induct)
  case (1 x y zs)
  define n where "n = digits (2 ^ w) zs"
  define a where "a = n mod 2 ^ w"
  have a: "a < 2 ^ w" by (simp add: a_def)
  have n: "n = a + 2 ^ w * (n div 2 ^ w)" unfolding a_def by simp
  have x: "y + 2 ^ w * a < 2 ^ (w + w)" and m: "mask w < (2::nat) ^ (w + w)"
    using digits_less [of "[y, a]" "2 ^ w"] 1 a
    by (simp_all add: power2_eq_square power_add less_le_trans [OF mask_nat_less_exp])
  have "(y + 2 ^ w * a) AND (mask w + 2 ^ w * 0) = (y AND mask w) + 2 ^ w * (a AND 0)"
    using 1 a by (intro and_fields) (simp_all add: mask_nat_less_exp)
  then have low: "(y + 2 ^ w * a) AND mask w = y" using 1 by (simp add: mask_self)
  have "digits (2 ^ w) (x # y # zs) div 2 ^ w = y + 2 ^ w * n"
    using 1 by (simp add: n_def)
  also have "\<dots> = (y + 2 ^ w * a) + 2 ^ (w + w) * (n div 2 ^ w)"
    by (subst n) (simp add: algebra_simps power_add)
  finally show ?case
    using 1 and_fields [OF x m, unfolded power_add] by (simp add: low n_def power_add del: digits.simps) simp
qed simp_all

section \<open>The steps of the population count\<close>

definition fields :: "nat \<Rightarrow> 'a::len word \<Rightarrow> nat list \<Rightarrow> bool" where
  "fields w x ds \<longleftrightarrow> unat x = digits (2 ^ w) ds \<and> w * length ds = LENGTH('a)"

lemma field_masks:
  fixes x m :: "'a::len word"
  assumes "fields w x ds" "even (length ds)" "\<forall>d\<in>set ds. d < 2 ^ w" "unat m = alt_mask w (length ds div 2)"
  shows "unat (x AND m) = digits (2 ^ (2 * w)) (evens ds)"
    and "unat (shr x w AND m) = digits (2 ^ (2 * w)) (odds ds)"
  using assms evens_and_mask [of ds w] odds_and_mask [of ds w]
  by (simp_all add: fields_def unsigned_and_eq unat_shr mult_2 power_add)

lemma digits_pair_sums:
  "even (length ds) \<Longrightarrow> digits B (pair_sums ds) = digits B (evens ds) + digits B (odds ds)"
  unfolding pair_sums_def using length_evens_odds [of ds] by (intro digits_add) simp

lemma step_bits:
  fixes x m :: "'a::len word"
  assumes "fields 1 x ds" "even (length ds)" "\<forall>d\<in>set ds. d < 2" "unat m = alt_mask 1 (length ds div 2)"
  shows "fields 2 (x - (shr x 1 AND m)) (pair_sums ds)"
proof -
  have odd: "unat (shr x 1 AND m) = digits 4 (odds ds)"
    using field_masks(2) [of 1 x ds m] assms by simp
  have x: "unat x = digits 4 (evens ds) + 2 * digits 4 (odds ds)"
    using assms digits_evens_odds [of ds 2] by (simp add: fields_def)
  have "shr x 1 AND m \<le> x" unfolding word_le_nat_alt odd x by simp
  then have "unat (x - (shr x 1 AND m)) = digits 4 (pair_sums ds)"
    using assms by (simp only: unat_minus_le odd x digits_pair_sums)
  then show ?thesis using assms by (simp add: fields_def length_pair_sums)
qed

lemma step_pairs:
  fixes x m :: "'a::len word"
  assumes x: "fields w x ds" and even: "even (length ds)" and b: "\<forall>d\<in>set ds. d \<le> c"
    and c: "2 * c < 2 ^ (2 * w)" "c < 2 ^ w" and m: "unat m = alt_mask w (length ds div 2)"
  shows "fields (2 * w) ((shr x w AND m) + (x AND m)) (pair_sums ds)"
proof -
  have "\<forall>d\<in>set ds. d < 2 ^ w" using b c by auto
  note masks = field_masks [OF x even this m]
  have small: "digits (2 ^ (2 * w)) (pair_sums ds) < (2 ^ (2 * w)) ^ length (pair_sums ds)"
    using pair_sums_bound [OF even b] c by (intro digits_less) auto
  have len: "2 * w * length (pair_sums ds) = LENGTH('a)"
    using x even by (auto simp: fields_def length_pair_sums)
  then have "unat ((shr x w AND m) + (x AND m)) = digits (2 ^ (2 * w)) (pair_sums ds)"
    using small even by (simp add: unat_plus_mod masks digits_pair_sums add.commute flip: power_mult)
  then show ?thesis using len by (simp add: fields_def)
qed

text \<open>Adding each field to its neighbour without carries; the mask then keeps every second sum.\<close>

definition neighbour_sums :: "nat list \<Rightarrow> nat list" where
  "neighbour_sums ds = map2 (+) ds (tl ds @ [0])"

lemma neighbour_sums_simps:
  "neighbour_sums [] = []" "neighbour_sums [x] = [x]"
  "neighbour_sums (x # y # zs) = (x + y) # neighbour_sums (y # zs)"
  by (simp_all add: neighbour_sums_def)

lemma digits_neighbour_sums:
  assumes "ds \<noteq> []" "hd ds < B"
  shows "digits B (neighbour_sums ds) = digits B ds + digits B ds div B"
proof -
  obtain d es where ds: "ds = d # es" using assms by (cases ds) auto
  have "digits B (neighbour_sums ds) = digits B ds + digits B (es @ [0])"
    unfolding neighbour_sums_def ds by (subst digits_add) auto
  then show ?thesis using assms by (simp add: ds digits_append)
qed

lemma neighbour_sums_bound: "\<forall>d\<in>set ds. d \<le> c \<Longrightarrow> \<forall>d\<in>set (neighbour_sums ds). d \<le> 2 * c"
  by (induction ds rule: induct_list012) (auto simp: neighbour_sums_simps)

lemma length_neighbour_sums: "length (neighbour_sums ds) = length ds"
  by (cases ds) (simp_all add: neighbour_sums_def)

lemma evens_neighbour_sums: "even (length ds) \<Longrightarrow> evens (neighbour_sums ds) = pair_sums ds"
proof (induction ds rule: evens.induct)
  case (1 x y zs)
  then show ?case by (cases zs) (simp_all add: neighbour_sums_simps pair_sums_def)
qed (simp_all add: neighbour_sums_simps pair_sums_def)

lemma step_nibbles:
  fixes x m :: "'a::len word"
  assumes x: "fields w x ds" and even: "even (length ds)" and b: "\<forall>d\<in>set ds. d \<le> c"
    and c: "2 * c < 2 ^ w" and m: "unat m = alt_mask w (length ds div 2)"
  shows "fields (2 * w) ((x + shr x w) AND m) (pair_sums ds)"
proof -
  have ne: "ds \<noteq> []" using x by (auto simp: fields_def)
  have "hd ds < 2 ^ w" using b c ne hd_in_set [OF ne] by fastforce
  then have eq: "unat x + unat (shr x w) = digits (2 ^ w) (neighbour_sums ds)"
    using x ne by (simp add: fields_def unat_shr digits_neighbour_sums)
  have nb: "\<forall>d\<in>set (neighbour_sums ds). d < 2 ^ w"
    using neighbour_sums_bound [OF b] c by fastforce
  then have "digits (2 ^ w) (neighbour_sums ds) < 2 ^ LENGTH('a)"
    using digits_less [OF nb] x by (simp add: fields_def length_neighbour_sums flip: power_mult)
  then have "fields w (x + shr x w) (neighbour_sums ds)"
    using x eq by (simp add: fields_def unat_plus_mod length_neighbour_sums)
  then have "unat ((x + shr x w) AND m) = digits (2 ^ (2 * w)) (pair_sums ds)"
    using field_masks(1) [of w _ "neighbour_sums ds" m] even nb m
    by (simp add: length_neighbour_sums evens_neighbour_sums)
  then show ?thesis using x even by (auto simp: fields_def length_pair_sums)
qed

lemma sum_list_map2_add:
  "length xs = length ys \<Longrightarrow> sum_list (map2 (+) xs ys) = sum_list xs + sum_list ys" for xs ys :: "nat list"
  by (induction xs ys rule: list_induct2) simp_all

text \<open>Adding the upper half of the bytes to the lower half.\<close>

definition half_sums :: "nat list \<Rightarrow> nat list" where
  "half_sums ds = map2 (+) (take (length ds div 2) ds) (drop (length ds div 2) ds)"

lemma step_halves:
  fixes x :: "'d::len word"
  assumes width: "LENGTH('d) = 2 * LENGTH('h::len)" and x: "fields 8 x ds"
    and b: "\<forall>d\<in>set ds. d \<le> c" and c: "2 * c < 256" and n: "n = LENGTH('h)" and even: "even (length ds)"
  shows "fields 8 (ucast (x + shr x n) :: 'h word) (half_sums ds)"
    and "sum_list (half_sums ds) = sum_list ds" and "length (half_sums ds) = length ds div 2"
    and "\<forall>d\<in>set (half_sums ds). d \<le> 2 * c"
proof -
  define k where "k = length ds div 2"
  define lo where "lo = take k ds"
  define hi where "hi = drop k ds"
  have ds: "ds = lo @ hi" and len: "length lo = k" "length hi = k"
    using even by (auto simp: lo_def hi_def k_def)
  have hs: "half_sums ds = map2 (+) lo hi" by (simp add: half_sums_def lo_def hi_def k_def)
  have k: "LENGTH('h) = 8 * k" using x width even by (auto simp: fields_def k_def)
  show bound: "\<forall>d\<in>set (half_sums ds). d \<le> 2 * c"
  proof
    fix d
    assume "d \<in> set (half_sums ds)"
    then obtain p where p: "p \<in> set (zip lo hi)" and d: "d = fst p + snd p" unfolding hs by auto
    then have "fst p \<in> set ds" "snd p \<in> set ds"
      unfolding ds using set_zip_leftD [of "fst p" "snd p" lo hi] set_zip_rightD [of "fst p" "snd p" lo hi] by auto
    then have "fst p \<le> c" "snd p \<le> c" using b by auto
    then show "d \<le> 2 * c" unfolding d by simp
  qed
  show "length (half_sums ds) = length ds div 2" by (simp add: hs len k_def)
  show "sum_list (half_sums ds) = sum_list ds"
    unfolding hs unfolding ds using len by (simp add: sum_list_map2_add)
  have P: "(256::nat) ^ k = 2 ^ LENGTH('h)" by (simp add: k power_mult)
  have lo: "digits 256 lo < 256 ^ k" 
  proof -
    have "d < 256" if "d \<in> set lo" for d using bspec [OF b, of d] that c ds by auto
    then show ?thesis using digits_less [of lo 256] len by simp
  qed
  have ux: "unat x = digits 256 lo + 256 ^ k * digits 256 hi"
    using x unfolding fields_def by (simp add: ds digits_append len)
  have "unat (ucast (x + shr x n) :: 'h word) = (unat x + unat x div 256 ^ k) mod 256 ^ k"
    unfolding P by (simp add: unsigned_ucast_eq take_bit_eq_mod unat_plus_mod unat_shr n mod_mod_cancel le_imp_power_dvd width)
  also have "\<dots> = (digits 256 lo + digits 256 hi) mod 256 ^ k"
    using lo by (simp add: ux) (metis mod_add_left_eq mod_less mod_mult_self2 add.commute)
  also have "\<dots> = digits 256 (half_sums ds)"
  proof -
    have "\<forall>d\<in>set (half_sums ds). d < 256" using bound c by fastforce
    then have "digits 256 (half_sums ds) < 256 ^ k" using digits_less [of "half_sums ds" 256] by (simp add: hs len)
    then show ?thesis by (simp only: hs digits_add len mod_less)
  qed
  finally show "fields 8 (ucast (x + shr x n) :: 'h word) (half_sums ds)"
    by (simp add: fields_def hs len k)
qed

text \<open>The last two additions leave garbage above the low byte, which the final mask removes.\<close>

lemma step_bytes:
  fixes x :: "32 word"
  assumes x: "fields 8 x ds" and b: "\<forall>d\<in>set ds. d \<le> c" and c: "2 * c < 256"
    and k: "k \<le> 8" and s: "sum_list ds < 2 ^ k"
  shows "unat ((x + shr x 16 + shr (x + shr x 16) 8) AND mask k) = sum_list ds"
proof -
  have "length ds = 4" using x by (simp add: fields_def)
  then obtain d0 d1 d2 d3 where ds: "ds = [d0, d1, d2, d3]"
    by (auto simp: numeral_eq_Suc length_Suc_conv)
  define n where "n = unat x"
  define y where "y = x + shr x 16"
  have d: "d0 + d2 < 256" "d1 + d3 < 256" using b c by (auto simp: ds)
  then have d': "d0 + d2 \<le> 255" "d1 + d3 \<le> 255" by simp_all
  have n: "n = d0 + 256 * d1 + 65536 * (d2 + 256 * d3)"
    using x by (simp add: n_def fields_def ds)
  have "(r + 65536 * h) div 65536 = h" if "r < 65536" for r h :: nat using that by simp
  from this [of "d0 + 256 * d1" "d2 + 256 * d3"] have "n div 65536 = d2 + 256 * d3" using d' unfolding n by simp
  then have sum: "n + n div 65536 = (d0 + d2) + 256 * (d1 + d3) + 65536 * (d2 + 256 * d3)"
    by (simp add: n)
  have "unat y = (n + n div 65536) mod (65536 * 65536)"
    by (simp add: y_def unat_plus_mod unat_shr n_def)
  then obtain q where "unat y = (d0 + d2) + 256 * (d1 + d3) + 65536 * q"
  proof -
    have "(r + 65536 * h) mod (65536 * 65536) = r + 65536 * (h mod 65536)" if "r < 65536" for r h :: nat
      using that mod_mult2_eq [of "r + 65536 * h" 65536 65536] by simp
    moreover have "(d0 + d2) + 256 * (d1 + d3) < 65536" using d' by simp
    ultimately show ?thesis using that \<open>unat y = _\<close> sum by metis
  qed
  then have y: "unat y = (d0 + d2) + 256 * ((d1 + d3) + 256 * q)" by simp
  have "unat y div 256 = (d1 + d3) + 256 * q" using d unfolding y by simp
  then have z: "unat y + unat y div 256 = sum_list ds + 256 * ((d1 + d3) + 256 * q + q)"
    by (simp add: y ds)
  have dvd: "(2::nat) ^ k dvd 256" using le_imp_power_dvd [OF k, of "2 :: nat"] by simp
  have "unat ((y + shr y 8) AND mask k) = (unat y + unat y div 256) mod 2 ^ k"
    using k by (simp add: unat_and_mask_low unat_plus_mod unat_shr mod_mod_cancel le_imp_power_dvd dvd_trans [OF dvd])
  also have "\<dots> = sum_list ds mod 2 ^ k"
  proof -
    obtain j where "(256 :: nat) = 2 ^ k * j" using dvd by (elim dvdE)
    then have "sum_list ds + 256 * m = sum_list ds + 2 ^ k * (j * m)" for m by simp
    then show ?thesis unfolding z by (simp only: mod_mult_self2)
  qed
  finally show ?thesis using s by (simp add: y_def)
qed

section \<open>The population counts\<close>

lemma bits_fields: "fields 1 a (map (\<lambda>n. of_bool (bit a n)) [0..<LENGTH('a)])" for a :: "'a::len word"
proof -
  have "digits 2 (map (\<lambda>n. of_bool (bit a n)) [0..<k]) = take_bit k (unat a)" if "k \<le> LENGTH('a)" for k
    using that
  proof (induction k)
    case (Suc k)
    then show ?case
      by (simp add: digits_append take_bit_Suc_from_most bit_unsigned_iff)
  qed simp
  from this [of "LENGTH('a)"] show ?thesis
    by (simp add: fields_def take_bit_nat_eq_self)
qed

lemma ones_sum_list: "ones a = (\<Sum>n\<leftarrow>[0..<LENGTH('a)]. of_bool (bit a n))" for a :: "'a::len word"
proof -
  have "length (filter P xs) = (\<Sum>n\<leftarrow>xs. of_bool (P n))" for P and xs :: "nat list"
    by (induction xs) auto
  then show ?thesis by (simp add: ones_def)
qed

text \<open>The first three steps: every byte holds the count of its own bits.\<close>

lemma count_bytes:
  fixes a m1 m2 m4 :: "'a::len word"
  assumes N: "LENGTH('a) = 8 * k"
    and m: "unat m1 = alt_mask 1 (4 * k)" "unat m2 = alt_mask 2 (2 * k)" "unat m4 = alt_mask 4 k"
  defines "x1 \<equiv> a - (shr a 1 AND m1)"
  defines "x2 \<equiv> (shr x1 2 AND m2) + (x1 AND m2)"
  obtains ds where "fields 8 ((x2 + shr x2 4) AND m4) ds" "\<forall>d\<in>set ds. d \<le> 8" "sum_list ds = ones a" "length ds = k"
proof -
  define bs where "bs = map (\<lambda>n. of_bool (bit a n) :: nat) [0..<LENGTH('a)]"
  have bs: "length bs = 8 * k" "\<forall>d\<in>set bs. d < 2" "\<forall>d\<in>set bs. d \<le> 1" by (auto simp: bs_def N)
  define d1 where "d1 = pair_sums bs"
  have d1: "fields 2 x1 d1" "length d1 = 4 * k" "\<forall>d\<in>set d1. d \<le> 2"
    using step_bits [of a bs m1] bits_fields [of a] pair_sums_bound [OF _ bs(3)] bs m
    by (simp_all add: d1_def x1_def length_pair_sums flip: bs_def)
  define d2 where "d2 = pair_sums d1"
  have d2: "fields 4 x2 d2" "length d2 = 2 * k" "\<forall>d\<in>set d2. d \<le> 4"
    using step_pairs [of 2 x1 d1 2 m2] pair_sums_bound [OF _ d1(3)] d1 m
    by (simp_all add: d2_def x2_def length_pair_sums)
  define d3 where "d3 = pair_sums d2"
  have d3: "fields 8 ((x2 + shr x2 4) AND m4) d3" "length d3 = k" "\<forall>d\<in>set d3. d \<le> 8"
    using step_nibbles [of 4 x2 d2 4 m4] pair_sums_bound [OF _ d2(3)] d2 m
    by (simp_all add: d3_def length_pair_sums)
  have "sum_list d3 = ones a"
    using bs d1(2) d2(2) by (simp add: d3_def d2_def d1_def sum_list_pair_sums length_pair_sums ones_sum_list bs_def [symmetric])
  with d3 show ?thesis using that by blast
qed

lemma alt_mask_numeral: "alt_mask w (numeral k) = mask w + 2 ^ (w + w) * alt_mask w (pred_numeral k)"
  by (simp add: numeral_eq_Suc)

lemmas alt_mask_compute = alt_mask_numeral mask_eq_exp_minus_1 unat_shl_or unat_shl

lemma swar_masks32:
  "unat (0x55555555 :: 32 word) = alt_mask 1 (4 * 4)" "unat (0x33333333 :: 32 word) = alt_mask 2 (2 * 4)"
  "unat (0x0F0F0F0F :: 32 word) = alt_mask 4 4"
  by (simp_all add: alt_mask_compute)

lemma swar_masks64:
  "unat (0x5555555555555555 :: 64 word) = alt_mask 1 (4 * 8)"
  "unat (0x3333333333333333 :: 64 word) = alt_mask 2 (2 * 8)"
  "unat (0x0F0F0F0F0F0F0F0F :: 64 word) = alt_mask 4 8"
  by (simp_all add: alt_mask_compute)

lemma alt_mask_double: "alt_mask w (k + j) = alt_mask w k + 2 ^ ((w + w) * k) * alt_mask w j"
  by (induction k) (simp_all add: algebra_simps power_add)

lemma unat_repeat:
  fixes c :: "128 word"
  assumes c: "unat c = alt_mask w k" "unat c < 2 ^ 64" and w: "(w + w) * k = 64"
  shows "unat (shl c 64 OR c) = alt_mask w (k + k)"
proof -
  have "unat (shl c 64) = unat c * 2 ^ 64" using c by (intro unat_shl_small) simp
  then show ?thesis
    unfolding unat_shl_or [OF c(2)] alt_mask_double w by (simp add: c(1))
qed

lemma swar_masks128:
  "unat (shl 0x5555555555555555 64 OR 0x5555555555555555 :: 128 word) = alt_mask 1 (4 * 16)"
  "unat (shl 0x3333333333333333 64 OR 0x3333333333333333 :: 128 word) = alt_mask 2 (2 * 16)"
  "unat (shl 0x0F0F0F0F0F0F0F0F 64 OR 0x0F0F0F0F0F0F0F0F :: 128 word) = alt_mask 4 16"
  using unat_repeat [of "0x5555555555555555" 1 "4 * 8"] unat_repeat [of "0x3333333333333333" 2 "2 * 8"]
    unat_repeat [of "0x0F0F0F0F0F0F0F0F" 4 8]
  unfolding swar_masks64 [symmetric] by simp_all

lemma popcountsi2_eq: "popcountsi2 a = of_nat (ones a)"
proof -
  have mask: "(0x3F :: su_int) = mask 6" by (simp add: mask_eq_exp_minus_1)
  define x1 where "x1 = a - (shr a 1 AND 0x55555555)"
  define x2 where "x2 = (shr x1 2 AND 0x33333333) + (x1 AND 0x33333333)"
  define x4 where "x4 = (x2 + shr x2 4) AND 0x0F0F0F0F"
  obtain ds where "fields 8 x4 ds" "\<forall>d\<in>set ds. d \<le> 8" "sum_list ds = ones a"
    by (rule count_bytes [OF _ swar_masks32, of a]) (simp_all only: x1_def x2_def x4_def, simp)
  then have "unat ((x4 + shr x4 16 + shr (x4 + shr x4 16) 8) AND mask 6) = ones a"
    using step_bytes [of x4 ds 8 6] ones_le [of a] by simp
  then show ?thesis
    unfolding popcountsi2_def Let_def mask x1_def [symmetric] x2_def [symmetric] x4_def [symmetric]
    by (rule word_of_unat_eq)
qed

lemma popcountdi2_eq: "popcountdi2 a = of_nat (ones a)"
proof -
  have mask: "(0x7F :: su_int) = mask 7" by (simp add: mask_eq_exp_minus_1)
  define x1 where "x1 = a - (shr a 1 AND 0x5555555555555555)"
  define x2 where "x2 = (shr x1 2 AND 0x3333333333333333) + (x1 AND 0x3333333333333333)"
  define x4 where "x4 = (x2 + shr x2 4) AND 0x0F0F0F0F0F0F0F0F"
  define y where "y = (ucast (x4 + shr x4 32) :: su_int)"
  obtain ds where ds: "fields 8 x4 ds" "\<forall>d\<in>set ds. d \<le> 8" "sum_list ds = ones a" "length ds = 8"
    by (rule count_bytes [OF _ swar_masks64, of a]) (simp_all only: x1_def x2_def x4_def, simp)
  have w: "LENGTH(64) = 2 * LENGTH(32)" "2 * 8 < (256 :: nat)" "32 = LENGTH(32)" "even (length ds)"
    using ds(4) by simp_all
  note h = step_halves [OF w(1) ds(1,2) w(2-4), folded y_def]
  have y: "\<forall>d\<in>set (half_sums ds). d \<le> 16" using h(4) by simp
  have "unat ((y + shr y 16 + shr (y + shr y 16) 8) AND mask 7) = ones a"
    using step_bytes [OF h(1) y, of 7] ones_le [of a] unfolding h(2) ds(3) by simp
  then show ?thesis
    unfolding popcountdi2_def Let_def mask x1_def [symmetric] x2_def [symmetric] x4_def [symmetric] y_def [symmetric]
    by (rule word_of_unat_eq)
qed

lemma popcountti2_eq: "popcountti2 a = of_nat (ones a)"
proof -
  have mask: "(0xFF :: su_int) = mask 8" by (simp add: mask_eq_exp_minus_1)
  define m1 m2 m4 :: tu_int where "m1 = shl 0x5555555555555555 64 OR 0x5555555555555555"
    and "m2 = shl 0x3333333333333333 64 OR 0x3333333333333333"
    and "m4 = shl 0x0F0F0F0F0F0F0F0F 64 OR 0x0F0F0F0F0F0F0F0F"
  define x1 where "x1 = a - (shr a 1 AND m1)"
  define x2 where "x2 = (shr x1 2 AND m2) + (x1 AND m2)"
  define x4 where "x4 = (x2 + shr x2 4) AND m4"
  define z where "z = (ucast (x4 + shr x4 64) :: du_int)"
  define y where "y = (ucast (z + shr z 32) :: su_int)"
  obtain ds where ds: "fields 8 x4 ds" "\<forall>d\<in>set ds. d \<le> 8" "sum_list ds = ones a" "length ds = 16"
    by (rule count_bytes [OF _ swar_masks128, of a, folded m1_def m2_def m4_def])
      (simp_all only: x1_def x2_def x4_def, simp)
  have w1: "LENGTH(128) = 2 * LENGTH(64)" "2 * 8 < (256 :: nat)" "64 = LENGTH(64)" "even (length ds)"
    using ds(4) by simp_all
  note h1 = step_halves [OF w1(1) ds(1,2) w1(2-4), folded z_def]
  have z: "\<forall>d\<in>set (half_sums ds). d \<le> 16" using h1(4) by simp
  have w2: "LENGTH(64) = 2 * LENGTH(32)" "2 * 16 < (256 :: nat)" "32 = LENGTH(32)" "even (length (half_sums ds))"
    unfolding h1(3) ds(4) by simp_all
  note h2 = step_halves [OF w2(1) h1(1) z w2(2-4), folded y_def]
  have y: "\<forall>d\<in>set (half_sums (half_sums ds)). d \<le> 32" using h2(4) by simp
  have "unat ((y + shr y 16 + shr (y + shr y 16) 8) AND mask 8) = ones a"
    using step_bytes [OF h2(1) y, of 8] ones_le [of a] unfolding h2(2) h1(2) ds(3) by simp
  then show ?thesis
    unfolding popcountti2_def Let_def mask m1_def [symmetric] m2_def [symmetric] m4_def [symmetric]
      x1_def [symmetric] x2_def [symmetric] x4_def [symmetric] z_def [symmetric] y_def [symmetric]
    by (rule word_of_unat_eq)
qed

section \<open>Properties\<close>

text \<open>C35. The population counts return the number of one bits of their argument.\<close>

theorem population_count_correct:
  "popcountsi2 a = of_nat (card {n. bit a n}) \<and> popcountdi2 b = of_nat (card {n. bit b n}) \<and>
   popcountti2 c = of_nat (card {n. bit c n})"
  by (simp add: popcountsi2_eq popcountdi2_eq popcountti2_eq ones_card)

text \<open>The parities are the population count modulo two.\<close>

theorem parity_correct:
  "paritysi2 a = of_nat (card {n. bit a n} mod 2) \<and> paritydi2 b = of_nat (card {n. bit b n} mod 2) \<and>
   parityti2 c = of_nat (card {n. bit c n} mod 2)"
  by (simp add: paritysi2_eq paritydi2_eq parityti2_eq ones_card)

text \<open>The byte swaps reverse the order of the bytes and are their own inverses.\<close>

theorem byte_swap_correct:
  "ucast (shr (bswapsi2 u) (8 * (3 - i mod 4))) = (ucast (shr u (8 * (i mod 4))) :: 8 word) \<and>
   ucast (shr (bswapdi2 v) (8 * (7 - i mod 8))) = (ucast (shr v (8 * (i mod 8))) :: 8 word) \<and>
   bswapsi2 (bswapsi2 u) = u \<and> bswapdi2 (bswapdi2 v) = v"
  by (intro conjI bit_word_eqI) (simp_all add: bswapsi2_involution bswapdi2_involution bit_ucast_iff
      bit_drop_bit_eq bit_bswapsi2 bit_bswapdi2)

end
