(* ===== verification/Rounding.thy ===== *)
theory Rounding
  imports Prelude
begin

text \<open>
  What a floating-point representation stands for and what it means to round to it.  A representation
  without its sign bit is a number \<open>r\<close> with the fraction in its low \<open>sb\<close> bits and the exponent above.
  \<open>mag sb r\<close> is its magnitude in units of the smallest subnormal number: a natural number, so that
  comparison and addition are exact in \<open>nat\<close>.  Consecutive representations are consecutive
  floating-point numbers, and the representation of infinity continues the scale.
  \<open>nearest_even\<close> is IEEE 754 round-to-nearest, ties-to-even, of a rational \<open>num / den\<close>.
  \<open>sticky\<close> is a right shift that keeps inexactness in the lowest bit, and \<open>tracks\<close> states what such a
  shifted significand still tells about the exact value.
\<close>

section \<open>Magnitudes\<close>

definition mag :: "nat \<Rightarrow> nat \<Rightarrow> nat" where
  "mag sb r =
     (let E = r div 2 ^ sb; F = r mod 2 ^ sb in if E = 0 then F else (2 ^ sb + F) * 2 ^ (E - 1))"

lemma mag_0 [simp]: "mag sb 0 = 0"
  by (simp add: mag_def)

lemma mag_normal: "f < 2 ^ sb \<Longrightarrow> 0 < e \<Longrightarrow> mag sb (e * 2 ^ sb + f) = (2 ^ sb + f) * 2 ^ (e - 1)"
  by (simp add: mag_def)

lemma mag_subnormal: "f < 2 ^ sb \<Longrightarrow> mag sb f = f"
  by (simp add: mag_def)

lemma mag_Suc: "mag sb (Suc r) = mag sb r + 2 ^ (r div 2 ^ sb - 1)"
proof -
  define B :: nat where "B = 2 ^ sb"
  define E F where "E = r div B" and "F = r mod B"
  have B: "0 < B" by (simp add: B_def)
  have r: "r = E * B + F" and F: "F < B" using B by (simp_all add: E_def F_def)
  show ?thesis
  proof (cases "Suc F < B")
    case True
    then have "Suc r div B = E" "Suc r mod B = Suc F" using B by (simp_all add: r flip: add_Suc_right)
    then show ?thesis
      by (simp add: mag_def Let_def E_def [symmetric] F_def [symmetric] flip: B_def)
  next
    case False
    then have "Suc r = Suc E * B" using F by (simp add: r)
    then have "Suc r div B = Suc E" "Suc r mod B = 0" "Suc F = B" using B False F by simp_all
    moreover have "B * 2 ^ n = 2 ^ n + F * 2 ^ n" for n
      using \<open>Suc F = B\<close> mult_Suc [of F "2 ^ n"] by simp
    ultimately show ?thesis
      by (cases E) (simp_all add: mag_def Let_def E_def [symmetric] F_def [symmetric] distrib_right
          mult.left_commute [of B 2] flip: B_def)
  qed
qed

lemma mag_less_Suc: "mag sb r < mag sb (Suc r)"
  by (simp add: mag_Suc)

lemma mag_strict_mono: "r < s \<Longrightarrow> mag sb r < mag sb s"
  using mag_less_Suc [of sb] by (rule lift_Suc_mono_less [where f = "mag sb"])

lemma mag_mono: "r \<le> s \<Longrightarrow> mag sb r \<le> mag sb s"
  using less_imp_le [OF mag_less_Suc [of sb]] by (rule lift_Suc_mono_le [where f = "mag sb"])

lemma mag_less_iff: "mag sb r < mag sb s \<longleftrightarrow> r < s"
  by (meson mag_mono mag_strict_mono not_le)

lemma mag_eq_iff: "mag sb r = mag sb s \<longleftrightarrow> r = s"
  by (metis mag_strict_mono nat_neq_iff)

lemma mag_eq_0_iff [simp]: "mag sb r = 0 \<longleftrightarrow> r = 0"
  using mag_eq_iff [of sb r 0] by simp

lemma mag_pos_iff: "0 < mag sb r \<longleftrightarrow> 0 < r"
  using mag_less_iff [of sb 0 r] by simp

section \<open>Rounding to nearest, ties to even\<close>

text \<open>
  \<open>r\<close> is the representation that \<open>num / den\<close> rounds to, in a format whose infinity is \<open>infty\<close>: it is not
  above the midpoint to the next representation nor below the midpoint to the previous one, and on a
  midpoint it is the even one.  Everything from the last midpoint on rounds to infinity.
\<close>

definition nearest_even :: "nat \<Rightarrow> nat \<Rightarrow> nat \<Rightarrow> nat \<Rightarrow> nat \<Rightarrow> bool" where
  "nearest_even sb infty num den r \<longleftrightarrow>
     r \<le> infty \<and>
     (0 < r \<longrightarrow> (mag sb (r - 1) + mag sb r) * den < 2 * num
        \<or> (mag sb (r - 1) + mag sb r) * den = 2 * num \<and> even r) \<and>
     (r < infty \<longrightarrow> 2 * num < (mag sb r + mag sb (r + 1)) * den
        \<or> 2 * num = (mag sb r + mag sb (r + 1)) * den \<and> even r)"

lemma nearest_even_unique:
  assumes den: "0 < den" and "nearest_even sb infty num den r" "nearest_even sb infty num den s"
  shows "r = s"
proof -
  have False if "nearest_even sb infty num den r" "nearest_even sb infty num den s" "r < s" for r s
  proof -
    have "mag sb r \<le> mag sb (s - 1)" "mag sb (r + 1) \<le> mag sb s" using that by (auto intro: mag_mono)
    then have le: "(mag sb r + mag sb (r + 1)) * den \<le> (mag sb (s - 1) + mag sb s) * den"
      by (intro mult_right_mono add_mono) simp_all
    have eq: "(mag sb r + mag sb (r + 1)) * den = (mag sb (s - 1) + mag sb s) * den \<Longrightarrow> s = r + 1"
    proof -
      assume "(mag sb r + mag sb (r + 1)) * den = (mag sb (s - 1) + mag sb s) * den"
      then have "mag sb r + mag sb (r + 1) = mag sb (s - 1) + mag sb s" using den by simp
      then have "mag sb s = mag sb (r + 1)"
        using \<open>mag sb r \<le> _\<close> \<open>mag sb (r + 1) \<le> _\<close> by linarith
      then show "s = r + 1" by (simp only: mag_eq_iff)
    qed
    have "2 * num < (mag sb r + mag sb (r + 1)) * den \<or> 2 * num = (mag sb r + mag sb (r + 1)) * den \<and> even r"
      "(mag sb (s - 1) + mag sb s) * den < 2 * num \<or> (mag sb (s - 1) + mag sb s) * den = 2 * num \<and> even s"
      using that unfolding nearest_even_def by auto
    then have "(mag sb r + mag sb (r + 1)) * den = (mag sb (s - 1) + mag sb s) * den \<and> even r \<and> even s"
      using le by linarith
    then show False using eq by simp
  qed
  then show ?thesis using assms(2,3) by (metis nat_neq_iff)
qed

text \<open>An exactly representable value rounds to itself.\<close>

lemma nearest_even_exact: "r \<le> infty \<Longrightarrow> 0 < den \<Longrightarrow> nearest_even sb infty (mag sb r * den) den r"
  using mag_strict_mono [of "r - 1" r sb] mag_less_Suc [of sb r]
  by (auto simp: nearest_even_def algebra_simps simp flip: mult_2)

lemma nearest_even_overflow:
  assumes "mag sb infty * den \<le> num" "0 < den" "0 < infty"
  shows "nearest_even sb infty num den infty"
proof -
  have "mag sb (infty - 1) < mag sb infty" using assms by (intro mag_strict_mono) simp
  then have "(mag sb (infty - 1) + mag sb infty) * den < (mag sb infty + mag sb infty) * den" using assms by simp
  also have "\<dots> \<le> 2 * num" using assms(1) by (simp add: algebra_simps)
  finally show ?thesis by (simp add: nearest_even_def)
qed

lemma nearest_even_scale:
  "nearest_even sb infty num den r \<Longrightarrow> 0 < c \<Longrightarrow> nearest_even sb infty (num * c) (den * c) r"
  unfolding nearest_even_def mult.assoc [symmetric] by simp

text \<open>The representation just below the value, and the rounding step that looks at the remainder.\<close>

lemma nearest_even_of_truncation:
  assumes r: "r < infty"
    and below: "mag sb r * den \<le> num" and above: "num < mag sb (r + 1) * den"
    and up: "up \<longleftrightarrow> (mag sb r + mag sb (r + 1)) * den < 2 * num
      \<or> (mag sb r + mag sb (r + 1)) * den = 2 * num \<and> odd r"
  shows "nearest_even sb infty num den (if up then r + 1 else r)"
proof (cases up)
  case True
  then have "(mag sb r + mag sb (r + 1)) * den < 2 * num
      \<or> (mag sb r + mag sb (r + 1)) * den = 2 * num \<and> odd r" using up by simp
  moreover have "r + 1 < infty \<Longrightarrow> 2 * num < (mag sb (r + 1) + mag sb (r + 1 + 1)) * den"
  proof -
    have "2 * num < 2 * (mag sb (r + 1) * den)" using above by simp
    also have "\<dots> \<le> (mag sb (r + 1) + mag sb (r + 1 + 1)) * den"
      using mag_less_Suc [of sb "r + 1"] by (simp add: algebra_simps)
    finally show "2 * num < (mag sb (r + 1) + mag sb (r + 1 + 1)) * den" .
  qed
  ultimately show ?thesis using r True by (auto simp: nearest_even_def)
next
  case False
  have "0 < r \<Longrightarrow> (mag sb (r - 1) + mag sb r) * den < 2 * num"
  proof -
    assume "0 < r"
    then have "mag sb (r - 1) < mag sb r" by (intro mag_strict_mono) simp
    moreover have "0 < den" using below above by (cases den) auto
    ultimately have "(mag sb (r - 1) + mag sb r) * den < (mag sb r + mag sb r) * den" by simp
    also have "\<dots> \<le> 2 * num" using below by (simp add: algebra_simps)
    finally show "(mag sb (r - 1) + mag sb r) * den < 2 * num" .
  qed
  then show ?thesis using r False up by (auto simp: nearest_even_def)
qed

section \<open>Shifting right with a sticky bit\<close>

definition sticky :: "nat \<Rightarrow> nat \<Rightarrow> nat" where
  "sticky n k = (n div 2 ^ k) OR of_bool (n mod 2 ^ k \<noteq> 0)"

lemma sticky_0 [simp]: "sticky n 0 = n"
  by (simp add: sticky_def)

lemma or_one_nat: "n OR 1 = (if even n then n + 1 else n)" for n :: nat
  by (simp add: or_one_eq del: One_nat_def)

text \<open>Against even numbers, the shifted value compares as the exact quotient does.\<close>

lemma sticky_less_iff: "even m \<Longrightarrow> sticky n k < m \<longleftrightarrow> n < m * 2 ^ k"
proof -
  assume m: "even m"
  define q r where "q = n div 2 ^ k" and "r = n mod 2 ^ k"
  have n: "n = q * 2 ^ k + r" and r: "r < 2 ^ k" unfolding q_def r_def by (simp_all only: div_mult_mod_eq) simp
  have "n < m * 2 ^ k \<longleftrightarrow> q < m"
  proof
    assume "n < m * 2 ^ k"
    then have "q * 2 ^ k < m * 2 ^ k" using n by linarith
    then show "q < m" by simp
  next
    assume "q < m"
    then have "(q + 1) * 2 ^ k \<le> m * 2 ^ k" by (intro mult_right_mono) auto
    then show "n < m * 2 ^ k" using n r by (simp add: algebra_simps)
  qed
  moreover have "sticky n k = (if r \<noteq> 0 \<and> even q then q + 1 else q)"
    by (auto simp: sticky_def or_one_nat q_def [symmetric] r_def [symmetric] simp del: One_nat_def)
  moreover have "even q \<Longrightarrow> q + 1 < m \<longleftrightarrow> q < m" using m by presburger
  ultimately show ?thesis by auto
qed

lemma less_sticky_iff: "even m \<Longrightarrow> m < sticky n k \<longleftrightarrow> m * 2 ^ k < n"
proof -
  assume m: "even m"
  define q r where "q = n div 2 ^ k" and "r = n mod 2 ^ k"
  have n: "n = q * 2 ^ k + r" and r: "r < 2 ^ k" unfolding q_def r_def by (simp_all only: div_mult_mod_eq) simp
  have "m * 2 ^ k < n \<longleftrightarrow> m < q \<or> m = q \<and> 0 < r"
  proof (cases m q rule: linorder_cases)
    case less
    then have "m * 2 ^ k < q * 2 ^ k" by simp
    then show ?thesis using less n by linarith
  next
    case greater
    then have "(q + 1) * 2 ^ k \<le> m * 2 ^ k" by (intro mult_right_mono) auto
    then show ?thesis using greater n r by (simp add: algebra_simps)
  qed (simp add: n)
  moreover have "sticky n k = (if r \<noteq> 0 \<and> even q then q + 1 else q)"
    by (auto simp: sticky_def or_one_nat q_def [symmetric] r_def [symmetric] simp del: One_nat_def)
  moreover have "even q \<Longrightarrow> m < q + 1 \<longleftrightarrow> m \<le> q" by auto
  ultimately show ?thesis using m by auto
qed

section \<open>Significands that track an exact value\<close>

text \<open>
  \<open>g\<close> compares with every multiple of \<open>s\<close> as the exact value \<open>num / den\<close> does.
\<close>

definition tracks :: "nat \<Rightarrow> nat \<Rightarrow> nat \<Rightarrow> nat \<Rightarrow> bool" where
  "tracks s g num den \<longleftrightarrow> (\<forall>m. (g < m * s \<longleftrightarrow> num < m * s * den) \<and> (m * s < g \<longleftrightarrow> m * s * den < num))"

lemma tracks_eq: "tracks s g num den \<Longrightarrow> g = m * s \<longleftrightarrow> num = m * s * den"
  by (metis nat_neq_iff tracks_def)

lemma tracks_le: "tracks s g num den \<Longrightarrow> m * s \<le> g \<longleftrightarrow> m * s * den \<le> num"
  by (metis not_le tracks_def)

lemma tracks_exact: "0 < den \<Longrightarrow> tracks s g (g * den) den"
  by (simp add: tracks_def)

lemma tracks_sticky:
  assumes "even s" shows "tracks s (sticky n k) n (2 ^ k)"
  using sticky_less_iff [of _ n k] less_sticky_iff [of _ n k] assms by (simp add: tracks_def)

text \<open>A further right shift with a sticky bit keeps track.\<close>

lemma tracks_shift_right:
  assumes "tracks s g num den" "even s"
  shows "tracks s (sticky g k) num (2 ^ k * den)"
proof -
  have "g < m * s * 2 ^ k \<longleftrightarrow> num < m * s * (2 ^ k * den)"
    and "m * s * 2 ^ k < g \<longleftrightarrow> m * s * (2 ^ k * den) < num" for m
    using assms(1) [unfolded tracks_def, rule_format, of "m * 2 ^ k"] by (simp_all add: ac_simps)
  then show ?thesis
    using assms(2) sticky_less_iff [of _ g k] less_sticky_iff [of _ g k] by (simp add: tracks_def)
qed

lemma tracks_shift_left:
  assumes "tracks s g num den"
  shows "tracks (2 ^ k * s) (g * 2 ^ k) (num * 2 ^ k) den"
proof -
  have "g * 2 ^ k < m * (2 ^ k * s) \<longleftrightarrow> g < m * s" "m * (2 ^ k * s) < g * 2 ^ k \<longleftrightarrow> m * s < g"
    "num * 2 ^ k < m * (2 ^ k * s) * den \<longleftrightarrow> num < m * s * den"
    "m * (2 ^ k * s) * den < num * 2 ^ k \<longleftrightarrow> m * s * den < num" for m
    using mult_less_cancel2 [of _ "2 ^ k"] by (simp_all add: ac_simps)
  then show ?thesis using assms by (simp add: tracks_def)
qed

lemma tracks_coarser: "tracks s g num den \<Longrightarrow> tracks (k * s) g num den"
  unfolding tracks_def by (metis mult.assoc)

lemma tracks_scale: "tracks s g num den \<Longrightarrow> 0 < c \<Longrightarrow> tracks s g (num * c) (den * c)"
  by (simp add: tracks_def flip: mult.assoc)

lemma tracks_add:
  assumes "tracks s g num den" "s dvd A" "0 < den"
  shows "tracks s (A + g) (A * den + num) den"
proof -
  obtain a where A: "A = a * s" using assms(2) by (metis dvd_def mult.commute)
  have g: "(g < m * s \<longleftrightarrow> num < m * s * den) \<and> (m * s < g \<longleftrightarrow> m * s * den < num)" for m
    using assms(1) by (simp add: tracks_def)
  have "(A + g < m * s \<longleftrightarrow> A * den + num < m * s * den) \<and> (m * s < A + g \<longleftrightarrow> m * s * den < A * den + num)" for m
  proof (cases "a \<le> m")
    case True
    then obtain d where "m = a + d" using le_Suc_ex by blast
    then show ?thesis using g [of d] by (simp add: A distrib_right)
  next
    case False
    then obtain d where d: "a = m + d" "0 < d" using less_imp_add_positive [of m a] by auto
    show ?thesis using g [of 0] d assms(3) by (cases "s = 0") (auto simp: A distrib_right)
  qed
  then show ?thesis by (simp add: tracks_def)
qed

lemma tracks_diff:
  assumes "tracks s g num den" "s dvd A" "num \<le> A * den" "0 < den"
  shows "tracks s (A - g) (A * den - num) den"
proof -
  obtain a where A: "A = a * s" using assms(2) by (metis dvd_def mult.commute)
  have g: "(g < m * s \<longleftrightarrow> num < m * s * den) \<and> (m * s < g \<longleftrightarrow> m * s * den < num)" for m
    using assms(1) by (simp add: tracks_def)
  have gA: "g \<le> A" using g [of a] assms(3) unfolding A by linarith
  have "(A - g < m * s \<longleftrightarrow> A * den - num < m * s * den) \<and> (m * s < A - g \<longleftrightarrow> m * s * den < A * den - num)" for m
  proof (cases "m \<le> a")
    case True
    then obtain d where "a = m + d" using le_Suc_ex by blast
    then have "A = m * s + d * s" "A * den = m * s * den + d * s * den" by (simp_all add: A distrib_right)
    then show ?thesis using g [of d] gA assms(3) by linarith
  next
    case False
    then obtain d where d: "m = a + d" "0 < d" using less_imp_add_positive [of a m] by auto
    then have m: "m * s = A + d * s" "m * s * den = A * den + d * s * den" by (simp_all add: A distrib_right)
    show ?thesis
    proof (cases "s = 0")
      case True
      then show ?thesis using gA assms(3) by (simp add: A)
    next
      case False
      then have "0 < d * s" "0 < d * s * den" using d assms(4) by simp_all
      then show ?thesis using m by linarith
    qed
  qed
  then show ?thesis by (simp add: tracks_def)
qed

lemma tracks_unscale: "tracks s g (num * c) (den * c) \<Longrightarrow> 0 < c \<Longrightarrow> tracks s g num den"
  by (simp add: tracks_def flip: mult.assoc)

section \<open>Rounding a tracked significand\<close>

text \<open>
  The common end of the arithmetic routines.  The significand \<open>g\<close> has \<open>f\<close> extra low bits; its upper
  part \<open>q\<close> and the biased exponent \<open>e\<close> make the truncated representation, and the low bits are compared
  with their half.
\<close>

definition join_rep :: "nat \<Rightarrow> nat \<Rightarrow> nat \<Rightarrow> nat" where
  "join_rep sb e q = e * 2 ^ sb + (if e = 0 then q else q - 2 ^ sb)"

definition round_up :: "nat \<Rightarrow> nat \<Rightarrow> nat \<Rightarrow> bool" where
  "round_up f g r \<longleftrightarrow> 2 ^ (f - 1) < g mod 2 ^ f \<or> g mod 2 ^ f = 2 ^ (f - 1) \<and> odd r"

definition significand_ok :: "nat \<Rightarrow> nat \<Rightarrow> nat \<Rightarrow> bool" where
  "significand_ok sb e q \<longleftrightarrow> (if e = 0 then q < 2 ^ sb else 2 ^ sb \<le> q \<and> q < 2 * 2 ^ sb)"

lemma join_rep_mod: "significand_ok sb e q \<Longrightarrow> e * 2 ^ sb + q mod 2 ^ sb = join_rep sb e q"
  by (auto simp: significand_ok_def join_rep_def le_mod_geq split: if_splits)

lemma join_rep_less: "significand_ok sb e q \<Longrightarrow> e < E \<Longrightarrow> join_rep sb e q < E * 2 ^ sb"
proof -
  assume ok: "significand_ok sb e q" and e: "e < E"
  have "join_rep sb e q < Suc e * 2 ^ sb"
    using ok by (auto simp: significand_ok_def join_rep_def split: if_splits)
  also have "\<dots> \<le> E * 2 ^ sb" using e by (intro mult_le_mono1) simp
  finally show ?thesis .
qed

lemma mag_join_rep:
  assumes "significand_ok sb e q"
  shows "mag sb (join_rep sb e q) = q * 2 ^ (e - 1)"
    and "mag sb (join_rep sb e q + 1) = (q + 1) * 2 ^ (e - 1)"
proof -
  show 1: "mag sb (join_rep sb e q) = q * 2 ^ (e - 1)"
    using assms mag_normal [of "q - 2 ^ sb" sb e]
    by (cases "e = 0") (auto simp: join_rep_def significand_ok_def mag_subnormal)
  have "join_rep sb e q div 2 ^ sb = e"
  proof (cases "e = 0")
    case False
    then obtain d where "q = 2 ^ sb + d" using assms le_Suc_ex by (auto simp: significand_ok_def)
    then show ?thesis using assms False by (simp add: join_rep_def significand_ok_def)
  qed (use assms in \<open>simp add: join_rep_def significand_ok_def\<close>)
  then show "mag sb (join_rep sb e q + 1) = (q + 1) * 2 ^ (e - 1)"
    using mag_Suc [of sb "join_rep sb e q"] 1 by simp
qed

lemma nearest_even_round:
  assumes f: "0 < f" and ok: "significand_ok sb e (g div 2 ^ f)"
    and track: "tracks (2 ^ (f - 1)) g (num * 2 ^ f) (den * 2 ^ (e - 1))"
    and r: "r = join_rep sb e (g div 2 ^ f)" "r < infty"
  shows "nearest_even sb infty num den (if round_up f g r then r + 1 else r)"
proof -
  define q h where "q = g div 2 ^ f" and "h = g mod 2 ^ f"
  define H :: nat where "H = 2 ^ (f - 1)"
  define D where "D = den * 2 ^ (e - 1)"
  have P: "(2::nat) ^ f = 2 * H" using f by (cases f) (simp_all add: H_def)
  have H: "0 < H" by (simp add: H_def)
  have g: "g = q * (2 * H) + h" and h: "h < 2 * H"
    unfolding q_def h_def P by (simp_all only: div_mult_mod_eq) (simp add: H)
  note mags = mag_join_rep [OF ok, folded r(1) q_def]
  have T: "(g < m * H \<longleftrightarrow> 2 * num < m * D) \<and> (m * H < g \<longleftrightarrow> m * D < 2 * num)" for m
  proof -
    have "num * (2 * H) < m * H * D \<longleftrightarrow> 2 * num < m * D" "m * H * D < num * (2 * H) \<longleftrightarrow> m * D < 2 * num"
      using H mult_less_cancel2 [of "2 * num" H "m * D"] mult_less_cancel2 [of "m * D" H "2 * num"]
      by (simp_all add: ac_simps)
    then show ?thesis using track [unfolded tracks_def, folded H_def D_def, unfolded P, rule_format, of m] by simp
  qed
  have "2 * (q * D) \<le> 2 * num" "2 * num < 2 * ((q + 1) * D)"
    using T [of "2 * q"] T [of "2 * q + 2"] g h by (simp_all add: algebra_simps)
  then have "q * D \<le> num" "num < (q + 1) * D" by linarith+
  then have "mag sb r * den \<le> num" "num < mag sb (r + 1) * den"
    unfolding mags D_def by (simp_all only: ac_simps)
  moreover have "round_up f g r \<longleftrightarrow> (mag sb r + mag sb (r + 1)) * den < 2 * num
      \<or> (mag sb r + mag sb (r + 1)) * den = 2 * num \<and> odd r"
  proof -
    have "(mag sb r + mag sb (r + 1)) * den = (2 * q + 1) * D"
      unfolding mags D_def by (simp add: algebra_simps)
    moreover have "H < h \<longleftrightarrow> (2 * q + 1) * D < 2 * num"
      using T [of "2 * q + 1"] by (simp add: g algebra_simps)
    moreover have "h = H \<longleftrightarrow> (2 * q + 1) * D = 2 * num"
    proof -
      have "h = H \<longleftrightarrow> \<not> (2 * q + 1) * H < g \<and> \<not> g < (2 * q + 1) * H" by (auto simp: g algebra_simps)
      then show ?thesis using T [of "2 * q + 1"] by linarith
    qed
    ultimately show ?thesis by (simp only: round_up_def h_def [symmetric] H_def [symmetric])
  qed
  ultimately show ?thesis by (rule nearest_even_of_truncation [OF r(2)])
qed

end
