(* ===== verification/Fp_Lib.thy ===== *)
theory Fp_Lib
  imports Bit_Count Rounding
begin

text \<open>
  The floating-point base of \<open>fp_lib.h\<close> and \<open>fp_mode.c\<close>.  The header is compiled once per precision;
  what depends on the precision is the record \<open>fp_format\<close>: the macro \<open>significandBits\<close> and the
  functions \<open>rep_clz\<close> and \<open>wideMultiply\<close> for the word type \<open>'r\<close> of \<open>rep_t\<close>.  The other macros are
  functions of the record.  A value of type \<open>fp_t\<close> is its representation, a word; \<open>toRep\<close> and
  \<open>fromRep\<close> only change the type in C.  C variables of type \<open>int\<close> that hold exponents and shift
  distances are integers here: their values stay below \<open>2 ^ 17\<close> in magnitude.
  The locale \<open>fp_base\<close> is what the routines rely on in a format; single, double and quadruple precision
  satisfy it.
\<close>

section \<open>Precisions\<close>

record (overloaded) ('r::len) fp_format =
  significandBits :: nat
  rep_clz :: "'r word \<Rightarrow> int"
  wideMultiply :: "'r word \<Rightarrow> 'r word \<Rightarrow> 'r word \<times> 'r word"

text \<open>Single precision.\<close>

definition rep_clz_single :: "32 word \<Rightarrow> int" where
  "rep_clz_single a = int (builtin_clz a)"

definition wideMultiply_single :: "32 word \<Rightarrow> 32 word \<Rightarrow> 32 word \<times> 32 word" where
  "wideMultiply_single a b =
     (let product = ucast a * ucast b :: 64 word
      in (ucast (shr product 32), ucast product))"

definition single_precision :: "32 fp_format" where
  "single_precision =
     \<lparr>significandBits = 23, rep_clz = rep_clz_single, wideMultiply = wideMultiply_single\<rparr>"

text \<open>Double precision; the count is the variant for targets that are not LP64.\<close>

definition rep_clz_double :: "64 word \<Rightarrow> int" where
  "rep_clz_double a =
     (if a AND 0xffffffff00000000 \<noteq> 0 then int (builtin_clz (ucast (shr a 32) :: c_unsigned))
      else 32 + int (builtin_clz (ucast (a AND 0xffffffff) :: c_unsigned)))"

definition loWord :: "64 word \<Rightarrow> 64 word" where
  "loWord a = a AND 0xffffffff"

definition hiWord :: "64 word \<Rightarrow> 64 word" where
  "hiWord a = shr a 32"

definition wideMultiply_double :: "64 word \<Rightarrow> 64 word \<Rightarrow> 64 word \<times> 64 word" where
  "wideMultiply_double a b =
     (let plolo = loWord a * loWord b;
          plohi = loWord a * hiWord b;
          philo = hiWord a * loWord b;
          phihi = hiWord a * hiWord b;
          r0 = loWord plolo;
          r1 = hiWord plolo + loWord plohi + loWord philo;
          lo = r0 + shl r1 32;
          hi = hiWord plohi + hiWord philo + hiWord r1 + phihi
      in (hi, lo))"

definition double_precision :: "64 fp_format" where
  "double_precision =
     \<lparr>significandBits = 52, rep_clz = rep_clz_double, wideMultiply = wideMultiply_double\<rparr>"

text \<open>Quadruple precision.\<close>

definition rep_clz_quad :: "128 word \<Rightarrow> int" where
  "rep_clz_quad a =
     (let high = high_half a :: 64 word; low = low_half a :: 64 word;
          (word, add) = (if high \<noteq> 0 then (high, 0) else (low, 64))
      in int (builtin_clz word) + add)"

definition word_1 :: "128 word \<Rightarrow> 64 word" where "word_1 a = ucast (shr a 96 AND 0x00000000ffffffff)"
definition word_2 :: "128 word \<Rightarrow> 64 word" where "word_2 a = ucast (shr a 64 AND 0x00000000ffffffff)"
definition word_3 :: "128 word \<Rightarrow> 64 word" where "word_3 a = ucast (shr a 32 AND 0x00000000ffffffff)"
definition word_4 :: "128 word \<Rightarrow> 64 word" where "word_4 a = ucast (a AND 0x00000000ffffffff)"

definition wideMultiply_quad :: "128 word \<Rightarrow> 128 word \<Rightarrow> 128 word \<times> 128 word" where
  "wideMultiply_quad a b =
     (let loMask = 0x00000000ffffffff; hiMask = 0xffffffff00000000; fullMask = 0xffffffffffffffff;
          product11 = word_1 a * word_1 b; product12 = word_1 a * word_2 b;
          product13 = word_1 a * word_3 b; product14 = word_1 a * word_4 b;
          product21 = word_2 a * word_1 b; product22 = word_2 a * word_2 b;
          product23 = word_2 a * word_3 b; product24 = word_2 a * word_4 b;
          product31 = word_3 a * word_1 b; product32 = word_3 a * word_2 b;
          product33 = word_3 a * word_3 b; product34 = word_3 a * word_4 b;
          product41 = word_4 a * word_1 b; product42 = word_4 a * word_2 b;
          product43 = word_4 a * word_3 b; product44 = word_4 a * word_4 b;
          sum0 = ucast product44 :: 128 word;
          sum1 = ucast product34 + ucast product43 :: 128 word;
          sum2 = ucast product24 + ucast product33 + ucast product42 :: 128 word;
          sum3 = ucast product14 + ucast product23 + ucast product32 + ucast product41 :: 128 word;
          sum4 = ucast product13 + ucast product22 + ucast product31 :: 128 word;
          sum5 = ucast product12 + ucast product21 :: 128 word;
          sum6 = ucast product11 :: 128 word;
          r0 = (sum0 AND fullMask) + shl (sum1 AND loMask) 32;
          r1 = shr sum0 64 + (shr sum1 32 AND fullMask) + (sum2 AND fullMask) + (shl sum3 32 AND hiMask);
          lo = r0 + shl r1 64;
          hi = shr r1 64 + shr sum1 96 + shr sum2 64 + shr sum3 32 + sum4 + shl sum5 32 + shl sum6 64
      in (hi, lo))"

definition quad_precision :: "128 fp_format" where
  "quad_precision =
     \<lparr>significandBits = 112, rep_clz = rep_clz_quad, wideMultiply = wideMultiply_quad\<rparr>"

section \<open>Macros and helpers\<close>

definition exponentBits :: "'r::len fp_format \<Rightarrow> nat" where
  "exponentBits F = LENGTH('r) - significandBits F - 1"

definition maxExponent :: "'r::len fp_format \<Rightarrow> int" where
  "maxExponent F = 2 ^ exponentBits F - 1"

definition exponentBias :: "'r::len fp_format \<Rightarrow> int" where
  "exponentBias F = maxExponent F div 2"

definition implicitBit :: "'r::len fp_format \<Rightarrow> 'r word" where
  "implicitBit F = shl 1 (significandBits F)"

definition significandMask :: "'r::len fp_format \<Rightarrow> 'r word" where
  "significandMask F = implicitBit F - 1"

definition signBit :: "'r::len fp_format \<Rightarrow> 'r word" where
  "signBit F = shl 1 (significandBits F + exponentBits F)"

definition absMask :: "'r::len fp_format \<Rightarrow> 'r word" where
  "absMask F = signBit F - 1"

definition exponentMask :: "'r::len fp_format \<Rightarrow> 'r word" where
  "exponentMask F = absMask F XOR significandMask F"

definition oneRep :: "'r::len fp_format \<Rightarrow> 'r word" where
  "oneRep F = shl (word_of_int (exponentBias F)) (significandBits F)"

definition infRep :: "'r::len fp_format \<Rightarrow> 'r word" where
  "infRep F = exponentMask F"

definition quietBit :: "'r::len fp_format \<Rightarrow> 'r word" where
  "quietBit F = shr (implicitBit F) 1"

definition qnanRep :: "'r::len fp_format \<Rightarrow> 'r word" where
  "qnanRep F = exponentMask F OR quietBit F"

definition toRep :: "'r::len word \<Rightarrow> 'r word" where
  [simp]: "toRep x = x"

definition fromRep :: "'r::len word \<Rightarrow> 'r word" where
  [simp]: "fromRep x = x"

text \<open>The in-out argument \<open>*significand\<close> is the first component of the result.\<close>

definition normalize :: "'r::len fp_format \<Rightarrow> 'r word \<Rightarrow> 'r word \<times> int" where
  "normalize F significand =
     (let shift = rep_clz F significand - rep_clz F (implicitBit F)
      in (shl significand (nat shift), 1 - shift))"

definition wideLeftShift :: "'r::len word \<Rightarrow> 'r word \<Rightarrow> nat \<Rightarrow> 'r word \<times> 'r word" where
  "wideLeftShift hi lo count = (shl hi count OR shr lo (LENGTH('r) - count), shl lo count)"

definition wideRightShiftWithSticky :: "'r::len word \<Rightarrow> 'r word \<Rightarrow> nat \<Rightarrow> 'r word \<times> 'r word" where
  "wideRightShiftWithSticky hi lo count =
     (let typeWidth = LENGTH('r) in
      if count < typeWidth then
        let sticky = shl lo (typeWidth - count) \<noteq> 0
        in (shr hi count, shl hi (typeWidth - count) OR shr lo count OR truth sticky)
      else if count < 2 * typeWidth then
        let sticky = shl hi (2 * typeWidth - count) OR lo \<noteq> 0
        in (0, shr hi (count - typeWidth) OR truth sticky)
      else
        let sticky = hi OR lo \<noteq> 0
        in (0, truth sticky))"

text \<open>Rounding modes; \<open>__fe_getround\<close> of \<open>fp_mode.c\<close> has one answer.\<close>

datatype fe_round_mode = FE_TONEAREST | FE_DOWNWARD | FE_UPWARD | FE_TOWARDZERO

definition fe_getround :: fe_round_mode where
  "fe_getround = FE_TONEAREST"

definition fe_raise_inexact :: int where
  "fe_raise_inexact = 0"

section \<open>Fields of a representation\<close>

text \<open>The magnitude bits, the sign and the classes of a representation.\<close>

definition rep_abs :: "'r::len word \<Rightarrow> nat" where
  "rep_abs x = unat x mod 2 ^ (LENGTH('r) - 1)"

definition rep_sign :: "'r::len word \<Rightarrow> bool" where
  "rep_sign x = bit x (LENGTH('r) - 1)"

definition infty_rep :: "'r::len fp_format \<Rightarrow> nat" where
  "infty_rep F = (2 ^ exponentBits F - 1) * 2 ^ significandBits F"

definition is_nan :: "'r::len fp_format \<Rightarrow> 'r word \<Rightarrow> bool" where
  "is_nan F x \<longleftrightarrow> infty_rep F < rep_abs x"

definition is_inf :: "'r::len fp_format \<Rightarrow> 'r word \<Rightarrow> bool" where
  "is_inf F x \<longleftrightarrow> rep_abs x = infty_rep F"

definition is_finite :: "'r::len fp_format \<Rightarrow> 'r word \<Rightarrow> bool" where
  "is_finite F x \<longleftrightarrow> rep_abs x < infty_rep F"

text \<open>The value of a finite representation, in units of the smallest subnormal number.\<close>

definition magnitude :: "'r::len fp_format \<Rightarrow> 'r word \<Rightarrow> nat" where
  "magnitude F x = mag (significandBits F) (rep_abs x)"

definition val :: "'r::len fp_format \<Rightarrow> 'r word \<Rightarrow> int" where
  "val F x = (if rep_sign x then - int (magnitude F x) else int (magnitude F x))"

section \<open>What a format provides\<close>

locale fp_base =
  fixes F :: "'r::len fp_format"
  assumes fraction_bits: "2 \<le> significandBits F" "significandBits F \<le> 112"
    and exponent_bits: "5 \<le> exponentBits F" "exponentBits F \<le> 15"
    and rep_clz: "w \<noteq> 0 \<Longrightarrow> rep_clz F w = int (builtin_clz w)"
begin

lemma width: "LENGTH('r) = significandBits F + exponentBits F + 1"
  using exponent_bits unfolding exponentBits_def by linarith

lemma width_minus_1: "LENGTH('r) - 1 = significandBits F + exponentBits F" "LENGTH('r) - Suc 0 = significandBits F + exponentBits F"
  using width by simp_all

lemma implicitBit_exp: "implicitBit F = 2 ^ significandBits F"
  by (simp add: implicitBit_def push_bit_eq_mult)

lemma unat_implicitBit: "unat (implicitBit F) = 2 ^ significandBits F"
  unfolding implicitBit_exp by (rule unat_exp_word) (simp add: width)

lemma significandMask_eq: "significandMask F = mask (significandBits F)"
  by (simp add: significandMask_def implicitBit_exp mask_eq_exp_minus_1)

lemma signBit_eq: "signBit F = 2 ^ (LENGTH('r) - 1)"
  by (simp add: signBit_def push_bit_eq_mult width_minus_1)

lemma unat_signBit: "unat (signBit F) = 2 ^ (LENGTH('r) - 1)"
  unfolding signBit_eq by (rule unat_exp_word) simp

lemma absMask_eq: "absMask F = mask (LENGTH('r) - 1)"
  by (simp only: absMask_def signBit_eq mask_eq_exp_minus_1)

lemma bit_exponentMask: "bit (exponentMask F) n \<longleftrightarrow> significandBits F \<le> n \<and> n < LENGTH('r) - 1"
  using width by (auto simp: exponentMask_def absMask_eq significandMask_eq bit_xor_iff bit_mask_iff)

lemma exponentMask_eq: "exponentMask F = shl (mask (exponentBits F)) (significandBits F)"
  by (rule bit_word_eqI) (use width in \<open>auto simp: bit_exponentMask bit_push_bit_iff bit_mask_iff\<close>)

lemma infty_rep_less: "infty_rep F < 2 ^ (LENGTH('r) - 1)"
  unfolding width_minus_1 infty_rep_def power_add by (simp add: mult.commute)

lemma infty_rep_pos: "0 < infty_rep F"
  using one_less_power [of "2 :: nat" "exponentBits F"] exponent_bits by (simp add: infty_rep_def)

lemma maxExponent_bounds: "31 \<le> maxExponent F" "maxExponent F < 2 ^ 15"
proof -
  have "(2::int) ^ 5 \<le> 2 ^ exponentBits F" using exponent_bits by (intro power_increasing) auto
  moreover have "(2::int) ^ exponentBits F \<le> 2 ^ 15" using exponent_bits by (intro power_increasing) auto
  ultimately show "31 \<le> maxExponent F" "maxExponent F < 2 ^ 15" by (simp_all add: maxExponent_def)
qed

lemma maxExponent_bias: "maxExponent F = 2 * exponentBias F + 1"
proof -
  have "odd (maxExponent F)" using exponent_bits by (simp add: maxExponent_def)
  then show ?thesis by (simp add: exponentBias_def)
qed

lemma exponentBias_bounds: "0 \<le> exponentBias F" "exponentBias F < 2 ^ 15"
  using maxExponent_bounds by (simp_all add: exponentBias_def)

lemma unat_infRep: "unat (infRep F) = infty_rep F"
proof -
  have "unat (mask (exponentBits F) :: 'r word) = 2 ^ exponentBits F - 1"
  proof -
    have e: "unat (2 ^ exponentBits F :: 'r word) = 2 ^ exponentBits F" by (rule unat_exp_word) (simp add: width)
    then have "1 \<le> (2 ^ exponentBits F :: 'r word)" by (simp add: word_le_nat_alt)
    then show ?thesis by (simp add: mask_eq_exp_minus_1 unat_minus_le e)
  qed
  moreover have "(2 ^ exponentBits F - 1) * 2 ^ significandBits F < (2::nat) ^ LENGTH('r)"
    using less_trans [OF infty_rep_less power_strict_increasing [of "LENGTH('r) - 1" "LENGTH('r)" "2::nat"]]
    unfolding infty_rep_def by simp
  ultimately show ?thesis
    unfolding infRep_def exponentMask_eq infty_rep_def by (subst unat_shl_small) simp_all
qed

lemma unat_abs [simp]: "unat (x AND absMask F) = rep_abs x" for x :: "'r word"
  by (simp only: absMask_eq unat_and_mask_low rep_abs_def)

lemma rep_abs_less: "rep_abs x < 2 ^ (LENGTH('r) - 1)" for x :: "'r word"
  by (simp add: rep_abs_def)

lemma and_signBit: "x AND signBit F = (if rep_sign x then signBit F else 0)" for x :: "'r word"
  by (rule bit_word_eqI) (auto simp: signBit_eq bit_and_iff bit_exp_iff rep_sign_def)

lemma unat_fraction: "unat (x AND significandMask F) = rep_abs x mod 2 ^ significandBits F" for x :: "'r word"
  using mod_mod_cancel [of "2 ^ significandBits F" "2 ^ (LENGTH('r) - 1)" "unat x"]
  by (simp add: significandMask_eq unat_and_mask_low rep_abs_def width le_imp_power_dvd)

lemma unat_abs_exponent: "unat (shr (x AND absMask F) (significandBits F)) = rep_abs x div 2 ^ significandBits F"
  for x :: "'r word"
  unfolding unat_shr by (simp only: unat_abs)

lemma nan_iff: "infRep F < x AND absMask F \<longleftrightarrow> is_nan F x" for x :: "'r word"
  by (simp add: word_less_nat_alt unat_infRep is_nan_def)

lemma inf_iff: "x AND absMask F = infRep F \<longleftrightarrow> is_inf F x" for x :: "'r word"
  by (simp add: word_unat_eq_iff unat_infRep is_inf_def)

lemma zero_iff: "x AND absMask F = 0 \<longleftrightarrow> rep_abs x = 0" for x :: "'r word"
  by (simp add: word_unat_eq_iff)

lemma classes: "is_nan F x \<or> is_inf F x \<or> is_finite F x"
  by (auto simp: is_nan_def is_inf_def is_finite_def)

text \<open>Putting a sign on a magnitude.\<close>

lemma sign_or:
  fixes w :: "'r word"
  assumes "unat w < 2 ^ (LENGTH('r) - 1)"
  shows "rep_abs (w OR (x AND signBit F)) = unat w"
    and "rep_sign (w OR (x AND signBit F)) = rep_sign x"
proof -
  have no: "\<not> bit w n" if "LENGTH('r) - 1 \<le> n" for n
    using not_bit_of_unat_less [OF assms that] .
  have bits: "bit (w OR (x AND signBit F)) n \<longleftrightarrow> bit w n \<or> n = LENGTH('r) - 1 \<and> bit x n" for n
    by (auto simp: bit_or_iff bit_and_iff signBit_eq bit_exp_iff)
  have "take_bit (LENGTH('r) - 1) (w OR (x AND signBit F)) = w"
  proof (rule bit_word_eqI)
    fix n
    show "bit (take_bit (LENGTH('r) - 1) (w OR (x AND signBit F))) n = bit w n"
      unfolding bit_take_bit_iff bits using no [of n] by (cases "n < LENGTH('r) - 1") auto
  qed
  then have "unat (take_bit (LENGTH('r) - 1) (w OR (x AND signBit F))) = unat w" by simp
  then show "rep_abs (w OR (x AND signBit F)) = unat w"
    by (simp only: rep_abs_def unsigned_take_bit_eq) (simp only: take_bit_eq_mod)
  show "rep_sign (w OR (x AND signBit F)) = rep_sign x"
    using no [of "LENGTH('r) - 1"] by (simp add: rep_sign_def bits)
qed

lemma rep_word_split: "unat x = rep_abs x + (if rep_sign x then 2 ^ (LENGTH('r) - 1) else 0)" for x :: "'r word"
proof -
  have "(2::nat) ^ LENGTH('r) = 2 * 2 ^ (LENGTH('r) - 1)"
    by (simp add: width)
  then have "unat x div 2 ^ (LENGTH('r) - 1) < 2"
    using unat_less_exp_len [of x] by (simp add: less_mult_imp_div_less)
  moreover have "rep_sign x \<longleftrightarrow> odd (unat x div 2 ^ (LENGTH('r) - 1))"
    by (auto simp: rep_sign_def bit_unsigned_iff simp flip: bit_iff_odd)
  ultimately have "unat x div 2 ^ (LENGTH('r) - 1) = (if rep_sign x then 1 else 0)"
    by (cases "unat x div 2 ^ (LENGTH('r) - 1)") (auto simp: less_Suc_eq)
  then show ?thesis
    using div_mult_mod_eq [of "unat x" "2 ^ (LENGTH('r) - 1)"] by (simp add: rep_abs_def split: if_splits)
qed

lemma rep_eqI: "rep_abs x = rep_abs y \<Longrightarrow> rep_sign x = rep_sign y \<Longrightarrow> x = y" for x y :: "'r word"
  by (simp add: word_unat_eq_iff rep_word_split)

end

section \<open>The three precisions\<close>

lemma high_mask64: "(0xffffffff00000000 :: 64 word) = shl (mask 32) 32"
  by (simp add: mask_eq_exp_minus_1 push_bit_eq_mult)

lemma high_bits_zero_iff: "a AND 0xffffffff00000000 = 0 \<longleftrightarrow> (high_half a :: 32 word) = 0" for a :: "64 word"
proof -
  have "unat a < 2 ^ (2 * 32)" using unat_less_exp_len [of a] by simp
  then have "a AND 0xffffffff00000000 = 0 \<longleftrightarrow> unat a < 2 ^ 32"
    unfolding high_mask64 by (rule and_high_mask_eq_0)
  also have "\<dots> \<longleftrightarrow> unat (high_half a :: 32 word) = 0" by (simp add: unat_high_half div_eq_0_iff)
  finally show ?thesis by (simp add: word_unat_eq_iff)
qed

lemma low_mask64: "(0xffffffff :: 64 word) = mask 32"
  by (simp add: mask_eq_exp_minus_1)

lemma rep_clz_double_eq: "w \<noteq> 0 \<Longrightarrow> rep_clz_double w = int (builtin_clz w)"
proof -
  assume w: "w \<noteq> 0"
  have "ucast (shr w 32) = (high_half w :: 32 word)" by (simp add: high_half_def)
  moreover have "ucast (w AND 0xffffffff) = (low_half w :: 32 word)"
    unfolding low_mask64 by (rule bit_word_eqI) (auto simp: bit_ucast_iff bit_and_iff bit_halves bit_mask_iff)
  ultimately show ?thesis
    using builtin_clz_halves [where 'h = 32, of w] w by (simp add: rep_clz_double_def high_bits_zero_iff)
qed

lemma rep_clz_quad_eq: "w \<noteq> 0 \<Longrightarrow> rep_clz_quad w = int (builtin_clz w)"
  using builtin_clz_halves [where 'h = 64, of w] by (simp add: rep_clz_quad_def Let_def)

lemma precision_values [simp]:
  "significandBits single_precision = 23" "significandBits double_precision = 52" "significandBits quad_precision = 112"
  "exponentBits single_precision = 8" "exponentBits double_precision = 11" "exponentBits quad_precision = 15"
  "maxExponent single_precision = 255" "maxExponent double_precision = 2047" "maxExponent quad_precision = 32767"
  "exponentBias single_precision = 127" "exponentBias double_precision = 1023" "exponentBias quad_precision = 16383"
  by (simp_all add: exponentBits_def maxExponent_def exponentBias_def single_precision_def double_precision_def
      quad_precision_def)

lemmas precision_defs = single_precision_def double_precision_def quad_precision_def

interpretation single: fp_base single_precision
  by unfold_locales (simp_all add: precision_defs exponentBits_def rep_clz_single_def)

interpretation double: fp_base double_precision
  by unfold_locales (simp_all add: precision_defs exponentBits_def rep_clz_double_eq)

interpretation quad: fp_base quad_precision
  by unfold_locales (simp_all add: precision_defs exponentBits_def rep_clz_quad_eq)


section \<open>Wide multiplication\<close>

text \<open>What the multiplication of significands relies on: the exact product in two words.\<close>

locale fp_wide = fp_base F for F :: "'r::len fp_format" +
  assumes wide_product: "wideMultiply F a b = (hi, lo) \<Longrightarrow> unat hi * 2 ^ LENGTH('r) + unat lo = unat a * unat b"

lemma wideMultiply_single_exact:
  assumes "wideMultiply_single a b = (hi, lo)"
  shows "unat hi * 2 ^ 32 + unat lo = unat a * unat b"
proof -
  have "unat (ucast x :: 64 word) = unat x" for x :: "32 word"
    using unat_less_exp_len [of x] by (simp add: unsigned_ucast_eq take_bit_nat_eq_self)
  moreover have "unat a * unat b < 2 ^ 32 * 2 ^ 32"
    using unat_less_exp_len [of a] unat_less_exp_len [of b] by (intro mult_strict_mono') auto
  ultimately have p: "unat (ucast a * ucast b :: 64 word) = unat a * unat b"
    by (subst unat_times_small) simp_all
  have "hi = high_half (ucast a * ucast b :: 64 word)" "lo = low_half (ucast a * ucast b :: 64 word)"
    using assms by (simp_all add: wideMultiply_single_def Let_def high_half_def low_half_def)
  moreover have "LENGTH(64) = 2 * LENGTH(32)" by simp
  ultimately show ?thesis
    using unat_halves [where 'h = 32, of "ucast a * ucast b :: 64 word"] unfolding p by simp
qed

lemma unat_loWord: "unat (loWord a) = unat a mod 2 ^ 32"
  by (simp only: loWord_def low_mask64 unat_and_mask_low)

lemma unat_hiWord: "unat (hiWord a) = unat a div 2 ^ 32"
  by (simp only: hiWord_def unat_shr)

lemma wideMultiply_double_exact:
  assumes "wideMultiply_double a b = (hi, lo)"
  shows "unat hi * 2 ^ 64 + unat lo = unat a * unat b"
proof -
  define B :: nat where "B = 2 ^ 32"
  have BB: "(2::nat) ^ LENGTH(64) = B * B" by (simp add: B_def)
  have B0: "0 < B" by (simp add: B_def)
  define a0 a1 b0 b1 where "a0 = unat a mod B" and "a1 = unat a div B"
    and "b0 = unat b mod B" and "b1 = unat b div B"
  have lo: "unat (loWord x) = unat x mod B" and hi: "unat (hiWord x) = unat x div B" for x
    by (simp_all only: unat_loWord unat_hiWord B_def)
  have div_lt: "unat x div B < B" for x :: "64 word"
  proof -
    have "unat x < B * B" using unat_less_exp_len [of x] by (simp add: B_def)
    then show ?thesis by (rule less_mult_imp_div_less)
  qed
  have mod_lt: "n mod B < B" for n using B0 by simp
  have digit: "a0 < B" "a1 < B" "b0 < B" "b1 < B"
    by (simp_all only: a0_def a1_def b0_def b1_def div_lt mod_lt)
  have times: "unat (x * y) = unat x * unat y" if "unat x < B" "unat y < B" for x y :: "64 word"
    using digit_product_bound [OF that B0] by (intro unat_times_small) (simp only: BB add_0_right)
  have prods: "unat (loWord a * loWord b) = a0 * b0" "unat (loWord a * hiWord b) = a0 * b1"
    "unat (hiWord a * loWord b) = a1 * b0" "unat (hiWord a * hiWord b) = a1 * b1"
    using digit by (simp_all add: times lo hi a0_def a1_def b0_def b1_def)
  define r1 where "r1 = hiWord (loWord a * loWord b) + loWord (loWord a * hiWord b) + loWord (hiWord a * loWord b)"
  define R where "R = a0 * b0 div B + a0 * b1 mod B + a1 * b0 mod B"
  have "a0 * b0 div B < B" using div_lt [of "loWord a * loWord b"] by (simp only: prods)
  then have R: "R < 3 * B" using mod_lt [of "a0 * b1"] mod_lt [of "a1 * b0"] unfolding R_def by linarith
  moreover have "3 * B \<le> B * B" by (simp add: B_def)
  ultimately have r1: "unat r1 = R"
    unfolding r1_def R_def
    by (subst unat_plus_small; (subst unat_plus_small)?; simp only: lo hi prods BB)
  define H where "H = a0 * b1 div B + a1 * b0 div B + R div B + a1 * b1"
  have low: "a0 * b0 mod B + R mod B * B < B * B"
  proof -
    have "R mod B * B + a0 * b0 mod B < R mod B * B + B" using mod_lt [of "a0 * b0"] by simp
    also have "\<dots> = Suc (R mod B) * B" by simp
    also have "\<dots> \<le> B * B" using mod_lt [of R] by (intro mult_le_mono1) auto
    finally show ?thesis by simp
  qed
  have shift: "unat (shl r1 32) = R mod B * B"
    unfolding unat_shl r1 BB B_def [symmetric] using B0 by simp
  have ulo: "unat lo = a0 * b0 mod B + R mod B * B"
  proof -
    have "lo = loWord (loWord a * loWord b) + shl r1 32"
      using assms by (simp add: wideMultiply_double_def Let_def r1_def)
    then show ?thesis using low by (simp only: unat_plus_mod lo prods shift BB mod_less)
  qed
  have total: "H * (B * B) + (a0 * b0 mod B + R mod B * B) = unat a * unat b"
  proof -
    have "H * (B * B) + (a0 * b0 mod B + R mod B * B)
        = (a0 * b1 div B * B) * B + (a1 * b0 div B * B) * B + (R div B * B + R mod B) * B
          + a1 * b1 * (B * B) + a0 * b0 mod B"
      by (simp only: H_def add_mult_distrib add_mult_distrib2 ac_simps)
    also have "\<dots> = (a0 * b1 div B * B + a0 * b1 mod B) * B + (a1 * b0 div B * B + a1 * b0 mod B) * B
          + (a0 * b0 div B * B + a0 * b0 mod B) + a1 * b1 * (B * B)"
      unfolding div_mult_mod_eq [of R B]
      by (simp only: R_def add_mult_distrib add_mult_distrib2 ac_simps)
    also have "\<dots> = (a1 * B + a0) * (b1 * B + b0)"
      by (simp only: div_mult_mod_eq) (simp only: add_mult_distrib add_mult_distrib2 ac_simps)
    also have "\<dots> = unat a * unat b"
      by (simp only: a0_def a1_def b0_def b1_def div_mult_mod_eq)
    finally show ?thesis .
  qed
  have "H * (B * B) < (B * B) * (B * B)"
  proof -
    have "H * (B * B) \<le> unat a * unat b" using total by linarith
    also have "\<dots> < (B * B) * (B * B)"
      using unat_less_exp_len [of a] unat_less_exp_len [of b] unfolding BB by (intro mult_strict_mono') auto
    finally show ?thesis .
  qed
  then have H: "H < B * B" by simp
  have "hi = hiWord (loWord a * hiWord b) + hiWord (hiWord a * loWord b) + hiWord r1 + hiWord a * hiWord b"
    using assms by (simp add: wideMultiply_double_def Let_def r1_def)
  then have uhi: "unat hi = H"
    using H unfolding H_def
    by (simp only:) (subst unat_plus_small; (subst unat_plus_small)?; (subst unat_plus_small)?;
        simp only: hi prods r1 BB add_lessD1)
  have "(2::nat) ^ 64 = B * B" by (simp add: B_def)
  then show ?thesis by (simp only: uhi ulo total)
qed

interpretation single: fp_wide single_precision
  by unfold_locales (use wideMultiply_single_exact in \<open>simp add: precision_defs\<close>)

interpretation double: fp_wide double_precision
  by unfold_locales (use wideMultiply_double_exact in \<open>simp add: precision_defs\<close>)

section \<open>Wide shifts\<close>

text \<open>The pair of words as one number.\<close>

definition wide :: "'r::len word \<Rightarrow> 'r word \<Rightarrow> nat" where
  "wide hi lo = unat hi * 2 ^ LENGTH('r) + unat lo"

lemma bit_wide: "bit (wide hi lo) n \<longleftrightarrow> (if n < LENGTH('r) then bit lo n else bit hi (n - LENGTH('r)))"
  for hi lo :: "'r::len word"
  using bit_field [of "unat lo" "LENGTH('r)" "unat hi" n] bit_imp_le_length [of lo n]
    bit_imp_le_length [of hi "n - LENGTH('r)"]
  by (simp add: wide_def add.commute mult.commute bit_unsigned_iff)

lemma wide_inject: "wide hi lo = wide hi' lo' \<longleftrightarrow> hi = hi' \<and> lo = lo'" for hi lo hi' lo' :: "'r::len word"
proof
  assume eq: "wide hi lo = wide hi' lo'"
  have "bit lo n = bit lo' n" if "n < LENGTH('r)" for n
    using eq that bit_wide [of hi lo n] bit_wide [of hi' lo' n] by simp
  moreover have "bit hi n = bit hi' n" for n
    using eq bit_wide [of hi lo "LENGTH('r) + n"] bit_wide [of hi' lo' "LENGTH('r) + n"] by simp
  ultimately show "hi = hi' \<and> lo = lo'" by (auto intro: bit_word_eqI)
qed simp

lemma wide_less: "wide hi lo < 2 ^ LENGTH('r) * 2 ^ LENGTH('r)" for hi lo :: "'r::len word"
proof -
  have "wide hi lo < unat hi * 2 ^ LENGTH('r) + 2 ^ LENGTH('r)" by (simp add: wide_def)
  also have "\<dots> = Suc (unat hi) * 2 ^ LENGTH('r)" by simp
  also have "\<dots> \<le> 2 ^ LENGTH('r) * 2 ^ LENGTH('r)"
    using unat_less_exp_len [of hi] by (intro mult_le_mono1) (simp only: Suc_le_eq)
  finally show ?thesis .
qed

lemma wideLeftShift_one:
  fixes hi lo :: "'r::len word"
  assumes "wideLeftShift hi lo 1 = (hi', lo')" "unat hi * 2 < 2 ^ LENGTH('r)"
  shows "wide hi' lo' = wide hi lo * 2"
proof -
  have eqs: "hi' = shl hi 1 OR shr lo (LENGTH('r) - 1)" "lo' = shl lo 1"
    using assms by (simp_all add: wideLeftShift_def)
  define h :: nat where "h = 2 ^ (LENGTH('r) - 1)"
  have P: "(2::nat) ^ LENGTH('r) = 2 * h" unfolding h_def by (metis len_gt_0 mult.commute power_minus_mult)
  have h: "0 < h" by (simp add: h_def)
  have "unat (shl hi 1) = unat hi * 2" using assms(2) by (subst unat_shl_small) simp_all
  moreover have "unat (shr lo (LENGTH('r) - 1)) = unat lo div h" by (simp only: unat_shr h_def)
  moreover have "unat lo div h < 2"
    using unat_less_exp_len [of lo] unfolding P by (intro less_mult_imp_div_less) simp
  ultimately have hi': "unat hi' = unat hi * 2 + unat lo div h"
    unfolding eqs by (subst unat_shl_or) simp_all
  have lo': "unat lo' = (unat lo mod h) * 2"
  proof -
    have "unat lo' = (2 * unat lo) mod (2 * h)" by (simp only: eqs unat_shl P power_one_right mult.commute)
    also have "\<dots> = 2 * (unat lo mod h)" by (simp only: mult_mod_right)
    finally show ?thesis by simp
  qed
  have "wide hi' lo' = (unat hi * (2 * h) + (unat lo div h * h + unat lo mod h)) * 2"
    unfolding wide_def hi' lo' P by (simp only: distrib_right distrib_left ac_simps)
  then show ?thesis by (simp only: div_mult_mod_eq wide_def P)
qed

lemma truth_bit: "bit (truth p :: 'a::len word) n \<longleftrightarrow> p \<and> n = 0"
  by (auto simp: truth_def bit_1_iff)

lemma wide_or_truth: "wide hi (lo OR truth p) = wide hi lo OR of_bool p" for hi lo :: "'r::len word"
proof (rule bit_eqI)
  fix n
  have "bit (of_bool p :: nat) n \<longleftrightarrow> p \<and> n = 0" by (auto simp: bit_1_iff simp del: One_nat_def)
  then show "bit (wide hi (lo OR truth p)) n = bit (wide hi lo OR of_bool p) n"
    by (auto simp: bit_wide bit_or_iff truth_bit)
qed

lemma shl_eq_0_iff:
  fixes lo :: "'r::len word"
  assumes "k \<le> LENGTH('r)"
  shows "shl lo (LENGTH('r) - k) = 0 \<longleftrightarrow> unat lo mod 2 ^ k = 0"
proof -
  have "shl lo (LENGTH('r) - k) = 0 \<longleftrightarrow> (unat lo * 2 ^ (LENGTH('r) - k)) mod 2 ^ LENGTH('r) = 0"
    by (simp add: word_unat_eq_iff unat_shl)
  also have "(2::nat) ^ LENGTH('r) = 2 ^ k * 2 ^ (LENGTH('r) - k)"
    using assms by (simp flip: power_add)
  finally show ?thesis by (simp add: mod_mult_mult2)
qed

lemma wideRightShiftWithSticky_eq:
  fixes hi lo :: "'r::len word"
  assumes c: "0 < c" "c < LENGTH('r)" and r: "wideRightShiftWithSticky hi lo c = (hi', lo')"
  shows "wide hi' lo' = sticky (wide hi lo) c"
proof -
  define l where "l = shl hi (LENGTH('r) - c) OR shr lo c"
  define s where "s \<longleftrightarrow> shl lo (LENGTH('r) - c) \<noteq> 0"
  have eqs: "hi' = shr hi c" "lo' = l OR truth s"
    using r c by (auto simp: wideRightShiftWithSticky_def l_def s_def Let_def or.assoc)
  have "wide hi' l = wide hi lo div 2 ^ c"
  proof (rule bit_eqI)
    fix n
    have "bit (wide hi lo div 2 ^ c) n = bit (wide hi lo) (c + n)"
      by (simp add: bit_drop_bit_eq flip: drop_bit_eq_div)
    then show "bit (wide hi' l) n = bit (wide hi lo div 2 ^ c) n"
      using c bit_imp_le_length [of hi] bit_imp_le_length [of lo]
      by (auto simp: bit_wide eqs(1) l_def bit_or_iff bit_push_bit_iff bit_drop_bit_eq add.commute
          intro!: arg_cong [where f = "bit hi"])
  qed
  moreover have "s \<longleftrightarrow> wide hi lo mod 2 ^ c \<noteq> 0"
  proof -
    have "(2::nat) ^ LENGTH('r) = 2 ^ (LENGTH('r) - c) * 2 ^ c" using c by (simp flip: power_add)
    then have "wide hi lo mod 2 ^ c = unat lo mod 2 ^ c"
      by (simp add: wide_def flip: mult.assoc)
    then show ?thesis using shl_eq_0_iff [of c lo] c by (simp add: s_def)
  qed
  ultimately show ?thesis unfolding eqs(2) wide_or_truth by (simp add: sticky_def)
qed

section \<open>Shared steps\<close>

text \<open>The representation \<open>x\<close> is the value \<open>num / den\<close> with sign \<open>neg\<close>, rounded to nearest, ties to even.\<close>

definition rounds_to :: "'r::len fp_format \<Rightarrow> nat \<Rightarrow> nat \<Rightarrow> bool \<Rightarrow> 'r word \<Rightarrow> bool" where
  "rounds_to F num den neg x \<longleftrightarrow>
     rep_sign x = neg \<and> nearest_even (significandBits F) (infty_rep F) num den (rep_abs x)"

lemma unat_shr_sticky:
  fixes g :: "'r::len word"
  assumes "0 < k" "k \<le> LENGTH('r)"
  shows "unat (shr g k OR truth (shl g (LENGTH('r) - k) \<noteq> 0)) = sticky (unat g) k"
proof -
  have "unat (truth p :: 'r word) = of_bool p" for p by (simp add: truth_def)
  then show ?thesis
    using shl_eq_0_iff [of k g] assms by (simp add: unsigned_or_eq unat_shr sticky_def)
qed

lemma unat_truth: "unat (truth p :: 'r::len word) = of_bool p"
  by (simp add: truth_def)

context fp_base
begin

lemma clz_bounds:
  fixes w :: "'r word"
  assumes "w \<noteq> 0"
  obtains c where "rep_clz F w = int c" "c < LENGTH('r)" "2 ^ (LENGTH('r) - 1 - c) \<le> unat w" "unat w < 2 ^ (LENGTH('r) - c)"
  using that rep_clz [OF assms] builtin_clz.clz_less [OF assms] builtin_clz.clz_lower [OF assms]
    builtin_clz.clz_upper [OF assms] by blast

lemma clz_exp_word: "n < LENGTH('r) \<Longrightarrow> rep_clz F (2 ^ n) = int (LENGTH('r) - 1 - n)"
  using builtin_clz.clz_exp [where 'a = 'r, of n] by (subst rep_clz) (simp_all add: word_unat_eq_iff unat_exp_word)

text \<open>Moving the leading one bit of a significand up to bit \<open>n\<close>.\<close>

lemma normalise_to:
  fixes w :: "'r word"
  assumes w: "w \<noteq> 0" and n: "n < LENGTH('r)" "unat w < 2 ^ Suc n"
  obtains k where "rep_clz F w - rep_clz F (2 ^ n) = int k" "k \<le> n"
    "unat (shl w k) = unat w * 2 ^ k" "2 ^ n \<le> unat w * 2 ^ k" "unat w * 2 ^ k < 2 ^ Suc n"
proof -
  obtain c where c: "rep_clz F w = int c" "c < LENGTH('r)" "2 ^ (LENGTH('r) - 1 - c) \<le> unat w"
      "unat w < 2 ^ (LENGTH('r) - c)"
    using clz_bounds [OF w] .
  have "(2::nat) ^ (LENGTH('r) - 1 - c) < 2 ^ Suc n" using c(3) n(2) by linarith
  then have "LENGTH('r) - 1 - c < Suc n" by (rule power_less_imp_less_exp [rotated]) simp
  then have "LENGTH('r) - 1 - c \<le> n" by simp
  then obtain k where k: "n = LENGTH('r) - 1 - c + k" using le_Suc_ex by blast
  have clz: "rep_clz F w - rep_clz F (2 ^ n) = int k"
    using n(1) c(2) by (simp add: c(1) clz_exp_word k)
  have "2 ^ (LENGTH('r) - 1 - c) * 2 ^ k \<le> unat w * 2 ^ k" using c(3) by simp
  then have lower: "2 ^ n \<le> unat w * 2 ^ k" by (simp add: k power_add)
  have "unat w * 2 ^ k < 2 ^ (LENGTH('r) - c) * 2 ^ k" using c(4) by simp
  also have "(2::nat) ^ (LENGTH('r) - c) * 2 ^ k = 2 ^ Suc n"
    using c(2) by (simp add: k Suc_diff_Suc flip: power_add power_Suc)
  finally have upper: "unat w * 2 ^ k < 2 ^ Suc n" .
  also have "(2::nat) ^ Suc n \<le> 2 ^ LENGTH('r)" using n(1) by (intro power_increasing) auto
  finally have "unat (shl w k) = unat w * 2 ^ k" by (rule unat_shl_small)
  then show thesis using that clz lower upper k by simp
qed

lemma normalize_eq:
  fixes s :: "'r word"
  assumes "s \<noteq> 0" "unat s < 2 ^ significandBits F"
  obtains k s' where "normalize F s = (s', 1 - int k)" "0 < k" "k \<le> significandBits F"
    "unat s' = unat s * 2 ^ k" "2 ^ significandBits F \<le> unat s'" "unat s' < 2 * 2 ^ significandBits F"
proof -
  obtain k where k: "rep_clz F s - rep_clz F (2 ^ significandBits F) = int k" "k \<le> significandBits F"
    "unat (shl s k) = unat s * 2 ^ k" "2 ^ significandBits F \<le> unat s * 2 ^ k"
    "unat s * 2 ^ k < 2 ^ Suc (significandBits F)"
    using normalise_to [of s "significandBits F"] assms width by auto
  have "0 < k" using k(4) assms(2) by (cases k) auto
  then show thesis
    using that [of "shl s k" k] k by (simp add: normalize_def implicitBit_exp)
qed

lemma unat_quietBit: "unat (quietBit F) = 2 ^ (significandBits F - 1)"
  using fraction_bits unfolding quietBit_def unat_shr unat_implicitBit
  by (simp add: power_diff)

lemma rep_abs_or: "rep_abs (x OR y) = rep_abs x OR rep_abs y" for x y :: "'r word"
  unfolding rep_abs_def unsigned_or_eq by (simp only: take_bit_or flip: take_bit_eq_mod)

lemma quieten_nan:
  fixes x :: "'r word"
  assumes "is_nan F x"
  shows "is_nan F (x OR quietBit F)" and "rep_sign (x OR quietBit F) = rep_sign x"
proof -
  have "int (rep_abs x) \<le> int (rep_abs x) OR int (rep_abs (quietBit F))"
    by (rule or_greater_eq) simp
  then have "rep_abs x \<le> rep_abs (x OR quietBit F)"
    unfolding rep_abs_or by (simp only: of_nat_or_eq [symmetric] of_nat_le_iff)
  then show "is_nan F (x OR quietBit F)" using assms by (simp add: is_nan_def)
  have "unat (quietBit F) < 2 ^ (LENGTH('r) - 1)"
    unfolding unat_quietBit width_minus_1 using exponent_bits by (intro power_strict_increasing) auto
  then have "\<not> bit (quietBit F) (LENGTH('r) - 1)" by (rule not_bit_of_unat_less) simp
  then show "rep_sign (x OR quietBit F) = rep_sign x"
    by (simp add: rep_sign_def bit_or_iff)
qed

lemma qnan_is_nan: "is_nan F (qnanRep F)"
proof -
  have q: "rep_abs (quietBit F) = 2 ^ (significandBits F - 1)"
    unfolding rep_abs_def unat_quietBit width_minus_1 using exponent_bits
    by (intro mod_less power_strict_increasing) auto
  have i: "rep_abs (exponentMask F) = infty_rep F"
    using unat_infRep infty_rep_less by (simp add: rep_abs_def infRep_def)
  have "(2 ^ exponentBits F - 1) * 2 ^ significandBits F OR 2 ^ (significandBits F - 1)
      = (2 ^ exponentBits F - 1) * 2 ^ significandBits F + (2 ^ (significandBits F - 1) :: nat)"
    using fraction_bits by (intro disjunctive_add_eq_or [symmetric] bit_eqI)
      (auto simp: bit_and_iff bit_exp_iff bit_push_bit_iff simp flip: push_bit_eq_mult)
  then show ?thesis
    unfolding qnanRep_def is_nan_def rep_abs_or q i infty_rep_def by simp
qed

text \<open>The exponent field and the significand with its implicit bit.\<close>

lemma exponent_field:
  "shr x (significandBits F) AND word_of_int (maxExponent F) = (of_nat (rep_abs x div 2 ^ significandBits F) :: 'r word)"
  for x :: "'r word"
proof -
  let ?P = "2 ^ significandBits F :: nat" and ?Q = "2 ^ exponentBits F :: nat"
  have "(word_of_int (maxExponent F) :: 'r word) = mask (exponentBits F)"
    by (simp add: maxExponent_def mask_eq_exp_minus_1)
  then have "unat (shr x (significandBits F) AND word_of_int (maxExponent F)) = (unat x div ?P) mod ?Q"
    by (simp only: unat_and_mask_low unat_shr)
  also have "\<dots> = rep_abs x div ?P"
  proof -
    have "unat x mod (?P * ?Q) = ?P * (unat x div ?P mod ?Q) + unat x mod ?P" by (rule mod_mult2_eq)
    then show ?thesis unfolding rep_abs_def width_minus_1 power_add by simp
  qed
  finally show ?thesis by (rule word_of_unat_eq)
qed

lemma exponent_field_less: "rep_abs x div 2 ^ significandBits F < 2 ^ exponentBits F" for x :: "'r word"
  using rep_abs_less [of x] unfolding width_minus_1 power_add by (simp add: less_mult_imp_div_less mult.commute)

lemma finite_exponent: "is_finite F x \<longleftrightarrow> rep_abs x div 2 ^ significandBits F < 2 ^ exponentBits F - 1" for x :: "'r word"
  unfolding is_finite_def infty_rep_def by (simp add: less_mult_imp_div_less div_less_iff_less_mult)

lemma or_implicitBit:
  fixes s :: "'r word"
  assumes "unat s < 2 * 2 ^ significandBits F"
  shows "unat (s OR implicitBit F) = 2 ^ significandBits F + unat s mod 2 ^ significandBits F"
proof (cases "unat s < 2 ^ significandBits F")
  case True
  have "unat (s OR implicitBit F) = unat s + unat (implicitBit F)"
    by (rule unat_or_disjoint)
      (use not_bit_of_unat_less [OF True] in \<open>auto simp: implicitBit_exp bit_exp_iff\<close>)
  then show ?thesis using True by (simp add: unat_implicitBit)
next
  case False
  then have "unat s div 2 ^ significandBits F = 1"
    using assms by (simp add: div_nat_eqI)
  then have "bit (unat s) (significandBits F)" by (simp add: bit_iff_odd)
  then have "bit s (significandBits F)" by (simp add: bit_unsigned_iff)
  then have "s OR implicitBit F = s" by (intro bit_word_eqI) (auto simp: bit_or_iff implicitBit_exp bit_exp_iff)
  moreover have "unat s mod 2 ^ significandBits F = unat s - 2 ^ significandBits F"
    using False assms by (simp add: le_mod_geq)
  ultimately show ?thesis using False by simp
qed

text \<open>Unpacking a finite nonzero operand: significand and exponent, a subnormal one normalised.\<close>

lemma unpack_normal:
  fixes x :: "'r word"
  assumes "rep_abs x div 2 ^ significandBits F = e" "0 < e"
  shows "unat ((x AND significandMask F) OR implicitBit F) * 2 ^ (e - 1) = magnitude F x"
    and "2 ^ significandBits F \<le> unat ((x AND significandMask F) OR implicitBit F)"
    and "unat ((x AND significandMask F) OR implicitBit F) < 2 * 2 ^ significandBits F"
proof -
  let ?f = "rep_abs x mod 2 ^ significandBits F"
  have f: "?f < 2 ^ significandBits F" by simp
  then have u: "unat ((x AND significandMask F) OR implicitBit F) = 2 ^ significandBits F + ?f"
    by (subst or_implicitBit) (simp_all add: unat_fraction order_less_trans [OF f])
  show "unat ((x AND significandMask F) OR implicitBit F) * 2 ^ (e - 1) = magnitude F x"
    unfolding u magnitude_def mag_def Let_def assms(1) using assms(2) by simp
  show "2 ^ significandBits F \<le> unat ((x AND significandMask F) OR implicitBit F)"
    and "unat ((x AND significandMask F) OR implicitBit F) < 2 * 2 ^ significandBits F"
    unfolding u using f by simp_all
qed

lemma unpack_subnormal:
  fixes x :: "'r word"
  assumes e: "rep_abs x div 2 ^ significandBits F = 0" and x: "rep_abs x \<noteq> 0"
  obtains s k where "normalize F (x AND significandMask F) = (s, 1 - int k)" "0 < k" "k \<le> significandBits F"
    "unat (s OR implicitBit F) = magnitude F x * 2 ^ k"
    "2 ^ significandBits F \<le> unat (s OR implicitBit F)" "unat (s OR implicitBit F) < 2 * 2 ^ significandBits F"
proof -
  have less: "rep_abs x < 2 ^ significandBits F" using e by (simp add: div_eq_0_iff)
  then have u: "unat (x AND significandMask F) = rep_abs x" by (simp add: unat_fraction)
  then have "x AND significandMask F \<noteq> 0" using x by (auto simp: word_unat_eq_iff)
  obtain k s where k: "normalize F (x AND significandMask F) = (s, 1 - int k)" "0 < k" "k \<le> significandBits F"
      "unat s = rep_abs x * 2 ^ k" "2 ^ significandBits F \<le> unat s" "unat s < 2 * 2 ^ significandBits F"
    using normalize_eq [OF \<open>x AND significandMask F \<noteq> 0\<close>] u less by metis
  have "unat (s OR implicitBit F) = unat s"
    using k(5,6) by (simp add: or_implicitBit le_mod_geq)
  moreover have "magnitude F x = rep_abs x" using less by (simp add: magnitude_def mag_subnormal)
  ultimately show thesis using that k by simp
qed

text \<open>Packing exponent, fraction and sign, and the increment of a packed representation.\<close>

lemma pack_fields:
  fixes q :: "'r word"
  assumes e: "0 \<le> e" "e < 2 ^ exponentBits F"
  shows "unat ((q AND significandMask F) OR shl (word_of_int e) (significandBits F))
    = nat e * 2 ^ significandBits F + unat q mod 2 ^ significandBits F"
proof -
  have ne: "nat e < 2 ^ exponentBits F" using e by (simp add: nat_less_iff)
  have "(2::nat) ^ exponentBits F < 2 ^ LENGTH('r)" using width by (intro power_strict_increasing) auto
  then have u: "unat (word_of_int e :: 'r word) = nat e"
  proof -
    obtain n where n: "e = int n" using e nonneg_int_cases by blast
    then have "word_of_int e = (of_nat n :: 'r word)" by simp
    moreover have "n < 2 ^ LENGTH('r)" using ne n less_trans [OF _ \<open>(2::nat) ^ exponentBits F < _\<close>] by simp
    ultimately show ?thesis by (simp add: n unsigned_of_nat take_bit_nat_eq_self)
  qed
  have "nat e * 2 ^ significandBits F < 2 ^ exponentBits F * 2 ^ significandBits F" using ne by simp
  also have "\<dots> \<le> 2 ^ LENGTH('r)" by (simp add: width power_add)
  finally have "unat (shl (word_of_int e :: 'r word) (significandBits F)) = nat e * 2 ^ significandBits F"
    unfolding u [symmetric] by (rule unat_shl_small)
  moreover have "unat (q AND significandMask F) = unat q mod 2 ^ significandBits F"
    by (simp only: significandMask_eq unat_and_mask_low)
  moreover have "unat (shl (word_of_int e :: 'r word) (significandBits F) OR (q AND significandMask F))
      = unat (shl (word_of_int e :: 'r word) (significandBits F)) + unat (q AND significandMask F)"
    by (rule unat_shl_or) (simp add: \<open>unat (q AND significandMask F) = _\<close>)
  ultimately show ?thesis by (simp only: or.commute)
qed

lemma sign_or_if:
  fixes w :: "'r word"
  assumes "unat w < 2 ^ (LENGTH('r) - 1)"
  shows "rep_abs (w OR (if neg then signBit F else 0)) = unat w" and "rep_sign (w OR (if neg then signBit F else 0)) = neg"
proof -
  have "(if neg then signBit F else 0) = (if neg then signBit F else 0) AND signBit F" "rep_sign (if neg then signBit F else 0) = neg"
    by (simp_all add: rep_sign_def signBit_eq bit_exp_iff)
  then show "rep_abs (w OR (if neg then signBit F else 0)) = unat w" and "rep_sign (w OR (if neg then signBit F else 0)) = neg"
    using sign_or [OF assms, of "if neg then signBit F else 0"] by simp_all
qed

lemma sign_or_value:
  fixes m :: "'r word"
  assumes "unat m < 2 ^ (LENGTH('r) - 1)"
  shows "unat (m OR (x AND signBit F)) = unat m + (if rep_sign x then 2 ^ (LENGTH('r) - 1) else 0)"
  unfolding rep_word_split [of "m OR (x AND signBit F)"] by (simp add: sign_or [OF assms])

lemma sign_or_increment:
  fixes m :: "'r word"
  assumes "unat m < infty_rep F"
  shows "rep_abs ((m OR (x AND signBit F)) + 1) = unat m + 1"
    and "rep_sign ((m OR (x AND signBit F)) + 1) = rep_sign x"
proof -
  have len: "2 \<le> LENGTH('r)" using width fraction_bits by simp
  have m: "unat m + 1 < 2 ^ (LENGTH('r) - 1)" using assms infty_rep_less by linarith
  have P: "(2::nat) ^ LENGTH('r) = 2 ^ (LENGTH('r) - 1) + 2 ^ (LENGTH('r) - 1)"
    by (metis len_gt_0 mult_2 power_minus_mult mult.commute)
  have one: "unat (1 :: 'r word) = 1" by simp
  have m1: "unat (m + 1) = unat m + 1" 
  proof -
    have "unat m + unat (1 :: 'r word) < 2 ^ LENGTH('r)" unfolding one P using m by linarith
    then show ?thesis by (simp only: unat_plus_small one)
  qed
  have "unat ((m OR (x AND signBit F)) + 1) = unat (m OR (x AND signBit F)) + 1"
  proof -
    have "unat (m OR (x AND signBit F)) < unat m + 2 ^ (LENGTH('r) - 1) + 1"
      using sign_or_value [of m x] m by simp
    then have "unat (m OR (x AND signBit F)) + unat (1 :: 'r word) < 2 ^ LENGTH('r)" unfolding one P using m by linarith
    then show ?thesis by (simp only: unat_plus_small one)
  qed
  also have "\<dots> = unat ((m + 1) OR (x AND signBit F))"
    using m m1 by (simp add: sign_or_value)
  finally have "(m OR (x AND signBit F)) + 1 = (m + 1) OR (x AND signBit F)"
    by (simp only: word_unat_eq_iff)
  then show "rep_abs ((m OR (x AND signBit F)) + 1) = unat m + 1"
    and "rep_sign ((m OR (x AND signBit F)) + 1) = rep_sign x"
    using m m1 by (simp_all add: sign_or)
qed

text \<open>The rounding increment at the end of the arithmetic routines.\<close>

lemma rounds_to_increment:
  fixes m :: "'r word"
  assumes f: "0 < f" and ok: "significand_ok (significandBits F) e (g div 2 ^ f)"
    and track: "tracks (2 ^ (f - 1)) g (num * 2 ^ f) (den * 2 ^ (e - 1))"
    and m: "unat m = join_rep (significandBits F) e (g div 2 ^ f)" "unat m < infty_rep F"
    and up: "R = (m OR (x AND signBit F)) + (if round_up f g (unat m) then 1 else 0)"
  shows "rounds_to F num den (rep_sign x) R"
proof -
  have less: "unat m < 2 ^ (LENGTH('r) - 1)" using m(2) infty_rep_less by linarith
  have "rep_sign R = rep_sign x" "rep_abs R = (if round_up f g (unat m) then unat m + 1 else unat m)"
    unfolding up using sign_or [OF less, of x] sign_or_increment [OF m(2), of x] by simp_all
  then show ?thesis
    using nearest_even_round [OF f ok track m] by (simp add: rounds_to_def)
qed

text \<open>Overflow to infinity.\<close>

lemma rounds_to_infinity:
  assumes "mag (significandBits F) (infty_rep F) * den \<le> num" "0 < den"
  shows "rounds_to F num den (rep_sign x) (infRep F OR (x AND signBit F))"
proof -
  have "unat (infRep F) < 2 ^ (LENGTH('r) - 1)" using infty_rep_less by (simp add: unat_infRep)
  moreover have "0 < infty_rep F"
    using one_less_power [of "2 :: nat" "exponentBits F"] exponent_bits by (simp add: infty_rep_def)
  ultimately show ?thesis
    using nearest_even_overflow [OF assms] by (simp add: rounds_to_def sign_or unat_infRep)
qed

lemma mag_infty_rep: "mag (significandBits F) (infty_rep F) = 2 ^ significandBits F * 2 ^ (2 ^ exponentBits F - 2)"
proof -
  have "(2::nat) ^ 5 \<le> 2 ^ exponentBits F" using exponent_bits by (intro power_increasing) auto
  then have "0 < (2::nat) ^ exponentBits F - 1" "(2::nat) ^ exponentBits F - 1 - 1 = 2 ^ exponentBits F - 2"
    by simp_all
  then show ?thesis
    using mag_normal [of 0 "significandBits F" "2 ^ exponentBits F - 1"]
    by (simp only: infty_rep_def add_0_right) simp
qed

end

end
