(* ===== verification/Fp_Compare.thy ===== *)
theory Fp_Compare
  imports Fp_Lib
begin

text \<open>
  Comparison and negation: \<open>comparesf2.c\<close>, \<open>comparedf2.c\<close>, \<open>comparetf2.c\<close>, \<open>negsf2.c\<close>, \<open>negdf2.c\<close> and
  the MSP430 EABI entry points of \<open>bridge.c\<close>.  The three comparison files share their text, written
  once over a format.  The result of a comparison is related to the order of the values \<open>val\<close>, in which
  the representation of an infinity lies beyond every finite value and both zeros are 0.
\<close>

section \<open>Comparison routines\<close>

definition LE_LESS :: int where [simp]: "LE_LESS = - 1"
definition LE_EQUAL :: int where [simp]: "LE_EQUAL = 0"
definition LE_GREATER :: int where [simp]: "LE_GREATER = 1"
definition LE_UNORDERED :: int where [simp]: "LE_UNORDERED = 1"
definition GE_LESS :: int where [simp]: "GE_LESS = - 1"
definition GE_EQUAL :: int where [simp]: "GE_EQUAL = 0"
definition GE_GREATER :: int where [simp]: "GE_GREATER = 1"
definition GE_UNORDERED :: int where [simp]: "GE_UNORDERED = - 1"

definition leXf2 :: "'r::len fp_format \<Rightarrow> 'r word \<Rightarrow> 'r word \<Rightarrow> int" where
  "leXf2 F a b =
     (let aInt = toRep a; bInt = toRep b;
          aAbs = aInt AND absMask F; bAbs = bInt AND absMask F in
      if aAbs > infRep F \<or> bAbs > infRep F then LE_UNORDERED
      else if aAbs OR bAbs = 0 then LE_EQUAL
      else if 0 \<le>s aInt AND bInt then
        if aInt <s bInt then LE_LESS else if aInt = bInt then LE_EQUAL else LE_GREATER
      else
        if bInt <s aInt then LE_LESS else if aInt = bInt then LE_EQUAL else LE_GREATER)"

definition geXf2 :: "'r::len fp_format \<Rightarrow> 'r word \<Rightarrow> 'r word \<Rightarrow> int" where
  "geXf2 F a b =
     (let aInt = toRep a; bInt = toRep b;
          aAbs = aInt AND absMask F; bAbs = bInt AND absMask F in
      if aAbs > infRep F \<or> bAbs > infRep F then GE_UNORDERED
      else if aAbs OR bAbs = 0 then GE_EQUAL
      else if 0 \<le>s aInt AND bInt then
        if aInt <s bInt then GE_LESS else if aInt = bInt then GE_EQUAL else GE_GREATER
      else
        if bInt <s aInt then GE_LESS else if aInt = bInt then GE_EQUAL else GE_GREATER)"

definition unordXf2 :: "'r::len fp_format \<Rightarrow> 'r word \<Rightarrow> 'r word \<Rightarrow> int" where
  "unordXf2 F a b =
     (let aAbs = toRep a AND absMask F; bAbs = toRep b AND absMask F
      in of_bool (aAbs > infRep F \<or> bAbs > infRep F))"

definition lesf2 :: "32 word \<Rightarrow> 32 word \<Rightarrow> int" where "lesf2 = leXf2 single_precision"
definition gesf2 :: "32 word \<Rightarrow> 32 word \<Rightarrow> int" where "gesf2 = geXf2 single_precision"
definition unordsf2 :: "32 word \<Rightarrow> 32 word \<Rightarrow> int" where "unordsf2 = unordXf2 single_precision"
definition ledf2 :: "64 word \<Rightarrow> 64 word \<Rightarrow> int" where "ledf2 = leXf2 double_precision"
definition gedf2 :: "64 word \<Rightarrow> 64 word \<Rightarrow> int" where "gedf2 = geXf2 double_precision"
definition unorddf2 :: "64 word \<Rightarrow> 64 word \<Rightarrow> int" where "unorddf2 = unordXf2 double_precision"
definition letf2 :: "128 word \<Rightarrow> 128 word \<Rightarrow> int" where "letf2 = leXf2 quad_precision"
definition getf2 :: "128 word \<Rightarrow> 128 word \<Rightarrow> int" where "getf2 = geXf2 quad_precision"
definition unordtf2 :: "128 word \<Rightarrow> 128 word \<Rightarrow> int" where "unordtf2 = unordXf2 quad_precision"

definition negXf2 :: "'r::len fp_format \<Rightarrow> 'r word \<Rightarrow> 'r word" where
  "negXf2 F a = fromRep (toRep a XOR signBit F)"

definition negsf2 :: "32 word \<Rightarrow> 32 word" where "negsf2 = negXf2 single_precision"
definition negdf2 :: "64 word \<Rightarrow> 64 word" where "negdf2 = negXf2 double_precision"

section \<open>The MSP430 bridge\<close>

text \<open>
  The C operators that \<open>bridge.c\<close> applies to \<open>float\<close> and \<open>double\<close>: the relational operators are false on
  a NaN, and the conversion to \<open>su_int\<close> drops the fraction and is undefined (\<open>None\<close>) when the integral
  part does not fit.
\<close>

definition c_less :: "'r::len fp_format \<Rightarrow> 'r word \<Rightarrow> 'r word \<Rightarrow> bool" where
  "c_less F x y \<longleftrightarrow> \<not> is_nan F x \<and> \<not> is_nan F y \<and> val F x < val F y"

definition integral_part :: "'r::len fp_format \<Rightarrow> 'r word \<Rightarrow> nat" where
  "integral_part F x = magnitude F x div 2 ^ (nat (exponentBias F) + significandBits F - 1)"

definition c_to_su_int :: "'r::len fp_format \<Rightarrow> 'r word \<Rightarrow> su_int option" where
  "c_to_su_int F x =
     (if is_finite F x \<and> (if rep_sign x then integral_part F x = 0 else integral_part F x < 2 ^ 32)
      then Some (of_nat (integral_part F x)) else None)"

definition mspabi_fixful :: "32 word \<Rightarrow> su_int option" where
  "mspabi_fixful a = c_to_su_int single_precision a"

definition mspabi_cmpf :: "32 word \<Rightarrow> 32 word \<Rightarrow> si_int" where
  "mspabi_cmpf x y =
     (if c_less single_precision x y then - 1
      else if c_less single_precision y x then 1
      else 0)"

definition mspabi_cmpd :: "64 word \<Rightarrow> 64 word \<Rightarrow> si_int" where
  "mspabi_cmpd x y =
     (if c_less double_precision x y then - 1
      else if c_less double_precision y x then 1
      else 0)"

section \<open>Comparison by value\<close>

context fp_base
begin

lemma int_rep_abs_less: "int (rep_abs x) < 2 ^ (LENGTH('r) - 1)" for x :: "'r word"
  using rep_abs_less [of x] by (metis of_nat_less_iff of_nat_numeral of_nat_power)

lemma sint_rep: "sint x = int (rep_abs x) - (if rep_sign x then 2 ^ (LENGTH('r) - 1) else 0)" for x :: "'r word"
proof (rule sint_eq_of_range)
  let ?k = "int (rep_abs x) - (if rep_sign x then 2 ^ (LENGTH('r) - 1) else 0)"
  have k: "0 \<le> int (rep_abs x)" "int (rep_abs x) < 2 ^ (LENGTH('r) - 1)" by (simp, rule int_rep_abs_less)
  have "int (unat x) = ?k + (if rep_sign x then 2 ^ LENGTH('r) else 0)"
    using exp_double [where 'a = 'r] by (simp add: rep_word_split)
  then have "word_of_int (int (unat x)) = (word_of_int ?k :: 'r word)"
    using word_of_int_period(2) [where 'a = 'r, of ?k] by (simp split: if_splits)
  then show "x = word_of_int ?k" by simp
  show "- (2 ^ (LENGTH('r) - 1)) \<le> ?k" "?k < 2 ^ (LENGTH('r) - 1)"
    using k by (cases "rep_sign x"; simp only: if_True if_False; linarith)+
qed

lemma sint_negative_iff: "sint x < 0 \<longleftrightarrow> rep_sign x" for x :: "'r word"
  using int_rep_abs_less [of x] unfolding sint_rep by (cases "rep_sign x") simp_all

lemma sign_and: "0 \<le>s a AND b \<longleftrightarrow> \<not> (rep_sign a \<and> rep_sign b)" for a b :: "'r word"
proof -
  have "0 \<le>s w \<longleftrightarrow> \<not> rep_sign w" for w :: "'r word"
    unfolding word_sle_eq sint_negative_iff [symmetric] by (simp add: not_less)
  then show ?thesis by (simp add: rep_sign_def bit_and_iff)
qed

lemma val_compare:
  fixes a b :: "'r word"
  assumes "\<not> (rep_abs a = 0 \<and> rep_abs b = 0)"
  shows "val F a < val F b \<longleftrightarrow> (if rep_sign a \<and> rep_sign b then sint b < sint a else sint a < sint b)"
    and "val F a = val F b \<longleftrightarrow> a = b"
proof -
  have m: "magnitude F a < magnitude F b \<longleftrightarrow> rep_abs a < rep_abs b"
    "magnitude F b < magnitude F a \<longleftrightarrow> rep_abs b < rep_abs a"
    "magnitude F a = magnitude F b \<longleftrightarrow> rep_abs a = rep_abs b"
    "magnitude F a = 0 \<longleftrightarrow> rep_abs a = 0" "magnitude F b = 0 \<longleftrightarrow> rep_abs b = 0"
    by (simp_all add: magnitude_def mag_less_iff mag_eq_iff)
  have both: "sint b < sint a \<longleftrightarrow> rep_abs b < rep_abs a" "sint a < sint b \<longleftrightarrow> rep_abs a < rep_abs b"
    if "rep_sign a = rep_sign b" using that by (simp_all add: sint_rep)
  have neg: "sint x < sint y" if "rep_sign x" "\<not> rep_sign y" for x y :: "'r word"
    using that sint_negative_iff [of x] sint_negative_iff [of y] by linarith
  show "val F a < val F b \<longleftrightarrow> (if rep_sign a \<and> rep_sign b then sint b < sint a else sint a < sint b)"
  proof (cases "rep_sign a = rep_sign b")
    case True
    then show ?thesis using m both by (simp add: val_def)
  next
    case False
    then show ?thesis using m assms neg [of a b] neg [of b a]
      by (cases "rep_sign a") (auto simp: val_def)
  qed
  show "val F a = val F b \<longleftrightarrow> a = b"
    using m assms rep_eqI [of a b] unfolding val_def
    by (cases "rep_sign a"; cases "rep_sign b") auto
qed

lemma zero_values: "rep_abs x = 0 \<Longrightarrow> val F x = 0" for x :: "'r word"
  by (simp add: val_def magnitude_def)

lemma or_abs_zero: "(a AND absMask F) OR (b AND absMask F) = 0 \<longleftrightarrow> rep_abs a = 0 \<and> rep_abs b = 0" for a b :: "'r word"
  by (simp add: zero_iff [symmetric] or_eq_0_iff)

lemma compare_eq:
  fixes a b :: "'r word"
  shows "leXf2 F a b = (if is_nan F a \<or> is_nan F b then 1 else sgn (val F a - val F b))"
    and "geXf2 F a b = (if is_nan F a \<or> is_nan F b then - 1 else sgn (val F a - val F b))"
    and "unordXf2 F a b = of_bool (is_nan F a \<or> is_nan F b)"
proof -
  show "unordXf2 F a b = of_bool (is_nan F a \<or> is_nan F b)"
    by (simp add: unordXf2_def Let_def nan_iff)
  show "leXf2 F a b = (if is_nan F a \<or> is_nan F b then 1 else sgn (val F a - val F b))"
    and "geXf2 F a b = (if is_nan F a \<or> is_nan F b then - 1 else sgn (val F a - val F b))"
    unfolding leXf2_def geXf2_def Let_def toRep_def nan_iff or_abs_zero sign_and word_sless_alt
    using val_compare [of a b] zero_values [of a] zero_values [of b] by (auto simp: sgn_if)
qed

text \<open>Negation flips the sign bit and nothing else.\<close>

lemma neg_fields:
  fixes a :: "'r word"
  shows "rep_abs (negXf2 F a) = rep_abs a" and "rep_sign (negXf2 F a) = (\<not> rep_sign a)"
proof -
  have "take_bit (LENGTH('r) - 1) (a XOR signBit F) = take_bit (LENGTH('r) - 1) a"
    by (rule bit_word_eqI) (auto simp: bit_take_bit_iff bit_xor_iff signBit_eq bit_exp_iff)
  then have "unat (take_bit (LENGTH('r) - 1) (a XOR signBit F)) = unat (take_bit (LENGTH('r) - 1) a)" by simp
  then show "rep_abs (negXf2 F a) = rep_abs a"
    unfolding negXf2_def rep_abs_def toRep_def fromRep_def
    by (simp only: unsigned_take_bit_eq) (simp only: take_bit_eq_mod)
  show "rep_sign (negXf2 F a) = (\<not> rep_sign a)"
    by (simp add: negXf2_def rep_sign_def bit_xor_iff signBit_eq bit_exp_iff)
qed

lemma neg_eq:
  fixes a :: "'r word"
  shows "val F (negXf2 F a) = - val F a" and "is_nan F (negXf2 F a) = is_nan F a"
    and "negXf2 F (negXf2 F a) = a"
  by (simp_all add: val_def magnitude_def is_nan_def neg_fields rep_eqI)

lemma c_less_sgn:
  fixes x y :: "'r word"
  shows "(if c_less F x y then - 1 else if c_less F y x then 1 else 0)
    = (if is_nan F x \<or> is_nan F y then 0 else word_of_int (sgn (val F x - val F y)) :: si_int)"
  by (auto simp: c_less_def sgn_if)

end

section \<open>Properties\<close>

text \<open>C30. The comparison routines of all three precisions return the sign of the difference of the values
  (zeros of either sign equal, infinities beyond every finite value); with a NaN operand \<open>__le*f2\<close>
  returns 1, \<open>__ge*f2\<close> returns -1, and \<open>__unord*f2\<close> returns 1 for exactly these operands.\<close>

theorem comparison_correct:
  "lesf2 a b = (if is_nan single_precision a \<or> is_nan single_precision b then 1
     else sgn (val single_precision a - val single_precision b)) \<and>
   gesf2 a b = (if unordsf2 a b = 1 then - 1 else lesf2 a b) \<and>
   unordsf2 a b = of_bool (is_nan single_precision a \<or> is_nan single_precision b) \<and>
   ledf2 c d = (if is_nan double_precision c \<or> is_nan double_precision d then 1
     else sgn (val double_precision c - val double_precision d)) \<and>
   gedf2 c d = (if unorddf2 c d = 1 then - 1 else ledf2 c d) \<and>
   unorddf2 c d = of_bool (is_nan double_precision c \<or> is_nan double_precision d) \<and>
   letf2 e f = (if is_nan quad_precision e \<or> is_nan quad_precision f then 1
     else sgn (val quad_precision e - val quad_precision f)) \<and>
   getf2 e f = (if unordtf2 e f = 1 then - 1 else letf2 e f) \<and>
   unordtf2 e f = of_bool (is_nan quad_precision e \<or> is_nan quad_precision f)"
  by (simp add: lesf2_def gesf2_def unordsf2_def ledf2_def gedf2_def unorddf2_def letf2_def getf2_def unordtf2_def
      single.compare_eq double.compare_eq quad.compare_eq)

text \<open>C31. The MSP430 comparison entry points of \<open>bridge.c\<close> agree with the library comparisons on ordered
  operands and answer 0, as for equal operands, when an operand is a NaN.\<close>

theorem bridge_comparison:
  "mspabi_cmpf x y = (if unordsf2 x y = 1 then 0 else word_of_int (lesf2 x y)) \<and>
   mspabi_cmpd u v = (if unorddf2 u v = 1 then 0 else word_of_int (ledf2 u v))"
  unfolding mspabi_cmpf_def mspabi_cmpd_def single.c_less_sgn double.c_less_sgn
  by (simp add: lesf2_def unordsf2_def ledf2_def unorddf2_def single.compare_eq double.compare_eq)

text \<open>Negation changes the sign of the value, keeps NaNs NaNs and is its own inverse.\<close>

theorem negation_correct:
  "val single_precision (negsf2 a) = - val single_precision a \<and> negsf2 (negsf2 a) = a \<and>
   is_nan single_precision (negsf2 a) = is_nan single_precision a \<and>
   val double_precision (negdf2 b) = - val double_precision b \<and> negdf2 (negdf2 b) = b \<and>
   is_nan double_precision (negdf2 b) = is_nan double_precision b"
  by (simp add: negsf2_def negdf2_def single.neg_eq double.neg_eq)

end
