(* ===== verification/Fp_Add.thy ===== *)
theory Fp_Add
  imports Fp_Compare
begin

text \<open>
  Addition and subtraction: the template \<open>fp_add_impl.inc\<close> (\<open>__addXf3__\<close>) and its instances
  \<open>addsf3.c\<close>, \<open>adddf3.c\<close>, \<open>addtf3.c\<close>, \<open>subsf3.c\<close>, \<open>subdf3.c\<close>, \<open>subtf3.c\<close>.  The template is written as the
  sequence of its steps: special operands, unpacking, alignment with a sticky bit, addition or
  subtraction with renormalisation, packing and rounding.  The theorem is that the result is the exact
  sum rounded to nearest, ties to even.
\<close>

section \<open>The steps of the template\<close>

text \<open>Zero, infinite and NaN operands; \<open>None\<close> falls through to the general case.\<close>

definition add_special :: "'r::len fp_format \<Rightarrow> 'r word \<Rightarrow> 'r word \<Rightarrow> 'r word option" where
  "add_special F a b =
     (let aAbs = toRep a AND absMask F; bAbs = toRep b AND absMask F in
      if aAbs - 1 \<ge> infRep F - 1 \<or> bAbs - 1 \<ge> infRep F - 1 then
        if aAbs > infRep F then Some (fromRep (toRep a OR quietBit F))
        else if bAbs > infRep F then Some (fromRep (toRep b OR quietBit F))
        else if aAbs = infRep F then
          if toRep a XOR toRep b = signBit F then Some (fromRep (qnanRep F)) else Some a
        else if bAbs = infRep F then Some b
        else if aAbs = 0 then
          if bAbs = 0 then Some (fromRep (toRep a AND toRep b)) else Some b
        else if bAbs = 0 then Some a
        else None
      else None)"

text \<open>The biased exponent and the significand, a subnormal operand normalised.\<close>

definition add_unpack :: "'r::len fp_format \<Rightarrow> 'r word \<Rightarrow> 'r word \<times> int" where
  "add_unpack F rep =
     (let exponent = uint (shr rep (significandBits F) AND word_of_int (maxExponent F));
          significand = rep AND significandMask F in
      if exponent = 0 then normalize F significand else (significand, exponent))"

definition add_align :: "'r::len word \<Rightarrow> c_unsigned \<Rightarrow> 'r word" where
  "add_align significand align =
     (if align \<noteq> 0 then
        if unat align < LENGTH('r) then
          let sticky = shl significand (LENGTH('r) - unat align) \<noteq> 0
          in shr significand (unat align) OR truth sticky
        else 1
      else significand)"

text \<open>The sum or difference of the aligned significands; \<open>None\<close> is the exact difference zero.\<close>

definition add_significands :: "'r::len fp_format \<Rightarrow> bool \<Rightarrow> 'r word \<Rightarrow> 'r word \<Rightarrow> int \<Rightarrow> ('r word \<times> int) option" where
  "add_significands F subtraction aSignificand bSignificand aExponent =
     (if subtraction then
        let aSignificand = aSignificand - bSignificand in
        if aSignificand = 0 then None
        else if aSignificand < shl (implicitBit F) 3 then
          let shift = rep_clz F aSignificand - rep_clz F (shl (implicitBit F) 3)
          in Some (shl aSignificand (nat shift), aExponent - shift)
        else Some (aSignificand, aExponent)
      else
        let aSignificand = aSignificand + bSignificand in
        if aSignificand AND shl (implicitBit F) 4 \<noteq> 0 then
          let sticky = aSignificand AND 1 \<noteq> 0
          in Some (shr aSignificand 1 OR truth sticky, aExponent + 1)
        else Some (aSignificand, aExponent))"

definition add_round :: "'r::len fp_format \<Rightarrow> 'r word \<Rightarrow> 'r word \<Rightarrow> int \<Rightarrow> 'r word" where
  "add_round F resultSign aSignificand aExponent =
     (if aExponent \<ge> maxExponent F then fromRep (infRep F OR resultSign)
      else
        let (aSignificand, aExponent) =
              (if aExponent \<le> 0 then
                 let shift = nat (1 - aExponent);
                     sticky = shl aSignificand (LENGTH('r) - shift) \<noteq> 0
                 in (shr aSignificand shift OR truth sticky, 0)
               else (aSignificand, aExponent));
            roundGuardSticky = uint (aSignificand AND 7);
            result = shr aSignificand 3 AND significandMask F;
            result = result OR shl (word_of_int aExponent) (significandBits F);
            result = result OR resultSign;
            result =
              (case fe_getround of
                 FE_TONEAREST \<Rightarrow>
                   let result = (if roundGuardSticky > 4 then result + 1 else result)
                   in if roundGuardSticky = 4 then result + (result AND 1) else result
               | FE_DOWNWARD \<Rightarrow> if resultSign \<noteq> 0 \<and> roundGuardSticky \<noteq> 0 then result + 1 else result
               | FE_UPWARD \<Rightarrow> if resultSign = 0 \<and> roundGuardSticky \<noteq> 0 then result + 1 else result
               | FE_TOWARDZERO \<Rightarrow> result)
        in fromRep result)"

definition addXf3 :: "'r::len fp_format \<Rightarrow> 'r word \<Rightarrow> 'r word \<Rightarrow> 'r word" where
  "addXf3 F a b =
     (case add_special F a b of Some result \<Rightarrow> result
      | None \<Rightarrow>
          let aRep = toRep a; bRep = toRep b;
              (aRep, bRep) = (if bRep AND absMask F > aRep AND absMask F then (bRep, aRep) else (aRep, bRep));
              (aSignificand, aExponent) = add_unpack F aRep;
              (bSignificand, bExponent) = add_unpack F bRep;
              resultSign = aRep AND signBit F;
              subtraction = (aRep XOR bRep) AND signBit F \<noteq> 0;
              aSignificand = shl (aSignificand OR implicitBit F) 3;
              bSignificand = shl (bSignificand OR implicitBit F) 3;
              align = word_of_int (aExponent - bExponent) :: c_unsigned;
              bSignificand = add_align bSignificand align
          in case add_significands F subtraction aSignificand bSignificand aExponent of
               None \<Rightarrow> fromRep 0
             | Some (aSignificand, aExponent) \<Rightarrow> add_round F resultSign aSignificand aExponent)"

definition addsf3 :: "32 word \<Rightarrow> 32 word \<Rightarrow> 32 word" where "addsf3 = addXf3 single_precision"
definition adddf3 :: "64 word \<Rightarrow> 64 word \<Rightarrow> 64 word" where "adddf3 = addXf3 double_precision"
definition addtf3 :: "128 word \<Rightarrow> 128 word \<Rightarrow> 128 word" where "addtf3 = addXf3 quad_precision"

definition subsf3 :: "32 word \<Rightarrow> 32 word \<Rightarrow> 32 word" where
  "subsf3 a b = addsf3 a (fromRep (toRep b XOR signBit single_precision))"
definition subdf3 :: "64 word \<Rightarrow> 64 word \<Rightarrow> 64 word" where
  "subdf3 a b = adddf3 a (fromRep (toRep b XOR signBit double_precision))"
definition subtf3 :: "128 word \<Rightarrow> 128 word \<Rightarrow> 128 word" where
  "subtf3 a b = addtf3 a (fromRep (toRep b XOR signBit quad_precision))"

text \<open>The contract of IEEE 754 addition in the default rounding mode: \<open>r\<close> is the sum of \<open>a\<close> and \<open>b\<close>.\<close>

definition ieee_sum :: "'r::len fp_format \<Rightarrow> 'r word \<Rightarrow> 'r word \<Rightarrow> 'r word \<Rightarrow> bool" where
  "ieee_sum F a b r \<longleftrightarrow>
     (if is_nan F a \<or> is_nan F b then is_nan F r
      else if is_inf F a \<and> is_inf F b \<and> rep_sign a \<noteq> rep_sign b then is_nan F r
      else if is_inf F a then r = a
      else if is_inf F b then r = b
      else if val F a + val F b = 0 then rep_abs r = 0 \<and> rep_sign r = (rep_sign a \<and> rep_sign b)
      else rounds_to F (nat \<bar>val F a + val F b\<bar>) 1 (val F a + val F b < 0) r)"

definition ieee_difference :: "'r::len fp_format \<Rightarrow> 'r word \<Rightarrow> 'r word \<Rightarrow> 'r word \<Rightarrow> bool" where
  "ieee_difference F a b r \<longleftrightarrow>
     (if is_nan F a \<or> is_nan F b then is_nan F r
      else if is_inf F a \<and> is_inf F b \<and> rep_sign a = rep_sign b then is_nan F r
      else if is_inf F a then r = a
      else if is_inf F b then rep_abs r = rep_abs b \<and> rep_sign r \<noteq> rep_sign b
      else if val F a = val F b then rep_abs r = 0 \<and> rep_sign r = (rep_sign a \<and> \<not> rep_sign b)
      else rounds_to F (nat \<bar>val F a - val F b\<bar>) 1 (val F a < val F b) r)"

section \<open>The steps keep track of the exact sum\<close>

context fp_base
begin

lemma uint_exponent_field:
  "uint (shr x (significandBits F) AND word_of_int (maxExponent F)) = int (rep_abs x div 2 ^ significandBits F)"
  for x :: "'r word"
proof -
  have "rep_abs x div 2 ^ significandBits F < 2 ^ LENGTH('r)"
    using less_trans [OF exponent_field_less [of x] power_strict_increasing [of "exponentBits F" "LENGTH('r)"]] width
    by simp
  then show ?thesis
    unfolding exponent_field unsigned_of_nat by (simp only: take_bit_nat_eq_self)
qed

lemma add_unpack_eq:
  fixes x :: "'r word"
  assumes fin: "is_finite F x" and nz: "rep_abs x \<noteq> 0"
  obtains s e where "add_unpack F x = (s, e)"
    "2 ^ significandBits F \<le> unat (s OR implicitBit F)" "unat (s OR implicitBit F) < 2 * 2 ^ significandBits F"
    "1 - int (significandBits F) \<le> e" "e < maxExponent F"
    "magnitude F x * 2 ^ significandBits F = unat (s OR implicitBit F) * 2 ^ nat (e - 1 + int (significandBits F))"
proof (cases "rep_abs x div 2 ^ significandBits F = 0")
  case False
  define e where "e = rep_abs x div 2 ^ significandBits F"
  have e: "0 < e" using False by (simp add: e_def)
  have "int e < maxExponent F"
  proof -
    have "Suc e < 2 ^ exponentBits F" using fin unfolding finite_exponent e_def [symmetric] by linarith
    then have "int (Suc e) < int (2 ^ exponentBits F)" by (simp only: of_nat_less_iff)
    then show ?thesis by (simp add: maxExponent_def)
  qed
  moreover have "add_unpack F x = (x AND significandMask F, int e)"
    using e by (simp add: add_unpack_def uint_exponent_field e_def)
  moreover have "nat (int e - 1 + int (significandBits F)) = (e - 1) + significandBits F" using e by simp
  then have "magnitude F x * 2 ^ significandBits F = unat ((x AND significandMask F) OR implicitBit F)
      * 2 ^ nat (int e - 1 + int (significandBits F))"
    by (simp only: power_add unpack_normal(1) [OF e_def [symmetric] e, symmetric] ac_simps)
  moreover have "1 - int (significandBits F) \<le> int e" using e by simp
  ultimately show ?thesis
    using that unpack_normal(2,3) [OF e_def [symmetric] e] by blast
next
  case True
  obtain s k where k: "normalize F (x AND significandMask F) = (s, 1 - int k)" "0 < k" "k \<le> significandBits F"
    "unat (s OR implicitBit F) = magnitude F x * 2 ^ k"
    "2 ^ significandBits F \<le> unat (s OR implicitBit F)" "unat (s OR implicitBit F) < 2 * 2 ^ significandBits F"
    using unpack_subnormal [OF True nz] .
  have "(2::nat) ^ significandBits F = 2 ^ k * 2 ^ (significandBits F - k)"
    using k(3) by (simp flip: power_add)
  moreover have "nat (1 - int k - 1 + int (significandBits F)) = significandBits F - k" using k(3) by simp
  moreover have "add_unpack F x = (s, 1 - int k)"
    using True k(1) by (simp add: add_unpack_def uint_exponent_field)
  moreover have "1 - int k < maxExponent F"
    using k(2) power_increasing [OF exponent_bits(1), of "2 :: int"] by (simp add: maxExponent_def)
  ultimately show ?thesis
    using that [of s "1 - int k"] k(3-6) by simp
qed

lemma add_align_eq:
  fixes s :: "'r word"
  assumes "s \<noteq> 0" "unat align < 2 ^ 31"
  shows "unat (add_align s align) = sticky (unat s) (unat align)"
proof (cases "unat align < LENGTH('r)")
  case True
  then show ?thesis
    using unat_shr_sticky [of "unat align" s] by (auto simp: add_align_def Let_def unat_gt_0)
next
  case False
  have "unat s < 2 ^ unat align"
    using False less_le_trans [OF unat_less_exp_len [of s] power_increasing [of "LENGTH('r)" "unat align" 2]] by simp
  moreover have "0 < unat s" using assms(1) by (simp add: unat_gt_0)
  ultimately have "sticky (unat s) (unat align) = 1" by (simp add: sticky_def)
  moreover have "align \<noteq> 0" using False by auto
  ultimately show ?thesis using False by (simp add: add_align_def)
qed

text \<open>
  Addition and subtraction of aligned significands.  \<open>e\<close> counts from the exponent of the smallest
  normalised subnormal, so that \<open>2 ^ e\<close> scales a significand to the common unit; \<open>N\<close> is the exact sum or
  difference in that unit.
\<close>

lemma add_bits:
  fixes g :: "'r word"
  shows "shl (implicitBit F) 3 = (2 ^ (significandBits F + 3) :: 'r word)"
    and "shl (implicitBit F) 4 = (2 ^ (significandBits F + 4) :: 'r word)"
    and "significandBits F + 5 \<le> LENGTH('r)"
  using width exponent_bits by (simp_all add: implicitBit_exp push_bit_eq_mult power_add)

lemma add_significands_sum:
  fixes a b :: "'r word"
  assumes a: "unat a < 16 * 2 ^ significandBits F" "8 * 2 ^ significandBits F \<le> unat a" and b: "unat b < 16 * 2 ^ significandBits F"
    and track: "tracks 4 (unat a + unat b) num den"
  obtains g d where "add_significands F False a b e = Some (g, e + int d)"
    "8 * 2 ^ significandBits F \<le> unat g" "unat g < 16 * 2 ^ significandBits F" "tracks 4 (unat g) num (2 ^ d * den)" "d \<le> 1"
proof -
  let ?P = "2 ^ significandBits F :: nat"
  have "32 * ?P \<le> 2 ^ LENGTH('r)"
    using power_increasing [OF add_bits(3), of "2 :: nat"] by (simp add: power_add)
  then have s: "unat (a + b) = unat a + unat b" using a b by (intro unat_plus_small) linarith
  have test: "(a + b) AND shl (implicitBit F) 4 = 0 \<longleftrightarrow> unat (a + b) < 16 * ?P"
    unfolding add_bits(2) using a b s and_exp_eq_0_iff [of "a + b" "significandBits F + 4"]
    by (simp add: power_add mult.commute)
  show thesis
  proof (cases "unat (a + b) < 16 * ?P")
    case True
    then show thesis using that [of "a + b" 0] test track s a by (simp add: add_significands_def)
  next
    case False
    define g where "g = shr (a + b) 1 OR truth ((a + b) AND 1 \<noteq> 0)"
    have "(a + b) AND 1 \<noteq> 0 \<longleftrightarrow> shl (a + b) (LENGTH('r) - 1) \<noteq> 0"
    proof -
      have "(a + b) AND mask 1 = 0 \<longleftrightarrow> unat (a + b) mod 2 ^ 1 = 0"
        by (simp only: word_unat_eq_iff unat_and_mask_low unat_0)
      moreover have "shl (a + b) (LENGTH('r) - 1) = 0 \<longleftrightarrow> unat (a + b) mod 2 ^ 1 = 0"
        by (rule shl_eq_0_iff) (simp add: Suc_le_eq)
      ultimately show ?thesis by simp
    qed
    then have g: "unat g = sticky (unat (a + b)) 1"
      unfolding g_def using unat_shr_sticky [of 1 "a + b"] by (simp add: Suc_le_eq)
    have "significandBits F \<noteq> 0" using fraction_bits by simp
    then have "unat g < 16 * ?P" "\<not> unat g < 8 * ?P"
      unfolding g using sticky_less_iff [of "16 * ?P" "unat (a + b)" 1] sticky_less_iff [of "8 * ?P" "unat (a + b)" 1]
        a b s False by auto
    moreover have "tracks 4 (unat g) num (2 ^ 1 * den)"
      unfolding g s by (rule tracks_shift_right [OF track]) simp
    moreover have "add_significands F False a b e = Some (g, e + int 1)"
      using False test by (simp add: add_significands_def g_def Let_def)
    ultimately show thesis using that by (simp add: not_less)
  qed
qed

lemma add_significands_difference:
  fixes a b :: "'r word"
  assumes a: "unat a < 16 * 2 ^ significandBits F" "8 * 2 ^ significandBits F \<le> unat a" "even (unat a)"
    and B: "B < 16 * 2 ^ significandBits F" "8 dvd B" "B \<le> unat a * 2 ^ k" and b: "unat b = sticky B k"
  defines "num \<equiv> unat a * 2 ^ k - B"
  shows "num = 0 \<and> add_significands F True a b e = None \<or>
    (\<exists>g j. add_significands F True a b e = Some (g, e - int j) \<and> 8 * 2 ^ significandBits F \<le> unat g \<and>
      unat g < 16 * 2 ^ significandBits F \<and> tracks 4 (unat g) (num * 2 ^ j) (2 ^ k) \<and> 0 < num)"
proof -
  let ?P = "2 ^ significandBits F :: nat"
  have "\<not> unat a < sticky B k" using less_sticky_iff [OF a(3), of B k] B(3) by simp
  then have ba: "b \<le> a" by (simp add: word_le_nat_alt b)
  define w where "w = a - b"
  have w: "unat w = unat a - sticky B k" unfolding w_def using unat_minus_le [OF ba] b by simp
  have track: "tracks 2 (unat w) num (2 ^ k)"
    unfolding w num_def using a(3) B(3) by (intro tracks_diff tracks_sticky) simp_all
  have zero: "w = 0 \<longleftrightarrow> num = 0" using tracks_eq [OF track, of 0] by (simp add: word_unat_eq_iff)
  show ?thesis
  proof (cases "num = 0")
    case True
    then show ?thesis using zero by (simp add: add_significands_def w_def)
  next
    case False
    then have nz: "w \<noteq> 0" using zero by simp
    have lt: "w < shl (implicitBit F) 3 \<longleftrightarrow> unat w < 8 * ?P"
      unfolding word_less_nat_alt add_bits(1) using add_bits(3)
      by (subst unat_exp_word) (simp_all only: power_add, simp_all add: mult.commute)
    show ?thesis
    proof (cases "unat w < 8 * ?P")
      case False
      have "tracks (2 * 2) (unat w) num (2 ^ k)" by (rule tracks_coarser [OF track])
      moreover have "add_significands F True a b e = Some (w, e - int 0)"
        using False lt nz by (simp add: add_significands_def Let_def flip: w_def)
      moreover have "unat w < 16 * ?P" using w a(1) by linarith
      ultimately show ?thesis using False \<open>num \<noteq> 0\<close> by (intro disjI2 exI [of _ w] exI [of _ 0]) simp
    next
      case True
      obtain j where j: "rep_clz F w - rep_clz F (2 ^ (significandBits F + 3)) = int j"
          "unat (shl w j) = unat w * 2 ^ j" "2 ^ (significandBits F + 3) \<le> unat w * 2 ^ j"
          "unat w * 2 ^ j < 2 ^ Suc (significandBits F + 3)"
        using normalise_to [of w "significandBits F + 3"] nz True add_bits(3) by (auto simp: power_add)
      have bounds: "8 * ?P \<le> unat w * 2 ^ j" "unat w * 2 ^ j < 16 * ?P"
        using j(3,4) by (simp_all add: power_add)
      have res: "add_significands F True a b e = Some (shl w j, e - int j)"
        using True lt nz by (simp add: add_significands_def Let_def add_bits(1) j(1) flip: w_def)
      have "tracks 4 (unat w * 2 ^ j) (num * 2 ^ j) (2 ^ k)"
      proof (cases "k \<le> 1")
        case True
        have "(2::nat) ^ k dvd 8" using le_imp_power_dvd [of k 3 "2 :: nat"] True by simp
        then have dvd: "2 ^ k dvd B" using B(2) dvd_trans by blast
        then have "sticky B k * 2 ^ k = B" by (simp add: sticky_def)
        then have "unat w * 2 ^ k = num" by (simp add: w num_def diff_mult_distrib)
        then have "num * 2 ^ j = (unat w * 2 ^ j) * 2 ^ k" by (simp add: ac_simps)
        then show ?thesis by (simp only: tracks_exact zero_less_power zero_less_numeral)
      next
        case False
        have "B < 4 * ?P * 2 ^ k"
        proof -
          have "4 * ?P * 2 ^ 2 \<le> 4 * ?P * 2 ^ k" using False by (intro mult_le_mono2 power_increasing) auto
          moreover have "16 * ?P = 4 * ?P * 2 ^ 2" by simp
          ultimately show ?thesis using B(1) by linarith
        qed
        then have "sticky B k < 4 * ?P" by (subst sticky_less_iff) simp_all
        then have w4: "4 * ?P < unat w" using w a(2) by linarith
        have "j = 1"
        proof -
          have "j \<noteq> 0" using bounds(1) \<open>unat w < 8 * ?P\<close> by (cases j) auto
          moreover have "\<not> 2 \<le> j"
          proof
            assume "2 \<le> j"
            then have "unat w * 2 ^ 2 \<le> unat w * 2 ^ j" by (intro mult_le_mono2 power_increasing) auto
            moreover have "unat w * 2 ^ 2 = 4 * unat w" by simp
            ultimately show False using bounds(2) w4 by linarith
          qed
          ultimately show ?thesis by simp
        qed
        then show ?thesis using tracks_shift_left [OF track, of 1] by simp
      qed
      then show ?thesis
        using res j(2) bounds \<open>num \<noteq> 0\<close> by (intro disjI2 exI [of _ "shl w j"] exI [of _ j]) simp
    qed
  qed
qed

text \<open>Packing and rounding the tracked significand.\<close>

lemma and_seven: "uint (g AND 7) = int (unat g mod 8)" for g :: "'r word"
proof -
  have "(7 :: 'r word) = mask 3" by (simp add: mask_eq_exp_minus_1)
  then show ?thesis using unat_and_mask_low [of g 3] by (simp add: uint_nat)
qed

lemma and_one: "r AND 1 = (if odd (unat r) then 1 else 0 :: 'r word)" for r :: "'r word"
proof (rule bit_word_eqI)
  fix n
  show "bit (r AND 1) n = bit (if odd (unat r) then 1 else 0 :: 'r word) n"
    by (cases n) (auto simp: bit_and_iff bit_1_iff bit_unsigned_iff simp flip: bit_0)
qed

lemma round_result:
  fixes g m R :: "'r word"
  assumes "R = m OR (x AND signBit F)" "unat m < 2 ^ (LENGTH('r) - 1)" "rgs = uint (g AND 7)"
  shows "(let result = (if rgs > 4 then R + 1 else R) in if rgs = 4 then result + (result AND 1) else result)
    = R + (if round_up 3 (unat g) (unat m) then 1 else 0)"
proof -
  have "odd (unat R) = odd (unat m)"
  proof -
    have "2 \<le> LENGTH('r)" using width fraction_bits by simp
    then show ?thesis using assms(1,2) by (simp add: sign_or_value)
  qed
  then show ?thesis
    unfolding assms(3) and_seven round_up_def and_one by (auto simp: Let_def)
qed

lemma add_round_overflow:
  fixes g :: "'r word"
  assumes g: "8 * 2 ^ significandBits F \<le> unat g" and e: "maxExponent F \<le> e"
    and track: "tracks 4 (unat g) (8 * N * 2 ^ significandBits F) (2 ^ nat (e - 1 + int (significandBits F)))"
  shows "mag (significandBits F) (infty_rep F) \<le> N"
proof -
  let ?P = "2 ^ significandBits F :: nat"
  define d where "d = nat (e - 1 + int (significandBits F))"
  have "2 * ?P * 4 * 2 ^ d \<le> 8 * N * ?P"
    using tracks_le [OF track, of "2 * ?P"] g unfolding d_def by linarith
  then have "2 ^ d * ?P \<le> N * ?P" by (simp add: ac_simps)
  then have N: "2 ^ d \<le> N" by simp
  have "2 ^ exponentBits F - 1 \<le> e" using e by (simp add: maxExponent_def)
  then have "int (2 ^ exponentBits F) \<le> e + 1" by simp
  moreover have "32 \<le> (2::nat) ^ exponentBits F"
    using power_increasing [OF exponent_bits(1), of "2 :: nat"] by simp
  ultimately have "2 ^ exponentBits F - 2 + significandBits F \<le> d" unfolding d_def by linarith
  then have "(2::nat) ^ (2 ^ exponentBits F - 2 + significandBits F) \<le> 2 ^ d" by (intro power_increasing) auto
  then show ?thesis using N by (simp add: mag_infty_rep power_add ac_simps)
qed

lemma add_round_finite:
  fixes g :: "'r word"
  assumes ok: "significand_ok (significandBits F) (nat e) (unat g div 8)" and e: "0 \<le> e" "e < maxExponent F"
    and track: "tracks 4 (unat g) (N * 8) (2 ^ (nat e - 1))"
  defines "m \<equiv> (shr g 3 AND significandMask F) OR shl (word_of_int e) (significandBits F)"
  shows "rounds_to F N 1 (rep_sign x) ((m OR (x AND signBit F)) + (if round_up 3 (unat g) (unat m) then 1 else 0))"
    and "unat m < infty_rep F"
proof -
  have less: "nat e < 2 ^ exponentBits F - 1" "e < 2 ^ exponentBits F"
    using e by (simp_all add: maxExponent_def nat_less_iff)
  have "unat m = nat e * 2 ^ significandBits F + (unat g div 8) mod 2 ^ significandBits F"
    unfolding m_def using pack_fields [OF e(1) less(2), of "shr g 3"] by (simp only: unat_shr) simp
  then have m: "unat m = join_rep (significandBits F) (nat e) (unat g div 2 ^ 3)"
    using join_rep_mod [OF ok] by simp
  then show m_less: "unat m < infty_rep F"
    using join_rep_less [OF ok less(1)] by (simp add: infty_rep_def)
  show "rounds_to F N 1 (rep_sign x) ((m OR (x AND signBit F)) + (if round_up 3 (unat g) (unat m) then 1 else 0))"
    by (rule rounds_to_increment [where f = 3 and e = "nat e", OF _ _ _ m m_less refl]) (use ok track in simp_all)
qed

lemma add_round_eq:
  fixes g :: "'r word"
  assumes g: "8 * 2 ^ significandBits F \<le> unat g" "unat g < 16 * 2 ^ significandBits F"
    and e: "1 - int (significandBits F) \<le> e"
    and track: "tracks 4 (unat g) (8 * N * 2 ^ significandBits F) (2 ^ nat (e - 1 + int (significandBits F)))"
  shows "rounds_to F N 1 (rep_sign x) (add_round F (x AND signBit F) g e)"
proof (cases "maxExponent F \<le> e")
  case True
  then show ?thesis
    using rounds_to_infinity [of 1 N x] add_round_overflow [OF g(1) True track] by (simp add: add_round_def)
next
  case False
  let ?P = "2 ^ significandBits F :: nat"
  define g' where "g' = (if e \<le> 0 then shr g (nat (1 - e)) OR truth (shl g (LENGTH('r) - nat (1 - e)) \<noteq> 0) else g)"
  define e' where "e' = (if e \<le> 0 then 0 else e)"
  have P: "0 < ?P" by simp
  have ok: "significand_ok (significandBits F) (nat e') (unat g' div 8)"
    and tr: "tracks 4 (unat g') (N * 8) (2 ^ (nat e' - 1))"
  proof -
    have "significand_ok (significandBits F) (nat e') (unat g' div 8) \<and> tracks 4 (unat g') (N * 8) (2 ^ (nat e' - 1))"
    proof (cases "e \<le> 0")
      case True
      define k where "k = nat (1 - e)"
      have k: "0 < k" "k \<le> LENGTH('r)" using True e width by (auto simp: k_def)
      have g': "unat g' = sticky (unat g) k"
        unfolding g'_def k_def [symmetric] using unat_shr_sticky [OF k, of g] True by simp
      have "k + nat (e - 1 + int (significandBits F)) = significandBits F" using True e by (simp add: k_def)
      then have "(2::nat) ^ k * 2 ^ nat (e - 1 + int (significandBits F)) = 1 * ?P"
        by (simp flip: power_add)
      then have "tracks 4 (unat g') (N * 8 * ?P) (1 * ?P)"
        using tracks_shift_right [OF track, of k] by (simp add: g' ac_simps)
      then have t: "tracks 4 (unat g') (N * 8) 1" using P by (rule tracks_unscale)
      have "unat g < 8 * ?P * 2 ^ k"
      proof -
        have "8 * ?P * 2 ^ 1 \<le> 8 * ?P * 2 ^ k" using k(1) by (intro mult_le_mono2 power_increasing) auto
        moreover have "8 * ?P * 2 ^ 1 = 16 * ?P" by simp
        ultimately show ?thesis using g(2) by linarith
      qed
      then have "unat g' < 8 * ?P" unfolding g' by (subst sticky_less_iff) simp_all
      then have "unat g' div 8 < ?P" by (simp add: less_mult_imp_div_less mult.commute)
      then show ?thesis using t True by (simp add: e'_def significand_ok_def)
    next
      case False
      then have "nat (e - 1 + int (significandBits F)) = (nat e - 1) + significandBits F" by simp
      then have "tracks 4 (unat g) (N * 8 * ?P) (2 ^ (nat e - 1) * ?P)"
        using track by (simp only: power_add ac_simps)
      then have "tracks 4 (unat g) (N * 8) (2 ^ (nat e - 1))" using P by (rule tracks_unscale)
      moreover have "?P \<le> unat g div 8" "unat g div 8 < 2 * ?P" using g by linarith+
      ultimately show ?thesis using False by (simp add: g'_def e'_def significand_ok_def)
    qed
    then show "significand_ok (significandBits F) (nat e') (unat g' div 8)"
      and "tracks 4 (unat g') (N * 8) (2 ^ (nat e' - 1))" by simp_all
  qed
  have e': "0 \<le> e'" "e' < maxExponent F"
    using False power_increasing [OF exponent_bits(1), of "2 :: int"] by (auto simp: e'_def maxExponent_def)
  define m where "m = (shr g' 3 AND significandMask F) OR shl (word_of_int e') (significandBits F)"
  note fin = add_round_finite [OF ok e' tr, folded m_def]
  have "unat m < 2 ^ (LENGTH('r) - 1)" using fin(2) infty_rep_less by linarith
  note round = round_result [where g = g' and x = x, OF refl this refl]
  have pair: "(if e \<le> 0 then let shift = nat (1 - e); sticky = shl g (LENGTH('r) - shift) \<noteq> 0
      in (shr g shift OR truth sticky, 0) else (g, e)) = (g', e')"
    by (simp add: g'_def e'_def Let_def)
  have "add_round F (x AND signBit F) g e = (m OR (x AND signBit F)) + (if round_up 3 (unat g') (unat m) then 1 else 0)"
    unfolding add_round_def pair using False round [unfolded Let_def]
    by (simp only: if_False prod.case fe_getround_def fe_round_mode.case Let_def fromRep_def m_def [symmetric])
  then show ?thesis using fin(1) [of x] by simp
qed

text \<open>The general case, on operands ordered by magnitude.\<close>

lemma add_common_scale:
  fixes Mx My Sx Sy :: nat
  assumes "Mx * P = Sx * 2 ^ (d' + k)" "My * P = Sy * 2 ^ d'"
  shows "8 * (Mx + My) * P = (8 * Sx * 2 ^ k + 8 * Sy) * 2 ^ d'"
    and "8 * (Mx - My) * P = (8 * Sx * 2 ^ k - 8 * Sy) * 2 ^ d'"
proof -
  have x: "8 * Sx * 2 ^ k * 2 ^ d' = 8 * (Mx * P)" using assms(1) by (simp add: power_add)
  have y: "8 * Sy * 2 ^ d' = 8 * (My * P)" using assms(2) by simp
  show "8 * (Mx + My) * P = (8 * Sx * 2 ^ k + 8 * Sy) * 2 ^ d'"
    unfolding add_mult_distrib x y by (simp add: algebra_simps)
  show "8 * (Mx - My) * P = (8 * Sx * 2 ^ k - 8 * Sy) * 2 ^ d'"
    unfolding diff_mult_distrib x y by (simp add: diff_mult_distrib diff_mult_distrib2)
qed

lemma add_exponent_order:
  fixes Mx My Sx Sy P d d' :: nat
  assumes "Mx * P = Sx * 2 ^ d" "My * P = Sy * 2 ^ d'" "My \<le> Mx" "Sx < 2 * P" "P \<le> Sy"
  shows "d' \<le> d"
proof (rule ccontr)
  assume "\<not> d' \<le> d"
  then have "(2::nat) ^ Suc d \<le> 2 ^ d'" by (intro power_increasing) auto
  then have "P * 2 ^ Suc d \<le> Sy * 2 ^ d'" using assms(5) by (intro mult_le_mono)
  moreover have "Sx * 2 ^ d < 2 * P * 2 ^ d" using assms(4) by simp
  moreover have "My * P \<le> Mx * P" using assms(3) by simp
  ultimately show False using assms(1,2) by simp
qed

text \<open>The tail of the template after the operands have been ordered.\<close>

lemma add_ordered:
  fixes x y :: "'r word"
  assumes fin: "is_finite F x" "is_finite F y" and nz: "rep_abs x \<noteq> 0" "rep_abs y \<noteq> 0"
    and order: "magnitude F y \<le> magnitude F x"
    and unpack: "add_unpack F x = (s, e)" "add_unpack F y = (t, f)"
  defines "N \<equiv> if rep_sign x = rep_sign y then magnitude F x + magnitude F y else magnitude F x - magnitude F y"
  defines "a \<equiv> shl (s OR implicitBit F) 3"
    and "b \<equiv> add_align (shl (t OR implicitBit F) 3) (word_of_int (e - f))"
  shows "(case add_significands F (rep_sign x \<noteq> rep_sign y) a b e of None \<Rightarrow> N = 0
      | Some (g, e) \<Rightarrow> 0 < N \<and> rounds_to F N 1 (rep_sign x) (add_round F (x AND signBit F) g e))"
proof -
  let ?P = "2 ^ significandBits F :: nat"
  define Sx Sy Mx My where "Sx = unat (s OR implicitBit F)" and "Sy = unat (t OR implicitBit F)"
    and "Mx = magnitude F x" and "My = magnitude F y"
  define d d' where "d = nat (e - 1 + int (significandBits F))" and "d' = nat (f - 1 + int (significandBits F))"
  have X: "?P \<le> Sx" "Sx < 2 * ?P" "1 - int (significandBits F) \<le> e" "e < maxExponent F" "Mx * ?P = Sx * 2 ^ d"
    using add_unpack_eq [OF fin(1) nz(1)] unpack(1) unfolding Sx_def Mx_def d_def by (metis prod.inject)+
  have Y: "?P \<le> Sy" "Sy < 2 * ?P" "1 - int (significandBits F) \<le> f" "f < maxExponent F" "My * ?P = Sy * 2 ^ d'"
    using add_unpack_eq [OF fin(2) nz(2)] unpack(2) unfolding Sy_def My_def d'_def by (metis prod.inject)+
  have "d' \<le> d" using add_exponent_order [OF X(5) Y(5) _ X(2) Y(1)] order by (simp add: Mx_def My_def)
  then obtain k where k: "d = d' + k" using le_Suc_ex by blast
  have ef: "e - f = int k" using k X(3) Y(3) unfolding d_def d'_def by linarith
  have "int k < 2 ^ 31"
  proof -
    have "maxExponent F < 2 ^ 15"
      using power_increasing [OF exponent_bits(2), of "2 :: int"] by (simp add: maxExponent_def)
    then show ?thesis using ef X(4) Y(3) fraction_bits by simp
  qed
  then have align: "unat (word_of_int (e - f) :: c_unsigned) = k"
    by (simp add: ef unsigned_of_nat take_bit_nat_eq_self)
  have wide: "16 * ?P \<le> 2 ^ LENGTH('r)"
    using power_increasing [OF add_bits(3), of "2 :: nat"] by (simp add: power_add)
  have a: "unat a = 8 * Sx"
    unfolding a_def using X(2) wide by (subst unat_shl_small) (simp_all add: Sx_def)
  have b0: "unat (shl (t OR implicitBit F) 3) = 8 * Sy"
    using Y(2) wide by (subst unat_shl_small) (simp_all add: Sy_def)
  have "0 < ?P" by simp
  then have "0 < Sy" using Y(1) by linarith
  then have nonzero: "shl (t OR implicitBit F) 3 \<noteq> 0" using b0 by (intro notI) (simp only: unat_0)
  have "unat (word_of_int (e - f) :: c_unsigned) < 2 ^ 31" unfolding align using \<open>int k < 2 ^ 31\<close> by simp
  then have b: "unat b = sticky (8 * Sy) k"
    unfolding b_def by (simp only: add_align_eq [OF nonzero] align b0)
  note scale = add_common_scale [OF X(5) [unfolded k] Y(5)]
  have pos: "0 < Mx" "0 < My" using nz by (simp_all add: Mx_def My_def magnitude_def mag_pos_iff)
  show ?thesis
  proof (cases "rep_sign x = rep_sign y")
    case True
    have bl: "unat b < 16 * ?P"
    proof -
      have "8 * Sy < 16 * ?P * 1" using Y(2) by simp
      also have "\<dots> \<le> 16 * ?P * 2 ^ k" by (intro mult_le_mono2) simp
      finally show ?thesis unfolding b by (subst sticky_less_iff) simp_all
    qed
    have al: "unat a < 16 * ?P" "8 * ?P \<le> unat a" using X(1,2) by (simp_all add: a)
    have tr: "tracks 4 (unat a + unat b) (unat a * 2 ^ k + 8 * Sy) (2 ^ k)"
      unfolding b using a by (intro tracks_add tracks_sticky) simp_all
    obtain g j where g: "add_significands F False a b e = Some (g, e + int j)" "8 * ?P \<le> unat g" "unat g < 16 * ?P"
        "tracks 4 (unat g) (unat a * 2 ^ k + 8 * Sy) (2 ^ j * 2 ^ k)"
      using add_significands_sum [OF al bl tr, of e] by metis
    have "nat (e + int j - 1 + int (significandBits F)) = j + (d' + k)"
      using X(3) unfolding d_def [symmetric] k [symmetric] by (simp add: d_def)
    moreover have "tracks 4 (unat g) ((unat a * 2 ^ k + 8 * Sy) * 2 ^ d') (2 ^ j * 2 ^ k * 2 ^ d')"
      using g(4) by (rule tracks_scale) simp
    ultimately have "tracks 4 (unat g) (8 * N * ?P) (2 ^ nat (e + int j - 1 + int (significandBits F)))"
      using True scale(1) by (simp add: N_def a Mx_def My_def power_add ac_simps)
    then have "rounds_to F N 1 (rep_sign x) (add_round F (x AND signBit F) g (e + int j))"
      using add_round_eq [OF g(2,3)] X(3) by simp
    then show ?thesis using True g(1) pos by (simp add: N_def Mx_def)
  next
    case False
    then have N: "N = Mx - My" by (simp add: N_def Mx_def My_def)
    have "8 * (My * ?P) \<le> 8 * (Mx * ?P)" using order by (simp add: Mx_def My_def)
    then have "8 * Sy * 2 ^ d' \<le> unat a * 2 ^ k * 2 ^ d'" unfolding X(5) Y(5) k by (simp add: a power_add ac_simps)
    then have B: "8 * Sy < 16 * ?P" "8 dvd 8 * Sy" "8 * Sy \<le> unat a * 2 ^ k" using Y(2) by simp_all
    have al: "unat a < 16 * ?P" "8 * ?P \<le> unat a" "even (unat a)" using X(1,2) by (simp_all add: a)
    have NP: "8 * N * ?P = (unat a * 2 ^ k - 8 * Sy) * 2 ^ d'" using scale(2) by (simp only: N a)
    then have "8 * N * ?P = 0 \<longleftrightarrow> (unat a * 2 ^ k - 8 * Sy) * 2 ^ d' = 0" by (rule arg_cong)
    then have zero: "N = 0 \<longleftrightarrow> unat a * 2 ^ k - 8 * Sy = 0"
      by (simp only: mult_eq_0_iff power_not_zero zero_neq_numeral not_False_eq_True simp_thms rel_simps)
    from add_significands_difference [OF al B b, of e]
    consider "unat a * 2 ^ k - 8 * Sy = 0" "add_significands F True a b e = None"
      | g j where "add_significands F True a b e = Some (g, e - int j)" "8 * ?P \<le> unat g" "unat g < 16 * ?P"
        "tracks 4 (unat g) ((unat a * 2 ^ k - 8 * Sy) * 2 ^ j) (2 ^ k)" "0 < unat a * 2 ^ k - 8 * Sy"
      by (elim disjE exE conjE) (assumption | rule that)+
    then show ?thesis
    proof cases
      case 1
      then show ?thesis using False zero by simp
    next
      case 2
      have tr: "tracks 4 (unat g) (8 * N * ?P * 2 ^ j) (2 ^ d)"
      proof -
        have "8 * N * ?P * 2 ^ j = (unat a * 2 ^ k - 8 * Sy) * 2 ^ j * 2 ^ d'"
          unfolding NP by (simp only: ac_simps)
        moreover have "(2::nat) ^ d = 2 ^ k * 2 ^ d'" by (simp add: k power_add)
        ultimately show ?thesis using tracks_scale [OF 2(4), of "2 ^ d'"] by (simp only:) simp
      qed
      have "8 * N * ?P * 2 ^ j < 4 * ?P * 4 * 2 ^ d"
        using tr [unfolded tracks_def, rule_format, of "4 * ?P"] 2(3) by simp
      then have "N * 2 ^ j < 2 ^ Suc d" by simp
      moreover have "0 < N" using 2(5) zero by simp
      then have "1 * 2 ^ j \<le> N * 2 ^ j" by (intro mult_le_mono1) simp
      ultimately have "(2::nat) ^ j < 2 ^ Suc d" by linarith
      then have "j < Suc d" by (rule power_less_imp_less_exp [rotated]) simp
      then have j: "j \<le> d" "1 - int (significandBits F) \<le> e - int j" using X(3) by (simp_all add: d_def)
      have "nat (e - int j - 1 + int (significandBits F)) = d - j" using j by (simp add: d_def)
      moreover have "tracks 4 (unat g) (8 * N * ?P) (2 ^ (d - j))"
      proof (rule tracks_unscale)
        have "(2::nat) ^ d = 2 ^ (d - j) * 2 ^ j" using j(1) by (simp flip: power_add)
        then show "tracks 4 (unat g) (8 * N * ?P * 2 ^ j) (2 ^ (d - j) * 2 ^ j)" using tr by simp
      qed simp
      ultimately have "tracks 4 (unat g) (8 * N * ?P) (2 ^ nat (e - int j - 1 + int (significandBits F)))" by simp
      then have "rounds_to F N 1 (rep_sign x) (add_round F (x AND signBit F) g (e - int j))"
        using add_round_eq [OF 2(2,3) j(2)] by simp
      then show ?thesis using False 2(1) \<open>0 < N\<close> by simp
    qed
  qed
qed

section \<open>The whole template\<close>

lemma minus_one_test: "infRep F - 1 \<le> (x AND absMask F) - 1 \<longleftrightarrow> rep_abs x = 0 \<or> \<not> is_finite F x" for x :: "'r word"
proof (cases "rep_abs x = 0")
  case True
  then have "(x AND absMask F) - 1 = - 1" by (simp add: zero_iff [symmetric])
  then show ?thesis using True by simp
next
  case False
  have i: "0 < infty_rep F" using one_less_power [of "2 :: nat" "exponentBits F"] exponent_bits by (simp add: infty_rep_def)
  have "1 \<le> x AND absMask F" "1 \<le> infRep F" using False i by (simp_all add: word_le_nat_alt unat_infRep)
  then have "unat ((x AND absMask F) - 1) = rep_abs x - 1" "unat (infRep F - 1) = infty_rep F - 1"
    by (simp_all add: unat_minus_le unat_infRep)
  then show ?thesis using False i by (auto simp: word_le_nat_alt is_finite_def)
qed

lemma xor_signBit_iff: "a XOR b = signBit F \<longleftrightarrow> rep_abs a = rep_abs b \<and> rep_sign a \<noteq> rep_sign b" for a b :: "'r word"
proof -
  have "a XOR b = signBit F \<longleftrightarrow> a = b XOR signBit F"
    by (metis xor.commute xor.left_commute xor_self_eq xor.right_neutral)
  also have "\<dots> \<longleftrightarrow> rep_abs a = rep_abs b \<and> rep_sign a \<noteq> rep_sign b"
    using neg_fields [of b] rep_eqI [of a "b XOR signBit F"] by (auto simp: negXf2_def)
  finally show ?thesis .
qed

lemma add_special_eq:
  "add_special F a b =
    (if is_nan F a then Some (a OR quietBit F) else if is_nan F b then Some (b OR quietBit F)
     else if is_inf F a then (if is_inf F b \<and> rep_sign a \<noteq> rep_sign b then Some (qnanRep F) else Some a)
     else if is_inf F b then Some b
     else if rep_abs a = 0 then (if rep_abs b = 0 then Some (a AND b) else Some b)
     else if rep_abs b = 0 then Some a else None)"
proof -
  have "a XOR b = signBit F \<longleftrightarrow> is_inf F b \<and> rep_sign a \<noteq> rep_sign b" if "is_inf F a"
    using that by (auto simp: xor_signBit_iff is_inf_def)
  then show ?thesis
    unfolding add_special_def Let_def toRep_def fromRep_def nan_iff inf_iff zero_iff minus_one_test
    by (auto simp: is_nan_def is_inf_def is_finite_def)
qed

lemma finite_nonzero_add:
  fixes a b :: "'r word"
  assumes fin: "is_finite F a" "is_finite F b" and nz: "rep_abs a \<noteq> 0" "rep_abs b \<noteq> 0"
  shows "if val F a + val F b = 0 then addXf3 F a b = 0
    else rounds_to F (nat \<bar>val F a + val F b\<bar>) 1 (val F a + val F b < 0) (addXf3 F a b)"
proof -
  define swapped where "swapped \<longleftrightarrow> rep_abs a < rep_abs b"
  define x y where "x = (if swapped then b else a)" and "y = (if swapped then a else b)"
  obtain s e where x: "add_unpack F x = (s, e)" by fastforce
  obtain t f where y: "add_unpack F y = (t, f)" by fastforce
  have sum: "val F a + val F b = val F x + val F y" by (simp add: x_def y_def)
  have order: "magnitude F y \<le> magnitude F x"
    by (auto simp: x_def y_def swapped_def magnitude_def intro: mag_mono)
  have xy: "is_finite F x" "is_finite F y" "rep_abs x \<noteq> 0" "rep_abs y \<noteq> 0"
    using fin nz by (simp_all add: x_def y_def)
  note tail = add_ordered [OF xy order x y]
  define N where "N = (if rep_sign x = rep_sign y then magnitude F x + magnitude F y else magnitude F x - magnitude F y)"
  have swap: "(if b AND absMask F > a AND absMask F then (b, a) else (a, b)) = (x, y)"
    by (simp add: x_def y_def swapped_def word_less_nat_alt)
  have sub: "(x XOR y) AND signBit F \<noteq> 0 \<longleftrightarrow> rep_sign x \<noteq> rep_sign y"
  proof -
    have "signBit F \<noteq> 0" using unat_signBit by (metis power_not_zero unat_0 zero_neq_numeral)
    then show ?thesis by (simp add: and_signBit) (simp add: rep_sign_def bit_xor_iff)
  qed
  have special: "add_special F a b = None"
    using fin nz by (simp add: add_special_eq is_nan_def is_inf_def is_finite_def)
  have res: "addXf3 F a b =
      (case add_significands F (rep_sign x \<noteq> rep_sign y) (shl (s OR implicitBit F) 3)
          (add_align (shl (t OR implicitBit F) 3) (word_of_int (e - f))) e of
         None \<Rightarrow> 0 | Some (g, e) \<Rightarrow> add_round F (x AND signBit F) g e)"
    unfolding addXf3_def special option.case Let_def toRep_def fromRep_def swap prod.case x y sub ..
  have pos: "0 < magnitude F x" using xy by (simp add: magnitude_def mag_pos_iff)
  have val_sum: "val F x + val F y = (if rep_sign x then - int N else int N)"
    using order by (auto simp: val_def N_def of_nat_diff)
  show ?thesis
    using tail pos unfolding res sum val_sum N_def [symmetric] by (auto split: option.splits if_splits)
qed

lemma rounds_to_self:
  fixes x :: "'r word"
  assumes "is_finite F x"
  shows "rounds_to F (magnitude F x) 1 (rep_sign x) x"
  using nearest_even_exact [of "rep_abs x" "infty_rep F" 1 "significandBits F"] assms
  by (simp add: rounds_to_def magnitude_def is_finite_def)

lemma val_zero_iff: "val F x = 0 \<longleftrightarrow> rep_abs x = 0" for x :: "'r word"
  using mag_pos_iff [of "significandBits F" "rep_abs x"] by (simp add: val_def magnitude_def)

lemma rounds_to_val:
  fixes x :: "'r word"
  assumes "is_finite F x" "rep_abs x \<noteq> 0"
  shows "rounds_to F (nat \<bar>val F x\<bar>) 1 (val F x < 0) x"
  using rounds_to_self [OF assms(1)] assms(2) by (auto simp: val_def magnitude_def mag_pos_iff)

lemma and_zeros:
  fixes x y :: "'r word"
  assumes "rep_abs x = 0" "rep_abs y = 0"
  shows "rep_abs (x AND y) = 0 \<and> rep_sign (x AND y) = (rep_sign x \<and> rep_sign y)"
  using assms by (simp add: zero_iff [symmetric] and.assoc rep_sign_def bit_and_iff)

lemma addXf3_correct: "ieee_sum F a b (addXf3 F a b)" for a b :: "'r word"
proof (cases "is_finite F a \<and> is_finite F b \<and> rep_abs a \<noteq> 0 \<and> rep_abs b \<noteq> 0")
  case True
  have "val F a + val F b = 0 \<Longrightarrow> rep_sign a \<noteq> rep_sign b"
    using True mag_pos_iff [of "significandBits F" "rep_abs a"] mag_pos_iff [of "significandBits F" "rep_abs b"]
    by (auto simp: val_def magnitude_def split: if_splits)
  then show ?thesis
    using finite_nonzero_add [of a b] True
    by (auto simp: ieee_sum_def is_nan_def is_inf_def is_finite_def rep_abs_def rep_sign_def)
next
  case False
  then obtain r where r: "add_special F a b = Some r"
    by (cases "add_special F a b") (auto simp: add_special_eq is_nan_def is_inf_def is_finite_def split: if_splits)
  then have "addXf3 F a b = r" by (simp add: addXf3_def)
  moreover have "ieee_sum F a b r"
  proof -
    consider "is_nan F a" | "\<not> is_nan F a" "is_nan F b" | "\<not> is_nan F a" "\<not> is_nan F b" "is_inf F a \<or> is_inf F b"
      | "is_finite F a" "is_finite F b"
      using classes [of a] classes [of b] by blast
    then show ?thesis
    proof cases
      case 4
      then have "\<not> is_nan F a" "\<not> is_inf F a" "\<not> is_nan F b" "\<not> is_inf F b"
        by (simp_all add: is_nan_def is_inf_def is_finite_def)
      with 4 r show ?thesis
        using rounds_to_val [of a] rounds_to_val [of b] val_zero_iff [of a] val_zero_iff [of b] and_zeros [of a b]
        by (auto simp: add_special_eq ieee_sum_def split: if_splits)
    qed (use r in \<open>auto simp: add_special_eq ieee_sum_def quieten_nan qnan_is_nan split: if_splits\<close>)
  qed
  ultimately show ?thesis by simp
qed

lemma subtract_correct: "ieee_difference F a b (addXf3 F a (b XOR signBit F))" for a b :: "'r word"
  using addXf3_correct [of a "b XOR signBit F"] neg_eq(1,2) [of b] neg_fields [of b]
  by (auto simp: ieee_sum_def ieee_difference_def negXf2_def is_inf_def)

lemma rounds_to_unique:
  "0 < den \<Longrightarrow> rounds_to F num den neg x \<Longrightarrow> rounds_to F num den neg y \<Longrightarrow> x = y" for x y :: "'r word"
  by (auto simp: rounds_to_def intro: rep_eqI nearest_even_unique)

lemma addXf3_commute:
  fixes a b :: "'r word"
  assumes "\<not> is_nan F a" "\<not> is_nan F b"
  shows "addXf3 F a b = addXf3 F b a"
proof (cases "is_finite F a \<and> is_finite F b")
  case False
  then have "is_inf F a \<or> is_inf F b" using classes [of a] classes [of b] assms by blast
  moreover have "a = b" if "is_inf F a" "is_inf F b" "rep_sign a = rep_sign b"
    using that by (simp add: rep_eqI is_inf_def)
  ultimately show ?thesis using assms by (auto simp: addXf3_def add_special_eq)
next
  case True
  then show ?thesis
    using addXf3_correct [of a b] addXf3_correct [of b a] assms
    by (cases "val F a + val F b = 0")
      (auto simp: ieee_sum_def is_inf_def is_finite_def add.commute intro: rep_eqI rounds_to_unique [of 1])
qed

end

section \<open>Properties\<close>

text \<open>C5. Floating-point addition in single, double and quadruple precision returns the exact sum of the
  operands rounded to nearest with ties to even (overflow giving an infinity, subnormal results included);
  NaNs are propagated, infinities of opposite sign give a NaN, and an exact zero sum is a zero that is
  negative only when both operands are.\<close>

theorem addition_correct:
  "ieee_sum single_precision a b (addsf3 a b) \<and>
   ieee_sum double_precision c d (adddf3 c d) \<and>
   ieee_sum quad_precision e f (addtf3 e f)"
  by (simp add: addsf3_def adddf3_def addtf3_def single.addXf3_correct double.addXf3_correct quad.addXf3_correct)

text \<open>Floating-point subtraction in single, double and quadruple precision returns the exact difference
  rounded to nearest with ties to even, with the corresponding rules for NaNs, infinities and zeros.\<close>

theorem subtraction_correct:
  "ieee_difference single_precision a b (subsf3 a b) \<and>
   ieee_difference double_precision c d (subdf3 c d) \<and>
   ieee_difference quad_precision e f (subtf3 e f)"
  by (simp add: subsf3_def subdf3_def subtf3_def addsf3_def adddf3_def addtf3_def
      single.subtract_correct double.subtract_correct quad.subtract_correct)

text \<open>Addition of operands that are not NaN is commutative, bit for bit.\<close>

theorem addition_commutes:
  assumes "\<not> is_nan single_precision a" "\<not> is_nan single_precision b"
    and "\<not> is_nan double_precision c" "\<not> is_nan double_precision d"
    and "\<not> is_nan quad_precision e" "\<not> is_nan quad_precision f"
  shows "addsf3 a b = addsf3 b a \<and> adddf3 c d = adddf3 d c \<and> addtf3 e f = addtf3 f e"
  using assms by (simp add: addsf3_def adddf3_def addtf3_def single.addXf3_commute double.addXf3_commute
      quad.addXf3_commute)

theorem addition_commutes_witness:
  "addsf3 0x3f800000 0xbf000000 = addsf3 0xbf000000 0x3f800000"
  by (rule addition_commutes [of _ _ 0 0 0 0, THEN conjunct1])
    (simp_all add: is_nan_def infty_rep_def rep_abs_def precision_defs exponentBits_def)

end
