(* ===== verification/Fp_Mul.thy ===== *)
theory Fp_Mul
  imports Fp_Add
begin

text \<open>
  Multiplication: the template \<open>fp_mul_impl.inc\<close> (\<open>__mulXf3__\<close>) and its instances \<open>mulsf3.c\<close>,
  \<open>muldf3.c\<close> and \<open>multf3.c\<close>.  The template is split into the special operands, the normalisation of
  subnormal significands, the wide product, and the rounding of a product held in two words.
\<close>

section \<open>The steps of the template\<close>

text \<open>NaN, infinite and zero operands; \<open>None\<close> falls through.\<close>

definition mul_special :: "'r::len fp_format \<Rightarrow> 'r word \<Rightarrow> 'r word \<Rightarrow> 'r word \<Rightarrow> 'r word option" where
  "mul_special F a b productSign =
     (let aAbs = toRep a AND absMask F; bAbs = toRep b AND absMask F in
      if aAbs > infRep F then Some (fromRep (toRep a OR quietBit F))
      else if bAbs > infRep F then Some (fromRep (toRep b OR quietBit F))
      else if aAbs = infRep F then
        if bAbs \<noteq> 0 then Some (fromRep (aAbs OR productSign)) else Some (fromRep (qnanRep F))
      else if bAbs = infRep F then
        if aAbs \<noteq> 0 then Some (fromRep (bAbs OR productSign)) else Some (fromRep (qnanRep F))
      else if aAbs = 0 then Some (fromRep productSign)
      else if bAbs = 0 then Some (fromRep productSign)
      else None)"

text \<open>The significand of an operand and its contribution to \<open>scale\<close>.\<close>

definition mul_normalize :: "'r::len fp_format \<Rightarrow> 'r word \<Rightarrow> 'r word \<times> int" where
  "mul_normalize F x =
     (if toRep x AND absMask F < implicitBit F then normalize F (toRep x AND significandMask F)
      else (toRep x AND significandMask F, 0))"

definition mul_round :: "'r::len fp_format \<Rightarrow> 'r word \<Rightarrow> 'r word \<Rightarrow> 'r word \<Rightarrow> int \<Rightarrow> 'r word" where
  "mul_round F productSign productHi productLo productExponent =
     (if productExponent \<ge> maxExponent F then fromRep (infRep F OR productSign)
      else
        let shift = 1 - word_of_int productExponent :: c_unsigned in
        if productExponent \<le> 0 \<and> unat shift \<ge> LENGTH('r) then fromRep productSign
        else
          let (productHi, productLo) =
                (if productExponent \<le> 0 then wideRightShiftWithSticky productHi productLo (unat shift)
                 else ((productHi AND significandMask F) OR shl (word_of_int productExponent) (significandBits F),
                       productLo));
              productHi = productHi OR productSign;
              productHi = (if productLo > signBit F then productHi + 1 else productHi);
              productHi = (if productLo = signBit F then productHi + (productHi AND 1) else productHi)
          in fromRep productHi)"

definition mul_finite :: "'r::len fp_format \<Rightarrow> 'r word \<Rightarrow> c_unsigned \<Rightarrow> c_unsigned \<Rightarrow> 'r word \<Rightarrow> 'r word \<Rightarrow> int \<Rightarrow> 'r word" where
  "mul_finite F productSign aExponent bExponent aSignificand bSignificand scale =
     (let aSignificand = aSignificand OR implicitBit F;
          bSignificand = bSignificand OR implicitBit F;
          (productHi, productLo) = wideMultiply F aSignificand (shl bSignificand (exponentBits F));
          productExponent = sint (aExponent + bExponent - word_of_int (exponentBias F) + word_of_int scale);
          (productHi, productLo, productExponent) =
            (if productHi AND implicitBit F \<noteq> 0 then (productHi, productLo, productExponent + 1)
             else let (hi, lo) = wideLeftShift productHi productLo 1 in (hi, lo, productExponent))
      in mul_round F productSign productHi productLo productExponent)"

definition mulXf3 :: "'r::len fp_format \<Rightarrow> 'r word \<Rightarrow> 'r word \<Rightarrow> 'r word" where
  "mulXf3 F a b =
     (let aExponent = ucast (shr (toRep a) (significandBits F) AND word_of_int (maxExponent F)) :: c_unsigned;
          bExponent = ucast (shr (toRep b) (significandBits F) AND word_of_int (maxExponent F)) :: c_unsigned;
          productSign = (toRep a XOR toRep b) AND signBit F;
          aSignificand = toRep a AND significandMask F;
          bSignificand = toRep b AND significandMask F
      in if aExponent - 1 \<ge> word_of_int (maxExponent F) - 1 \<or> bExponent - 1 \<ge> word_of_int (maxExponent F) - 1 then
           case mul_special F a b productSign of Some result \<Rightarrow> result
           | None \<Rightarrow>
               let (aSignificand, aScale) = mul_normalize F a;
                   (bSignificand, bScale) = mul_normalize F b
               in mul_finite F productSign aExponent bExponent aSignificand bSignificand (aScale + bScale)
         else mul_finite F productSign aExponent bExponent aSignificand bSignificand 0)"

definition mulsf3 :: "32 word \<Rightarrow> 32 word \<Rightarrow> 32 word" where "mulsf3 = mulXf3 single_precision"
definition muldf3 :: "64 word \<Rightarrow> 64 word \<Rightarrow> 64 word" where "muldf3 = mulXf3 double_precision"
definition multf3 :: "128 word \<Rightarrow> 128 word \<Rightarrow> 128 word" where "multf3 = mulXf3 quad_precision"

text \<open>The two words of the product are the product of the significands as integers.\<close>

definition exact_product :: "'r::len fp_format \<Rightarrow> 'r word \<Rightarrow> 'r word \<Rightarrow> bool" where
  "exact_product F a b \<longleftrightarrow> (case wideMultiply F a b of (hi, lo) \<Rightarrow> wide hi lo = unat a * unat b)"

text \<open>The contract of IEEE 754 multiplication.  Magnitudes count smallest subnormals, so the product of two
  magnitudes is divided by the reciprocal \<open>2 ^ (bias + significandBits - 1)\<close> of that unit.\<close>

definition ieee_product :: "'r::len fp_format \<Rightarrow> 'r word \<Rightarrow> 'r word \<Rightarrow> 'r word \<Rightarrow> bool" where
  "ieee_product F a b r \<longleftrightarrow>
     (if is_nan F a \<or> is_nan F b then is_nan F r
      else if is_inf F a \<or> is_inf F b then
        if rep_abs a = 0 \<or> rep_abs b = 0 then is_nan F r
        else is_inf F r \<and> rep_sign r = (rep_sign a \<noteq> rep_sign b)
      else rounds_to F (magnitude F a * magnitude F b) (2 ^ (nat (exponentBias F) + significandBits F - 1))
        (rep_sign a \<noteq> rep_sign b) r)"

section \<open>Rounding a product held in two words\<close>

context fp_base
begin

lemma sint_c_int: "- (2 ^ 31) \<le> n \<Longrightarrow> n < 2 ^ 31 \<Longrightarrow> sint (word_of_int n :: c_unsigned) = n"
  by (simp add: signed_of_int signed_take_bit_int_eq_self)

lemma unat_c_unsigned: "0 \<le> n \<Longrightarrow> n < 2 ^ 32 \<Longrightarrow> unat (word_of_int n :: c_unsigned) = nat n"
  by (simp add: unsigned_of_int take_bit_int_eq_self)

text \<open>The increment decided by the low word is the rounding of a significand with a word of extra bits.\<close>

lemma wide_round:
  fixes hi lo :: "'r word"
  assumes "R = hi OR (x AND signBit F)" "unat hi < 2 ^ (LENGTH('r) - 1)"
  shows "(let R = (if lo > signBit F then R + 1 else R) in if lo = signBit F then R + (R AND 1) else R)
    = R + (if round_up LENGTH('r) (wide h lo) (unat hi) then 1 else 0)"
proof -
  have "odd (unat R) = odd (unat hi)"
    unfolding assms(1) using sign_or_value [OF assms(2), of x] width fraction_bits by (auto split: if_splits)
  then have "R AND 1 = (if odd (unat hi) then 1 else 0)" by (simp add: and_one)
  moreover have "wide h lo mod 2 ^ LENGTH('r) = unat lo" by (simp add: wide_def)
  moreover have "lo = signBit F \<longleftrightarrow> unat lo = 2 ^ (LENGTH('r) - 1)" "signBit F < lo \<longleftrightarrow> 2 ^ (LENGTH('r) - 1) < unat lo"
    by (simp_all only: word_unat_eq_iff word_less_nat_alt unat_signBit)
  ultimately show ?thesis by (auto simp: round_up_def Let_def)
qed

text \<open>Underflow to zero.\<close>

lemma rounds_to_zero:
  fixes x :: "'r word"
  assumes "2 * num < den"
  shows "rounds_to F num den (rep_sign x) (x AND signBit F)"
proof -
  have "rep_sign (x AND signBit F) = rep_sign x" "rep_abs (x AND signBit F) = 0"
    using sign_or [of 0 x] by simp_all
  moreover have "mag (significandBits F) 1 = 1" 
    using one_less_power [of "2 :: nat" "significandBits F"] fraction_bits by (subst mag_subnormal) simp_all
  ultimately show ?thesis using assms by (simp add: rounds_to_def nearest_even_def)
qed

lemma mul_round_eq:
  fixes hi lo :: "'r word"
  assumes g: "2 ^ significandBits F * 2 ^ LENGTH('r) \<le> wide hi lo" "wide hi lo < 2 * 2 ^ significandBits F * 2 ^ LENGTH('r)"
    and e: "1 \<le> e + int K" "e < 2 ^ 30" "- (2 ^ 30) < e" and den: "0 < den"
    and exact: "wide hi lo * (den * 2 ^ nat (e - 1 + int K)) = num * 2 ^ LENGTH('r) * 2 ^ K"
  shows "rounds_to F num den (rep_sign x) (mul_round F (x AND signBit F) hi lo e)"
proof -
  let ?P = "2 ^ significandBits F :: nat" and ?W = "2 ^ LENGTH('r) :: nat"
  define n where "n = nat (e - 1 + int K)"
  have shift: "unat (1 - word_of_int e :: c_unsigned) = nat (1 - e)" if "e \<le> 0"
    using that e unat_c_unsigned [of "1 - e"] by simp
  have "(2::int) ^ 5 \<le> 2 ^ exponentBits F" using exponent_bits by (intro power_increasing) auto
  then have max: "0 < maxExponent F" by (simp add: maxExponent_def)
  consider "maxExponent F \<le> e" | "e \<le> 0" "int LENGTH('r) \<le> 1 - e" | "e \<le> 0" "1 - e < int LENGTH('r)"
    | "0 < e" "e < maxExponent F" by linarith
  then show ?thesis
  proof cases
    case 1
    have "(2::nat) ^ 5 \<le> 2 ^ exponentBits F" using exponent_bits by (intro power_increasing) auto
    then have "int (2 ^ exponentBits F - 2) = maxExponent F - 1" by (simp add: maxExponent_def of_nat_diff)
    then have nat: "(2 ^ exponentBits F - 2) + K \<le> n" using 1 by (simp add: n_def)
    have "mag (significandBits F) (infty_rep F) * den * (?W * 2 ^ K) = ?P * ?W * (den * 2 ^ (2 ^ exponentBits F - 2 + K))"
      by (simp add: mag_infty_rep power_add ac_simps)
    also have "\<dots> \<le> wide hi lo * (den * 2 ^ n)"
      using g(1) nat by (intro mult_le_mono power_increasing le_refl) auto
    also have "\<dots> = num * (?W * 2 ^ K)" using exact by (simp only: n_def ac_simps)
    finally have "mag (significandBits F) (infty_rep F) * den \<le> num" by simp
    then show ?thesis using 1 rounds_to_infinity [OF _ den, of num x] by (simp add: mul_round_def)
  next
    case 2
    have "K = n + (K - n)" "LENGTH('r) \<le> K - n" using 2 e(1) by (simp_all add: n_def)
    then have K: "2 ^ n * ?W \<le> 2 ^ K"
      using power_increasing [of "n + LENGTH('r)" K "2 :: nat"] by (simp add: power_add)
    have "num * ?W * (2 ^ n * ?W) \<le> num * ?W * 2 ^ K" using K by (rule mult_le_mono2)
    also have "\<dots> < 2 * ?P * ?W * (den * 2 ^ n)"
      unfolding exact [symmetric] n_def [symmetric] using g(2) den by (intro mult_less_mono1) simp_all
    finally have "num * ?W < 2 * ?P * den" by simp
    then have "num * 2 ^ exponentBits F * (2 * ?P) < den * (2 * ?P)" by (simp add: width power_add ac_simps)
    then have "num * 2 ^ exponentBits F < den" by simp
    moreover have "num * 2 ^ 1 \<le> num * 2 ^ exponentBits F"
      using exponent_bits by (intro mult_le_mono2 power_increasing) auto
    then have "2 * num \<le> num * 2 ^ exponentBits F" by (simp only: power_one_right mult.commute)
    ultimately have "2 * num < den" by linarith
    moreover have "LENGTH('r) \<le> nat (1 - e)" using 2 by linarith
    ultimately show ?thesis using 2 shift max by (simp add: mul_round_def rounds_to_zero)
  next
    case 3
    define k where "k = nat (1 - e)"
    obtain hi' lo' where w: "wideRightShiftWithSticky hi lo k = (hi', lo')" by fastforce
    have k: "0 < k" "k < LENGTH('r)" "K = k + n" using 3 e(1) by (simp_all add: k_def n_def)
    have g': "wide hi' lo' = sticky (wide hi lo) k" using k(1,2) w by (rule wideRightShiftWithSticky_eq)
    have "tracks (2 ^ (LENGTH('r) - 1)) (wide hi' lo') (num * ?W * 2 ^ K) (2 ^ k * (den * 2 ^ n))"
      unfolding g' exact [symmetric] n_def [symmetric] using den width fraction_bits
      by (intro tracks_shift_right tracks_exact) simp_all
    then have "tracks (2 ^ (LENGTH('r) - 1)) (wide hi' lo') (num * ?W * 2 ^ K) (den * 2 ^ K)"
      by (simp add: k(3) power_add ac_simps)
    then have tr: "tracks (2 ^ (LENGTH('r) - 1)) (wide hi' lo') (num * ?W) den" by (rule tracks_unscale) simp
    have "?P * ?W * 2 ^ 1 \<le> ?P * ?W * 2 ^ k" using k(1) by (intro mult_le_mono2 power_increasing) auto
    then have "2 * ?P * ?W \<le> ?P * ?W * 2 ^ k" by (simp only: power_one_right ac_simps)
    with g(2) have "wide hi lo < ?P * ?W * 2 ^ k" by (rule less_le_trans)
    then have "wide hi' lo' < ?P * ?W" unfolding g' using width fraction_bits by (subst sticky_less_iff) simp_all
    moreover have q: "wide hi' lo' div ?W = unat hi'" by (simp add: wide_def)
    ultimately have hi': "unat hi' < ?P" by (simp add: less_mult_imp_div_less flip: q)
    then have ok: "significand_ok (significandBits F) 0 (wide hi' lo' div ?W)" by (simp add: q significand_ok_def)
    have infty: "unat hi' < infty_rep F"
      using hi' one_less_power [of "2 :: nat" "exponentBits F"] exponent_bits
      by (simp add: infty_rep_def less_le_trans [OF _ mult_le_mono1 [of 1]])
    then have less: "unat hi' < 2 ^ (LENGTH('r) - 1)" using infty_rep_less by linarith
    have "mul_round F (x AND signBit F) hi lo e
        = (hi' OR (x AND signBit F)) + (if round_up LENGTH('r) (wide hi' lo') (unat hi') then 1 else 0)"
      unfolding wide_round [OF refl less, of lo' x hi', symmetric]
      using 3 max shift k(2) w [unfolded k_def] by (simp add: mul_round_def k_def)
    then show ?thesis
      by (intro rounds_to_increment [OF _ ok _ _ infty]) (use tr in \<open>simp_all add: q join_rep_def\<close>)
  next
    case 4
    define m where "m = (hi AND significandMask F) OR shl (word_of_int e) (significandBits F)"
    have q: "wide hi lo div ?W = unat hi" by (simp add: wide_def)
    have "?P \<le> wide hi lo div ?W" "wide hi lo div ?W < 2 * ?P"
      using g by (simp_all add: less_eq_div_iff_mult_less_eq less_mult_imp_div_less)
    then have ok: "significand_ok (significandBits F) (nat e) (unat hi)" using 4 by (simp add: q significand_ok_def)
    have ne: "nat e < 2 ^ exponentBits F - 1" "e < 2 ^ exponentBits F" using 4 by (simp_all add: maxExponent_def nat_less_iff)
    have m: "unat m = join_rep (significandBits F) (nat e) (unat hi)"
      using pack_fields [of e hi] 4 ne join_rep_mod [OF ok] by (simp add: m_def)
    have infty: "unat m < infty_rep F" using join_rep_less [OF ok ne(1)] by (simp add: m infty_rep_def)
    then have less: "unat m < 2 ^ (LENGTH('r) - 1)" using infty_rep_less by linarith
    have "n = (nat e - 1) + K" using 4 by (simp add: n_def)
    then have "wide hi lo * (den * 2 ^ (nat e - 1)) * 2 ^ K = num * ?W * 2 ^ K"
      using exact [folded n_def] by (simp only: power_add ac_simps)
    then have "num * ?W = wide hi lo * (den * 2 ^ (nat e - 1))" by simp
    then have tr: "tracks (2 ^ (LENGTH('r) - 1)) (wide hi lo) (num * ?W) (den * 2 ^ (nat e - 1))"
      using den tracks_exact by simp
    have "mul_round F (x AND signBit F) hi lo e
        = (m OR (x AND signBit F)) + (if round_up LENGTH('r) (wide hi lo) (unat m) then 1 else 0)"
      unfolding wide_round [OF refl less, of lo x hi, symmetric]
      using 4 by (simp add: mul_round_def m_def)
    then show ?thesis
      by (intro rounds_to_increment [OF _ _ _ _ infty]) (use tr ok m q in simp_all)
  qed
qed

section \<open>The product of finite operands\<close>

lemma exponent_field_word:
  "ucast (shr x (significandBits F) AND word_of_int (maxExponent F)) =
    (word_of_int (int (rep_abs x div 2 ^ significandBits F)) :: c_unsigned)" for x :: "'r word"
proof (rule word_of_unat_eq [THEN trans])
  have "(2::nat) ^ exponentBits F \<le> 2 ^ LENGTH('r)" using width by (intro power_increasing) auto
  then have l: "rep_abs x div 2 ^ significandBits F < 2 ^ LENGTH('r)" using exponent_field_less [of x] by linarith
  have "(2::nat) ^ exponentBits F \<le> 2 ^ 15" using exponent_bits by (intro power_increasing) auto
  then have "rep_abs x div 2 ^ significandBits F < 2 ^ 15" using exponent_field_less [of x] by (rule less_le_trans [rotated])
  then have "rep_abs x div 2 ^ significandBits F < 2 ^ 32" by simp
  then show "unat (ucast (shr x (significandBits F) AND word_of_int (maxExponent F)) :: c_unsigned)
      = rep_abs x div 2 ^ significandBits F"
    unfolding exponent_field using l by (simp add: unsigned_ucast_eq unsigned_of_nat take_bit_nat_eq_self)
qed simp

lemma mul_normalize_unpack:
  fixes x :: "'r word"
  assumes "mul_normalize F x = (s, scale)"
  shows "add_unpack F x = (s, int (rep_abs x div 2 ^ significandBits F) + scale)"
proof -
  have "x AND absMask F < implicitBit F \<longleftrightarrow> rep_abs x div 2 ^ significandBits F = 0"
    by (simp add: word_less_nat_alt unat_implicitBit div_eq_0_iff)
  then show ?thesis
    using assms by (auto simp: mul_normalize_def add_unpack_def uint_exponent_field Let_def split: if_splits)
qed

lemma xor_sign: "rep_sign (a XOR b) \<longleftrightarrow> rep_sign a \<noteq> rep_sign b" for a b :: "'r word"
  by (simp add: rep_sign_def bit_xor_iff)

text \<open>The normalised product: bit \<open>significandBits\<close> of the high word is its leading bit.\<close>

lemma normalise_product:
  fixes hi lo :: "'r word"
  defines "T \<equiv> 2 ^ significandBits F * 2 ^ LENGTH('r) :: nat"
  assumes "T \<le> 2 * wide hi lo" "wide hi lo < 2 * T"
  obtains hi' lo' j where "j \<le> 1" "wide hi' lo' = wide hi lo * 2 ^ j" "T \<le> wide hi' lo'" "wide hi' lo' < 2 * T"
    "(if hi AND implicitBit F \<noteq> 0 then (hi, lo, e + 1) else let (hi, lo) = wideLeftShift hi lo 1 in (hi, lo, e :: int))
      = (hi', lo', e + 1 - int j)"
proof -
  have "unat hi * 2 ^ LENGTH('r) \<le> wide hi lo" by (simp add: wide_def)
  also have "\<dots> < (2 * 2 ^ significandBits F) * 2 ^ LENGTH('r)" using assms(3) by (simp only: T_def mult.assoc)
  finally have hi: "unat hi < 2 * 2 ^ significandBits F" by (simp only: mult_less_cancel2)
  show thesis
  proof (cases "hi AND implicitBit F = 0")
    case True
    then have "unat hi < 2 ^ significandBits F" using and_exp_eq_0_iff [OF hi] by (simp add: implicitBit_exp)
    then have "Suc (unat hi) * 2 ^ LENGTH('r) \<le> T" unfolding T_def by (intro mult_le_mono1) simp
    then have less: "wide hi lo < T" using unat_less_exp_len [of lo] unfolding wide_def mult_Suc by linarith
    obtain hi' lo' where w: "wideLeftShift hi lo 1 = (hi', lo')" by fastforce
    have "2 * 2 ^ significandBits F < (2::nat) ^ LENGTH('r)"
      using exponent_bits width power_strict_increasing [of "Suc (significandBits F)" "LENGTH('r)" "2 :: nat"] by simp
    then have "wide hi' lo' = wide hi lo * 2"
      using \<open>unat hi < 2 ^ significandBits F\<close> by (intro wideLeftShift_one [OF w]) linarith
    then show thesis using True less w assms(2) by (intro that [of 1 hi' lo']) simp_all
  next
    case False
    then have "2 ^ significandBits F \<le> unat hi" using and_exp_eq_0_iff [OF hi] by (simp add: implicitBit_exp)
    then have "T \<le> wide hi lo" unfolding T_def wide_def by (intro trans_le_add1 mult_le_mono1)
    then show thesis using False assms(3) by (intro that [of 0 hi lo]) simp_all
  qed
qed

lemma mul_scale:
  fixes S T Ma Mb :: nat
  assumes "Ma * P = S * 2 ^ na" "Mb * P = T * 2 ^ nb" "j \<le> 2"
  shows "S * (T * Q) * 2 ^ j * (D * 2 ^ (na + nb + 2 - j)) = Ma * Mb * (4 * P * P * Q * D)"
proof -
  have "(2::nat) ^ j * 2 ^ (na + nb + 2 - j) = 2 ^ na * 2 ^ nb * 4" using assms(3) by (simp flip: power_add)
  moreover have "S * (T * Q) * 2 ^ j * (D * 2 ^ (na + nb + 2 - j)) = S * T * Q * D * (2 ^ j * 2 ^ (na + nb + 2 - j))"
    by (simp only: ac_simps)
  ultimately have "S * (T * Q) * 2 ^ j * (D * 2 ^ (na + nb + 2 - j)) = (S * 2 ^ na) * (T * 2 ^ nb) * (4 * Q * D)"
    by (simp only: ac_simps)
  then show ?thesis by (simp only: assms(1,2) [symmetric] ac_simps)
qed

lemma mul_finite_eq:
  fixes a b :: "'r word"
  assumes fin: "is_finite F a" "is_finite F b" and nz: "rep_abs a \<noteq> 0" "rep_abs b \<noteq> 0"
    and s: "mul_normalize F a = (s, ka)" "mul_normalize F b = (t, kb)"
    and exact: "exact_product F (s OR implicitBit F) (shl (t OR implicitBit F) (exponentBits F))"
  defines "expo x \<equiv> ucast (shr x (significandBits F) AND word_of_int (maxExponent F)) :: c_unsigned"
  shows "rounds_to F (magnitude F a * magnitude F b) (2 ^ (nat (exponentBias F) + significandBits F - 1))
    (rep_sign a \<noteq> rep_sign b) (mul_finite F ((a XOR b) AND signBit F) (expo a) (expo b) s t (ka + kb))"
proof -
  let ?P = "2 ^ significandBits F :: nat" and ?W = "2 ^ LENGTH('r) :: nat"
  define ea eb where "ea = int (rep_abs a div ?P) + ka" and "eb = int (rep_abs b div ?P) + kb"
  note ua = mul_normalize_unpack [OF s(1), folded ea_def] and ub = mul_normalize_unpack [OF s(2), folded eb_def]
  define S T where "S = unat (s OR implicitBit F)" and "T = unat (t OR implicitBit F)"
  define na nb where "na = nat (ea - 1 + int (significandBits F))" and "nb = nat (eb - 1 + int (significandBits F))"
  have A: "?P \<le> S" "S < 2 * ?P" "1 - int (significandBits F) \<le> ea" "ea < maxExponent F"
      "magnitude F a * ?P = S * 2 ^ na"
    using add_unpack_eq [OF fin(1) nz(1)] ua by (auto simp: S_def na_def)
  have B: "?P \<le> T" "T < 2 * ?P" "1 - int (significandBits F) \<le> eb" "eb < maxExponent F"
      "magnitude F b * ?P = T * 2 ^ nb"
    using add_unpack_eq [OF fin(2) nz(2)] ub by (auto simp: T_def nb_def)
  have shl: "unat (shl (t OR implicitBit F) (exponentBits F)) = T * 2 ^ exponentBits F"
  proof -
    have "T * 2 ^ exponentBits F < 2 * ?P * 2 ^ exponentBits F" using B(2) by simp
    then show ?thesis unfolding T_def by (intro unat_shl_small) (simp add: width power_add ac_simps)
  qed
  obtain hi lo where w: "wideMultiply F (s OR implicitBit F) (shl (t OR implicitBit F) (exponentBits F)) = (hi, lo)"
    by fastforce
  then have prod: "wide hi lo = S * (T * 2 ^ exponentBits F)"
    using exact by (simp only: exact_product_def S_def shl prod.case)
  define Q :: nat where "Q = 2 ^ exponentBits F"
  have W: "?W = 2 * ?P * Q" by (simp add: width power_add Q_def)
  have "S * T < (2 * ?P) * (2 * ?P)" using A(2) B(2) by (intro mult_strict_mono) simp_all
  then have "?P * ?P * (2 * Q) \<le> S * T * (2 * Q)" "S * T * Q < (2 * ?P) * (2 * ?P) * Q"
    using A(1) B(1) by (simp_all add: mult_le_mono Q_def)
  then have range: "?P * ?W \<le> 2 * wide hi lo" "wide hi lo < 2 * (?P * ?W)"
    unfolding prod W Q_def [symmetric] by (simp_all add: ac_simps)
  define e0 where "e0 = ea + eb - exponentBias F"
  obtain hi' lo' j where j: "j \<le> 1" "wide hi' lo' = wide hi lo * 2 ^ j"
      "?P * ?W \<le> wide hi' lo'" "wide hi' lo' < 2 * (?P * ?W)"
    and norm: "(if hi AND implicitBit F \<noteq> 0 then (hi, lo, e0 + 1)
      else let (hi, lo) = wideLeftShift hi lo 1 in (hi, lo, e0)) = (hi', lo', e0 + 1 - int j)"
    using normalise_product [OF range, of e0] .
  have "expo a + expo b - word_of_int (exponentBias F) + word_of_int (ka + kb) = (word_of_int e0 :: c_unsigned)"
    unfolding expo_def exponent_field_word by (simp add: e0_def ea_def eb_def)
  moreover have small: "\<bar>e0\<bar> < 2 ^ 20"
    using A(3,4) B(3,4) maxExponent_bounds exponentBias_bounds fraction_bits by (simp add: e0_def)
  then have "sint (word_of_int e0 :: c_unsigned) = e0" by (intro sint_c_int) simp_all
  ultimately have run: "mul_finite F ((a XOR b) AND signBit F) (expo a) (expo b) s t (ka + kb)
      = mul_round F ((a XOR b) AND signBit F) hi' lo' (e0 + 1 - int j)"
    unfolding mul_finite_def Let_def w prod.case by (simp only: norm [unfolded Let_def] prod.case)
  define K where "K = 2 * significandBits F + nat (exponentBias F)"
  define D :: nat where "D = 2 ^ (nat (exponentBias F) + significandBits F - 1)"
  have n: "nat (e0 + 1 - int j - 1 + int K) = na + nb + 2 - j"
    using A(3) B(3) j(1) exponentBias_bounds by (simp add: e0_def K_def na_def nb_def) linarith?
  have "4 * ?P * ?P * Q * D = ?W * 2 ^ K"
  proof -
    have "2 * D = 2 ^ nat (exponentBias F) * ?P"
      using fraction_bits unfolding D_def by (simp flip: power_Suc power_add)
    moreover have "4 * ?P * ?P * Q * D = 2 * ?P * Q * ?P * (2 * D)" by simp
    moreover have "(2::nat) ^ K = ?P * ?P * 2 ^ nat (exponentBias F)" by (simp add: K_def power_add mult_2)
    ultimately show ?thesis unfolding W by (simp only: ac_simps)
  qed
  then have "wide hi' lo' * (D * 2 ^ nat (e0 + 1 - int j - 1 + int K)) = magnitude F a * magnitude F b * ?W * 2 ^ K"
    unfolding n j(2) prod using mul_scale [OF A(5) B(5), of j Q D] j(1) by (simp add: Q_def)
  then have "rounds_to F (magnitude F a * magnitude F b) D (rep_sign (a XOR b))
      (mul_round F ((a XOR b) AND signBit F) hi' lo' (e0 + 1 - int j))"
    using j small A(3) B(3) by (intro mul_round_eq [where K = K]) (simp_all add: D_def e0_def K_def)
  then show ?thesis by (simp add: run D_def xor_sign)
qed

section \<open>The whole template\<close>

lemma exponent_test:
  fixes x :: "'r word"
  shows "word_of_int (maxExponent F) - 1 \<le> (ucast (shr x (significandBits F) AND word_of_int (maxExponent F)) :: c_unsigned) - 1
    \<longleftrightarrow> rep_abs x div 2 ^ significandBits F = 0 \<or> \<not> is_finite F x"
proof -
  define n where "n = rep_abs x div 2 ^ significandBits F"
  have "(2::nat) ^ exponentBits F \<le> 2 ^ 15" using exponent_bits by (intro power_increasing) auto
  then have n: "n < 2 ^ 15" using exponent_field_less [of x] unfolding n_def by (rule less_le_trans [rotated])
  have m: "unat (word_of_int (maxExponent F) - 1 :: c_unsigned) = nat (maxExponent F) - 1"
    using maxExponent_bounds unat_c_unsigned [of "maxExponent F - 1"] by simp
  have fin: "is_finite F x \<longleftrightarrow> n < nat (maxExponent F)"
    by (simp add: finite_exponent n_def maxExponent_def nat_diff_distrib nat_power_eq)
  show ?thesis
  proof (cases "n = 0")
    case True
    then have "(word_of_int (int n) :: c_unsigned) - 1 = - 1" by simp
    then show ?thesis unfolding exponent_field_word n_def [symmetric] using True by (simp add: word_order.extremum)
  next
    case False
    then have "unat ((word_of_int (int n) :: c_unsigned) - 1) = n - 1"
      using n unat_c_unsigned [of "int n - 1"] by simp
    then show ?thesis
      unfolding exponent_field_word n_def [symmetric] fin using False m maxExponent_bounds
      by (simp only: word_le_nat_alt) auto
  qed
qed

lemma mul_special_eq:
  fixes a b s :: "'r word"
  shows "mul_special F a b s =
    (if is_nan F a then Some (a OR quietBit F) else if is_nan F b then Some (b OR quietBit F)
     else if is_inf F a then Some (if rep_abs b \<noteq> 0 then infRep F OR s else qnanRep F)
     else if is_inf F b then Some (if rep_abs a \<noteq> 0 then infRep F OR s else qnanRep F)
     else if rep_abs a = 0 \<or> rep_abs b = 0 then Some s else None)"
  unfolding mul_special_def Let_def toRep_def fromRep_def nan_iff inf_iff zero_iff by (simp add: inf_iff [symmetric])

lemma infinity_signed:
  fixes x :: "'r word"
  shows "is_inf F (infRep F OR (x AND signBit F))" and "rep_sign (infRep F OR (x AND signBit F)) = rep_sign x"
proof -
  have "unat (infRep F) < 2 ^ (LENGTH('r) - 1)" using infty_rep_less by (simp add: unat_infRep)
  then show "is_inf F (infRep F OR (x AND signBit F))" and "rep_sign (infRep F OR (x AND signBit F)) = rep_sign x"
    by (simp_all add: sign_or is_inf_def unat_infRep)
qed

lemma mulXf3_correct:
  fixes a b :: "'r word"
  assumes exact: "is_finite F a \<Longrightarrow> is_finite F b \<Longrightarrow> rep_abs a \<noteq> 0 \<Longrightarrow> rep_abs b \<noteq> 0 \<Longrightarrow>
    exact_product F (fst (mul_normalize F a) OR implicitBit F)
      (shl (fst (mul_normalize F b) OR implicitBit F) (exponentBits F))"
  shows "ieee_product F a b (mulXf3 F a b)"
proof (cases "is_finite F a \<and> is_finite F b \<and> rep_abs a \<noteq> 0 \<and> rep_abs b \<noteq> 0")
  case True
  obtain s ka where s: "mul_normalize F a = (s, ka)" by fastforce
  obtain t kb where t: "mul_normalize F b = (t, kb)" by fastforce
  have ns: "s = a AND significandMask F \<and> ka = 0" if "rep_abs a div 2 ^ significandBits F \<noteq> 0"
    using s that by (auto simp: mul_normalize_def word_less_nat_alt unat_implicitBit split: if_splits)
  have nt: "t = b AND significandMask F \<and> kb = 0" if "rep_abs b div 2 ^ significandBits F \<noteq> 0"
    using t that by (auto simp: mul_normalize_def word_less_nat_alt unat_implicitBit split: if_splits)
  have "mul_special F a b ((a XOR b) AND signBit F) = None"
    using True by (simp add: mul_special_eq is_nan_def is_inf_def is_finite_def)
  then have "mulXf3 F a b = mul_finite F ((a XOR b) AND signBit F)
      (ucast (shr a (significandBits F) AND word_of_int (maxExponent F)))
      (ucast (shr b (significandBits F) AND word_of_int (maxExponent F))) s t (ka + kb)"
    unfolding mulXf3_def Let_def toRep_def fromRep_def exponent_test
    using True s t ns nt by (auto split: if_splits)
  then show ?thesis
    using mul_finite_eq [OF _ _ _ _ s t] exact True
    by (simp add: ieee_product_def s t is_nan_def is_inf_def is_finite_def)
next
  case False
  then obtain r where r: "mul_special F a b ((a XOR b) AND signBit F) = Some r"
    using classes [of a] classes [of b] by (cases "mul_special F a b ((a XOR b) AND signBit F)") (auto simp: mul_special_eq split: if_splits)
  have "mulXf3 F a b = r"
    unfolding mulXf3_def Let_def toRep_def fromRep_def exponent_test using False r by auto
  moreover have "ieee_product F a b r"
  proof -
    let ?D = "2 ^ (nat (exponentBias F) + significandBits F - 1) :: nat"
    have zero: "rounds_to F 0 ?D (rep_sign a \<noteq> rep_sign b) ((a XOR b) AND signBit F)"
      using rounds_to_zero [of 0 ?D "a XOR b"] by (simp add: xor_sign)
    have "magnitude F x = 0" if "rep_abs x = 0" for x :: "'r word" using that by (simp add: magnitude_def)
    moreover have "\<not> is_inf F x" if "rep_abs x = 0" for x :: "'r word"
      using that infty_rep_pos by (simp add: is_inf_def)
    ultimately show ?thesis
      using r zero by (auto simp: mul_special_eq ieee_product_def quieten_nan qnan_is_nan infinity_signed xor_sign
        split: if_splits)
  qed
  ultimately show ?thesis by simp
qed

end

text \<open>Single and double precision have an exact wide product.\<close>

context fp_wide
begin

lemma mulXf3_exact: "ieee_product F a b (mulXf3 F a b)" for a b :: "'r word"
  by (rule mulXf3_correct)
    (auto simp: exact_product_def wide_def dest: wide_product split: prod.split)

end

section \<open>The wide product of quadruple precision\<close>

text \<open>The sum \<open>r0 + (r1 << 64)\<close> for the low word can carry out of its 128 bits; the carry is dropped.
  It occurs exactly when the low word is smaller than \<open>r0\<close>.\<close>

definition quad_carry :: "nat \<Rightarrow> nat \<Rightarrow> bool" where
  "quad_carry m n \<longleftrightarrow> m * n mod 2 ^ 128 <
     (m mod 2 ^ 32) * (n mod 2 ^ 32) +
     ((m div 2 ^ 32 mod 2 ^ 32) * (n mod 2 ^ 32) + (m mod 2 ^ 32) * (n div 2 ^ 32 mod 2 ^ 32)) mod 2 ^ 32 * 2 ^ 32"

section \<open>Properties\<close>

text \<open>C6. Single and double precision multiplication returns the exact product of finite operands rounded to
  nearest with ties to even, overflow, gradual underflow and signed zeros included; NaNs are propagated,
  infinity times zero is a NaN, and infinity times a nonzero operand is a signed infinity.\<close>

theorem fp_multiplication_correct:
  "ieee_product single_precision a b (mulsf3 a b) \<and> ieee_product double_precision c d (muldf3 c d)"
  by (simp add: mulsf3_def muldf3_def single.mulXf3_exact double.mulXf3_exact)

end
