(* ===== verification/Fp_Quad.thy ===== *)
theory Fp_Quad
  imports Fp_Mul
begin

text \<open>
  The 128 x 128 bit product \<open>wideMultiply\<close> of quadruple precision (\<open>fp_lib.h\<close>) and the routine
  \<open>multf3.c\<close> that uses it.  The low word of the product is exact.  The high word misses a carry in rare
  cases, characterised by \<open>quad_carry\<close> (theory \<open>Fp_Mul\<close>): exactly then it is one too small.
\<close>

section \<open>The product in digits of 32 bits\<close>

lemma four_digits:
  fixes a B :: nat
  shows "a div B ^ 3 * B ^ 3 + a div B ^ 2 mod B * B ^ 2 + a div B mod B * B + a mod B = a"
proof -
  have "a div B ^ 2 = a div B ^ 3 * B + a div B ^ 2 mod B"
    using div_mult_mod_eq [of "a div B ^ 2" B] by (simp add: div_mult2_eq [symmetric] power2_eq_square power3_eq_cube)
  moreover have "a div B = a div B ^ 2 * B + a div B mod B"
    using div_mult_mod_eq [of "a div B" B] by (simp add: div_mult2_eq [symmetric] power2_eq_square)
  ultimately have "a = ((a div B ^ 3 * B + a div B ^ 2 mod B) * B + a div B mod B) * B + a mod B"
    using div_mult_mod_eq [of a B] by simp
  then show ?thesis by (simp add: distrib_right power2_eq_square power3_eq_cube mult.assoc)
qed

lemma digit_words:
  "unat (word_1 a) = unat a div (2 ^ 32) ^ 3" "unat (word_2 a) = unat a div (2 ^ 32) ^ 2 mod 2 ^ 32"
  "unat (word_3 a) = unat a div 2 ^ 32 mod 2 ^ 32" "unat (word_4 a) = unat a mod 2 ^ 32"
proof -
  have m: "(0x00000000ffffffff :: 128 word) = mask 32" by (simp add: mask_eq_exp_minus_1)
  have narrow: "unat (ucast (w AND mask 32) :: 64 word) = unat w mod 2 ^ 32" for w :: "128 word"
  proof -
    have "unat (ucast (w AND mask 32) :: 64 word) = take_bit 64 (unat (w AND mask 32))" by (simp add: unsigned_ucast_eq)
    also have "unat (w AND mask 32) = unat w mod 2 ^ 32" by (simp only: unat_and_mask_low)
    also have "unat w mod 2 ^ 32 < 2 ^ 64" using mod_less_divisor [of "2 ^ 32" "unat w"] by simp
    then have "take_bit 64 (unat w mod 2 ^ 32) = unat w mod 2 ^ 32" by (rule take_bit_nat_eq_self)
    finally show ?thesis .
  qed
  have "unat a div (2 ^ 32) ^ 3 < 2 ^ 32"
    using unat_less_exp_len [of a] by (intro less_mult_imp_div_less) simp
  then show "unat (word_1 a) = unat a div (2 ^ 32) ^ 3"
    unfolding word_1_def m narrow unat_shr by simp
  show "unat (word_2 a) = unat a div (2 ^ 32) ^ 2 mod 2 ^ 32" unfolding word_2_def m narrow unat_shr by simp
  show "unat (word_3 a) = unat a div 2 ^ 32 mod 2 ^ 32" unfolding word_3_def m narrow unat_shr by simp
  show "unat (word_4 a) = unat a mod 2 ^ 32" unfolding word_4_def m narrow by simp
qed

text \<open>The arithmetic of the column sums, for any radix.\<close>

lemma column_sums:
  fixes B s0 s1 s2 s3 s4 s5 s6 m :: nat
  assumes B: "2 \<le> B" and m: "m = s0 + s1 * B + s2 * B ^ 2 + s3 * B ^ 3 + s4 * B ^ 4 + s5 * B ^ 5 + s6 * B ^ 6"
    and s0: "s0 < B ^ 2"
  defines "r0 \<equiv> s0 mod B ^ 2 + s1 mod B * B"
    and "r1 \<equiv> s0 div B ^ 2 + s1 div B mod B ^ 2 + s2 mod B ^ 2 + s3 mod B * B"
  shows "r0 + r1 * B ^ 2 + B ^ 4 * (s1 div B ^ 3 + s2 div B ^ 2 + s3 div B + s4 + s5 * B + s6 * B ^ 2) = m"
    and "r0 < 2 * B ^ 2"
    and "(r0 + r1 * B ^ 2) mod B ^ 4 + B ^ 4 * (r1 div B ^ 2 +
      (s1 div B ^ 3 + s2 div B ^ 2 + s3 div B + s4 + s5 * B + s6 * B ^ 2) + of_bool (m mod B ^ 4 < r0)) = m"
proof -
  define t where "t = s1 div B ^ 3 + s2 div B ^ 2 + s3 div B + s4 + s5 * B + s6 * B ^ 2"
  have s1: "s1 = s1 mod B + (s1 div B mod B ^ 2 + s1 div B ^ 3 * B ^ 2) * B"
  proof -
    have "s1 div B ^ 3 = s1 div B div B ^ 2" by (simp add: div_mult2_eq [symmetric] power2_eq_square power3_eq_cube mult.assoc)
    then have "s1 div B mod B ^ 2 + s1 div B ^ 3 * B ^ 2 = s1 div B" by (simp only: mod_div_mult_eq)
    then show ?thesis by simp
  qed
  have s2: "s2 = s2 mod B ^ 2 + s2 div B ^ 2 * B ^ 2" "s3 = s3 mod B + s3 div B * B" "s0 = s0 mod B ^ 2 + s0 div B ^ 2 * B ^ 2"
    by (simp_all only: mod_div_mult_eq)
  define d1 e1 f1 d2 e2 d3 e3 where "d1 = s1 mod B" and "e1 = s1 div B mod B ^ 2" and "f1 = s1 div B ^ 3"
    and "d2 = s2 mod B ^ 2" and "e2 = s2 div B ^ 2" and "d3 = s3 mod B" and "e3 = s3 div B"
  define d0 e0 where "d0 = s0 mod B ^ 2" and "e0 = s0 div B ^ 2"
  have powers: "B ^ 3 = B ^ 2 * B" "B ^ 4 = B ^ 2 * B ^ 2" "B ^ 5 = B ^ 2 * B ^ 2 * B" "B ^ 6 = B ^ 2 * B ^ 2 * B ^ 2"
    by (simp_all flip: power_add power_Suc2)
  have "m = d0 + e0 * B ^ 2 + (d1 + (e1 + f1 * B ^ 2) * B) * B + (d2 + e2 * B ^ 2) * B ^ 2 + (d3 + e3 * B) * B ^ 3
      + s4 * B ^ 4 + s5 * B ^ 5 + s6 * B ^ 6"
    unfolding m d0_def e0_def d1_def e1_def f1_def d2_def e2_def d3_def e3_def s1 [symmetric] s2 [symmetric] ..
  also have "\<dots> = r0 + r1 * B ^ 2 + B ^ 4 * t"
    unfolding r0_def r1_def t_def d0_def [symmetric] e0_def [symmetric] d1_def [symmetric] e1_def [symmetric]
      f1_def [symmetric] d2_def [symmetric] e2_def [symmetric] d3_def [symmetric] e3_def [symmetric]
    unfolding powers by (simp add: algebra_simps power2_eq_square)
  finally have total: "r0 + r1 * B ^ 2 + B ^ 4 * t = m" ..
  then show "r0 + r1 * B ^ 2 + B ^ 4 * (s1 div B ^ 3 + s2 div B ^ 2 + s3 div B + s4 + s5 * B + s6 * B ^ 2) = m"
    by (simp only: t_def)
  have "s1 mod B * B < B * B" using B by simp
  moreover have "d0 < B ^ 2" using B by (simp add: d0_def)
  ultimately show r0: "r0 < 2 * B ^ 2" unfolding r0_def d0_def power2_eq_square by linarith
  define X where "X = r0 + r1 mod B ^ 2 * B ^ 2"
  have B2: "4 \<le> B ^ 2" using power_mono [OF B, of 2] by simp
  have "r1 mod B ^ 2 < B ^ 2" using B by simp
  then have "(r1 mod B ^ 2 + 1) * B ^ 2 \<le> B ^ 2 * B ^ 2" by (intro mult_le_mono1) simp
  then have high: "r1 mod B ^ 2 * B ^ 2 + B ^ 2 \<le> B ^ 4" by (simp only: powers(2) distrib_right mult_1_left)
  have "4 * B ^ 2 \<le> B ^ 4" unfolding powers(2) using B2 by (rule mult_le_mono1)
  then have X: "X < 2 * B ^ 4" using high r0 by (simp add: X_def)
  have split: "r0 + r1 * B ^ 2 = X + r1 div B ^ 2 * B ^ 4"
  proof -
    have "r1 * B ^ 2 = (r1 div B ^ 2 * B ^ 2 + r1 mod B ^ 2) * B ^ 2" by (simp only: div_mult_mod_eq)
    then show ?thesis by (simp only: X_def powers(2) distrib_right mult.assoc add_ac)
  qed
  then have "m = X + B ^ 4 * (r1 div B ^ 2 + t)" using total by (simp only: distrib_left add_ac mult_ac)
  then have mod: "m mod B ^ 4 = X mod B ^ 4" "(r0 + r1 * B ^ 2) mod B ^ 4 = X mod B ^ 4" by (simp_all add: split)
  have "X mod B ^ 4 = (if X < B ^ 4 then X else X - B ^ 4)" using X by (auto simp: mod_if)
  moreover have "X mod B ^ 4 < r0 \<longleftrightarrow> B ^ 4 \<le> X"
    unfolding calculation using high B2 by (auto simp: X_def not_less) 
  ultimately have "X mod B ^ 4 + B ^ 4 * of_bool (m mod B ^ 4 < r0) = X" unfolding mod by (auto simp: not_less)
  then show "(r0 + r1 * B ^ 2) mod B ^ 4 + B ^ 4 * (r1 div B ^ 2 +
      (s1 div B ^ 3 + s2 div B ^ 2 + s3 div B + s4 + s5 * B + s6 * B ^ 2) + of_bool (m mod B ^ 4 < r0)) = m"
    using \<open>m = X + _\<close> unfolding t_def [symmetric] mod(2) distrib_left by linarith
qed


section \<open>The value of the two words\<close>

lemma word_as_nat:
  fixes x :: "'a::len word"
  assumes "unat x = n"
  shows "x = of_nat n" "x AND mask k = of_nat (n mod 2 ^ k)" "shr x k = of_nat (n div 2 ^ k)" "shl x k = of_nat (n * 2 ^ k)"
proof -
  show x: "x = of_nat n" using assms by (rule word_of_unat_eq)
  show "x AND mask k = of_nat (n mod 2 ^ k)" by (rule word_of_unat_eq) (simp only: unat_and_mask_low assms)
  show "shr x k = of_nat (n div 2 ^ k)" by (rule word_of_unat_eq) (simp only: unat_shr assms)
  show "shl x k = of_nat (n * 2 ^ k)" by (simp add: push_bit_eq_mult x)
qed

lemma digit_product:
  fixes x y :: "64 word"
  assumes "unat x < 2 ^ 32" "unat y < 2 ^ 32"
  shows "unat (ucast (x * y) :: 128 word) = unat x * unat y" and "unat x * unat y < 2 ^ 64"
proof -
  have "unat x * unat y < 2 ^ 32 * 2 ^ 32" using assms by (intro mult_strict_mono') auto
  then show "unat x * unat y < 2 ^ 64" by simp
  then have "unat (x * y) = unat x * unat y" by (subst unat_times_small) simp_all
  then show "unat (ucast (x * y) :: 128 word) = unat x * unat y"
    using unat_less_exp_len [of "x * y"] by (simp add: unsigned_ucast_eq take_bit_nat_eq_self)
qed

lemma wideMultiply_quad_value:
  assumes w: "wideMultiply_quad a b = (hi, lo)"
  shows "lo = a * b" and "wide hi lo + (if quad_carry (unat a) (unat b) then 2 ^ 128 else 0) = unat a * unat b"
proof -
  define B :: nat where "B = 2 ^ 32"
  have pow: "(2::nat) ^ 64 = B ^ 2" "(2::nat) ^ 96 = B ^ 3" "(2::nat) ^ 128 = B ^ 4" "(2::nat) ^ 32 = B" by (simp_all add: B_def)
  define a1 a2 a3 a4 where "a1 = unat (word_1 a)" and "a2 = unat (word_2 a)" and "a3 = unat (word_3 a)" and "a4 = unat (word_4 a)"
  define b1 b2 b3 b4 where "b1 = unat (word_1 b)" and "b2 = unat (word_2 b)" and "b3 = unat (word_3 b)" and "b4 = unat (word_4 b)"
  have small: "unat (word_1 x) < 2 ^ 32" "unat (word_2 x) < 2 ^ 32" "unat (word_3 x) < 2 ^ 32" "unat (word_4 x) < 2 ^ 32" for x
    unfolding digit_words using unat_less_exp_len [of x] by (simp_all add: less_mult_imp_div_less)
  note p = digit_product(1) [OF small(1) small(1)] digit_product(1) [OF small(1) small(2)] digit_product(1) [OF small(1) small(3)] digit_product(1) [OF small(1) small(4)]
    digit_product(1) [OF small(2) small(1)] digit_product(1) [OF small(2) small(2)] digit_product(1) [OF small(2) small(3)] digit_product(1) [OF small(2) small(4)]
    digit_product(1) [OF small(3) small(1)] digit_product(1) [OF small(3) small(2)] digit_product(1) [OF small(3) small(3)] digit_product(1) [OF small(3) small(4)]
    digit_product(1) [OF small(4) small(1)] digit_product(1) [OF small(4) small(2)] digit_product(1) [OF small(4) small(3)] digit_product(1) [OF small(4) small(4)]
  note p = p [of a b, folded a1_def a2_def a3_def a4_def b1_def b2_def b3_def b4_def]
  note l = digit_product(2) [OF small(1) small(1)] digit_product(2) [OF small(1) small(2)] digit_product(2) [OF small(1) small(3)] digit_product(2) [OF small(1) small(4)]
    digit_product(2) [OF small(2) small(1)] digit_product(2) [OF small(2) small(2)] digit_product(2) [OF small(2) small(3)] digit_product(2) [OF small(2) small(4)]
    digit_product(2) [OF small(3) small(1)] digit_product(2) [OF small(3) small(2)] digit_product(2) [OF small(3) small(3)] digit_product(2) [OF small(3) small(4)]
    digit_product(2) [OF small(4) small(1)] digit_product(2) [OF small(4) small(2)] digit_product(2) [OF small(4) small(3)] digit_product(2) [OF small(4) small(4)]
  note l = l [of a b, folded a1_def a2_def a3_def a4_def b1_def b2_def b3_def b4_def]
  define s0 s1 s2 s3 s4 s5 s6 where "s0 = a4 * b4" and "s1 = a3 * b4 + a4 * b3" and "s2 = a2 * b4 + a3 * b3 + a4 * b2"
    and "s3 = a1 * b4 + a2 * b3 + a3 * b2 + a4 * b1" and "s4 = a1 * b3 + a2 * b2 + a3 * b1" and "s5 = a1 * b2 + a2 * b1"
    and "s6 = a1 * b1"
  note s_defs = s0_def s1_def s2_def s3_def s4_def s5_def s6_def
  have s_less: "s0 < 2 ^ 66" "s1 < 2 ^ 66" "s2 < 2 ^ 66" "s3 < 2 ^ 66" "s4 < 2 ^ 66" "s5 < 2 ^ 66" "s6 < 2 ^ 66"
    using l unfolding s_defs by (simp_all add: p)
  have u: "unat (of_nat n :: 128 word) = n" if "n < 2 ^ 66" for n
    using that less_trans [OF that, of "2 ^ 128"] by (simp add: unsigned_of_nat take_bit_nat_eq_self)
  note S = s_less [THEN u]
  define r0 r1 t where "r0 = s0 mod B ^ 2 + s1 mod B * B"
    and "r1 = s0 div B ^ 2 + s1 div B mod B ^ 2 + s2 mod B ^ 2 + s3 mod B * B"
    and "t = s1 div B ^ 3 + s2 div B ^ 2 + s3 div B + s4 + s5 * B + s6 * B ^ 2"
  have products: "ucast (word_1 a * word_1 b) = (of_nat (a1 * b1) :: 128 word)" "ucast (word_1 a * word_2 b) = (of_nat (a1 * b2) :: 128 word)"
    "ucast (word_1 a * word_3 b) = (of_nat (a1 * b3) :: 128 word)" "ucast (word_1 a * word_4 b) = (of_nat (a1 * b4) :: 128 word)"
    "ucast (word_2 a * word_1 b) = (of_nat (a2 * b1) :: 128 word)" "ucast (word_2 a * word_2 b) = (of_nat (a2 * b2) :: 128 word)"
    "ucast (word_2 a * word_3 b) = (of_nat (a2 * b3) :: 128 word)" "ucast (word_2 a * word_4 b) = (of_nat (a2 * b4) :: 128 word)"
    "ucast (word_3 a * word_1 b) = (of_nat (a3 * b1) :: 128 word)" "ucast (word_3 a * word_2 b) = (of_nat (a3 * b2) :: 128 word)"
    "ucast (word_3 a * word_3 b) = (of_nat (a3 * b3) :: 128 word)" "ucast (word_3 a * word_4 b) = (of_nat (a3 * b4) :: 128 word)"
    "ucast (word_4 a * word_1 b) = (of_nat (a4 * b1) :: 128 word)" "ucast (word_4 a * word_2 b) = (of_nat (a4 * b2) :: 128 word)"
    "ucast (word_4 a * word_3 b) = (of_nat (a4 * b3) :: 128 word)" "ucast (word_4 a * word_4 b) = (of_nat (a4 * b4) :: 128 word)"
    using p [THEN word_as_nat(1)] by -
  have masks: "(0x00000000ffffffff :: 128 word) = mask 32" "(0xffffffffffffffff :: 128 word) = mask 64"
    by (simp_all add: mask_eq_exp_minus_1)
  have high: "shl x 32 AND 0xffffffff00000000 = shl (x AND mask 32) 32" for x :: "128 word"
  proof -
    have "(0xffffffff00000000 :: 128 word) = shl (mask 32) 32" by (simp add: mask_eq_exp_minus_1 push_bit_eq_mult)
    then show ?thesis by simp
  qed
  have sums: "of_nat (a4 * b4) = (of_nat s0 :: 128 word)" "of_nat (a3 * b4) + of_nat (a4 * b3) = (of_nat s1 :: 128 word)"
    "of_nat (a2 * b4) + of_nat (a3 * b3) + of_nat (a4 * b2) = (of_nat s2 :: 128 word)"
    "of_nat (a1 * b4) + of_nat (a2 * b3) + of_nat (a3 * b2) + of_nat (a4 * b1) = (of_nat s3 :: 128 word)"
    "of_nat (a1 * b3) + of_nat (a2 * b2) + of_nat (a3 * b1) = (of_nat s4 :: 128 word)"
    "of_nat (a1 * b2) + of_nat (a2 * b1) = (of_nat s5 :: 128 word)" "of_nat (a1 * b1) = (of_nat s6 :: 128 word)"
    unfolding s_defs by (simp_all only: of_nat_add)
  have shl_nat: "shl (of_nat n :: 128 word) k = of_nat (n * 2 ^ k)" for n k by (simp add: push_bit_eq_mult)
  note low = word_as_nat(2) [OF S(1), of 64, unfolded pow] word_as_nat(2) [OF S(2), of 32, unfolded pow]
    word_as_nat(2) [OF S(3), of 64, unfolded pow] word_as_nat(2) [OF S(4), of 32, unfolded pow]
  have shr_low: "shr (of_nat s1 :: 128 word) 32 AND mask 64 = of_nat (s1 div B mod B ^ 2)"
  proof -
    have "unat (shr (of_nat s1 :: 128 word) 32) = s1 div B" by (simp only: unat_shr S pow)
    then show ?thesis using word_as_nat(2) [of "shr (of_nat s1 :: 128 word) 32" "s1 div B" 64] by (simp only: pow)
  qed
  note high_parts = word_as_nat(3) [OF S(1), of 64, unfolded pow] word_as_nat(3) [OF S(2), of 96, unfolded pow]
    word_as_nat(3) [OF S(3), of 64, unfolded pow] word_as_nat(3) [OF S(4), of 32, unfolded pow]
  have r1: "shr (of_nat s0) 64 + (shr (of_nat s1) 32 AND mask 64) + (of_nat s2 AND mask 64) + shl (of_nat s3 AND mask 32) 32
      = (of_nat r1 :: 128 word)"
    unfolding low shr_low high_parts shl_nat r1_def by (simp only: of_nat_add pow)
  have r0: "(of_nat s0 AND mask 64) + shl (of_nat s1 AND mask 32) 32 = (of_nat r0 :: 128 word)"
    unfolding low shl_nat r0_def by (simp only: of_nat_add pow)
  have "r1 < 2 ^ 68"
  proof -
    have "s0 div B ^ 2 \<le> s0" "s1 div B mod B ^ 2 < B ^ 2" "s2 mod B ^ 2 < B ^ 2" "s3 mod B * B < B * B"
      by (simp_all add: B_def)
    then show ?thesis using s_less(1) unfolding r1_def by (simp add: B_def)
  qed
  then have "unat (of_nat r1 :: 128 word) = r1"
    using less_trans [of r1 "2 ^ 68" "2 ^ 128"] by (simp add: unsigned_of_nat take_bit_nat_eq_self)
  note r1_high = word_as_nat(3) [OF this, of 64, unfolded pow]
  have lo: "lo = of_nat (r0 + r1 * B ^ 2)"
    using w unfolding wideMultiply_quad_def Let_def products masks high sums unfolding r0 r1 unfolding shl_nat pow
    by (simp only: prod.inject of_nat_add)
  have hi: "hi = of_nat (r1 div B ^ 2 + t)"
    using w unfolding wideMultiply_quad_def Let_def products masks high sums unfolding r1 unfolding shl_nat r1_high high_parts pow t_def
    by (simp only: prod.inject of_nat_add add.assoc)
  have dig: "unat x = unat (word_1 x) * B ^ 3 + unat (word_2 x) * B ^ 2 + unat (word_3 x) * B + unat (word_4 x)" for x
    using four_digits [of "unat x" B] unfolding digit_words B_def [symmetric] by simp
  have m: "unat a * unat b = s0 + s1 * B + s2 * B ^ 2 + s3 * B ^ 3 + s4 * B ^ 4 + s5 * B ^ 5 + s6 * B ^ 6"
    unfolding dig [of a] dig [of b] a1_def [symmetric] a2_def [symmetric] a3_def [symmetric] a4_def [symmetric]
      b1_def [symmetric] b2_def [symmetric] b3_def [symmetric] b4_def [symmetric] s_defs
    by (simp add: algebra_simps eval_nat_numeral)
  have s0_less: "s0 < B ^ 2" using l unfolding s0_def pow [symmetric] by simp
  have B2: "2 \<le> B" by (simp add: B_def)
  note cols = column_sums [OF B2 m s0_less, folded r0_def r1_def t_def]
  show "lo = a * b"
  proof -
    have "a * b = of_nat (unat a * unat b)" by simp
    also have "\<dots> = of_nat (r0 + r1 * B ^ 2) + of_nat (B ^ 4) * of_nat t"
      unfolding cols(1) [symmetric] by (simp only: of_nat_add of_nat_mult)
    also have "of_nat (B ^ 4) = (0 :: 128 word)" by (simp add: B_def)
    finally show ?thesis by (simp add: lo)
  qed
  have ab: "unat a * unat b < B ^ 4 * B ^ 4"
    using unat_less_exp_len [of a] unat_less_exp_len [of b] unfolding pow [symmetric] by (intro mult_strict_mono') simp_all
  have carry: "quad_carry (unat a) (unat b) \<longleftrightarrow> unat a * unat b mod B ^ 4 < r0"
  proof -
    have "r0 = a4 * b4 + s1 mod B * B" using s0_less by (simp add: r0_def s0_def)
    then show ?thesis
      unfolding quad_carry_def a4_def b4_def s1_def a3_def b3_def digit_words B_def by simp
  qed
  have "(r0 + r1 * B ^ 2) mod B ^ 4 + B ^ 4 * (r1 div B ^ 2 + t + of_bool (quad_carry (unat a) (unat b))) = unat a * unat b"
    unfolding carry by (rule cols(3))
  moreover from this have "B ^ 4 * (r1 div B ^ 2 + t) \<le> unat a * unat b" by (simp add: distrib_left)
  then have "B ^ 4 * (r1 div B ^ 2 + t) < B ^ 4 * B ^ 4" using ab by linarith
  then have "r1 div B ^ 2 + t < 2 ^ 128" unfolding pow by (simp only: mult_less_cancel1)
  then have "unat hi = r1 div B ^ 2 + t" unfolding hi unsigned_of_nat by (simp add: take_bit_nat_eq_self)
  moreover have "unat lo = (r0 + r1 * B ^ 2) mod B ^ 4"
    unfolding lo unsigned_of_nat take_bit_eq_mod by (simp add: B_def)
  ultimately show "wide hi lo + (if quad_carry (unat a) (unat b) then 2 ^ 128 else 0) = unat a * unat b"
  proof -
    assume total: "(r0 + r1 * B ^ 2) mod B ^ 4 + B ^ 4 * (r1 div B ^ 2 + t + of_bool (quad_carry (unat a) (unat b))) = unat a * unat b"
      and words: "unat hi = r1 div B ^ 2 + t" "unat lo = (r0 + r1 * B ^ 2) mod B ^ 4"
    have "unat lo + 2 ^ 128 * (unat hi + of_bool (quad_carry (unat a) (unat b))) = unat a * unat b"
      unfolding total [symmetric] words by (simp only: pow)
    then show ?thesis by (cases "quad_carry (unat a) (unat b)") (simp_all add: wide_def)
  qed
qed


lemma quad_carry_small: "quad_carry m n \<Longrightarrow> m * n mod 2 ^ 128 < 2 ^ 65"
proof -
  assume c: "quad_carry m n"
  have "(m mod 2 ^ 32) * (n mod 2 ^ 32) \<le> 2 ^ 32 * (2 ^ 32 :: nat)"
    by (intro mult_le_mono less_imp_le mod_less_divisor) simp_all
  moreover have "x mod 2 ^ 32 * 2 ^ 32 \<le> 2 ^ 32 * (2 ^ 32 :: nat)" for x
    by (intro mult_le_mono1 less_imp_le mod_less_divisor) simp
  ultimately have "(m mod 2 ^ 32) * (n mod 2 ^ 32) + x mod 2 ^ 32 * 2 ^ 32 \<le> 2 ^ 65" for x
    using add_mono [of "(m mod 2 ^ 32) * (n mod 2 ^ 32)" "2 ^ 32 * 2 ^ 32" "x mod 2 ^ 32 * 2 ^ 32" "2 ^ 32 * 2 ^ 32"] by simp
  then show ?thesis using c unfolding quad_carry_def by (rule less_le_trans [rotated])
qed

section \<open>Properties\<close>

text \<open>The operands of the product of significands in \<open>multf3\<close>.\<close>

definition quad_operands :: "128 word \<Rightarrow> 128 word \<Rightarrow> nat \<times> nat" where
  "quad_operands a b =
     (unat (fst (mul_normalize quad_precision a) OR implicitBit quad_precision),
      unat (shl (fst (mul_normalize quad_precision b) OR implicitBit quad_precision) 15))"

lemma quad_exact_product:
  assumes "\<not> case_prod quad_carry (quad_operands a b)"
  shows "exact_product quad_precision (fst (mul_normalize quad_precision a) OR implicitBit quad_precision)
    (shl (fst (mul_normalize quad_precision b) OR implicitBit quad_precision) (exponentBits quad_precision))"
proof -
  obtain hi lo where w: "wideMultiply quad_precision (fst (mul_normalize quad_precision a) OR implicitBit quad_precision)
      (shl (fst (mul_normalize quad_precision b) OR implicitBit quad_precision) 15) = (hi, lo)"
    by fastforce
  then have "wideMultiply_quad (fst (mul_normalize quad_precision a) OR implicitBit quad_precision)
      (shl (fst (mul_normalize quad_precision b) OR implicitBit quad_precision) 15) = (hi, lo)"
    by (simp add: quad_precision_def)
  from wideMultiply_quad_value(2) [OF this] w assms
  show ?thesis by (simp add: exact_product_def quad_operands_def)
qed

text \<open>C21. Quadruple precision multiplication returns the correctly rounded IEEE 754 product of all operands
  whose significands do not meet the carry that the 128-bit product drops.\<close>

theorem quad_multiplication_correct:
  assumes "\<not> case_prod quad_carry (quad_operands a b)"
  shows "ieee_product quad_precision a b (multf3 a b)"
  unfolding multf3_def using quad_exact_product [OF assms] by (intro quad.mulXf3_correct) simp

theorem quad_multiplication_correct_witness:
  "ieee_product quad_precision 0x3fff8000000000000000000000000000 0x40000000000000000000000000000000
     (multf3 0x3fff8000000000000000000000000000 0x40000000000000000000000000000000)"
proof (rule quad_multiplication_correct)
  show "\<not> case_prod quad_carry (quad_operands 0x3fff8000000000000000000000000000 0x40000000000000000000000000000000)"
  proof -
    have "fst (mul_normalize quad_precision 0x3fff8000000000000000000000000000) OR implicitBit quad_precision
        = 0x18000000000000000000000000000" by code_simp
    moreover have "shl (fst (mul_normalize quad_precision 0x40000000000000000000000000000000) OR implicitBit quad_precision) 15
        = 0x80000000000000000000000000000000" by code_simp
    ultimately show ?thesis unfolding quad_operands_def prod.case by (simp only: quad_carry_def) simp
  qed
qed

lemma multf3_dropped_carry:
  "multf3 0x3fff00000000000000000000ffffffff 0x3ffffffdfffffffdfffffffdfffffffe = 0x3ffffffdfffffffdfffffffffffdfffa"
  by code_simp


text \<open>A product on which the dropped carry changes the result: it is two units in the last place too small.\<close>

lemma multf3_not_rounded:
  "\<not> ieee_product quad_precision 0x3fff00000000000000000000ffffffff 0x3ffffffdfffffffdfffffffdfffffffe
     (multf3 0x3fff00000000000000000000ffffffff 0x3ffffffdfffffffdfffffffdfffffffe)"
proof
  define A B R :: "128 word" where "A = 0x3fff00000000000000000000ffffffff" and "B = 0x3ffffffdfffffffdfffffffdfffffffe"
    and "R = 0x3ffffffdfffffffdfffffffffffdfffa"
  define u where "u = (2::nat) ^ 16382"
  have u: "0 < u" by (simp add: u_def)
  have e: "(16383::nat) - 1 = 16382" by simp
  have abs: "rep_abs A = 16383 * 2 ^ 112 + 0xffffffff" "rep_abs B = 16383 * 2 ^ 112 + 0xfffdfffffffdfffffffdfffffffe"
    "rep_abs R = 16383 * 2 ^ 112 + 0xfffdfffffffdfffffffffffdfffa" "rep_abs R + 1 = 16383 * 2 ^ 112 + 0xfffdfffffffdfffffffffffdfffb"
    by (simp_all add: A_def B_def R_def rep_abs_def)
  have n: "mag 112 (16383 * 2 ^ 112 + f) = (2 ^ 112 + f) * u" if "f < 2 ^ 112" for f
    using mag_normal [OF that, of 16383] by (simp only: e u_def)
  have mag_A: "mag 112 (rep_abs A) = (2 ^ 112 + 0xffffffff) * u" unfolding abs(1) by (rule n) simp
  have mag_B: "mag 112 (rep_abs B) = (2 ^ 112 + 0xfffdfffffffdfffffffdfffffffe) * u" unfolding abs(2) by (rule n) simp
  have mag_R: "mag 112 (rep_abs R) = (2 ^ 112 + 0xfffdfffffffdfffffffffffdfffa) * u" unfolding abs(3) by (rule n) simp
  have mag_Suc_R: "mag 112 (rep_abs R + 1) = (2 ^ 112 + 0xfffdfffffffdfffffffffffdfffb) * u" unfolding abs(4) by (rule n) simp
  have infty: "infty_rep quad_precision = (2 ^ 15 - 1) * 2 ^ 112" by (simp add: infty_rep_def)
  have den: "(2::nat) ^ (nat (exponentBias quad_precision) + significandBits quad_precision - 1) = u * 2 ^ 112"
    by (simp add: u_def flip: power_add)
  assume "ieee_product quad_precision 0x3fff00000000000000000000ffffffff 0x3ffffffdfffffffdfffffffdfffffffe
     (multf3 0x3fff00000000000000000000ffffffff 0x3ffffffdfffffffdfffffffdfffffffe)"
  then have "ieee_product quad_precision A B R" unfolding multf3_dropped_carry A_def B_def R_def .
  moreover have "\<not> is_nan quad_precision A" "\<not> is_nan quad_precision B" "\<not> is_inf quad_precision A" "\<not> is_inf quad_precision B"
    by (simp_all add: is_nan_def is_inf_def infty abs)
  ultimately have "rounds_to quad_precision (magnitude quad_precision A * magnitude quad_precision B) (u * 2 ^ 112) (rep_sign A \<noteq> rep_sign B) R"
    unfolding ieee_product_def den by simp
  moreover have "rep_abs R < infty_rep quad_precision" by (simp add: infty abs)
  ultimately have "2 * (mag 112 (rep_abs A) * mag 112 (rep_abs B)) \<le> (mag 112 (rep_abs R) + mag 112 (rep_abs R + 1)) * (u * 2 ^ 112)"
    by (auto simp: rounds_to_def nearest_even_def magnitude_def)
  then show False unfolding mag_A mag_B mag_R mag_Suc_R using u by simp
qed

end
