(* ===== verification/Reciprocal.thy ===== *)
theory Reciprocal
  imports Prelude
begin

text \<open>
  The reciprocal estimate of the division routines \<open>divsf3.c\<close>, \<open>divdf3.c\<close> and \<open>divtf3.c\<close>: a linear
  approximation refined by Newton-Raphson steps in fixed point.  \<open>recip_step32\<close> and \<open>recip_step64\<close> are
  the step of the code; \<open>newton\<close> is the same step on natural numbers.  For a divisor \<open>q\<close> of \<open>n\<close> bits and
  an estimate \<open>r\<close>, the error is the integer \<open>2 ^ (2 * n - 1) - r * q\<close>.  A step squares it, up to a
  truncation of less than \<open>2 ^ n\<close> either way.
\<close>

section \<open>The step\<close>

text \<open>\<open>correction = -((uint64_t)reciprocal * q31b >> 32); reciprocal = (uint64_t)reciprocal * correction >> 31\<close>.\<close>

definition recip_step32 :: "32 word \<Rightarrow> 32 word \<Rightarrow> 32 word" where
  "recip_step32 q31b reciprocal =
     (let correction = ucast (- shr (ucast reciprocal * ucast q31b :: 64 word) 32) :: 32 word
      in ucast (shr (ucast reciprocal * ucast correction :: 64 word) 31))"

definition recip_step64 :: "64 word \<Rightarrow> 64 word \<Rightarrow> 64 word" where
  "recip_step64 q63b recip64 =
     (let correction64 = ucast (- shr (ucast recip64 * ucast q63b :: 128 word) 64) :: 64 word
      in ucast (shr (ucast recip64 * ucast correction64 :: 128 word) 63))"

definition newton :: "nat \<Rightarrow> nat \<Rightarrow> nat \<Rightarrow> nat" where
  "newton n q r = (let c = (2 ^ n - r * q div 2 ^ n) mod 2 ^ n in (r * c div 2 ^ (n - 1)) mod 2 ^ n)"

lemma unat_uminus: "unat (- w) = (2 ^ LENGTH('a) - unat w) mod 2 ^ LENGTH('a)" for w :: "'a::len word"
proof -
  have "- w = of_nat (2 ^ LENGTH('a) - unat w)"
    by (simp add: of_nat_diff less_imp_le)
  then have "unat (- w) = unat (of_nat (2 ^ LENGTH('a) - unat w) :: 'a word)" by (rule arg_cong)
  then show ?thesis by (simp only: unsigned_of_nat take_bit_eq_mod of_nat_id)
qed

text \<open>A product in double width, and the low half of a negated number.\<close>

lemma unat_wide_times:
  fixes a b :: "'a::len word"
  assumes "LENGTH('b::len) = 2 * LENGTH('a)"
  shows "unat (ucast a * ucast b :: 'b word) = unat a * unat b"
proof -
  have "unat (ucast x :: 'b word) = unat x" for x :: "'a word"
  proof -
    have "(2::nat) ^ LENGTH('a) \<le> 2 ^ LENGTH('b)" using assms by (intro power_increasing) auto
    then have "unat x < 2 ^ LENGTH('b)" using unat_less_exp_len [of x] by linarith
    then show ?thesis by (simp add: unsigned_ucast_eq take_bit_nat_eq_self)
  qed
  moreover have "unat a * unat b < 2 ^ LENGTH('a) * 2 ^ LENGTH('a)"
    using unat_less_exp_len [of a] unat_less_exp_len [of b] by (intro mult_strict_mono') auto
  ultimately show ?thesis using assms by (subst unat_times_small) (simp_all add: mult_2 power_add)
qed

lemma unat_low_uminus:
  assumes "LENGTH('a::len) \<le> LENGTH('b::len)"
  shows "unat (ucast (- w :: 'b word) :: 'a word) = (2 ^ LENGTH('a) - unat w mod 2 ^ LENGTH('a)) mod 2 ^ LENGTH('a)"
proof -
  have "ucast (- w) = (- ucast w :: 'a word)"
  proof transfer
    fix w :: int
    have "take_bit LENGTH('a) (- take_bit LENGTH('b) w) = take_bit LENGTH('a) (- take_bit LENGTH('a) (take_bit LENGTH('b) w))"
      by (simp only: take_bit_minus)
    also have "\<dots> = take_bit LENGTH('a) (- w)" using assms by (simp add: take_bit_minus min_def)
    finally show "take_bit LENGTH('a) (take_bit LENGTH('b) (- w)) = take_bit LENGTH('a) (- take_bit LENGTH('b) w)"
      using assms by (simp add: min_def)
  qed
  then show ?thesis by (simp add: unat_uminus unsigned_ucast_eq take_bit_eq_mod)
qed


lemma unat_recip_step32: "unat (recip_step32 q r) = newton 32 (unat q) (unat r)"
proof -
  define c where "c = (ucast (- shr (ucast r * ucast q :: 64 word) 32) :: 32 word)"
  have small: "unat r * unat q div 2 ^ 32 < 2 ^ 32"
    using mult_strict_mono' [OF unat_less_exp_len [of r] unat_less_exp_len [of q]] by (simp add: less_mult_imp_div_less)
  have "unat c = (2 ^ 32 - unat r * unat q div 2 ^ 32) mod 2 ^ 32"
    unfolding c_def using small by (simp add: unat_low_uminus unat_shr unat_wide_times)
  moreover have "unat (shr (ucast r * ucast c :: 64 word) 31) = unat r * unat c div 2 ^ 31"
    by (simp add: unat_shr unat_wide_times)
  ultimately show ?thesis
    by (simp add: recip_step32_def Let_def newton_def unsigned_ucast_eq take_bit_eq_mod flip: c_def)
qed

lemma unat_recip_step64: "unat (recip_step64 q r) = newton 64 (unat q) (unat r)"
proof -
  define c where "c = (ucast (- shr (ucast r * ucast q :: 128 word) 64) :: 64 word)"
  have small: "unat r * unat q div 2 ^ 64 < 2 ^ 64"
    using mult_strict_mono' [OF unat_less_exp_len [of r] unat_less_exp_len [of q]] by (simp add: less_mult_imp_div_less)
  have "unat c = (2 ^ 64 - unat r * unat q div 2 ^ 64) mod 2 ^ 64"
    unfolding c_def using small by (simp add: unat_low_uminus unat_shr unat_wide_times)
  moreover have "unat (shr (ucast r * ucast c :: 128 word) 63) = unat r * unat c div 2 ^ 63"
    by (simp add: unat_shr unat_wide_times)
  ultimately show ?thesis
    by (simp add: recip_step64_def Let_def newton_def unsigned_ucast_eq take_bit_eq_mod flip: c_def)
qed

section \<open>The error of a step\<close>

text \<open>The identity behind a step: with truncation errors \<open>s\<close> and \<open>t\<close>, the new error times \<open>2 ^ (2 * n - 1)\<close>.\<close>

lemma newton_identity:
  fixes H q r k s t c r' :: int
  assumes rq: "r * q = k * (2 * H) + s" and c: "c = 2 * H - k" and rc: "r * c = r' * H + t"
  defines "M \<equiv> 2 * H * H"
  shows "M * (M - r' * q) = (M - r * q)\<^sup>2 - r * q * s + t * (2 * H) * q"
proof -
  have "c * (2 * H) = M + (M - r * q) + s" using rq by (simp add: c M_def algebra_simps)
  then have "r * (M + (M - r * q) + s) = r * c * (2 * H)" by (simp add: mult.assoc)
  also have "\<dots> = r' * M + t * (2 * H)" unfolding rc M_def by (simp add: algebra_simps)
  finally have "r' * M = r * (M + (M - r * q) + s) - t * (2 * H)" by simp
  then have "r' * M * q = (r * (M + (M - r * q) + s) - t * (2 * H)) * q" by simp
  then show ?thesis by (simp add: algebra_simps power2_eq_square)
qed

lemma newton_bounds:
  fixes H q r k s t c r' D e f :: int
  defines "M \<equiv> 2 * H * H" and "N \<equiv> 2 * H"
  assumes rq: "r * q = k * N + s" and c: "c = N - k" and rc: "r * c = r' * H + t"
    and s: "0 \<le> s" "s < N" and t: "0 \<le> t" "t < H" and pos: "0 \<le> r * q" "0 < q" "0 < H"
    and D: "\<bar>M - r * q\<bar> \<le> e * N" and f: "e * e \<le> f * H"
  shows "- N < M - r' * q" and "M - r' * q \<le> f * N + q"
proof -
  define D where "D = M - r * q"
  have id: "M * (M - r' * q) = D * D - r * q * s + t * N * q"
    using newton_identity [OF rq [unfolded N_def] c [unfolded N_def] rc] by (simp add: M_def N_def D_def power2_eq_square)
  have MN: "M = H * N" "0 < M" "0 < N" using pos by (simp_all add: M_def N_def)
  have "t * N * q \<le> H * N * q" using t MN pos by (intro mult_right_mono) simp_all
  moreover have "0 \<le> r * q * s" using pos s by simp
  moreover have "D * D \<le> (e * N) * (e * N)"
    using D mult_mono [of "\<bar>D\<bar>" "e * N" "\<bar>D\<bar>" "e * N"] by (simp add: D_def abs_mult_self_eq)
  moreover have "(e * N) * (e * N) = (e * e) * (N * N)" by simp
  moreover have "(e * e) * (N * N) \<le> (f * H) * (N * N)" using f by (rule mult_right_mono) simp
  moreover have "(f * H) * (N * N) = M * (f * N)" by (simp add: MN(1))
  moreover have "H * N * q = M * q" by (simp add: MN(1))
  ultimately have "M * (M - r' * q) \<le> M * (f * N + q)" unfolding id distrib_left by linarith
  then show "M - r' * q \<le> f * N + q" using MN(2) by simp
  have "r * q * s \<le> r * q * (N - 1)" using pos s by (intro mult_left_mono) simp_all
  moreover have "0 \<le> t * N * q" using t MN pos by simp
  ultimately have "D * D - r * q * (N - 1) \<le> M * (M - r' * q)" unfolding id by linarith
  moreover have "- (M * N) < D * D - r * q * (N - 1)"
  proof -
    define X Y Z where "X = D * D" and "Y = D * (N - 1)" and "Z = (N - 1) * (N - 1)"
    have "0 \<le> (2 * D + (N - 1)) * (2 * D + (N - 1))" by simp
    also have "\<dots> = 4 * X + 4 * Y + Z" by (simp add: X_def Y_def Z_def algebra_simps)
    finally have "- Z \<le> 4 * X + 4 * Y" by linarith
    moreover have "Z < 2 * M + 1" using MN(3) by (simp add: Z_def M_def N_def algebra_simps)
    moreover have "r * q * (N - 1) = M * N - M - Y" by (simp add: D_def Y_def algebra_simps)
    ultimately show ?thesis using MN(2) unfolding X_def [symmetric] by linarith
  qed
  ultimately have "M * (- N) < M * (M - r' * q)" by simp
  then show "- N < M - r' * q" using MN(2) by (simp only: mult_less_cancel_left_pos)
qed


definition recip_error :: "nat \<Rightarrow> nat \<Rightarrow> nat \<Rightarrow> int" where
  "recip_error n q r = 2 ^ (2 * n - 1) - int r * int q"

lemma newton_step:
  assumes n: "2 \<le> n" and q: "2 ^ (n - 1) < q" "q < 2 ^ n" and r: "r < 2 ^ n"
    and D: "\<bar>recip_error n q r\<bar> \<le> e * 2 ^ n" and e: "2 * e \<le> 2 ^ (n - 1)" "e * e \<le> f * 2 ^ (n - 1)"
  shows "newton n q r < 2 ^ n" and "- (2 ^ n) < recip_error n q (newton n q r)"
    and "recip_error n q (newton n q r) \<le> f * 2 ^ n + int q"
proof -
  define H N :: int where "H = 2 ^ (n - 1)" and "N = 2 * H"
  have pow: "(2::int) ^ n = N" "(2::int) ^ (2 * n - 1) = H * N" "2 \<le> H" "0 < N"
  proof -
    obtain m where "n = 2 + m" using n le_Suc_ex by blast
    then have m: "n = Suc (Suc m)" by simp
    show pow_n: "(2::int) ^ n = N" by (simp add: N_def H_def m)
    have "2 * n - 1 = (n - 1) + n" by (simp add: m)
    then show "(2::int) ^ (2 * n - 1) = H * N" by (simp only: power_add pow_n H_def)
    show "2 \<le> H" by (simp add: H_def m)
    then show "0 < N" by (simp add: N_def)
  qed
  have err: "recip_error n q x = H * N - int x * int q" for x by (simp only: recip_error_def pow(2))
  define k s where "k = int (r * q div 2 ^ n)" and "s = int (r * q mod 2 ^ n)"
  have iN: "int (2 ^ n) = N" using pow(1) by simp
  have "0 \<le> k" by (simp add: k_def)
  moreover have "int r * int q = k * N + s" "0 \<le> s" "s < N"
    using pow(4) by (simp_all add: k_def s_def zdiv_int zmod_int iN pow(1))
  ultimately have ks: "int r * int q = k * N + s" "0 \<le> s" "s < N" "0 \<le> k" by simp_all
  have "int r < N" "int q < N" using r q(2) by (simp_all flip: iN)
  then have "int r * int q < N * N" by (intro mult_strict_mono) simp_all
  then have "k * N < N * N" using ks by linarith
  then have kN: "k < N" using pow(4) by simp
  have "2 * (e * N) \<le> H * N"
    using mult_right_mono [OF e(1), of N] pow(4) by (simp add: H_def)
  then have "H * N \<le> 2 * (int r * int q)" using D unfolding err pow(1) by linarith
  moreover have "2 * N \<le> H * N" using pow(3,4) by simp
  ultimately have "N \<le> k * N + s" using ks(1) by linarith
  then have k1: "0 < k" using ks(3,4) by (cases "k = 0") auto
  define c where "c = N - k"
  define d where "d = (2 ^ n - r * q div 2 ^ n) mod 2 ^ n"
  have ic: "int d = c"
  proof -
    have "r * q div 2 ^ n \<le> 2 ^ n" using kN unfolding k_def iN [symmetric] by simp
    then have "int (2 ^ n - r * q div 2 ^ n) = c" by (simp add: of_nat_diff k_def c_def iN pow(1))
    moreover have "c mod N = c" using k1 kN by (intro mod_pos_pos_trivial) (simp_all add: c_def)
    ultimately show ?thesis by (simp only: d_def zmod_int iN)
  qed
  define r' t where "r' = int r * c div H" and "t = int r * c mod H"
  have rc: "int r * c = r' * H + t" "0 \<le> t" "t < H" using pow(3) by (simp_all add: r'_def t_def)
  have pos: "0 \<le> int r * int q" "0 < int q" "0 < H" using q(1) pow(3) by simp_all
  have bounds: "- N < H * N - r' * int q" "H * N - r' * int q \<le> f * N + int q"
    using newton_bounds [of "int r" "int q" k H s c r' t e f] ks c_def rc pos D e(2)
    unfolding err pow(1) by (simp_all add: N_def H_def ac_simps)
  have "0 \<le> r'" using kN rc pow(3) by (simp add: r'_def c_def pos_imp_zdiv_nonneg_iff)
  moreover have "int (2 ^ (n - 1)) < int q" using q(1) by (simp only: of_nat_less_iff)
  then have "H + 1 \<le> int q" unfolding of_nat_power of_nat_numeral H_def by linarith
  moreover have "r' < N"
  proof (rule ccontr)
    assume "\<not> r' < N"
    then have "N * int q \<le> r' * int q" by (intro mult_right_mono) simp_all
    moreover have "N * (H + 1) \<le> N * int q" using \<open>H + 1 \<le> int q\<close> pow(4) by (intro mult_left_mono) simp_all
    moreover have "N * (H + 1) = H * N + N" by (simp add: algebra_simps)
    ultimately show False using bounds(1) by linarith
  qed
  moreover have "int (newton n q r) = r' mod N"
    unfolding newton_def Let_def d_def [symmetric]
    by (simp only: zmod_int zdiv_int of_nat_mult ic r'_def of_nat_power of_nat_numeral H_def pow(1))
  ultimately have new: "int (newton n q r) = r'" by simp
  then have "int (newton n q r) < int (2 ^ n)" using \<open>r' < N\<close> by (simp only: iN)
  then show "newton n q r < 2 ^ n" by (simp only: of_nat_less_iff)
  show "- (2 ^ n) < recip_error n q (newton n q r)" "recip_error n q (newton n q r) \<le> f * 2 ^ n + int q"
    using bounds by (simp_all only: err new pow(1))
qed


text \<open>The step in the form that iterates: an error within \<open>e\<close> units of \<open>2 ^ n\<close> becomes one within \<open>f + 1\<close>.\<close>

lemma newton_iterate:
  assumes "2 \<le> n" "2 ^ (n - 1) < q" "q < 2 ^ n" "r < 2 ^ n \<and> \<bar>recip_error n q r\<bar> \<le> e * 2 ^ n"
    and "2 * e \<le> 2 ^ (n - 1)" "e * e \<le> f * 2 ^ (n - 1)" "g = f + 1" "0 \<le> f"
  shows "newton n q r < 2 ^ n \<and> \<bar>recip_error n q (newton n q r)\<bar> \<le> g * 2 ^ n"
proof -
  note step = newton_step [OF assms(1-3) _ _ assms(5,6)]
  have "int q < 2 ^ n" using assms(3) by (simp flip: of_nat_less_iff)
  moreover have "1 * 2 ^ n \<le> g * 2 ^ n" using assms(7,8) by (intro mult_right_mono) simp_all
  moreover have "g * 2 ^ n = f * 2 ^ n + 2 ^ n" by (simp add: assms(7) distrib_right)
  ultimately show ?thesis using step [of r] assms(4) unfolding abs_le_iff by linarith
qed

text \<open>The linear approximation \<open>3/4 + 1/sqrt 2 - b/2\<close>, with \<open>C\<close> the constant of the code.\<close>

lemma linear_start:
  fixes H C q :: int
  assumes q: "H \<le> q" "q \<le> 2 * H" and C: "0 \<le> C" "(C + 2 * H) * (C + 2 * H) \<le> 4 * (H * (2 * H)) + 4 * ((H - C) * (2 * H))"
  shows "\<bar>H * (2 * H) - (C + 2 * H - q) * q\<bar> \<le> (H - C) * (2 * H)"
proof -
  define X Y Z W where "X = q * q" and "Y = C * q" and "Z = H * q" and "W = H * H"
  have "0 \<le> (q - H) * (2 * H - q)" using q by simp
  then have upper: "0 \<le> 3 * Z - 2 * W - X" by (simp add: X_def Z_def W_def algebra_simps)
  have "0 \<le> (2 * q - (C + 2 * H)) * (2 * q - (C + 2 * H))" by simp
  also have "\<dots> = 4 * X - 4 * Y - 8 * Z + (C + 2 * H) * (C + 2 * H)"
    by (simp add: X_def Y_def Z_def algebra_simps)
  finally have lower: "0 \<le> 4 * X - 4 * Y - 8 * Z + (C + 2 * H) * (C + 2 * H)" .
  have D: "H * (2 * H) - (C + 2 * H - q) * q = 2 * W + X - Y - 2 * Z"
    by (simp add: X_def Y_def Z_def W_def algebra_simps)
  show ?thesis
  proof (cases "C \<le> H")
    case True
    then have "(H - C) * q \<le> (H - C) * (2 * H)" using q by (intro mult_left_mono) simp_all
    moreover have "(H - C) * q = Z - Y" by (simp add: Y_def Z_def algebra_simps)
    moreover have "4 * (H * (2 * H)) = 8 * W" by (simp add: W_def)
    ultimately show ?thesis using upper lower C(2) unfolding D abs_le_iff by linarith
  next
    case False
    then have "(H - C) * (2 * H) \<le> 0" using q by (intro mult_nonpos_nonneg) simp_all
    moreover have "(C + 2 * H) * (C + 2 * H) > 3 * H * (3 * H)"
      using False q by (intro mult_strict_mono) simp_all
    moreover have "3 * H * (3 * H) = 9 * W" "4 * (H * (2 * H)) = 8 * W" "0 \<le> W" by (simp_all add: W_def)
    ultimately show ?thesis using C(2) by linarith
  qed
qed

section \<open>The estimates\<close>

text \<open>The first approximation and the steps of single and double precision, and those of quadruple.\<close>

definition estimate32 :: "32 word \<Rightarrow> 32 word" where
  "estimate32 q31b =
     (let reciprocal = 0x7504f333 - q31b;
          reciprocal = recip_step32 q31b reciprocal;
          reciprocal = recip_step32 q31b reciprocal;
          reciprocal = recip_step32 q31b reciprocal
      in reciprocal)"

definition estimate64 :: "64 word \<Rightarrow> 64 word" where
  "estimate64 q63b =
     (let recip64 = 0x7504f333F9DE6484 - q63b;
          recip64 = recip_step64 q63b recip64;
          recip64 = recip_step64 q63b recip64;
          recip64 = recip_step64 q63b recip64;
          recip64 = recip_step64 q63b recip64;
          recip64 = recip_step64 q63b recip64
      in recip64)"

lemma start32:
  fixes q :: "32 word"
  assumes "2 ^ 31 \<le> unat q"
  shows "unat (0x7504f333 - q) < 2 ^ 32 \<and> \<bar>recip_error 32 (unat q) (unat (0x7504f333 - q))\<bar> \<le> 184224973 * 2 ^ 32"
proof -
  have q: "unat q < 2 ^ 32" using unat_less_exp_len [of q] by simp
  have "unat (0x7504f333 - q) = 0x7504f333 + 2 ^ 32 - unat q"
    using assms q by (simp add: unat_sub_if_size word_size)
  then have r: "int (unat (0x7504f333 - q)) = 0x7504f333 + 2 * 2 ^ 31 - int (unat q)" using q by (simp add: of_nat_diff)
  have "int (2 ^ 31) \<le> int (unat q)" "int (unat q) \<le> int (2 ^ 32)"
    using assms q unfolding of_nat_le_iff by simp_all
  then have "\<bar>2 ^ 31 * (2 * 2 ^ 31) - (0x7504f333 + 2 * 2 ^ 31 - int (unat q)) * int (unat q)\<bar> \<le> (2 ^ 31 - 0x7504f333) * (2 * 2 ^ 31)"
    by (intro linear_start) simp_all
  then show ?thesis
    using unat_less_exp_len [of "0x7504f333 - q"] unfolding recip_error_def r by simp
qed

lemma estimate32_generic:
  assumes "2 ^ 31 < unat q"
  shows "- (2 ^ 32) < recip_error 32 (unat q) (unat (estimate32 q))"
    and "recip_error 32 (unat q) (unat (estimate32 q)) \<le> 7 * 2 ^ 32 + int (unat q)"
proof -
  have q: "2 ^ (32 - 1) < unat q" "unat q < 2 ^ 32" using assms unat_less_exp_len [of q] by simp_all
  note it = newton_iterate [OF _ q] 
  have "newton 32 (unat q) (unat (0x7504f333 - q)) < 2 ^ 32 \<and>
      \<bar>recip_error 32 (unat q) (newton 32 (unat q) (unat (0x7504f333 - q)))\<bar> \<le> 15804006 * 2 ^ 32"
    using assms by (intro it [where e = 184224973 and f = 15804005, OF _ start32]) simp_all
  then have two: "newton 32 (unat q) (newton 32 (unat q) (unat (0x7504f333 - q))) < 2 ^ 32 \<and>
      \<bar>recip_error 32 (unat q) (newton 32 (unat q) (newton 32 (unat q) (unat (0x7504f333 - q))))\<bar> \<le> 116308 * 2 ^ 32"
    by (rule it [where e = 15804006 and f = 116307, rotated]) simp_all
  have "unat (estimate32 q) = newton 32 (unat q) (newton 32 (unat q) (newton 32 (unat q) (unat (0x7504f333 - q))))"
    by (simp only: estimate32_def Let_def unat_recip_step32)
  then show "- (2 ^ 32) < recip_error 32 (unat q) (unat (estimate32 q))"
    and "recip_error 32 (unat q) (unat (estimate32 q)) \<le> 7 * 2 ^ 32 + int (unat q)"
    using newton_step [OF _ q, of "newton 32 (unat q) (newton 32 (unat q) (unat (0x7504f333 - q)))" 116308 7] two
    by simp_all
qed

lemma estimate32_one: "estimate32 0x80000000 = 0"
  by code_simp


lemma start64:
  fixes q :: "64 word"
  assumes "2 ^ 63 \<le> unat q"
  shows "unat (0x7504f333F9DE6484 - q) < 2 ^ 64 \<and>
    \<bar>recip_error 64 (unat q) (unat (0x7504f333F9DE6484 - q))\<bar> \<le> (2 ^ 63 - 0x7504f333F9DE6484) * 2 ^ 64"
proof -
  have q: "unat q < 2 ^ 64" using unat_less_exp_len [of q] by simp
  have "unat (0x7504f333F9DE6484 - q) = 0x7504f333F9DE6484 + 2 ^ 64 - unat q"
    using assms q by (simp add: unat_sub_if_size word_size)
  then have r: "int (unat (0x7504f333F9DE6484 - q)) = 0x7504f333F9DE6484 + 2 * 2 ^ 63 - int (unat q)" using q by (simp add: of_nat_diff)
  have "int (2 ^ 63) \<le> int (unat q)" "int (unat q) \<le> int (2 ^ 64)"
    using assms q unfolding of_nat_le_iff by simp_all
  then have "\<bar>2 ^ 63 * (2 * 2 ^ 63) - (0x7504f333F9DE6484 + 2 * 2 ^ 63 - int (unat q)) * int (unat q)\<bar>
      \<le> (2 ^ 63 - 0x7504f333F9DE6484) * (2 * 2 ^ 63)"
    by (intro linear_start) simp_all
  then show ?thesis
    using unat_less_exp_len [of "0x7504f333F9DE6484 - q"] unfolding recip_error_def r by simp
qed

lemma estimate64_generic:
  assumes "2 ^ 63 < unat q"
  shows "- (2 ^ 64) < recip_error 64 (unat q) (unat (estimate64 q))"
    and "recip_error 64 (unat q) (unat (estimate64 q)) \<le> 2 ^ 64 + int (unat q)"
proof -
  have q: "2 ^ (64 - 1) < unat q" "unat q < 2 ^ 64" using assms unat_less_exp_len [of q] by simp_all
  note it = newton_iterate [OF _ q]
  define r0 r1 r2 r3 r4 where "r0 = unat (0x7504f333F9DE6484 - q)" and "r1 = newton 64 (unat q) r0"
    and "r2 = newton 64 (unat q) r1" and "r3 = newton 64 (unat q) r2" and "r4 = newton 64 (unat q) r3"
  have "r0 < 2 ^ 64 \<and> \<bar>recip_error 64 (unat q) r0\<bar> \<le> (2 ^ 63 - 0x7504f333F9DE6484) * 2 ^ 64"
    unfolding r0_def using assms by (intro start64) simp
  then have "r1 < 2 ^ 64 \<and> \<bar>recip_error 64 (unat q) r1\<bar> \<le> 67877680634450549 * 2 ^ 64"
    unfolding r1_def by (rule it [where f = 67877680634450548, rotated]) simp_all
  then have "r2 < 2 ^ 64 \<and> \<bar>recip_error 64 (unat q) r2\<bar> \<le> 499533089406163 * 2 ^ 64"
    unfolding r2_def by (rule it [where f = 499533089406162, rotated]) simp_all
  then have "r3 < 2 ^ 64 \<and> \<bar>recip_error 64 (unat q) r3\<bar> \<le> 27054455402 * 2 ^ 64"
    unfolding r3_def by (rule it [where f = 27054455401, rotated]) simp_all
  then have r4: "r4 < 2 ^ 64 \<and> \<bar>recip_error 64 (unat q) r4\<bar> \<le> 81 * 2 ^ 64"
    unfolding r4_def by (rule it [where f = 80, rotated]) simp_all
  have "unat (estimate64 q) = newton 64 (unat q) r4"
    by (simp only: estimate64_def Let_def unat_recip_step64 r0_def r1_def r2_def r3_def r4_def)
  then show "- (2 ^ 64) < recip_error 64 (unat q) (unat (estimate64 q))"
    and "recip_error 64 (unat q) (unat (estimate64 q)) \<le> 2 ^ 64 + int (unat q)"
    using newton_step [OF _ q, of r4 81 1] r4 by simp_all
qed

text \<open>For a divisor that is a power of two, the last step overflows to zero.\<close>

lemma estimate64_one: "estimate64 0x8000000000000000 = 0"
  by code_simp

text \<open>The adjustment downwards absorbs both the overflow and the error of the last step.\<close>

lemma adjusted_error:
  fixes q r :: "'a::len word"
  assumes r: "r = 0 \<and> unat q = 2 ^ (LENGTH('a) - 1) \<or>
      - (2 ^ LENGTH('a)) < recip_error LENGTH('a) (unat q) (unat r) \<and>
      recip_error LENGTH('a) (unat q) (unat r) \<le> g * 2 ^ LENGTH('a) + int (unat q)"
    and j: "1 \<le> j" "j \<le> 2" and g: "0 \<le> g" "g \<le> 2 ^ 20" and len: "32 \<le> LENGTH('a)"
  shows "- (2 ^ LENGTH('a)) + int j * int (unat q) < recip_error LENGTH('a) (unat q) (unat (r - of_nat j))"
    and "recip_error LENGTH('a) (unat q) (unat (r - of_nat j)) \<le> g * 2 ^ LENGTH('a) + (int j + 1) * int (unat q)"
proof -
  define H N :: int where "H = 2 ^ (LENGTH('a) - 1)" and "N = 2 * H"
  have N: "(2::int) ^ LENGTH('a) = N" unfolding N_def H_def by (metis len_gt_0 mult.commute power_minus_mult)
  have "2 * LENGTH('a) - 1 = (LENGTH('a) - 1) + LENGTH('a)" using len by simp
  then have M: "(2::int) ^ (2 * LENGTH('a) - 1) = H * N" by (simp only: power_add N H_def)
  have err: "recip_error LENGTH('a) (unat q) x = H * N - int x * int (unat q)" for x by (simp only: recip_error_def M)
  have "int (unat q) < int (2 ^ LENGTH('a))" unfolding of_nat_less_iff by (rule unat_less_exp_len)
  then have qN: "int (unat q) < N" by (simp only: of_nat_power of_nat_numeral N)
  have H: "2 ^ 31 \<le> H" unfolding H_def using len by (intro power_increasing) simp_all
  then have gH: "g + 2 < H" using g(2) by simp
  have uj: "unat (of_nat j :: 'a word) = j"
  proof -
    have "(2::nat) ^ 2 \<le> 2 ^ LENGTH('a)" using len by (intro power_increasing) simp_all
    then have "j < 2 ^ LENGTH('a)" using j by simp
    then show ?thesis by (simp add: unsigned_of_nat take_bit_nat_eq_self)
  qed
  have jq: "(int j + 1) * int (unat q) = int j * int (unat q) + int (unat q)" by (simp add: distrib_right)
  consider (zero) "r = 0" "unat q = 2 ^ (LENGTH('a) - 1)"
    | (other) "- N < recip_error LENGTH('a) (unat q) (unat r)" "recip_error LENGTH('a) (unat q) (unat r) \<le> g * N + int (unat q)"
    using r unfolding N by blast
  then have "\<exists>x. recip_error LENGTH('a) (unat q) (unat (r - of_nat j)) = x + int j * int (unat q) \<and> - N < x \<and> x \<le> g * N + int (unat q)"
  proof cases
    case zero
    have q: "int (unat q) = H" by (simp only: zero(2) H_def of_nat_power of_nat_numeral)
    have "int (unat (r - of_nat j)) = N - int j"
    proof -
      have "unat (r - of_nat j) = 2 ^ LENGTH('a) - j"
        using j uj by (simp add: zero(1) unat_uminus)
      moreover have "unat (of_nat j :: 'a word) < 2 ^ LENGTH('a)" by (rule unat_less_exp_len)
      then have "j < 2 ^ LENGTH('a)" by (simp only: uj)
      ultimately show ?thesis by (simp add: of_nat_diff N)
    qed
    then have "recip_error LENGTH('a) (unat q) (unat (r - of_nat j)) = 0 + int j * int (unat q)"
      unfolding err q by (simp add: left_diff_distrib right_diff_distrib mult.commute)
    then show ?thesis using H g by (intro exI [of _ 0]) (simp add: N_def)
  next
    case other
    have "2 \<le> unat r"
    proof (rule ccontr)
      assume "\<not> 2 \<le> unat r"
      then have "int (unat r) \<le> 1" by linarith
      then have "int (unat r) * int (unat q) \<le> 1 * int (unat q)" by (rule mult_right_mono) simp
      then have "H * N \<le> g * N + 2 * N" using other(2) qN unfolding err by linarith
      then have "H * N \<le> (g + 2) * N" by (simp add: distrib_right)
      then show False using gH H by (simp add: N_def)
    qed
    then have "unat (r - of_nat j) = unat r - j" "j \<le> unat r" using j uj by (simp_all add: unat_minus_le word_le_nat_alt)
    then have "recip_error LENGTH('a) (unat q) (unat (r - of_nat j))
        = recip_error LENGTH('a) (unat q) (unat r) + int j * int (unat q)"
      unfolding err by (simp add: of_nat_diff left_diff_distrib)
    then show ?thesis using other by blast
  qed
  then show "- (2 ^ LENGTH('a)) + int j * int (unat q) < recip_error LENGTH('a) (unat q) (unat (r - of_nat j))"
    and "recip_error LENGTH('a) (unat q) (unat (r - of_nat j)) \<le> g * 2 ^ LENGTH('a) + (int j + 1) * int (unat q)"
    unfolding N jq by auto
qed

lemma estimate32_adjusted:
  assumes "2 ^ 31 \<le> unat q" "1 \<le> j" "j \<le> 2"
  shows "- (2 ^ 32) + int j * int (unat q) < recip_error 32 (unat q) (unat (estimate32 q - of_nat j))"
    and "recip_error 32 (unat q) (unat (estimate32 q - of_nat j)) \<le> 7 * 2 ^ 32 + (int j + 1) * int (unat q)"
proof -
  have "estimate32 q = 0 \<and> unat q = 2 ^ (LENGTH(32) - 1)" if "unat q = 2 ^ 31"
  proof -
    have "q = 0x80000000" using that by (simp add: word_unat_eq_iff)
    then show ?thesis using that by (simp add: estimate32_one)
  qed
  then show "- (2 ^ 32) + int j * int (unat q) < recip_error 32 (unat q) (unat (estimate32 q - of_nat j))"
    and "recip_error 32 (unat q) (unat (estimate32 q - of_nat j)) \<le> 7 * 2 ^ 32 + (int j + 1) * int (unat q)"
    using estimate32_generic [of q] assms adjusted_error [of "estimate32 q" q 7 j] by (cases "unat q = 2 ^ 31"; simp)+
qed

lemma estimate64_adjusted:
  assumes "2 ^ 63 \<le> unat q" "1 \<le> j" "j \<le> 2"
  shows "- (2 ^ 64) + int j * int (unat q) < recip_error 64 (unat q) (unat (estimate64 q - of_nat j))"
    and "recip_error 64 (unat q) (unat (estimate64 q - of_nat j)) \<le> 2 ^ 64 + (int j + 1) * int (unat q)"
proof -
  have "estimate64 q = 0 \<and> unat q = 2 ^ (LENGTH(64) - 1)" if "unat q = 2 ^ 63"
  proof -
    have "q = 0x8000000000000000" using that by (simp add: word_unat_eq_iff)
    then show ?thesis using that by (simp add: estimate64_one)
  qed
  then show "- (2 ^ 64) + int j * int (unat q) < recip_error 64 (unat q) (unat (estimate64 q - of_nat j))"
    and "recip_error 64 (unat q) (unat (estimate64 q - of_nat j)) \<le> 2 ^ 64 + (int j + 1) * int (unat q)"
    using estimate64_generic [of q] assms adjusted_error [of "estimate64 q" q 1 j] by (cases "unat q = 2 ^ 63"; simp)+
qed


section \<open>The last step and the quotient\<close>

text \<open>The last step works in twice the width: \<open>b\<close> continues \<open>q\<close> with the low bits \<open>l\<close> of the divisor.\<close>

lemma final_error:
  fixes H q r l b k s t c R g :: int
  defines "N \<equiv> 2 * H" and "M \<equiv> H * (2 * H)"
  assumes b: "b = q * N + l" "0 \<le> l" "l < N" and q: "0 \<le> q" "q < N" and r: "0 \<le> r" "r < N" and H: "0 < H"
    and D: "- N < M - r * q" "M - r * q \<le> g * N" and g: "2 \<le> g"
    and rb: "r * b = k * N + s" "0 \<le> s" "s < N" and c: "c = N * N - k" and rc: "r * c = R * N + t" "0 \<le> t" "t < N"
  shows "- M \<le> M * M - R * b" and "M * M - R * b \<le> (g * g + 1) * (N * N)"
proof -
  define D E where "D = M * N - r * b" and "E = M * M - R * b"
  have pos: "0 < N" "0 < M" "0 \<le> b" "N * N = 2 * M" using H b q by (simp_all add: N_def M_def)
  have bN: "b < N * N"
  proof -
    have "b < (q + 1) * N" using b by (simp add: distrib_right)
    also have "\<dots> \<le> N * N" using q pos by (intro mult_right_mono) simp_all
    finally show ?thesis .
  qed
  have "c * N = M * N + D + s"
  proof -
    have "c * N = N * N * N - k * N" by (simp add: c left_diff_distrib)
    then show ?thesis using rb(1) by (simp add: pos(4) D_def)
  qed
  then have "r * c * N * b = r * b * (M * N + D + s)" by simp
  moreover have "r * c * N * b = R * b * (N * N) + t * N * b" unfolding rc(1) by (simp add: algebra_simps)
  moreover have "r * b = M * N - D" by (simp add: D_def)
  ultimately have "R * b * (N * N) + t * N * b = (M * N - D) * (M * N + D + s)" by simp
  then have id: "N * N * E = D * D - r * b * s + t * N * b"
    by (simp add: E_def D_def algebra_simps)
  have "\<bar>D\<bar> \<le> g * (N * N)"
  proof -
    have "D = (M - r * q) * N - r * l" by (simp add: D_def b(1) algebra_simps)
    moreover have "0 \<le> r * l" "r * l \<le> N * N" using r b mult_mono [of r N l N] by simp_all
    moreover have "(M - r * q) * N \<le> g * N * N" using D(2) pos by (intro mult_right_mono) simp_all
    moreover have "- N * N \<le> (M - r * q) * N" using D(1) pos by (intro mult_right_mono) simp_all
    moreover have "2 * (N * N) \<le> g * (N * N)" using g by (intro mult_right_mono) simp_all
    ultimately show ?thesis by (simp add: abs_le_iff)
  qed
  then have "D * D \<le> (g * (N * N)) * (g * (N * N))"
    using mult_mono [of "\<bar>D\<bar>" "g * (N * N)" "\<bar>D\<bar>" "g * (N * N)"] by (simp add: abs_mult_self_eq)
  moreover have "(g * (N * N)) * (g * (N * N)) = N * N * (g * g * (N * N))" by simp
  moreover have "0 \<le> r * b * s" using r(1) pos(3) rb(2) by (intro mult_nonneg_nonneg)
  moreover have "t * N * b \<le> N * N * (N * N)" using rc pos bN by (intro mult_mono) simp_all
  ultimately have "N * N * E \<le> N * N * ((g * g + 1) * (N * N))" unfolding id by (simp add: distrib_right distrib_left)
  then show "M * M - R * b \<le> (g * g + 1) * (N * N)" using pos by (simp add: E_def)
  define X Y Z where "X = D * D" and "Y = D * s" and "Z = s * s"
  have "0 \<le> (2 * D + s) * (2 * D + s)" by simp
  also have "\<dots> = 4 * X + 4 * Y + Z" by (simp add: X_def Y_def Z_def algebra_simps)
  finally have "- Z \<le> 4 * X + 4 * Y" by linarith
  moreover have "Z \<le> 2 * M" unfolding Z_def pos(4) [symmetric] using rb by (intro mult_mono) simp_all
  moreover have "r * b * s = M * N * s - Y" by (simp add: D_def Y_def algebra_simps)
  moreover have "M * N * s \<le> M * N * (N - 1)" using rb pos by (intro mult_left_mono) simp_all
  moreover have "M * N * (N - 1) = N * N * M - M * N" by (simp add: algebra_simps)
  moreover have "M * 2 \<le> M * N" using H pos by (intro mult_left_mono) (simp_all add: N_def)
  moreover have "0 \<le> t * N * b" using rc pos by simp
  moreover have "N * N * (- M) = - (N * N * M)" by simp
  ultimately have "N * N * (- M) \<le> N * N * E" unfolding id X_def [symmetric] using pos(2) by linarith
  moreover have "0 < N * N" using pos(1) by simp
  ultimately show "- M \<le> M * M - R * b" unfolding E_def by (simp only: mult_le_cancel_left_pos)
qed

text \<open>The quotient \<open>Q\<close>, computed from an estimate \<open>X\<close> that is below the reciprocal of \<open>Y\<close>, is at most the
  exact one and less than one and a half below it.\<close>

lemma quotient_bounds:
  fixes A B P G U X Y K E E' Q m :: int
  assumes A: "P \<le> A" "A < 2 * P" and B: "P \<le> B" "B < 2 * P" and G: "0 < G" "0 < P" and m: "0 < m"
    and U: "U = 2 * P * G" and Y: "Y = B * G" and K: "m * K = U * U"
    and X: "X * Y = K - E" and E: "0 \<le> E" "E \<le> E' * U" and small: "32 * (m * E') \<le> 7 * G"
    and Q: "Q * U \<le> m * A * X" "16 * (m * A * X) < (16 * Q + 17) * U"
  shows "Q * B \<le> 2 * P * A" and "4 * P * A < (2 * Q + 3) * B"
proof -
  have pos: "0 < A" "0 < B" "0 < U" "0 < Y" using A B G by (simp_all add: U Y)
  have mAX: "m * A * X * Y = A * (U * U) - m * A * E"
  proof -
    have "m * A * X * Y = m * A * (X * Y)" by simp
    also have "\<dots> = A * (m * K) - m * A * E" unfolding X by (simp add: algebra_simps)
    finally show ?thesis unfolding K .
  qed
  have "Q * U * Y \<le> m * A * X * Y" using Q(1) pos by (intro mult_right_mono) simp_all
  moreover have "0 \<le> m * A * E" using m pos E by simp
  ultimately have "Q * U * Y \<le> A * (U * U)" unfolding mAX by linarith
  then have "U * (Q * Y) \<le> U * (A * U)" by (simp add: ac_simps)
  then have "Q * Y \<le> A * U" using pos by simp
  then have "G * (Q * B) \<le> G * (2 * P * A)" unfolding U Y by (simp add: ac_simps)
  then show "Q * B \<le> 2 * P * A" using G by simp
  have "16 * (m * A * X) * Y < (16 * Q + 17) * U * Y" using Q(2) pos by (intro mult_strict_right_mono) simp_all
  then have "16 * (A * (U * U)) - 16 * (m * A * E) < (16 * Q + 17) * U * Y" using mAX by (simp add: algebra_simps)
  moreover have "m * A * E \<le> m * A * (E' * U)" using E m pos by (intro mult_left_mono) simp_all
  ultimately have "16 * (A * (U * U)) - 16 * (m * A * (E' * U)) < (16 * Q + 17) * U * Y" by linarith
  then have "U * (16 * (A * U) - 16 * (m * A * E')) < U * ((16 * Q + 17) * Y)" by (simp add: algebra_simps)
  then have main: "16 * (A * U) - 16 * (m * A * E') < (16 * Q + 17) * Y" using pos by (simp only: mult_less_cancel_left_pos)
  have "0 \<le> E'"
  proof -
    have "0 \<le> E' * U" using E by linarith
    then show ?thesis using pos by (simp add: zero_le_mult_iff)
  qed
  then have "16 * (m * A * E') \<le> 16 * (m * (2 * B) * E')" using A B m by (intro mult_left_mono mult_right_mono) simp_all
  moreover have "16 * (m * (2 * B) * E') = B * (32 * (m * E'))" by simp
  moreover have "B * (32 * (m * E')) \<le> B * (7 * G)" using small pos by (intro mult_left_mono) simp_all
  ultimately have "16 * (A * U) < (16 * Q + 17) * Y + B * (7 * G)" using main by linarith
  then have "G * (32 * P * A) < G * ((16 * Q + 24) * B)" unfolding U Y by (simp add: algebra_simps)
  then have "32 * P * A < (16 * Q + 24) * B" using G by (simp only: mult_less_cancel_left_pos)
  then show "4 * P * A < (2 * Q + 3) * B" by (simp add: algebra_simps)
qed


text \<open>The last step in double width, for the two widths of the code.\<close>

lemma unat_sum_products:
  fixes r q l :: "'h::len word"
  assumes len: "LENGTH('d::len) = 2 * LENGTH('h)"
  shows "unat (ucast r * ucast q + shr (ucast r * ucast l) LENGTH('h) :: 'd word)
    = unat r * (unat q * 2 ^ LENGTH('h) + unat l) div 2 ^ LENGTH('h)"
    and "unat r * (unat q * 2 ^ LENGTH('h) + unat l) div 2 ^ LENGTH('h) < 2 ^ LENGTH('d)"
proof -
  define N where "N = (2::nat) ^ LENGTH('h)"
  have N: "unat r < N" "unat q < N" "unat l < N" "(2::nat) ^ LENGTH('d) = N * N"
    using unat_less_exp_len [of r] unat_less_exp_len [of q] unat_less_exp_len [of l] len
    by (simp_all add: N_def mult_2 power_add)
  have split: "unat r * (unat q * N + unat l) div N = unat r * unat q + unat r * unat l div N"
    using N by (simp add: distrib_left mult.assoc [symmetric])
  have "unat q * N + unat l < (unat q + 1) * N" using N by simp
  also have "\<dots> \<le> N * N" using N by (intro mult_le_mono1) simp
  finally have b: "unat q * N + unat l < N * N" .
  have "unat r * (unat q * N + unat l) \<le> N * (unat q * N + unat l)" using N by (intro mult_le_mono1) simp
  then have "unat r * (unat q * N + unat l) div N \<le> unat q * N + unat l"
    using N div_le_mono [of _ "N * (unat q * N + unat l)" N] by simp
  then have less: "unat r * (unat q * N + unat l) div N < N * N" using b by linarith
  then show "unat r * (unat q * 2 ^ LENGTH('h) + unat l) div 2 ^ LENGTH('h) < 2 ^ LENGTH('d)" by (simp only: N_def [symmetric] N)
  have u: "unat (ucast r * ucast q :: 'd word) = unat r * unat q"
    "unat (shr (ucast r * ucast l :: 'd word) LENGTH('h)) = unat r * unat l div N"
    using len by (simp_all add: unat_wide_times unat_shr N_def)
  show "unat (ucast r * ucast q + shr (ucast r * ucast l) LENGTH('h) :: 'd word)
    = unat r * (unat q * 2 ^ LENGTH('h) + unat l) div 2 ^ LENGTH('h)"
    using less unfolding N_def [symmetric] split
    by (subst unat_plus_small) (simp_all only: u N)
qed

lemma last_step:
  fixes r q l :: "'h::len word" and correction :: "'d::len word"
  assumes len: "LENGTH('d) = 2 * LENGTH('h)"
    and c: "correction = - (ucast r * ucast q + shr (ucast r * ucast l) LENGTH('h))"
    and pos: "0 < unat r * (unat q * 2 ^ LENGTH('h) + unat l) div 2 ^ LENGTH('h)"
  shows "unat (ucast r * ucast (ucast (shr correction LENGTH('h)) :: 'h word)
      + shr (ucast r * ucast (ucast correction :: 'h word)) LENGTH('h) :: 'd word)
    = unat r * (2 ^ LENGTH('d) - unat r * (unat q * 2 ^ LENGTH('h) + unat l) div 2 ^ LENGTH('h)) div 2 ^ LENGTH('h)"
proof -
  have "unat correction = 2 ^ LENGTH('d) - unat r * (unat q * 2 ^ LENGTH('h) + unat l) div 2 ^ LENGTH('h)"
    unfolding c unat_uminus unat_sum_products(1) [OF len] using pos unat_sum_products(2) [OF len, of r q l] by simp
  moreover have "unat correction = unat (ucast (shr correction LENGTH('h)) :: 'h word) * 2 ^ LENGTH('h) + unat (ucast correction :: 'h word)"
    using unat_halves [OF len, of correction] by (simp add: high_half_def low_half_def)
  ultimately show ?thesis unfolding unat_sum_products(1) [OF len] by (simp only:)
qed

lemma last_estimate:
  fixes H q l r g :: nat
  defines "N \<equiv> 2 * H" and "M \<equiv> H * (2 * H)"
  assumes H: "0 < H" "H \<le> q" "q < N" "l < N" "r < N" and g: "2 \<le> g" "g * g + 3 \<le> H * H"
    and D: "- int N < int M - int r * int q" "int M - int r * int q \<le> int g * int N"
  defines "b \<equiv> q * N + l"
  defines "R \<equiv> r * (N * N - r * b div N) div N"
  shows "0 < r * b div N" and "2 \<le> R" and "0 \<le> int (M * M) - int (R - 2) * int b"
    and "int (M * M) - int (R - 2) * int b \<le> int ((g * g + 3) * (N * N))"
proof -
  have MN: "N * N = 2 * M" "0 < N" "0 < M" using H(1) by (simp_all add: N_def M_def)
  define k s where "k = r * b div N" and "s = r * b mod N"
  define c t where "c = N * N - k" and "t = r * c mod N"
  have rb: "r * b = k * N + s" "s < N" using MN by (simp_all add: k_def s_def)
  have rc: "r * c = R * N + t" "t < N" using MN by (simp_all add: R_def t_def c_def k_def)
  have "b < (q + 1) * N" using H(4) by (simp add: b_def)
  also have "\<dots> \<le> N * N" using H(3) by (intro mult_le_mono1) simp
  finally have b: "b < N * N" .
  have "H * N \<le> q * N" using H(2) by (rule mult_le_mono1)
  then have Mb: "M \<le> b" unfolding b_def M_def N_def by linarith
  have "r * b \<le> N * b" using H(5) by (intro mult_le_mono1) simp
  then have "k \<le> b" using div_le_mono [of "r * b" "N * b" N] MN(2) by (simp add: k_def)
  then have kNN: "k < N * N" using b by linarith
  have ic: "int c = int N * int N - int k" using kNN by (simp add: c_def of_nat_diff)
  have fe: "- int M \<le> int M * int M - int R * int b" "int M * int M - int R * int b \<le> (int g * int g + 1) * (int N * int N)"
  proof -
    have cast: "int N = 2 * int H" "int M = int H * (2 * int H)" by (simp_all add: N_def M_def)
    have lt: "int q < 2 * int H" "int l < 2 * int H" "int r < 2 * int H" "int s < 2 * int H" "int t < 2 * int H"
      using H rb(2) rc(2) unfolding cast(1) [symmetric] by simp_all
    have "int b = int q * int N + int l" by (simp add: b_def)
    moreover have "int (r * b) = int (k * N + s)" "int (r * c) = int (R * N + t)" by (simp_all only: rb(1) rc(1))
    then have "int r * int b = int k * int N + int s" "int r * int c = int R * int N + int t"
      by (simp_all only: of_nat_mult of_nat_add)
    ultimately show "- int M \<le> int M * int M - int R * int b" "int M * int M - int R * int b \<le> (int g * int g + 1) * (int N * int N)"
      using final_error [of "int b" "int q" "int H" "int l" "int r" "int g" "int k" "int s" "int c" "int R" "int t"]
        H(1) g(1) D lt ic unfolding cast by simp_all
  qed
  have gN: "(int g * int g + 3) * (int N * int N) \<le> int M * int M"
  proof -
    have "(g * g + 3) * (N * N) \<le> H * H * (N * N)" using g(2) by (rule mult_le_mono1)
    also have "H * H * (N * N) = M * M" by (simp add: M_def N_def)
    finally have "int ((g * g + 3) * (N * N)) \<le> int (M * M)" by (simp only: of_nat_le_iff)
    then show ?thesis by simp
  qed
  have bNN: "int b < int N * int N" "int M \<le> int b" using b Mb by (simp_all flip: of_nat_mult)
  have exp: "(int g * int g + 3) * (int N * int N) = (int g * int g + 1) * (int N * int N) + 2 * (int N * int N)"
    by (simp add: distrib_right)
  then have "2 * (int N * int N) \<le> int R * int b" using fe(2) gN by linarith
  then have "2 * int b < int R * int b" using bNN by linarith
  then have "2 < int R" by (simp add: mult_less_cancel_right)
  then show R2: "2 \<le> R" by simp
  then have R: "int (R - 2) * int b = int R * int b - 2 * int b" by (simp add: of_nat_diff left_diff_distrib)
  show "0 \<le> int (M * M) - int (R - 2) * int b" "int (M * M) - int (R - 2) * int b \<le> int ((g * g + 3) * (N * N))"
    using fe bNN exp unfolding R of_nat_mult of_nat_add of_nat_numeral by linarith+
  show "0 < r * b div N"
  proof (rule ccontr)
    assume "\<not> 0 < r * b div N"
    then have "r * b < N" using MN(2) by (simp add: div_eq_0_iff)
    have "int M * int N \<le> int r * int b * 1 + (int M - int r * int q) * int N"
      by (simp add: b_def algebra_simps)
    also have "\<dots> < int N + int g * int N * int N"
      using \<open>r * b < N\<close> D(2) mult_right_mono [OF D(2), of "int N"] by (simp flip: of_nat_mult)
    also have "\<dots> = (1 + int g * int N) * int N" by (simp add: distrib_right)
    finally have "int M < 1 + int g * int N" using MN(2) by (simp add: mult_less_cancel_right)
    moreover have "int N * (int H * 1) \<le> int M" by (simp add: M_def N_def)
    ultimately have "int N * int H < 1 + int g * int N" by linarith
    have "g < H"
    proof (rule ccontr)
      assume "\<not> g < H"
      then have "H * H \<le> g * g" by (intro mult_le_mono) simp_all
      then show False using g(2) by linarith
    qed
    then have "(int g + 1) * int N \<le> int H * int N" by (intro mult_right_mono) simp_all
    then show False using \<open>int N * int H < 1 + int g * int N\<close> MN(2) by (simp add: algebra_simps)
  qed
qed

end
