(* ===== verification/Fp_Div.thy ===== *)
theory Fp_Div
  imports Fp_Quad Reciprocal
begin

text \<open>
  Division: \<open>divsf3.c\<close>, \<open>divdf3.c\<close> and \<open>divtf3.c\<close>.  The three files share the treatment of special
  operands and the rounding of the quotient; they differ in the computation of the quotient of two
  significands, which multiplies by an estimate of the reciprocal (theory \<open>Reciprocal\<close>).  Results below
  the smallest normal number are flushed to zero, as the code says.
\<close>

section \<open>The steps of the routines\<close>

text \<open>NaN, infinite and zero operands; \<open>None\<close> falls through.\<close>

definition div_special :: "'r::len fp_format \<Rightarrow> 'r word \<Rightarrow> 'r word \<Rightarrow> 'r word \<Rightarrow> 'r word option" where
  "div_special F a b quotientSign =
     (let aAbs = toRep a AND absMask F; bAbs = toRep b AND absMask F in
      if aAbs > infRep F then Some (fromRep (toRep a OR quietBit F))
      else if bAbs > infRep F then Some (fromRep (toRep b OR quietBit F))
      else if aAbs = infRep F then
        if bAbs = infRep F then Some (fromRep (qnanRep F)) else Some (fromRep (aAbs OR quotientSign))
      else if bAbs = infRep F then Some (fromRep quotientSign)
      else if aAbs = 0 then
        if bAbs = 0 then Some (fromRep (qnanRep F)) else Some (fromRep quotientSign)
      else if bAbs = 0 then Some (fromRep (infRep F OR quotientSign))
      else None)"

text \<open>The rounding; \<open>exceeds\<close> is the comparison of the doubled residual in the branch for normal results,
  \<open>>\<close> in two of the files and \<open>>=\<close> in the third.\<close>

definition div_round :: "'r::len fp_format \<Rightarrow> ('r word \<Rightarrow> 'r word \<Rightarrow> bool) \<Rightarrow> 'r word \<Rightarrow> 'r word \<Rightarrow> 'r word \<Rightarrow> 'r word \<Rightarrow> int \<Rightarrow> 'r word" where
  "div_round F exceeds quotientSign quot residual bSignificand writtenExponent =
     (if writtenExponent \<ge> maxExponent F then fromRep (infRep F OR quotientSign)
      else if writtenExponent < 1 then
        let round = shl residual 1 > bSignificand;
            absResult = (quot AND significandMask F) + truth round
        in if writtenExponent = 0 \<and> absResult AND NOT (significandMask F) \<noteq> 0 then fromRep (absResult OR quotientSign)
           else fromRep quotientSign
      else
        let round = exceeds (shl residual 1) bSignificand;
            absResult = (quot AND significandMask F) OR shl (word_of_int writtenExponent) (significandBits F);
            absResult = absResult + truth round
        in fromRep (absResult OR quotientSign))"

text \<open>\<open>quotient_of\<close> is the quotient of two significands and \<open>product\<close> the low word of a product.\<close>

definition div_finite :: "'r::len fp_format \<Rightarrow> ('r word \<Rightarrow> 'r word \<Rightarrow> 'r word) \<Rightarrow> ('r word \<Rightarrow> 'r word \<Rightarrow> 'r word) \<Rightarrow>
    ('r word \<Rightarrow> 'r word \<Rightarrow> bool) \<Rightarrow> 'r word \<Rightarrow> c_unsigned \<Rightarrow> c_unsigned \<Rightarrow> 'r word \<Rightarrow> 'r word \<Rightarrow> int \<Rightarrow> 'r word" where
  "div_finite F quotient_of product exceeds quotientSign aExponent bExponent aSignificand bSignificand scale =
     (let aSignificand = aSignificand OR implicitBit F;
          bSignificand = bSignificand OR implicitBit F;
          quotientExponent = sint (aExponent - bExponent + word_of_int scale);
          quot = quotient_of aSignificand bSignificand;
          (quot, residual, quotientExponent) =
            (if quot < shl (implicitBit F) 1 then
               (quot, shl aSignificand (significandBits F + 1) - product quot bSignificand, quotientExponent - 1)
             else
               let quot = shr quot 1
               in (quot, shl aSignificand (significandBits F) - product quot bSignificand, quotientExponent));
          writtenExponent = quotientExponent + exponentBias F
      in div_round F exceeds quotientSign quot residual bSignificand writtenExponent)"

definition divXf3 :: "'r::len fp_format \<Rightarrow> ('r word \<Rightarrow> 'r word \<Rightarrow> 'r word) \<Rightarrow> ('r word \<Rightarrow> 'r word \<Rightarrow> 'r word) \<Rightarrow>
    ('r word \<Rightarrow> 'r word \<Rightarrow> bool) \<Rightarrow> 'r word \<Rightarrow> 'r word \<Rightarrow> 'r word" where
  "divXf3 F quotient_of product exceeds a b =
     (let aExponent = ucast (shr (toRep a) (significandBits F) AND word_of_int (maxExponent F)) :: c_unsigned;
          bExponent = ucast (shr (toRep b) (significandBits F) AND word_of_int (maxExponent F)) :: c_unsigned;
          quotientSign = (toRep a XOR toRep b) AND signBit F;
          aSignificand = toRep a AND significandMask F;
          bSignificand = toRep b AND significandMask F
      in if aExponent - 1 \<ge> word_of_int (maxExponent F) - 1 \<or> bExponent - 1 \<ge> word_of_int (maxExponent F) - 1 then
           case div_special F a b quotientSign of Some result \<Rightarrow> result
           | None \<Rightarrow>
               let (aSignificand, aScale) = mul_normalize F a;
                   (bSignificand, bScale) = mul_normalize F b
               in div_finite F quotient_of product exceeds quotientSign aExponent bExponent aSignificand bSignificand (aScale - bScale)
         else div_finite F quotient_of product exceeds quotientSign aExponent bExponent aSignificand bSignificand 0)"

text \<open>The quotients of the three files.\<close>

definition quotient_single :: "32 word \<Rightarrow> 32 word \<Rightarrow> 32 word" where
  "quotient_single aSignificand bSignificand =
     (let q31b = shl bSignificand 8;
          reciprocal = estimate32 q31b;
          reciprocal = reciprocal - 2
      in ucast (shr (ucast reciprocal * ucast (shl aSignificand 1) :: 64 word) 32))"

definition quotient_double :: "64 word \<Rightarrow> 64 word \<Rightarrow> 64 word" where
  "quotient_double aSignificand bSignificand =
     (let q31b = ucast (shr bSignificand 21) :: 32 word;
          recip32 = estimate32 q31b;
          recip32 = recip32 - 1;
          q63blo = ucast (shl bSignificand 11) :: 32 word;
          correction = - (ucast recip32 * ucast q31b + shr (ucast recip32 * ucast q63blo) 32) :: 64 word;
          cHi = ucast (shr correction 32) :: 32 word;
          cLo = ucast correction :: 32 word;
          reciprocal = ucast recip32 * ucast cHi + shr (ucast recip32 * ucast cLo) 32 :: 64 word;
          reciprocal = reciprocal - 2;
          (quot, quotientLo) = wideMultiply_double (shl aSignificand 2) reciprocal
      in quot)"

definition quotient_quad :: "128 word \<Rightarrow> 128 word \<Rightarrow> 128 word" where
  "quotient_quad aSignificand bSignificand =
     (let q63b = ucast (shr bSignificand 49) :: 64 word;
          recip64 = estimate64 q63b;
          recip64 = recip64 - 1;
          q127blo = ucast (shl bSignificand 15) :: 64 word;
          (dummy, r64q63) = wideMultiply_quad (ucast recip64) (ucast q63b);
          (dummy, r64q127) = wideMultiply_quad (ucast recip64) (ucast q127blo);
          correction = - (r64q63 + shr r64q127 64);
          cHi = ucast (shr correction 64) :: 64 word;
          cLo = ucast correction :: 64 word;
          (dummy, r64cH) = wideMultiply_quad (ucast recip64) (ucast cHi);
          (dummy, r64cL) = wideMultiply_quad (ucast recip64) (ucast cLo);
          reciprocal = r64cH + shr r64cL 64;
          reciprocal = reciprocal - 2;
          (quot, quotientLo) = wideMultiply_quad (shl aSignificand 2) reciprocal
      in quot)"

definition divsf3 :: "32 word \<Rightarrow> 32 word \<Rightarrow> 32 word" where
  "divsf3 = divXf3 single_precision quotient_single (\<lambda>quot bSignificand. quot * bSignificand) (>)"

definition divdf3 :: "64 word \<Rightarrow> 64 word \<Rightarrow> 64 word" where
  "divdf3 = divXf3 double_precision quotient_double (\<lambda>quot bSignificand. quot * bSignificand) (>)"

definition divtf3 :: "128 word \<Rightarrow> 128 word \<Rightarrow> 128 word" where
  "divtf3 = divXf3 quad_precision quotient_quad
     (\<lambda>quot bSignificand. let (dummy, qb) = wideMultiply_quad quot bSignificand in qb) (\<ge>)"


section \<open>Rounding a quotient with a remainder\<close>

text \<open>The value is \<open>Y / T\<close> in units of the last place and lies less than one and a half above \<open>q\<close>; no tie.\<close>

lemma nearest_even_quotient:
  assumes ok: "significand_ok sb e q" and e: "0 < e" and T: "0 < T" "0 < den"
    and q: "q * T \<le> Y" "2 * Y < (2 * q + 3) * T" "2 * Y \<noteq> (2 * q + 1) * T"
    and exact: "Y * (den * 2 ^ (e - 1)) = num * T"
    and r: "r = join_rep sb e q" "r < infty" and up: "up \<longleftrightarrow> (2 * q + 1) * T < 2 * Y"
  shows "nearest_even sb infty num den (if up then r + 1 else r)"
proof -
  define u where "u = (2::nat) ^ (e - 1)"
  have u: "0 < u" by (simp add: u_def)
  have m: "mag sb r = q * u" "mag sb (Suc r) = (q + 1) * u"
    using mag_join_rep [OF ok, folded r(1) u_def] by simp_all
  have scale: "x * u * den < 2 * num \<longleftrightarrow> x * T < 2 * Y" "2 * num < x * u * den \<longleftrightarrow> 2 * Y < x * T" for x
  proof -
    have "x * u * den < 2 * num \<longleftrightarrow> x * u * den * T < 2 * num * T" using T by simp
    also have "2 * num * T = 2 * Y * (den * u)" using exact by (simp add: u_def)
    also have "x * u * den * T = x * T * (den * u)" by (simp add: ac_simps)
    finally show "x * u * den < 2 * num \<longleftrightarrow> x * T < 2 * Y" using T u by simp
    have "2 * num < x * u * den \<longleftrightarrow> 2 * num * T < x * u * den * T" using T by simp
    also have "2 * num * T = 2 * Y * (den * u)" using exact by (simp add: u_def)
    also have "x * u * den * T = x * T * (den * u)" by (simp add: ac_simps)
    finally show "2 * num < x * u * den \<longleftrightarrow> 2 * Y < x * T" using T u by simp
  qed
  show ?thesis
  proof (cases up)
    case True
    have "mag sb r + mag sb (r + 1) = (2 * q + 1) * u" by (simp add: m algebra_simps)
    moreover have "(2 * q + 3) * u \<le> mag sb (r + 1) + mag sb (r + 1 + 1)"
    proof -
      have "e * 2 ^ sb \<le> r" by (simp add: r(1) join_rep_def)
      then have "e \<le> (r + 1) div 2 ^ sb" by (simp add: less_eq_div_iff_mult_less_eq)
      then have "u \<le> 2 ^ ((r + 1) div 2 ^ sb - 1)" unfolding u_def by (intro power_increasing) auto
      then show ?thesis using mag_Suc [of sb "r + 1"] m(2) by (simp add: algebra_simps)
    qed
    then have "(2 * q + 3) * u * den \<le> (mag sb (r + 1) + mag sb (r + 1 + 1)) * den" by (rule mult_le_mono1)
    then have "2 * num < (mag sb (r + 1) + mag sb (r + 1 + 1)) * den"
      using q(2) scale(2) [of "2 * q + 3"] by linarith
    ultimately show ?thesis using True up r(2) scale(1) [of "2 * q + 1"] by (simp add: nearest_even_def)
  next
    case False
    then have "2 * Y < (2 * q + 1) * T" using up q(3) by simp
    moreover have "mag sb r + mag sb (r + 1) = (2 * q + 1) * u" by (simp add: m algebra_simps)
    moreover have "(mag sb (r - 1) + mag sb r) * den < 2 * num" if "0 < r"
    proof -
      have "mag sb (r - 1) < mag sb r" using that by (intro mag_strict_mono) simp
      then have "(mag sb (r - 1) + mag sb r) * den < (2 * q) * u * den" using T m(1) by simp
      moreover have "\<not> 2 * num < (2 * q) * u * den" unfolding scale(2) using q(1) by simp
      ultimately show ?thesis by linarith
    qed
    ultimately show ?thesis using False r(2) scale(2) [of "2 * q + 1"] by (simp add: nearest_even_def)
  qed
qed

text \<open>The contract: IEEE 754 division whose results below the smallest normal number are zero.  A value is
  below it when, rounded as if the exponent were unbounded, it stays below.\<close>

definition flushed :: "'r::len fp_format \<Rightarrow> nat \<Rightarrow> nat \<Rightarrow> bool \<Rightarrow> 'r word \<Rightarrow> bool" where
  "flushed F num den neg r \<longleftrightarrow>
     (if (4 * 2 ^ significandBits F - 1) * den < 4 * num then rounds_to F num den neg r
      else rep_abs r = 0 \<and> rep_sign r = neg)"

definition ieee_quotient :: "'r::len fp_format \<Rightarrow> 'r word \<Rightarrow> 'r word \<Rightarrow> 'r word \<Rightarrow> bool" where
  "ieee_quotient F a b r \<longleftrightarrow>
     (if is_nan F a \<or> is_nan F b then is_nan F r
      else if is_inf F a then
        if is_inf F b then is_nan F r else is_inf F r \<and> rep_sign r = (rep_sign a \<noteq> rep_sign b)
      else if is_inf F b then rep_abs r = 0 \<and> rep_sign r = (rep_sign a \<noteq> rep_sign b)
      else if rep_abs b = 0 then
        if rep_abs a = 0 then is_nan F r else is_inf F r \<and> rep_sign r = (rep_sign a \<noteq> rep_sign b)
      else flushed F (magnitude F a * 2 ^ (nat (exponentBias F) + significandBits F - 1)) (magnitude F b)
        (rep_sign a \<noteq> rep_sign b) r)"


context fp_base
begin

lemma and_not_mask: "w AND NOT (significandMask F) = 0 \<longleftrightarrow> unat w < 2 ^ significandBits F" for w :: "'r word"
proof
  assume "w AND NOT (significandMask F) = 0"
  then have "w AND mask (significandBits F) = w"
    by (intro bit_word_eqI) (auto simp: word_eq_0_iff_bits significandMask_eq bit_and_iff bit_not_iff bit_mask_iff dest: bit_imp_le_length)
  then have "unat (w AND mask (significandBits F)) = unat w" by simp
  then have "unat w mod 2 ^ significandBits F = unat w" by (simp only: unat_and_mask_low)
  then show "unat w < 2 ^ significandBits F" by (metis mod_less_divisor zero_less_numeral zero_less_power)
next
  assume "unat w < 2 ^ significandBits F"
  then show "w AND NOT (significandMask F) = 0"
    by (auto simp: word_eq_0_iff_bits significandMask_eq bit_and_iff bit_not_iff bit_mask_iff)
      (metis not_bit_of_unat_less not_le)
qed

lemma zero_signed: "rep_abs (x AND signBit F) = 0" "rep_sign (x AND signBit F) = rep_sign x" for x :: "'r word"
  using sign_or [of 0 x] by simp_all

lemma flushed_roundsI:
  assumes "rounds_to F num den neg r" "2 ^ significandBits F * den \<le> num" "0 < den"
  shows "flushed F num den neg r"
proof -
  have "(4 * 2 ^ significandBits F - 1) * den < 4 * 2 ^ significandBits F * den"
    using assms(3) by (intro mult_less_mono1) simp_all
  also have "\<dots> \<le> 4 * num" using assms(2) by simp
  finally show ?thesis using assms(1) by (simp add: flushed_def)
qed

text \<open>The result at the border: the smallest normal number.\<close>

lemma rounds_to_smallest_normal:
  fixes r :: "'r word"
  assumes "(4 * 2 ^ significandBits F - 1) * den < 4 * num" "4 * num < (4 * 2 ^ significandBits F + 1) * den"
    and "rep_abs r = 2 ^ significandBits F" "rep_sign r = neg"
  shows "rounds_to F num den neg r"
proof -
  define P where "P = (2::nat) ^ significandBits F"
  have P: "1 < P" unfolding P_def using fraction_bits by (intro one_less_power) simp_all
  have "mag (significandBits F) (P - 1) = P - 1" using P by (intro mag_subnormal) (simp add: P_def)
  moreover have "mag (significandBits F) P = P" using mag_normal [of 0 "significandBits F" 1] by (simp add: P_def)
  moreover have "mag (significandBits F) (P + 1) = P + 1"
    using mag_normal [of 1 "significandBits F" 1] P by (simp add: P_def)
  moreover have "P < infty_rep F"
  proof -
    have "(2::nat) ^ 1 < 2 ^ exponentBits F" using exponent_bits by (intro power_strict_increasing) simp_all
    then have "1 * P < (2 ^ exponentBits F - 1) * P" using P by (intro mult_less_mono1) simp_all
    then show ?thesis by (simp add: infty_rep_def P_def)
  qed
  moreover have "(P + P - 1) * den < 2 * num"
  proof -
    have "2 * (P + P - 1) \<le> 4 * P - 1" using P by (cases P) simp_all
    then have "2 * (P + P - 1) * den \<le> (4 * P - 1) * den" by (rule mult_le_mono1)
    then show ?thesis using assms(1) unfolding P_def [symmetric] by linarith
  qed
  moreover have "2 * num < (P + (P + 1)) * den"
  proof -
    have "(4 * P + 1) * den \<le> 2 * ((P + (P + 1)) * den)" by (simp add: mult.assoc [symmetric] mult_le_mono1)
    then show ?thesis using assms(2) unfolding P_def [symmetric] by linarith
  qed
  ultimately show ?thesis using assms(3,4) by (simp add: rounds_to_def nearest_even_def flip: P_def)
qed

lemma div_round_eq:
  fixes quot residual bSignificand x :: "'r word"
  defines "P \<equiv> 2 ^ significandBits F :: nat" and "q \<equiv> unat quot" and "T \<equiv> unat bSignificand"
  assumes q: "P \<le> q" "q < 2 * P" and T: "0 < T" and den: "0 < den"
    and res: "unat (shl residual 1) = 2 * (Y - q * T)" "exceeds (shl residual 1) bSignificand \<longleftrightarrow> bSignificand < shl residual 1"
    and Y: "q * T \<le> Y" "2 * Y < (2 * q + 3) * T" "2 * Y \<noteq> (2 * q + 1) * T"
    and e: "1 \<le> e + int K" and exact: "Y * (den * 2 ^ nat (e - 1 + int K)) = num * T * 2 ^ K"
  shows "flushed F num den (rep_sign x) (div_round F exceeds (x AND signBit F) quot residual bSignificand e)"
proof -
  define n where "n = nat (e - 1 + int K)"
  define up where "up \<longleftrightarrow> bSignificand < shl residual 1"
  have up: "up \<longleftrightarrow> (2 * q + 1) * T < 2 * Y"
  proof -
    have "up \<longleftrightarrow> T < 2 * (Y - q * T)" by (simp only: up_def word_less_nat_alt res(1) T_def)
    moreover have "(2 * q + 1) * T = 2 * (q * T) + T" by (simp add: distrib_right)
    ultimately show ?thesis using Y(1) by linarith
  qed
  have fits: "2 * Y < (4 * P + 1) * T"
  proof -
    have "(2 * q + 3) * T \<le> (4 * P + 1) * T" using q by (intro mult_le_mono1) simp
    then show ?thesis using Y(2) by linarith
  qed
  have PT: "P * T \<le> Y" using q(1) Y(1) by (meson le_trans mult_le_mono1)
  have P2: "2 \<le> P"
    using power_increasing [of 1 "significandBits F" "2::nat"] fraction_bits by (simp add: P_def)
  have t: "unat (truth up :: 'r word) = of_bool up" by (rule unat_truth)
  consider "maxExponent F \<le> e" | "0 < e" "e < maxExponent F" | "e = 0" | "e < 0" by linarith
  then show ?thesis
  proof cases
    case 1
    have "(2::nat) ^ 5 \<le> 2 ^ exponentBits F" using exponent_bits by (intro power_increasing) auto
    then have "int (2 ^ exponentBits F - 2) = maxExponent F - 1" by (simp add: maxExponent_def of_nat_diff)
    then have nat: "(2 ^ exponentBits F - 2) + K \<le> n" using 1 by (simp add: n_def)
    have "mag (significandBits F) (infty_rep F) * den * (T * 2 ^ K) = P * T * (den * 2 ^ (2 ^ exponentBits F - 2 + K))"
      by (simp add: mag_infty_rep P_def power_add ac_simps)
    also have "\<dots> \<le> Y * (den * 2 ^ n)" using PT nat by (intro mult_le_mono power_increasing le_refl) auto
    also have "\<dots> = num * (T * 2 ^ K)" using exact by (simp only: n_def ac_simps)
    finally have big: "mag (significandBits F) (infty_rep F) * den \<le> num" using T by simp
    have "P * den \<le> mag (significandBits F) (infty_rep F) * den" by (simp add: mag_infty_rep P_def)
    then have "P * den \<le> num" using big by (rule le_trans)
    then show ?thesis
      using 1 flushed_roundsI [OF rounds_to_infinity [OF big den, of x]] den by (simp add: div_round_def P_def)
  next
    case 2
    define m where "m = (quot AND significandMask F) OR shl (word_of_int e) (significandBits F)"
    have ok: "significand_ok (significandBits F) (nat e) q" using 2 q by (simp add: significand_ok_def P_def)
    have ne: "nat e < 2 ^ exponentBits F - 1" "e < 2 ^ exponentBits F" using 2 by (simp_all add: maxExponent_def nat_less_iff)
    have m: "unat m = join_rep (significandBits F) (nat e) q"
      using pack_fields [of e quot] 2 ne join_rep_mod [OF ok] by (simp add: m_def q_def)
    have infty: "unat m < infty_rep F" using join_rep_less [OF ok ne(1)] by (simp add: m infty_rep_def)
    have "(2::nat) ^ (LENGTH('r) - 1) \<le> 2 ^ LENGTH('r)" by (intro power_increasing) auto
    then have "infty_rep F < 2 ^ LENGTH('r)" using infty_rep_less by linarith
    then have "unat m + unat (truth up :: 'r word) < 2 ^ LENGTH('r)"
      using infty unfolding t by (cases up) simp_all
    then have sum: "unat (m + truth up) = unat m + of_bool up" unfolding t [symmetric] by (rule unat_plus_small)
    then have less: "unat (m + truth up) < 2 ^ (LENGTH('r) - 1)" using infty infty_rep_less by (cases up) simp_all
    have "n = (nat e - 1) + K" using 2 by (simp add: n_def)
    then have "Y * (den * 2 ^ (nat e - 1)) * 2 ^ K = num * T * 2 ^ K"
      using exact [folded n_def] by (simp only: power_add ac_simps)
    then have exact': "Y * (den * 2 ^ (nat e - 1)) = num * T" by simp
    have "div_round F exceeds (x AND signBit F) quot residual bSignificand e = (m + truth up) OR (x AND signBit F)"
      using 2 res(2) by (simp add: div_round_def m_def up_def)
    moreover have "nearest_even (significandBits F) (infty_rep F) num den (if up then unat m + 1 else unat m)"
      using 2 by (intro nearest_even_quotient [OF ok _ T den Y exact' m infty up]) simp
    ultimately have rounds: "rounds_to F num den (rep_sign x) (div_round F exceeds (x AND signBit F) quot residual bSignificand e)"
      using sum by (simp add: rounds_to_def sign_or [OF less] split: if_splits)
    have "P * den * T \<le> Y * (den * 2 ^ (nat e - 1))" 
      using mult_le_mono [OF PT, of den "den * 2 ^ (nat e - 1)"] by (simp add: ac_simps)
    then have "P * den * T \<le> num * T" unfolding exact' .
    then show ?thesis using T den by (intro flushed_roundsI [OF rounds]) (simp_all add: P_def)
  next
    case 3
    obtain k where k: "K = Suc k" "n = k" using e 3 by (cases K) (simp_all add: n_def)
    have "Y * den * 2 ^ k = 2 * num * T * 2 ^ k" using exact [folded n_def] by (simp add: k ac_simps)
    then have exact': "2 * Y * den = 4 * num * T" by simp
    define m where "m = (quot AND significandMask F) + truth up"
    have low: "unat (quot AND significandMask F) = q - P"
      using q unat_and_mask_low [of quot "significandBits F"] by (simp add: significandMask_eq P_def q_def le_mod_geq)
    have PL: "2 * P \<le> 2 ^ (LENGTH('r) - 1)"
    proof -
      have "(2::nat) ^ Suc (significandBits F) \<le> 2 ^ (LENGTH('r) - 1)" using exponent_bits unfolding width_minus_1 by (intro power_increasing) simp_all
      then show ?thesis by (simp add: P_def)
    qed
    have "(2::nat) ^ (LENGTH('r) - 1) \<le> 2 ^ LENGTH('r)" by (intro power_increasing) auto
    then have "2 * P \<le> 2 ^ LENGTH('r)" using PL by linarith
    then have "unat (quot AND significandMask F) + unat (truth up :: 'r word) < 2 ^ LENGTH('r)"
      using q P2 unfolding t low by (cases up) simp_all
    then have m: "unat m = q - P + of_bool up" unfolding t [symmetric] low [symmetric] m_def by (rule unat_plus_small)
    have less: "unat m < 2 ^ (LENGTH('r) - 1)" using m PL q P2 by (cases up) simp_all
    have run: "div_round F exceeds (x AND signBit F) quot residual bSignificand e
        = (if unat m < P then x AND signBit F else m OR (x AND signBit F))"
      using 3 maxExponent_bounds and_not_mask [of m] by (simp add: div_round_def m_def up_def P_def)
    show ?thesis
    proof (cases "q = 2 * P - 1 \<and> up")
      case True
      then have mP: "unat m = P" using m P2 by simp
      have "2 * q + 1 = 4 * P - 1" using True P2 by simp
      moreover have "(2 * q + 1) * T < 2 * Y" using True up by blast
      ultimately have "(4 * P - 1) * T < 2 * Y" by (simp only:)
      then have "(4 * P - 1) * T * den < 2 * Y * den" "2 * Y * den < (4 * P + 1) * T * den" using fits den by simp_all
      then have "(4 * P - 1) * den * T < 4 * num * T" "4 * num * T < (4 * P + 1) * den * T"
        unfolding exact' by (simp_all only: ac_simps)
      then have lim: "(4 * P - 1) * den < 4 * num" "4 * num < (4 * P + 1) * den" by simp_all
      have "rounds_to F num den (rep_sign x) (m OR (x AND signBit F))"
        by (rule rounds_to_smallest_normal [OF lim [unfolded P_def]])
          (simp_all add: sign_or [OF less] mP P_def)
      then show ?thesis using lim(1) by (simp add: run mP flushed_def P_def)
    next
      case False
      then have "unat m < P" using m q by (cases up) auto
      moreover have "2 * Y \<le> (4 * P - 1) * T"
      proof (cases up)
        case True
        then have "2 * q + 3 \<le> 4 * P - 1" using False q by auto
        then have "(2 * q + 3) * T \<le> (4 * P - 1) * T" by (rule mult_le_mono1)
        then show ?thesis using Y(2) by linarith
      next
        case False
        have "(2 * q + 1) * T \<le> (4 * P - 1) * T" using q by (intro mult_le_mono1) simp
        then show ?thesis using False up by linarith
      qed
      then have "2 * Y * den \<le> (4 * P - 1) * T * den" by (rule mult_le_mono1)
      then have "4 * num * T \<le> (4 * P - 1) * den * T" unfolding exact' by (simp only: ac_simps)
      then have "4 * num \<le> (4 * P - 1) * den" using T by simp
      ultimately show ?thesis by (simp add: run flushed_def zero_signed P_def)
    qed
  next
    case 4
    obtain k where k: "K = n + Suc (Suc k)"
    proof
      show "K = n + Suc (Suc (nat (- e) - 1))" using e 4 by (simp add: n_def)
    qed
    have "Y * den * 2 ^ n = 4 * num * T * 2 ^ k * 2 ^ n" using exact [folded n_def] by (simp add: k power_add ac_simps)
    then have "Y * den = 4 * num * T * 2 ^ k" by simp
    then have "4 * num * T \<le> Y * den" by simp
    moreover have "2 * Y * den \<le> (4 * P + 1) * T * den" using fits by (intro mult_le_mono1) simp
    moreover have "2 * (4 * num) * T = 2 * (4 * num * T)" "2 * Y * den = 2 * (Y * den)"
      "(4 * P + 1) * den * T = (4 * P + 1) * T * den" by (simp_all only: ac_simps)
    ultimately have "2 * (4 * num) * T \<le> (4 * P + 1) * den * T" by linarith
    then have "2 * (4 * num) \<le> (4 * P + 1) * den" using T by simp
    moreover have "(4 * P + 1) * den \<le> 2 * (4 * P - 1) * den" using P2 by (intro mult_le_mono1) simp
    ultimately have "2 * (4 * num) \<le> 2 * ((4 * P - 1) * den)" by (simp only: mult.assoc)
    then have "4 * num \<le> (4 * P - 1) * den" by (simp only: mult_le_cancel1)
    then show ?thesis using 4 maxExponent_bounds by (simp add: div_round_def flushed_def zero_signed P_def)
  qed
qed

end


section \<open>What a quotient of significands provides\<close>

locale fp_div = fp_base F for F :: "'r::len fp_format" +
  fixes quotient_of product :: "'r word \<Rightarrow> 'r word \<Rightarrow> 'r word" and exceeds :: "'r word \<Rightarrow> 'r word \<Rightarrow> bool"
  assumes quotient_close:
      "2 ^ significandBits F \<le> unat a \<Longrightarrow> unat a < 2 * 2 ^ significandBits F \<Longrightarrow>
       2 ^ significandBits F \<le> unat b \<Longrightarrow> unat b < 2 * 2 ^ significandBits F \<Longrightarrow>
       unat (quotient_of a b) * unat b \<le> 2 * 2 ^ significandBits F * unat a \<and>
       4 * 2 ^ significandBits F * unat a < (2 * unat (quotient_of a b) + 3) * unat b"
    and product: "product q b = q * b"
    and exceeds: "x \<noteq> y \<Longrightarrow> exceeds x y \<longleftrightarrow> y < x"
begin

text \<open>An odd multiple of the divisor is no multiple of the power of two that the dividend carries.\<close>

lemma no_tie:
  fixes S T q :: nat
  assumes "0 < T" "T < 2 * 2 ^ s"
  shows "2 * (2 ^ j * 2 ^ s * S) \<noteq> (2 * q + 1) * T"
proof
  assume eq: "2 * (2 ^ j * 2 ^ s * S) = (2 * q + 1) * T"
  have "2 ^ Suc s dvd 2 ^ Suc s * (2 ^ j * S)" by simp
  also have "\<dots> = (2 * q + 1) * T" unfolding eq [symmetric] by simp
  finally have "2 ^ Suc s dvd T" by (subst (asm) coprime_dvd_mult_right_iff) simp_all
  then show False using assms by (auto dest: dvd_imp_le)
qed

lemma quotient_range:
  fixes A B P Q :: nat
  assumes A: "P \<le> A" and B: "B < 2 * P" and Q: "4 * P * A < (2 * Q + 3) * B"
  shows "P \<le> Q"
proof (rule ccontr)
  assume "\<not> P \<le> Q"
  then have "(2 * Q + 3) * B \<le> (2 * P + 1) * B" by (intro mult_le_mono1) simp
  moreover have "2 * P * (2 * P) \<le> 4 * P * A" using A by simp
  moreover have "2 * P * (B + 1) \<le> 2 * P * (2 * P)" using B by (intro mult_le_mono2) simp
  moreover have "2 * P * (B + 1) = 2 * P * B + 2 * P" "(2 * P + 1) * B = 2 * P * B + B" by (simp_all add: algebra_simps)
  ultimately show False using Q B by linarith
qed

text \<open>The residual is computed modulo the word and is exact.\<close>

lemma residual_value:
  fixes a b q :: "'r word" and n :: nat
  defines "Y \<equiv> unat a * 2 ^ n"
  assumes q: "unat q * unat b \<le> Y" "2 * Y < (2 * unat q + 3) * unat b" and b: "unat b < 2 * 2 ^ significandBits F"
  shows "unat (shl (shl a n - product q b) 1) = 2 * (Y - unat q * unat b)"
proof -
  have "shl a n - product q b = of_nat Y - of_nat (unat q * unat b)"
    by (simp add: product Y_def push_bit_eq_mult)
  also have "\<dots> = of_nat (Y - unat q * unat b)" by (simp only: of_nat_diff [OF q(1)])
  finally have r: "shl a n - product q b = of_nat (Y - unat q * unat b)" .
  have "(2 * unat q + 3) * unat b = 2 * (unat q * unat b) + 3 * unat b" by (simp add: distrib_right)
  then have "2 * (Y - unat q * unat b) < 3 * unat b" using q by linarith
  moreover have "3 * unat b \<le> 2 ^ LENGTH('r)"
  proof -
    have "8 * 2 ^ significandBits F = (2::nat) ^ (significandBits F + 3)" by (simp add: power_add)
    also have "\<dots> \<le> 2 ^ LENGTH('r)" using width exponent_bits by (intro power_increasing) auto
    finally show ?thesis using b by linarith
  qed
  ultimately have "2 * (Y - unat q * unat b) < 2 ^ LENGTH('r)" by (rule less_le_trans)
  moreover from this have "unat (of_nat (Y - unat q * unat b) :: 'r word) = Y - unat q * unat b"
    by (simp add: unsigned_of_nat take_bit_nat_eq_self)
  ultimately show ?thesis
    unfolding r using unat_shl_small [of "of_nat (Y - unat q * unat b) :: 'r word" 1] by (simp add: mult.commute)
qed

text \<open>The normalised quotient: at least half of the exact one is subtracted, an exponent \<open>j\<close> is taken off.\<close>

lemma normalise_quotient:
  fixes a b :: "'r word"
  defines "P \<equiv> 2 ^ significandBits F :: nat"
  assumes a: "P \<le> unat a" "unat a < 2 * P" and b: "P \<le> unat b" "unat b < 2 * P"
  obtains quot residual j where "j \<le> 1" "P \<le> unat quot" "unat quot < 2 * P"
    "unat quot * unat b \<le> 2 ^ j * P * unat a" "2 * (2 ^ j * P * unat a) < (2 * unat quot + 3) * unat b"
    "unat (shl residual 1) = 2 * (2 ^ j * P * unat a - unat quot * unat b)"
    "(if quotient_of a b < shl (implicitBit F) 1 then
        (quotient_of a b, shl a (significandBits F + 1) - product (quotient_of a b) b, e - 1)
      else let quot = shr (quotient_of a b) 1
        in (quot, shl a (significandBits F) - product quot b, e :: int)) = (quot, residual, e - int j)"
proof -
  define Q where "Q = unat (quotient_of a b)"
  have Q: "Q * unat b \<le> 2 * P * unat a" "4 * P * unat a < (2 * Q + 3) * unat b"
    using quotient_close [of a b] a b by (simp_all add: P_def Q_def)
  have "P \<le> Q" using a(1) b(2) Q(2) by (rule quotient_range)
  have two: "unat (shl (implicitBit F) 1) = 2 * P"
  proof -
    have "(2::nat) ^ Suc (significandBits F) < 2 ^ LENGTH('r)" using width exponent_bits by (intro power_strict_increasing) auto
    then show ?thesis by (subst unat_shl_small) (simp_all add: unat_implicitBit P_def)
  qed
  show thesis
  proof (cases "Q < 2 * P")
    case True
    have Y: "unat a * 2 ^ (significandBits F + 1) = 2 ^ 1 * P * unat a" by (simp add: P_def)
    have lim: "Q * unat b \<le> 2 ^ 1 * P * unat a" "2 * (2 ^ 1 * P * unat a) < (2 * Q + 3) * unat b" using Q by simp_all
    then have res: "unat (shl (shl a (significandBits F + 1) - product (quotient_of a b) b) 1) = 2 * (2 ^ 1 * P * unat a - Q * unat b)"
      using residual_value [of "quotient_of a b" b a "significandBits F + 1"] b(2)
      unfolding Y Q_def P_def by blast
    have "(if quotient_of a b < shl (implicitBit F) 1 then
        (quotient_of a b, shl a (significandBits F + 1) - product (quotient_of a b) b, e - 1)
      else let quot = shr (quotient_of a b) 1
        in (quot, shl a (significandBits F) - product quot b, e))
      = (quotient_of a b, shl a (significandBits F + 1) - product (quotient_of a b) b, e - int 1)"
      using True two by (simp add: word_less_nat_alt Q_def)
    with \<open>P \<le> Q\<close> True lim res show thesis
      unfolding Q_def by (intro that [of 1 "quotient_of a b"]) simp_all
  next
    case False
    define q where "q = Q div 2"
    have uq: "unat (shr (quotient_of a b) 1) = q" by (simp add: unat_shr q_def Q_def)
    have q: "2 * q \<le> Q" "Q \<le> 2 * q + 1" by (simp_all add: q_def)
    have "2 * q * unat b \<le> 2 * P * unat a" using q(1) Q(1) by (meson le_trans mult_le_mono1)
    then have qb: "q * unat b \<le> P * unat a" by simp
    have "(2 * Q + 3) * unat b \<le> (4 * q + 6) * unat b" using q(2) by (intro mult_le_mono1) simp
    then have "2 * (2 * (P * unat a)) < 2 * ((2 * q + 3) * unat b)" using Q(2) by (simp add: algebra_simps)
    then have lim: "2 * (P * unat a) < (2 * q + 3) * unat b" by (simp only: mult_less_cancel1)
    have "q < 2 * P"
    proof -
      have "Q * P \<le> Q * unat b" using b(1) by simp
      also have "\<dots> \<le> 2 * P * unat a" by (rule Q(1))
      also have "\<dots> < 2 * P * (2 * P)" using a(2) by (simp add: P_def)
      finally have "Q * P < 4 * P * P" by simp
      then have "Q < 4 * P" by simp
      then show ?thesis by (simp add: q_def)
    qed
    moreover have "P \<le> q" using False by (simp add: q_def)
    moreover have "unat (shl (shl a (significandBits F) - product (shr (quotient_of a b) 1) b) 1) = 2 * (2 ^ 0 * P * unat a - q * unat b)"
    proof -
      have Y: "unat a * 2 ^ significandBits F = 2 ^ 0 * P * unat a" by (simp add: P_def)
      have "2 * (2 ^ 0 * P * unat a) < (2 * q + 3) * unat b" "q * unat b \<le> 2 ^ 0 * P * unat a" using lim qb by simp_all
      then show ?thesis
        using residual_value [of "shr (quotient_of a b) 1" b a "significandBits F"] b(2)
        unfolding Y uq P_def by blast
    qed
    moreover have "(if quotient_of a b < shl (implicitBit F) 1 then
        (quotient_of a b, shl a (significandBits F + 1) - product (quotient_of a b) b, e - 1)
      else let quot = shr (quotient_of a b) 1
        in (quot, shl a (significandBits F) - product quot b, e))
      = (shr (quotient_of a b) 1, shl a (significandBits F) - product (shr (quotient_of a b) 1) b, e - int 0)"
      using False two by (simp add: word_less_nat_alt Q_def Let_def)
    ultimately show thesis
      using qb lim unfolding uq [symmetric] by (intro that [of 0 "shr (quotient_of a b) 1"]) simp_all
  qed
qed

end

context fp_div
begin

lemma div_scale:
  fixes S T Ma Mb D :: nat
  assumes "Ma * P = S * 2 ^ na" "Mb * P = T * 2 ^ nb" "2 ^ j * P * 2 ^ nb * 2 ^ n = D * 2 ^ K * 2 ^ na"
  shows "2 ^ j * P * S * (Mb * 2 ^ n) = Ma * D * T * 2 ^ K"
proof -
  have "2 ^ j * P * S * (Mb * 2 ^ n) * 2 ^ na = (S * 2 ^ na) * (Mb * P) * 2 ^ j * 2 ^ n" by (simp only: ac_simps)
  also have "\<dots> = (Ma * P) * (T * 2 ^ nb) * 2 ^ j * 2 ^ n" by (simp only: assms(1) [symmetric] assms(2))
  also have "\<dots> = Ma * T * (2 ^ j * P * 2 ^ nb * 2 ^ n)" by (simp only: ac_simps)
  also have "\<dots> = Ma * T * (D * 2 ^ K * 2 ^ na)" by (simp only: assms(3))
  also have "\<dots> = Ma * D * T * 2 ^ K * 2 ^ na" by (simp only: ac_simps)
  finally show ?thesis by simp
qed

lemma div_finite_eq:
  fixes a b :: "'r word"
  assumes fin: "is_finite F a" "is_finite F b" and nz: "rep_abs a \<noteq> 0" "rep_abs b \<noteq> 0"
    and s: "mul_normalize F a = (s, ka)" "mul_normalize F b = (t, kb)"
  defines "expo x \<equiv> ucast (shr x (significandBits F) AND word_of_int (maxExponent F)) :: c_unsigned"
  shows "flushed F (magnitude F a * 2 ^ (nat (exponentBias F) + significandBits F - 1)) (magnitude F b)
    (rep_sign a \<noteq> rep_sign b)
    (div_finite F quotient_of product exceeds ((a XOR b) AND signBit F) (expo a) (expo b) s t (ka - kb))"
proof -
  let ?P = "2 ^ significandBits F :: nat"
  define ea eb where "ea = int (rep_abs a div ?P) + ka" and "eb = int (rep_abs b div ?P) + kb"
  note ua = mul_normalize_unpack [OF s(1), folded ea_def] and ub = mul_normalize_unpack [OF s(2), folded eb_def]
  define A B where "A = s OR implicitBit F" and "B = t OR implicitBit F"
  define na nb where "na = nat (ea - 1 + int (significandBits F))" and "nb = nat (eb - 1 + int (significandBits F))"
  have A: "?P \<le> unat A" "unat A < 2 * ?P" "1 - int (significandBits F) \<le> ea" "ea < maxExponent F"
      "magnitude F a * ?P = unat A * 2 ^ na"
    using add_unpack_eq [OF fin(1) nz(1)] ua by (auto simp: A_def na_def)
  have B: "?P \<le> unat B" "unat B < 2 * ?P" "1 - int (significandBits F) \<le> eb" "eb < maxExponent F"
      "magnitude F b * ?P = unat B * 2 ^ nb"
    using add_unpack_eq [OF fin(2) nz(2)] ub by (auto simp: B_def nb_def)
  define e0 where "e0 = ea - eb"
  obtain quot residual j where j: "j \<le> 1" and q: "?P \<le> unat quot" "unat quot < 2 * ?P"
    and Y: "unat quot * unat B \<le> 2 ^ j * ?P * unat A" "2 * (2 ^ j * ?P * unat A) < (2 * unat quot + 3) * unat B"
    and res: "unat (shl residual 1) = 2 * (2 ^ j * ?P * unat A - unat quot * unat B)"
    and norm: "(if quotient_of A B < shl (implicitBit F) 1 then
        (quotient_of A B, shl A (significandBits F + 1) - product (quotient_of A B) B, e0 - 1)
      else let quot = shr (quotient_of A B) 1
        in (quot, shl A (significandBits F) - product quot B, e0)) = (quot, residual, e0 - int j)"
    using normalise_quotient [OF A(1,2) B(1,2), of e0] .
  have "expo a - expo b + word_of_int (ka - kb) = (word_of_int e0 :: c_unsigned)"
    unfolding expo_def exponent_field_word by (simp add: e0_def ea_def eb_def)
  moreover have small: "\<bar>e0\<bar> < 2 ^ 20"
    using A(3,4) B(3,4) maxExponent_bounds fraction_bits by (simp add: e0_def)
  then have "sint (word_of_int e0 :: c_unsigned) = e0" by (intro sint_c_int) simp_all
  ultimately have run: "div_finite F quotient_of product exceeds ((a XOR b) AND signBit F) (expo a) (expo b) s t (ka - kb)
      = div_round F exceeds ((a XOR b) AND signBit F) quot residual B (e0 - int j + exponentBias F)"
    unfolding div_finite_def Let_def A_def [symmetric] B_def [symmetric] by (simp only: norm [unfolded Let_def] prod.case)
  define e K where "e = e0 - int j + exponentBias F" and "K = 2 * significandBits F + 2 * nat (exponentBias F) + 4"
  have e: "1 \<le> e + int K"
    using A(3) B(4) j maxExponent_bias exponentBias_bounds by (simp add: e_def e0_def K_def)
  have "2 ^ j * ?P * 2 ^ nb * 2 ^ nat (e - 1 + int K) = 2 ^ (nat (exponentBias F) + significandBits F - 1) * 2 ^ K * (2::nat) ^ na"
  proof -
    have "j + significandBits F + nb + nat (e - 1 + int K) = nat (exponentBias F) + significandBits F - 1 + K + na"
      using e A(3) B(3) fraction_bits exponentBias_bounds unfolding na_def nb_def by (simp add: e_def e0_def)
    then show ?thesis by (simp only: flip: power_add)
  qed
  then have exact: "2 ^ j * ?P * unat A * (magnitude F b * 2 ^ nat (e - 1 + int K))
      = magnitude F a * 2 ^ (nat (exponentBias F) + significandBits F - 1) * unat B * 2 ^ K"
    by (rule div_scale [OF A(5) B(5)])
  have pos: "0 < unat B" "0 < magnitude F b"
    using B(1) nz(2) mag_pos_iff [of "significandBits F" "rep_abs b"] by (simp_all add: magnitude_def less_le_trans [of 0 ?P])
  have tie: "2 * (2 ^ j * ?P * unat A) \<noteq> (2 * unat quot + 1) * unat B" using pos(1) B(2) by (rule no_tie)
  have "shl residual 1 \<noteq> B"
  proof
    assume "shl residual 1 = B"
    then have "unat B = 2 * (2 ^ j * ?P * unat A - unat quot * unat B)" using res by simp
    moreover have "(2 * unat quot + 1) * unat B = 2 * (unat quot * unat B) + unat B" by (simp add: distrib_right)
    ultimately show False using Y(1) tie by linarith
  qed
  then have ex: "exceeds (shl residual 1) B \<longleftrightarrow> B < shl residual 1" by (rule exceeds)
  have "flushed F (magnitude F a * 2 ^ (nat (exponentBias F) + significandBits F - 1)) (magnitude F b)
      (rep_sign (a XOR b)) (div_round F exceeds ((a XOR b) AND signBit F) quot residual B e)"
    by (rule div_round_eq [where exceeds = exceeds, OF q pos res ex Y tie e exact])
  then show ?thesis by (simp add: run e_def xor_sign)
qed

lemma div_special_eq:
  fixes a b s :: "'r word"
  shows "div_special F a b s =
    (if is_nan F a then Some (a OR quietBit F) else if is_nan F b then Some (b OR quietBit F)
     else if is_inf F a then Some (if is_inf F b then qnanRep F else infRep F OR s)
     else if is_inf F b then Some s
     else if rep_abs a = 0 then Some (if rep_abs b = 0 then qnanRep F else s)
     else if rep_abs b = 0 then Some (infRep F OR s) else None)"
  unfolding div_special_def Let_def toRep_def fromRep_def nan_iff inf_iff zero_iff by (simp add: inf_iff [symmetric])

lemma divXf3_correct: "ieee_quotient F a b (divXf3 F quotient_of product exceeds a b)" for a b :: "'r word"
proof (cases "is_finite F a \<and> is_finite F b \<and> rep_abs a \<noteq> 0 \<and> rep_abs b \<noteq> 0")
  case True
  obtain s ka where s: "mul_normalize F a = (s, ka)" by fastforce
  obtain t kb where t: "mul_normalize F b = (t, kb)" by fastforce
  have ns: "s = a AND significandMask F \<and> ka = 0" if "rep_abs a div 2 ^ significandBits F \<noteq> 0"
    using s that by (auto simp: mul_normalize_def word_less_nat_alt unat_implicitBit split: if_splits)
  have nt: "t = b AND significandMask F \<and> kb = 0" if "rep_abs b div 2 ^ significandBits F \<noteq> 0"
    using t that by (auto simp: mul_normalize_def word_less_nat_alt unat_implicitBit split: if_splits)
  have "div_special F a b ((a XOR b) AND signBit F) = None"
    using True by (simp add: div_special_eq is_nan_def is_inf_def is_finite_def)
  then have "divXf3 F quotient_of product exceeds a b = div_finite F quotient_of product exceeds ((a XOR b) AND signBit F)
      (ucast (shr a (significandBits F) AND word_of_int (maxExponent F)))
      (ucast (shr b (significandBits F) AND word_of_int (maxExponent F))) s t (ka - kb)"
    unfolding divXf3_def Let_def toRep_def fromRep_def exponent_test
    using True s t ns nt by (auto split: if_splits)
  then show ?thesis
    using div_finite_eq [OF _ _ _ _ s t] True
    by (simp add: ieee_quotient_def is_nan_def is_inf_def is_finite_def)
next
  case False
  then obtain r where r: "div_special F a b ((a XOR b) AND signBit F) = Some r"
    using classes [of a] classes [of b] by (cases "div_special F a b ((a XOR b) AND signBit F)") (auto simp: div_special_eq split: if_splits)
  have "divXf3 F quotient_of product exceeds a b = r"
    unfolding divXf3_def Let_def toRep_def fromRep_def exponent_test using False r by auto
  moreover have "ieee_quotient F a b r"
  proof -
    have "flushed F 0 den (rep_sign a \<noteq> rep_sign b) ((a XOR b) AND signBit F)" for den
      by (simp add: flushed_def zero_signed xor_sign)
    moreover have "magnitude F x = 0" if "rep_abs x = 0" for x :: "'r word" using that by (simp add: magnitude_def)
    moreover have "\<not> is_inf F x" if "rep_abs x = 0" for x :: "'r word"
      using that infty_rep_pos by (simp add: is_inf_def)
    ultimately show ?thesis
      using r by (auto simp: div_special_eq ieee_quotient_def quieten_nan qnan_is_nan infinity_signed xor_sign zero_signed
        split: if_splits)
  qed
  ultimately show ?thesis by simp
qed

end


section \<open>The three quotients\<close>

lemma quotient_of_product:
  fixes Q U n :: nat
  assumes "Q = n div U" "0 < U"
  shows "Q * U \<le> n" and "16 * n < (16 * Q + 17) * U"
proof -
  show "Q * U \<le> n" by (simp add: assms(1))
  have "n < (Q + 1) * U" using assms div_less_iff_less_mult [of U n "Q + 1"] by simp
  then have "16 * n < 16 * ((Q + 1) * U)" by simp
  also have "\<dots> \<le> (16 * Q + 17) * U" by (simp add: algebra_simps)
  finally show "16 * n < (16 * Q + 17) * U" .
qed

lemma quotient_bounds_nat:
  fixes A B P Q X G m U E' :: nat
  assumes "P \<le> A" "A < 2 * P" "P \<le> B" "B < 2 * P" "0 < G" "0 < P" "0 < m" "U = 2 * P * G"
    and "int m * K = int (U * U)" "int X * int (B * G) = K - E" "0 \<le> E" "E \<le> int (E' * U)" "32 * (m * E') \<le> 7 * G"
    and "Q * U \<le> m * A * X" "16 * (m * A * X) < (16 * Q + 17) * U"
  shows "Q * B \<le> 2 * P * A \<and> 4 * P * A < (2 * Q + 3) * B"
proof -
  have "int (32 * (m * E')) \<le> int (7 * G)" "int (Q * U) \<le> int (m * A * X)" "int (16 * (m * A * X)) < int ((16 * Q + 17) * U)"
    using assms(13-15) by (simp_all only: of_nat_le_iff of_nat_less_iff)
  then have "int Q * int B \<le> 2 * int P * int A" "4 * int P * int A < (2 * int Q + 3) * int B"
    using assms(1-12)
      quotient_bounds [of "int P" "int A" "int B" "int G" "int m" "int U" "int (B * G)" K "int X" E "int E'" "int Q"]
    by simp_all
  then have "int (Q * B) \<le> int (2 * P * A)" "int (4 * P * A) < int ((2 * Q + 3) * B)" by simp_all
  then show ?thesis unfolding of_nat_le_iff of_nat_less_iff by blast
qed

lemma quotient_single_close:
  assumes a: "2 ^ 23 \<le> unat a" "unat a < 2 * 2 ^ 23" and b: "2 ^ 23 \<le> unat b" "unat b < 2 * 2 ^ 23"
  shows "unat (quotient_single a b) * unat b \<le> 2 * 2 ^ 23 * unat a \<and>
    4 * 2 ^ 23 * unat a < (2 * unat (quotient_single a b) + 3) * unat b"
proof -
  define q where "q = shl b 8"
  have q: "unat q = unat b * 256" unfolding q_def using b by (subst unat_shl_small) simp_all
  define r where "r = unat (estimate32 q - 2)"
  have r: "- (2 ^ 32) + 2 * int (unat q) < recip_error 32 (unat q) r" "recip_error 32 (unat q) r \<le> 7 * 2 ^ 32 + 3 * int (unat q)"
    using estimate32_adjusted [of q 2] b by (simp_all add: q r_def)
  define Q where "Q = unat (quotient_single a b)"
  have Q: "Q = r * (2 * unat a) div 2 ^ 32"
  proof -
    have "unat (shl a 1) = 2 * unat a" using a by (subst unat_shl_small) simp_all
    then have "unat (shr (ucast (estimate32 q - 2) * ucast (shl a 1) :: 64 word) 32) = r * (2 * unat a) div 2 ^ 32"
      by (simp add: unat_shr unat_wide_times r_def)
    moreover have "r * (2 * unat a) div 2 ^ 32 < 2 ^ 32"
    proof -
      have "r < 2 ^ 32" using unat_less_exp_len [of "estimate32 q - 2"] by (simp add: r_def)
      then have "r * (2 * unat a) < 2 ^ 32 * 2 ^ 32" using a by (intro mult_strict_mono) simp_all
      then show ?thesis by (rule less_mult_imp_div_less)
    qed
    ultimately show ?thesis
      by (simp add: Q_def quotient_single_def Let_def unsigned_ucast_eq take_bit_nat_eq_self flip: q_def)
  qed
  have q2: "2 ^ 31 \<le> unat q" "unat q < 2 ^ 32" using b by (simp_all add: q)
  show ?thesis unfolding Q_def [symmetric]
  proof (rule quotient_bounds_nat [OF a b])
    show "int r * int (unat b * 256) = 2 ^ 63 - recip_error 32 (unat q) r" unfolding q [symmetric] by (simp add: recip_error_def)
    have "int (2 ^ 31) \<le> int (unat q)" "int (unat q) \<le> int (2 ^ 32)" using q2 by (simp_all only: of_nat_le_iff)
    then show "0 \<le> recip_error 32 (unat q) r" "recip_error 32 (unat q) r \<le> int (10 * 2 ^ 32)" using r by simp_all
    show "Q * 2 ^ 32 \<le> 2 * unat a * r" "16 * (2 * unat a * r) < (16 * Q + 17) * 2 ^ 32"
      using quotient_of_product [OF Q] by (simp_all add: ac_simps)
  qed simp_all
qed

interpretation single: fp_div single_precision quotient_single "\<lambda>quot bSignificand. quot * bSignificand" "(>)"
  by unfold_locales (use quotient_single_close in simp_all)


lemma quotient_double_close:
  assumes a: "2 ^ 52 \<le> unat a" "unat a < 2 * 2 ^ 52" and b: "2 ^ 52 \<le> unat b" "unat b < 2 * 2 ^ 52"
  shows "unat (quotient_double a b) * unat b \<le> 2 * 2 ^ 52 * unat a \<and>
    4 * 2 ^ 52 * unat a < (2 * unat (quotient_double a b) + 3) * unat b"
proof -
  define q l where "q = (ucast (shr b 21) :: 32 word)" and "l = (ucast (shl b 11) :: 32 word)"
  have "unat b div 2 ^ 21 < 2 ^ 32" using b by (intro less_mult_imp_div_less) simp
  then have q: "unat q = unat b div 2 ^ 21" by (simp add: q_def unsigned_ucast_eq unat_shr take_bit_nat_eq_self)
  have "unat (shl b 11) = unat b * 2 ^ 11" using b by (subst unat_shl_small) simp_all
  then have "unat l = (unat b * 2 ^ 11) mod (2 ^ 21 * 2 ^ 11)" by (simp add: l_def unsigned_ucast_eq take_bit_eq_mod)
  then have l: "unat l = (unat b mod 2 ^ 21) * 2 ^ 11" by (simp only: mod_mult_mult2)
  have ql: "unat q * 2 ^ 32 + unat l = unat b * 2 ^ 11"
  proof -
    have "x * 2 ^ 32 + y * 2 ^ 11 = (x * 2 ^ 21 + y) * 2 ^ 11" for x y :: nat by simp
    then show ?thesis unfolding q l by (simp only: div_mult_mod_eq)
  qed
  have q2: "2 ^ 31 \<le> unat q" using div_le_mono [OF b(1), of "2 ^ 21"] by (simp add: q)
  define r where "r = estimate32 q - 1"
  have r: "- (2 ^ 32) + int (unat q) < recip_error 32 (unat q) (unat r)" "recip_error 32 (unat q) (unat r) \<le> 7 * 2 ^ 32 + 2 * int (unat q)"
    using estimate32_adjusted [OF q2, of 1] by (simp_all add: r_def)
  have less: "unat q < 2 ^ 32" "unat l < 2 ^ 32" "unat r < 2 ^ 32"
    using unat_less_exp_len [of q] unat_less_exp_len [of l] unat_less_exp_len [of r] by simp_all
  have "int (unat q) \<le> int (2 ^ 32)" using less by (simp only: of_nat_le_iff)
  then have "- (2 ^ 32) < recip_error 32 (unat q) (unat r)" "recip_error 32 (unat q) (unat r) \<le> 9 * 2 ^ 32"
    using r unfolding of_nat_power of_nat_numeral by linarith+
  then have D: "- int (2 * 2 ^ 31) < int (2 ^ 31 * (2 * 2 ^ 31)) - int (unat r) * int (unat q)"
    "int (2 ^ 31 * (2 * 2 ^ 31)) - int (unat r) * int (unat q) \<le> int 9 * int (2 * 2 ^ 31)"
    by (simp_all add: recip_error_def)
  define k where "k = unat r * (unat q * 2 ^ 32 + unat l) div 2 ^ 32"
  define R where "R = unat r * (2 ^ 64 - k) div 2 ^ 32"
  have last: "0 < k" "2 \<le> R" "0 \<le> 2 ^ 126 - int (R - 2) * int (unat q * 2 ^ 32 + unat l)"
    "2 ^ 126 - int (R - 2) * int (unat q * 2 ^ 32 + unat l) \<le> int (84 * 2 ^ 64)"
    using last_estimate [of "2 ^ 31" "unat q" "unat l" "unat r" 9] q2 less D by (simp_all add: R_def k_def)
  define correction :: "64 word" where "correction = - (ucast r * ucast q + shr (ucast r * ucast l) 32)"
  define recip where "recip = ucast r * ucast (ucast (shr correction 32) :: 32 word) + shr (ucast r * ucast (ucast correction :: 32 word)) 32 - (2 :: 64 word)"
  have "unat (ucast r * ucast (ucast (shr correction 32) :: 32 word) + shr (ucast r * ucast (ucast correction :: 32 word)) 32 :: 64 word) = R"
    using last_step [where 'h = 32 and 'd = 64, of correction r q l] last(1) by (simp add: correction_def R_def k_def)
  then have recip: "unat recip = R - 2" using last(2) unfolding recip_def by (subst unat_minus_le) (simp_all add: word_le_nat_alt)
  define Q where "Q = unat (quotient_double a b)"
  obtain hi lo where w: "wideMultiply_double (shl a 2) recip = (hi, lo)" by fastforce
  have "unat (shl a 2) = 4 * unat a" using a by (subst unat_shl_small) simp_all
  then have prod: "unat hi * 2 ^ 64 + unat lo = 4 * unat a * (R - 2)"
    using wideMultiply_double_exact [OF w] by (simp only: recip)
  have "unat lo < 2 ^ 64" using unat_less_exp_len [of lo] by simp
  then have "unat hi = 4 * unat a * (R - 2) div 2 ^ 64" unfolding prod [symmetric] by simp
  moreover have "quotient_double a b = hi"
    unfolding quotient_double_def Let_def q_def [symmetric] l_def [symmetric] r_def [symmetric]
        correction_def [symmetric] recip_def [symmetric] w prod.case ..
  ultimately have Q: "Q = 4 * unat a * (R - 2) div 2 ^ 64" by (simp add: Q_def)
  show ?thesis unfolding Q_def [symmetric]
  proof (rule quotient_bounds_nat [OF a b])
    show "int (R - 2) * int (unat b * 2 ^ 11) = 2 ^ 126 - (2 ^ 126 - int (R - 2) * int (unat q * 2 ^ 32 + unat l))"
      by (simp only: ql)
    show "Q * 2 ^ 64 \<le> 4 * unat a * (R - 2)" "16 * (4 * unat a * (R - 2)) < (16 * Q + 17) * 2 ^ 64"
      using quotient_of_product [OF Q] by simp_all
    show "2 ^ 126 - int (R - 2) * int (unat q * 2 ^ 32 + unat l) \<le> int (84 * 2 ^ 64)" by (rule last(4))
  qed (use last(3) in simp_all)
qed

interpretation double: fp_div double_precision quotient_double "\<lambda>quot bSignificand. quot * bSignificand" "(>)"
  by unfold_locales (use quotient_double_close in simp_all)


text \<open>The quotient of quadruple precision meets the carry that its 128-bit product drops only when the low
  word of the product is tiny; the quotient is one too small then, which the bounds still cover.\<close>

lemma wideMultiply_quad_low: "snd (wideMultiply_quad a b) = a * b"
  using wideMultiply_quad_value(1) [of a b "fst (wideMultiply_quad a b)" "snd (wideMultiply_quad a b)"] by simp

lemma wideMultiply_quad_high:
  assumes w: "wideMultiply_quad a b = (hi, lo)"
  shows "unat hi * 2 ^ 128 \<le> unat a * unat b" and "16 * (unat a * unat b) < (16 * unat hi + 17) * 2 ^ 128"
proof -
  have v: "unat hi * 2 ^ 128 + unat lo + (if quad_carry (unat a) (unat b) then 2 ^ 128 else 0) = unat a * unat b"
    using wideMultiply_quad_value(2) [OF w] by (simp add: wide_def)
  then show "unat hi * 2 ^ 128 \<le> unat a * unat b" by linarith
  have lo: "unat lo < 2 ^ 128" using unat_less_exp_len [of lo] by simp
  have "unat lo < 2 ^ 65" if "quad_carry (unat a) (unat b)"
  proof -
    have "unat a * unat b mod 2 ^ 128 = unat lo" unfolding v [symmetric] using lo that by simp
    then show ?thesis using quad_carry_small [OF that] by simp
  qed
  then show "16 * (unat a * unat b) < (16 * unat hi + 17) * 2 ^ 128"
    using v lo by (cases "quad_carry (unat a) (unat b)") simp_all
qed

lemma quotient_quad_close:
  assumes a: "2 ^ 112 \<le> unat a" "unat a < 2 * 2 ^ 112" and b: "2 ^ 112 \<le> unat b" "unat b < 2 * 2 ^ 112"
  shows "unat (quotient_quad a b) * unat b \<le> 2 * 2 ^ 112 * unat a \<and>
    4 * 2 ^ 112 * unat a < (2 * unat (quotient_quad a b) + 3) * unat b"
proof -
  define q l where "q = (ucast (shr b 49) :: 64 word)" and "l = (ucast (shl b 15) :: 64 word)"
  have "unat b div 2 ^ 49 < 2 ^ 64" using b by (intro less_mult_imp_div_less) simp
  then have q: "unat q = unat b div 2 ^ 49" by (simp add: q_def unsigned_ucast_eq unat_shr take_bit_nat_eq_self)
  have "unat (shl b 15) = unat b * 2 ^ 15" using b by (subst unat_shl_small) simp_all
  then have "unat l = (unat b * 2 ^ 15) mod (2 ^ 49 * 2 ^ 15)" by (simp add: l_def unsigned_ucast_eq take_bit_eq_mod)
  then have l: "unat l = (unat b mod 2 ^ 49) * 2 ^ 15" by (simp only: mod_mult_mult2)
  have ql: "unat q * 2 ^ 64 + unat l = unat b * 2 ^ 15"
  proof -
    have "x * 2 ^ 64 + y * 2 ^ 15 = (x * 2 ^ 49 + y) * 2 ^ 15" for x y :: nat by simp
    then show ?thesis unfolding q l by (simp only: div_mult_mod_eq)
  qed
  have q2: "2 ^ 63 \<le> unat q" using div_le_mono [OF b(1), of "2 ^ 49"] by (simp add: q)
  define r where "r = estimate64 q - 1"
  have r: "- (2 ^ 64) + int (unat q) < recip_error 64 (unat q) (unat r)" "recip_error 64 (unat q) (unat r) \<le> 2 ^ 64 + 2 * int (unat q)"
    using estimate64_adjusted [OF q2, of 1] by (simp_all add: r_def)
  have less: "unat q < 2 ^ 64" "unat l < 2 ^ 64" "unat r < 2 ^ 64"
    using unat_less_exp_len [of q] unat_less_exp_len [of l] unat_less_exp_len [of r] by simp_all
  have "int (unat q) \<le> int (2 ^ 64)" using less by (simp only: of_nat_le_iff)
  then have "- (2 ^ 64) < recip_error 64 (unat q) (unat r)" "recip_error 64 (unat q) (unat r) \<le> 3 * 2 ^ 64"
    using r unfolding of_nat_power of_nat_numeral by linarith+
  then have D: "- int (2 * 2 ^ 63) < int (2 ^ 63 * (2 * 2 ^ 63)) - int (unat r) * int (unat q)"
    "int (2 ^ 63 * (2 * 2 ^ 63)) - int (unat r) * int (unat q) \<le> int 3 * int (2 * 2 ^ 63)"
    by (simp_all add: recip_error_def)
  define k where "k = unat r * (unat q * 2 ^ 64 + unat l) div 2 ^ 64"
  define R where "R = unat r * (2 ^ 128 - k) div 2 ^ 64"
  have last: "0 < k" "2 \<le> R" "0 \<le> 2 ^ 254 - int (R - 2) * int (unat q * 2 ^ 64 + unat l)"
    "2 ^ 254 - int (R - 2) * int (unat q * 2 ^ 64 + unat l) \<le> int (12 * 2 ^ 128)"
    using last_estimate [of "2 ^ 63" "unat q" "unat l" "unat r" 3] q2 less D by (simp_all add: R_def k_def)
  define correction :: "128 word" where "correction = - (ucast r * ucast q + shr (ucast r * ucast l) 64)"
  define recip where "recip = ucast r * ucast (ucast (shr correction 64) :: 64 word) + shr (ucast r * ucast (ucast correction :: 64 word)) 64 - (2 :: 128 word)"
  have "unat (ucast r * ucast (ucast (shr correction 64) :: 64 word) + shr (ucast r * ucast (ucast correction :: 64 word)) 64 :: 128 word) = R"
    using last_step [where 'h = 64 and 'd = 128, of correction r q l] last(1) by (simp add: correction_def R_def k_def)
  then have recip: "unat recip = R - 2" using last(2) unfolding recip_def by (subst unat_minus_le) (simp_all add: word_le_nat_alt)
  define Q where "Q = unat (quotient_quad a b)"
  obtain hi lo where w: "wideMultiply_quad (shl a 2) recip = (hi, lo)" by fastforce
  have shift: "unat (shl a 2) = 4 * unat a" using a by (subst unat_shl_small) simp_all
  have "quotient_quad a b = hi"
    unfolding quotient_quad_def Let_def q_def [symmetric] l_def [symmetric] r_def [symmetric] case_prod_unfold wideMultiply_quad_low
        correction_def [symmetric] recip_def [symmetric] w fst_conv ..
  then have Q: "Q = unat hi" by (simp add: Q_def)
  show ?thesis unfolding Q_def [symmetric]
  proof (rule quotient_bounds_nat [OF a b])
    show "int (R - 2) * int (unat b * 2 ^ 15) = 2 ^ 254 - (2 ^ 254 - int (R - 2) * int (unat q * 2 ^ 64 + unat l))"
      by (simp only: ql)
    show "Q * 2 ^ 128 \<le> 4 * unat a * (R - 2)" "16 * (4 * unat a * (R - 2)) < (16 * Q + 17) * 2 ^ 128"
      using wideMultiply_quad_high [OF w] unfolding Q recip shift by (simp_all only: mult.assoc)
    show "2 ^ 254 - int (R - 2) * int (unat q * 2 ^ 64 + unat l) \<le> int (12 * 2 ^ 128)" by (rule last(4))
  qed (use last(3) in simp_all)
qed

interpretation quad: fp_div quad_precision quotient_quad
    "\<lambda>quot bSignificand. let (dummy, qb) = wideMultiply_quad quot bSignificand in qb" "(\<ge>)"
  by unfold_locales (use quotient_quad_close wideMultiply_quad_low in \<open>auto simp: case_prod_unfold\<close>)

section \<open>Properties\<close>

text \<open>C4. Division in each of the three precisions returns the exact quotient of finite operands, subnormal ones
  included, rounded to nearest with ties to even, overflow to infinity included; results below the smallest
  normal number are flushed to a zero of the right sign.  NaNs, infinities and zeros follow IEEE 754.\<close>

theorem division_correct:
  "ieee_quotient single_precision a b (divsf3 a b) \<and> ieee_quotient double_precision c d (divdf3 c d) \<and>
   ieee_quotient quad_precision e f (divtf3 e f)"
  unfolding divsf3_def divdf3_def divtf3_def
  using single.divXf3_correct double.divXf3_correct quad.divXf3_correct by blast

end
