(* ===== verification/Fp_Power.thy ===== *)
theory Fp_Power
  imports Fp_Div
begin

text \<open>
  Integer powers: \<open>powisf2.c\<close>, \<open>powidf2.c\<close> and \<open>powitf2.c\<close>, repeated squaring over the multiplication and
  the division of the format.  The operators of C are the routines of theories \<open>Fp_Mul\<close> and \<open>Fp_Div\<close>, which
  the compiler calls on a target without a floating-point unit.
\<close>

section \<open>Halving\<close>

text \<open>Halving towards zero halves the absolute value, also for the smallest integer.\<close>

lemma sint_half: "sint (sdiv_c b 2) = sint b sdiv 2" for b :: si_int
proof -
  have "\<bar>sint b sdiv 2\<bar> \<le> \<bar>sint b\<bar> div 2" by (simp add: signed_divide_int_def abs_mult sgn_if)
  moreover have "\<bar>sint b\<bar> \<le> 2 ^ 31" using sint_ge [of b] sint_lt [of b] by simp
  then have "\<bar>sint b\<bar> div 2 \<le> 2 ^ 31 div 2" by (intro zdiv_mono1) simp_all
  ultimately have "\<bar>sint b sdiv 2\<bar> \<le> 2 ^ 30" by simp
  then have "- (2 ^ 31) \<le> sint b sdiv 2" "sint b sdiv 2 < 2 ^ 31" by (simp_all add: abs_le_iff)
  then show ?thesis by (simp add: sdiv_c_def signed_of_int signed_take_bit_int_eq_self)
qed

lemma magnitude_half: "nat \<bar>sint (sdiv_c b 2)\<bar> = nat \<bar>sint b\<bar> div 2" for b :: si_int
  by (simp add: sint_half signed_divide_int_def abs_mult sgn_if nat_div_distrib)

lemma odd_magnitude: "b AND 1 \<noteq> 0 \<longleftrightarrow> odd (nat \<bar>sint b\<bar>)" for b :: si_int
proof -
  have "b AND 1 \<noteq> 0 \<longleftrightarrow> bit b 0" by (simp add: and_one_eq odd_iff_mod_2_eq_one bit_0)
  also have "\<dots> \<longleftrightarrow> bit (sint b) 0" by (simp add: bit_sint_iff)
  also have "\<dots> \<longleftrightarrow> odd (nat \<bar>sint b\<bar>)" by (simp add: bit_0 even_nat_iff)
  finally show ?thesis .
qed

section \<open>The routines\<close>

text \<open>The endless loop with its \<open>break\<close>; the exponent is halved towards zero in each round.\<close>

function power_loop :: "('r word \<Rightarrow> 'r word \<Rightarrow> 'r word) \<Rightarrow> 'r::len word \<Rightarrow> si_int \<Rightarrow> 'r word \<Rightarrow> 'r word" where
  "power_loop mult a b r =
     (let r = (if b AND 1 \<noteq> 0 then mult r a else r);
          b = sdiv_c b 2
      in if b = 0 then r else power_loop mult (mult a a) b r)"
  by pat_completeness auto

termination
proof (relation "measure (\<lambda>(mult, a, b, r). nat \<bar>sint b\<bar>)")
  fix b b' :: si_int
  assume "b' = sdiv_c b 2" "b' \<noteq> 0"
  then have "nat \<bar>sint b'\<bar> = nat \<bar>sint b\<bar> div 2" "sint b' \<noteq> 0" by (simp_all only: magnitude_half signed_eq_0_iff not_False_eq_True)
  then have "nat \<bar>sint b'\<bar> < nat \<bar>sint b\<bar>" by linarith
  then show "((mult, mult a a, b', r'), mult, a, b, r) \<in> measure (\<lambda>(mult, a, b, r). nat \<bar>sint b\<bar>)" for mult a r r'
    by simp
qed simp

definition powiXf2 :: "'r::len fp_format \<Rightarrow> ('r word \<Rightarrow> 'r word \<Rightarrow> 'r word) \<Rightarrow> ('r word \<Rightarrow> 'r word \<Rightarrow> 'r word) \<Rightarrow>
    'r word \<Rightarrow> si_int \<Rightarrow> 'r word" where
  "powiXf2 F mult quot a b =
     (let recip = b <s 0;
          r = power_loop mult a b (oneRep F)
      in if recip then quot (oneRep F) r else r)"

declare power_loop.simps [simp del]

definition powisf2 :: "32 word \<Rightarrow> si_int \<Rightarrow> 32 word" where "powisf2 = powiXf2 single_precision mulsf3 divsf3"
definition powidf2 :: "64 word \<Rightarrow> si_int \<Rightarrow> 64 word" where "powidf2 = powiXf2 double_precision muldf3 divdf3"
definition powitf2 :: "128 word \<Rightarrow> si_int \<Rightarrow> 128 word" where "powitf2 = powiXf2 quad_precision multf3 divtf3"

section \<open>What the loop computes\<close>

text \<open>A property of powers that products keep, up to the exponent \<open>N\<close>, holds of the result.\<close>

lemma power_loop_keeps:
  assumes mult: "\<And>m n x y. P m x \<Longrightarrow> P n y \<Longrightarrow> m + n \<le> N \<Longrightarrow> P (m + n) (mult x y)"
  shows "P m r \<Longrightarrow> P k a \<Longrightarrow> m + k * nat \<bar>sint b\<bar> \<le> N \<Longrightarrow> P (m + k * nat \<bar>sint b\<bar>) (power_loop mult a b r)"
proof (induction "nat \<bar>sint b\<bar>" arbitrary: a b r m k rule: less_induct)
  case less
  define n r' b' where "n = nat \<bar>sint b\<bar>" and "r' = (if b AND 1 \<noteq> 0 then mult r a else r)" and "b' = sdiv_c b 2"
  have half: "nat \<bar>sint b'\<bar> = n div 2" by (simp add: b'_def magnitude_half n_def)
  have n: "n = 2 * (n div 2) + (if b AND 1 \<noteq> 0 then 1 else 0)" unfolding odd_magnitude n_def [symmetric] by presburger
  define m' where "m' = m + (if b AND 1 \<noteq> 0 then k else 0)"
  have total: "m + k * n = m' + 2 * k * (n div 2)" by (subst n) (simp add: m'_def algebra_simps)
  have "P m' r'" using less.prems total unfolding n_def [symmetric] by (auto simp: m'_def r'_def intro: mult)
  have step: "power_loop mult a b r = (if b' = 0 then r' else power_loop mult (mult a a) b' r')"
    unfolding r'_def b'_def by (subst power_loop.simps) (simp only: Let_def)
  show ?case
  proof (cases "b' = 0")
    case True
    then show ?thesis using half total step \<open>P m' r'\<close> by (simp add: n_def)
  next
    case False
    then have "0 < n div 2" using half by (metis abs_le_zero_iff nat_le_eq_zle neq0_conv not_less signed_eq_0_iff zero_less_nat_eq zero_less_abs_iff)
    then have "k + k \<le> m + k * n" unfolding total by (cases "n div 2") simp_all
    then have "P (k + k) (mult a a)" using less.prems unfolding n_def by (intro mult) linarith+
    moreover have "n div 2 < n" using \<open>0 < n div 2\<close> by linarith
    ultimately have "P (m' + (k + k) * nat \<bar>sint b'\<bar>) (power_loop mult (mult a a) b' r')"
      using less.prems(3) total half \<open>P m' r'\<close> by (intro less.hyps) (simp_all add: n_def [symmetric] mult_2)
    then show ?thesis using False step total half by (simp add: n_def [symmetric] mult_2)
  qed
qed

text \<open>\<open>product_of mult one a n r\<close>: \<open>r\<close> is a product of exactly \<open>n\<close> factors \<open>a\<close>, in some bracketing.\<close>

inductive product_of :: "('r word \<Rightarrow> 'r word \<Rightarrow> 'r word) \<Rightarrow> 'r::len word \<Rightarrow> 'r word \<Rightarrow> nat \<Rightarrow> 'r word \<Rightarrow> bool"
  for mult one a where
  no_factor: "product_of mult one a 0 one"
| factor: "product_of mult one a 1 a"
| product: "product_of mult one a m x \<Longrightarrow> product_of mult one a n y \<Longrightarrow> product_of mult one a (m + n) (mult x y)"

lemma power_loop_product: "product_of mult one a (nat \<bar>sint b\<bar>) (power_loop mult a b one)"
  using power_loop_keeps [where P = "product_of mult one a" and mult = mult and m = 0 and k = 1 and r = one and a = a and b = b,
      OF product no_factor factor order_refl] by simp

section \<open>Powers without rounding\<close>

text \<open>The magnitude of 1, and \<open>y\<close> as the exact \<open>k\<close>-th power of \<open>a\<close>: \<open>y / u = (a / u) ^ k\<close> for this unit \<open>u\<close>.\<close>

definition unit_magnitude :: "'r::len fp_format \<Rightarrow> nat" where
  "unit_magnitude F = 2 ^ (nat (exponentBias F) + significandBits F - 1)"

definition exact_power :: "'r::len fp_format \<Rightarrow> 'r word \<Rightarrow> nat \<Rightarrow> 'r word \<Rightarrow> bool" where
  "exact_power F a k y \<longleftrightarrow>
     is_finite F y \<and> val F y * int (unit_magnitude F) ^ k = int (unit_magnitude F) * val F a ^ k"

context fp_base
begin

lemma unit_magnitude_pos: "0 < unit_magnitude F"
  by (simp add: unit_magnitude_def)

lemma oneRep_value: "rep_abs (oneRep F) = nat (exponentBias F) * 2 ^ significandBits F" "\<not> rep_sign (oneRep F)"
proof -
  have "nat (exponentBias F) < 2 ^ exponentBits F"
    using maxExponent_bias exponentBias_bounds by (simp add: nat_less_iff maxExponent_def)
  then have less: "nat (exponentBias F) * 2 ^ significandBits F < 2 ^ (LENGTH('r) - 1)"
    unfolding width_minus_1 power_add by (simp add: mult.commute)
  moreover have "unat (word_of_int (exponentBias F) :: 'r word) = nat (exponentBias F)"
  proof -
    have "2 ^ exponentBits F \<le> (2::nat) ^ LENGTH('r)" unfolding width by (intro power_increasing) simp_all
    then have "nat (exponentBias F) < 2 ^ LENGTH('r)" using \<open>nat (exponentBias F) < 2 ^ exponentBits F\<close> by linarith
    then show ?thesis using exponentBias_bounds
      by (simp add: unsigned_of_int take_bit_int_eq_self nat_less_iff)
  qed
  ultimately have unat: "unat (oneRep F) = nat (exponentBias F) * 2 ^ significandBits F"
    unfolding oneRep_def by (subst unat_shl_small) (auto intro: less_trans)
  then show rep: "rep_abs (oneRep F) = nat (exponentBias F) * 2 ^ significandBits F" using less by (simp add: rep_abs_def)
  show "\<not> rep_sign (oneRep F)"
    using rep_word_split [of "oneRep F"] rep unat by (auto split: if_splits)
qed

lemma magnitude_oneRep: "magnitude F (oneRep F) = unit_magnitude F"
proof -
  have "0 < nat (exponentBias F)" using maxExponent_bias maxExponent_bounds by simp
  then show ?thesis
    using mag_normal [of 0 "significandBits F" "nat (exponentBias F)"]
    by (simp add: magnitude_def oneRep_value(1) unit_magnitude_def flip: power_add)
qed

lemma oneRep_finite: "is_finite F (oneRep F)"
proof -
  have "nat (exponentBias F) < 2 ^ exponentBits F - 1"
    using maxExponent_bias maxExponent_bounds by (simp add: nat_less_iff maxExponent_def)
  then show ?thesis by (simp add: is_finite_def oneRep_value(1) infty_rep_def)
qed

lemma rounds_to_exact:
  assumes "rounds_to F (magnitude F y * den) den neg r" "is_finite F y" "0 < den"
  shows "rep_abs r = rep_abs y" and "rep_sign r = neg"
  using assms nearest_even_unique [OF assms(3), of "significandBits F" "infty_rep F" "magnitude F y * den" "rep_abs r" "rep_abs y"]
    nearest_even_exact [of "rep_abs y" "infty_rep F" den "significandBits F"]
  by (simp_all add: rounds_to_def magnitude_def is_finite_def)

lemma abs_val: "\<bar>val F x\<bar> = int (magnitude F x)" for x :: "'r word"
  by (simp add: val_def)

end

text \<open>What the exactness of powers needs of a multiplication.\<close>

locale multiplication = fp_base F for F :: "'r::len fp_format" +
  fixes mult :: "'r word \<Rightarrow> 'r word \<Rightarrow> 'r word"
  assumes product: "ieee_product F x y (mult x y)"
begin

lemma mult_exact_power:
  assumes x: "exact_power F a j x" and z: "exact_power F a k z" and y: "exact_power F a (j + k) y"
  shows "exact_power F a (j + k) (mult x z)"
proof -
  define U where "U = unit_magnitude F"
  have U: "0 < U" by (simp add: U_def unit_magnitude_pos)
  have "(val F x * val F z) * int U ^ (j + k) = int U * (int U * val F a ^ (j + k))"
    using x z unfolding exact_power_def U_def [symmetric]
    by (simp add: power_add mult.assoc mult.left_commute [of "val F z"])
  also have "\<dots> = int U * val F y * int U ^ (j + k)" using y by (simp add: exact_power_def U_def)
  finally have prod: "val F x * val F z = int U * val F y" using U by simp
  then have "\<bar>val F x\<bar> * \<bar>val F z\<bar> = int U * \<bar>val F y\<bar>" by (simp add: abs_mult [symmetric]) (simp add: abs_mult)
  then have mags: "magnitude F x * magnitude F z = magnitude F y * U"
    unfolding abs_val by (simp only: mult.commute [of "magnitude F y"] flip: of_nat_mult)
  have "rounds_to F (magnitude F y * U) U (rep_sign x \<noteq> rep_sign z) (mult x z)"
    using product [of x z] x z mags
    by (auto simp: ieee_product_def exact_power_def is_nan_def is_inf_def is_finite_def U_def unit_magnitude_def)
  from rounds_to_exact [OF this _ U] y have r: "rep_abs (mult x z) = rep_abs y" "rep_sign (mult x z) = (rep_sign x \<noteq> rep_sign z)"
    by (simp_all add: exact_power_def)
  have "val F (mult x z) * int U = val F x * val F z"
    using mags r by (simp add: val_def magnitude_def flip: of_nat_mult)
  then have "val F (mult x z) = val F y" using prod U by simp
  then show ?thesis using y r by (simp add: exact_power_def is_finite_def)
qed

lemma power_loop_exact:
  assumes "is_finite F a" "\<And>k. k \<le> nat \<bar>sint b\<bar> \<Longrightarrow> \<exists>y. exact_power F a k y"
  shows "exact_power F a (nat \<bar>sint b\<bar>) (power_loop mult a b (oneRep F))"
proof -
  have "exact_power F a (0 + 1 * nat \<bar>sint b\<bar>) (power_loop mult a b (oneRep F))"
  proof (rule power_loop_keeps [where N = "nat \<bar>sint b\<bar>"])
    show "exact_power F a 0 (oneRep F)" by (simp add: exact_power_def oneRep_finite oneRep_value(2) val_def magnitude_oneRep)
    show "exact_power F a 1 a" using assms(1) by (simp add: exact_power_def)
    show "exact_power F a (m + n) (mult x y)"
      if "exact_power F a m x" "exact_power F a n y" "m + n \<le> nat \<bar>sint b\<bar>" for m n x y
      using assms(2) [OF that(3)] mult_exact_power [OF that(1,2)] by blast
  qed simp
  then show ?thesis by simp
qed

end

interpretation single: multiplication single_precision mulsf3
  by unfold_locales (simp add: mulsf3_def single.mulXf3_exact)

interpretation double: multiplication double_precision muldf3
  by unfold_locales (simp add: muldf3_def double.mulXf3_exact)

section \<open>Properties\<close>

text \<open>C20. \<open>__powisf2\<close>, \<open>__powidf2\<close> and \<open>__powitf2\<close> end for every exponent, the smallest integer included: the
  result is 1 times a product of exactly \<open>\<bar>n\<bar>\<close> factors \<open>a\<close> in some bracketing, or the reciprocal of such a
  product for a negative exponent; in particular every base to the power of 0 is 1.\<close>

theorem powers_multiply:
  "(\<exists>r. product_of mulsf3 (oneRep single_precision) a (nat \<bar>sint n\<bar>) r \<and>
     powisf2 a n = (if sint n < 0 then divsf3 (oneRep single_precision) r else r)) \<and>
   (\<exists>r. product_of muldf3 (oneRep double_precision) b (nat \<bar>sint n\<bar>) r \<and>
     powidf2 b n = (if sint n < 0 then divdf3 (oneRep double_precision) r else r)) \<and>
   (\<exists>r. product_of multf3 (oneRep quad_precision) c (nat \<bar>sint n\<bar>) r \<and>
     powitf2 c n = (if sint n < 0 then divtf3 (oneRep quad_precision) r else r))"
  unfolding powisf2_def powidf2_def powitf2_def powiXf2_def Let_def word_sless_alt sint_0
  by (intro conjI; rule exI, rule conjI, rule power_loop_product, rule refl)

text \<open>C19. Powers are exact where they can be: if the powers of the base up to the exponent are all representable,
  \<open>__powisf2\<close> and \<open>__powidf2\<close> return exactly the power, no intermediate square having overflowed or been rounded.
  For a negative exponent they return the reciprocal of that power as the division routines of the library give it:
  rounded to nearest, ties to even, an infinity for a power of zero, but zero when the reciprocal is below the
  smallest normal number, even where a subnormal number would represent it.\<close>

theorem powers_exact:
  assumes "is_finite single_precision a" "\<And>k. k \<le> nat \<bar>sint n\<bar> \<Longrightarrow> \<exists>y. exact_power single_precision a k y"
    and "is_finite double_precision b" "\<And>k. k \<le> nat \<bar>sint m\<bar> \<Longrightarrow> \<exists>y. exact_power double_precision b k y"
  shows "(\<exists>r. exact_power single_precision a (nat \<bar>sint n\<bar>) r \<and>
      (if sint n < 0 then ieee_quotient single_precision (oneRep single_precision) r (powisf2 a n) else powisf2 a n = r)) \<and>
    (\<exists>r. exact_power double_precision b (nat \<bar>sint m\<bar>) r \<and>
      (if sint m < 0 then ieee_quotient double_precision (oneRep double_precision) r (powidf2 b m) else powidf2 b m = r))"
  unfolding powisf2_def powidf2_def powiXf2_def Let_def word_sless_alt sint_0 divsf3_def divdf3_def
  using single.power_loop_exact [OF assms(1,2)] double.power_loop_exact [OF assms(3,4)]
    single.divXf3_correct double.divXf3_correct by (smt (verit))

theorem powers_exact_witness:
  "val single_precision (powisf2 0x40400000 4) = 81 * 2 ^ 149"
proof -
  have fields: "rep_abs (w :: 32 word) = unat w" "\<not> rep_sign w" if "unat w < 2 ^ 31" for w
  proof -
    have "2 ^ (LENGTH(32) - 1) = (2 ^ 31 :: nat)" by simp
    then show 1: "rep_abs w = unat w" using that unfolding rep_abs_def by (metis mod_less)
    show "\<not> rep_sign w" using single.rep_word_split [of w, unfolded 1] by (simp split: if_splits)
  qed
  have three: "exact_power single_precision 0x40400000 k y" if "(k, y) \<in> {(0, 0x3f800000), (1, 0x40400000), (2, 0x41100000),
      (3, 0x41d80000), (4, 0x42a20000)}" for k and y :: "32 word"
    using that by (auto simp: exact_power_def is_finite_def infty_rep_def fields val_def magnitude_def mag_def unit_magnitude_def)
  have "\<exists>r. exact_power single_precision 0x40400000 (nat \<bar>sint (4 :: si_int)\<bar>) r \<and> powisf2 0x40400000 4 = r"
  proof -
    have "\<exists>y. exact_power single_precision 0x40400000 k y" if "k \<le> nat \<bar>sint (4 :: si_int)\<bar>" for k
    proof -
      have "k \<in> {0, 1, 2, 3, 4}" using that by auto
      then show ?thesis using three by blast
    qed
    moreover have "\<exists>y. exact_power double_precision (0 :: 64 word) k y" if "k \<le> nat \<bar>sint (0 :: si_int)\<bar>" for k
      using that double.oneRep_finite double.magnitude_oneRep double.oneRep_value(2) by (auto simp: exact_power_def val_def)
    moreover have "is_finite single_precision 0x40400000" "is_finite double_precision 0"
      by (simp_all add: is_finite_def infty_rep_def rep_abs_def)
    ultimately show ?thesis using powers_exact [of "0x40400000" 4 0 0] by (auto simp del: One_nat_def)
  qed
  then have "exact_power single_precision 0x40400000 4 (powisf2 0x40400000 4)" by simp
  then show ?thesis
    using three [of 1 "0x40400000"] by (simp add: exact_power_def val_def fields magnitude_def mag_def unit_magnitude_def)
qed

text \<open>The flush of the division shows at the power \<open>2 ^ 127\<close>: its reciprocal is a subnormal number, but the
  division with which \<open>__powisf2\<close> ends for the base 2 and the exponent -127 returns zero.\<close>

lemma reciprocal_power_flushed: "divsf3 (oneRep single_precision) 0x7f000000 = 0"
  by code_simp

end
