(* ===== verification/Fp_Fix.thy ===== *)
theory Fp_Fix
  imports Fp_Compare
begin

text \<open>
  Conversion of floating-point numbers to integers: the templates \<open>fp_fixint_impl.inc\<close> (\<open>__fixint\<close>) and
  \<open>fp_fixuint_impl.inc\<close> (\<open>__fixuint\<close>) with their instances \<open>fix*.c\<close> and \<open>fixuns*.c\<close>, in the variant
  for targets without floating-point hardware, and the conversions of the 80-bit extended format
  (\<open>fixxfdi.c\<close>, \<open>fixxfti.c\<close>, \<open>fixunsxf*.c\<close>).
\<close>

section \<open>The templates\<close>

text \<open>The product \<open>sign * (...)\<close> is computed modulo the width of \<open>fixint_t\<close>.\<close>

definition fixint :: "'r::len fp_format \<Rightarrow> 'r word \<Rightarrow> 'i::len word" where
  "fixint F a =
     (let fixint_max = shr (NOT 0) 1; fixint_min = - fixint_max - 1;
          aRep = toRep a; aAbs = aRep AND absMask F;
          sign = (if aRep AND signBit F \<noteq> 0 then - 1 else 1) :: 'i word;
          exponent = uint (shr aAbs (significandBits F)) - exponentBias F;
          significand = (aAbs AND significandMask F) OR implicitBit F
      in if exponent < 0 then 0
         else if exponent \<ge> int LENGTH('i) then (if sign = 1 then fixint_max else fixint_min)
         else if exponent < int (significandBits F) then
           sign * ucast (shr significand (nat (int (significandBits F) - exponent)))
         else sign * shl (ucast significand) (nat (exponent - int (significandBits F))))"

definition fixuint :: "'r::len fp_format \<Rightarrow> 'r word \<Rightarrow> 'i::len word" where
  "fixuint F a =
     (let aRep = toRep a; aAbs = aRep AND absMask F;
          sign = (if aRep AND signBit F \<noteq> 0 then - 1 else 1) :: int;
          exponent = uint (shr aAbs (significandBits F)) - exponentBias F;
          significand = (aAbs AND significandMask F) OR implicitBit F
      in if sign = - 1 \<or> exponent < 0 then 0
         else if exponent \<ge> int LENGTH('i) then NOT 0
         else if exponent < int (significandBits F) then
           ucast (shr significand (nat (int (significandBits F) - exponent)))
         else shl (ucast significand) (nat (exponent - int (significandBits F))))"

definition fixsfsi :: "32 word \<Rightarrow> si_int" where "fixsfsi = fixint single_precision"
definition fixsfdi :: "32 word \<Rightarrow> di_int" where "fixsfdi = fixint single_precision"
definition fixsfti :: "32 word \<Rightarrow> ti_int" where "fixsfti = fixint single_precision"
definition fixdfsi :: "64 word \<Rightarrow> si_int" where "fixdfsi = fixint double_precision"
definition fixdfdi :: "64 word \<Rightarrow> di_int" where "fixdfdi = fixint double_precision"
definition fixdfti :: "64 word \<Rightarrow> ti_int" where "fixdfti = fixint double_precision"
definition fixtfsi :: "128 word \<Rightarrow> si_int" where "fixtfsi = fixint quad_precision"
definition fixtfdi :: "128 word \<Rightarrow> di_int" where "fixtfdi = fixint quad_precision"
definition fixtfti :: "128 word \<Rightarrow> ti_int" where "fixtfti = fixint quad_precision"
definition fixunssfsi :: "32 word \<Rightarrow> su_int" where "fixunssfsi = fixuint single_precision"
definition fixunssfdi :: "32 word \<Rightarrow> du_int" where "fixunssfdi = fixuint single_precision"
definition fixunssfti :: "32 word \<Rightarrow> tu_int" where "fixunssfti = fixuint single_precision"
definition fixunsdfsi :: "64 word \<Rightarrow> su_int" where "fixunsdfsi = fixuint double_precision"
definition fixunsdfdi :: "64 word \<Rightarrow> du_int" where "fixunsdfdi = fixuint double_precision"
definition fixunsdfti :: "64 word \<Rightarrow> tu_int" where "fixunsdfti = fixuint double_precision"
definition fixunstfsi :: "128 word \<Rightarrow> su_int" where "fixunstfsi = fixuint quad_precision"
definition fixunstfdi :: "128 word \<Rightarrow> du_int" where "fixunstfdi = fixuint quad_precision"
definition fixunstfti :: "128 word \<Rightarrow> tu_int" where "fixunstfti = fixuint quad_precision"

section \<open>What the conversions promise\<close>

text \<open>The specification: truncation towards zero, with saturation by the sign of what does not fit, of infinities
  and of NaNs, as the comments of the template say.\<close>

definition truncated :: "'r::len fp_format \<Rightarrow> 'r word \<Rightarrow> int" where
  "truncated F a = (if rep_sign a then - int (integral_part F a) else int (integral_part F a))"

definition saturated :: "nat \<Rightarrow> 'r::len fp_format \<Rightarrow> 'r word \<Rightarrow> int" where
  "saturated N F a =
     (if is_finite F a then max (- (2 ^ (N - 1))) (min (2 ^ (N - 1) - 1) (truncated F a))
      else if rep_sign a then - (2 ^ (N - 1)) else 2 ^ (N - 1) - 1)"

text \<open>The template misses it for the values outside the range of the integer type, but with a magnitude below
  \<open>2 ^ N\<close>: they are off by \<open>2 ^ N\<close>.\<close>

definition missed_overflow :: "nat \<Rightarrow> 'r::len fp_format \<Rightarrow> 'r word \<Rightarrow> bool" where
  "missed_overflow N F a \<longleftrightarrow>
     is_finite F a \<and> integral_part F a < 2 ^ N \<and>
     (truncated F a < - (2 ^ (N - 1)) \<or> 2 ^ (N - 1) \<le> truncated F a)"

definition fix_result :: "'r::len fp_format \<Rightarrow> 'r word \<Rightarrow> 'i::len word \<Rightarrow> bool" where
  "fix_result F a r \<longleftrightarrow>
     sint r = (if missed_overflow LENGTH('i) F a then truncated F a - sgn (truncated F a) * 2 ^ LENGTH('i)
               else saturated LENGTH('i) F a)"

text \<open>The same as one equation on words.\<close>

definition fix_word :: "'r::len fp_format \<Rightarrow> 'r word \<Rightarrow> 'i::len word \<Rightarrow> bool" where
  "fix_word F a r \<longleftrightarrow>
     r = (if is_finite F a \<and> integral_part F a < 2 ^ LENGTH('i)
          then word_of_int (if rep_sign a then - int (integral_part F a) else int (integral_part F a))
          else if rep_sign a then int_min else - 1 - int_min)"

lemma fix_result_of_word:
  fixes r :: "'i::len word"
  assumes "fix_word F a r"
  shows "fix_result F a r"
proof -
  define M :: int where "M = 2 ^ (LENGTH('i) - 1)"
  have M: "2 ^ LENGTH('i) = 2 * M" "0 < M" using exp_double [where 'a = 'i] by (simp_all add: M_def)
  have sizes: "sint (int_min :: 'i word) = - M" "sint (- 1 - int_min :: 'i word) = M - 1"
    using sint_int_max [where 'a = 'i] by (simp_all add: M_def not_eq_complement minus_diff_commute [of 1])
  have part: "int (integral_part F a) = \<bar>truncated F a\<bar>" by (simp add: truncated_def)
  have part_less: "integral_part F a < 2 ^ LENGTH('i) \<longleftrightarrow> \<bar>truncated F a\<bar> < 2 * M"
    unfolding part [symmetric] M(1) [symmetric] by (metis of_nat_less_iff of_nat_numeral of_nat_power)
  have r: "r = (if is_finite F a \<and> \<bar>truncated F a\<bar> < 2 * M then word_of_int (truncated F a)
      else if rep_sign a then int_min else - 1 - int_min)"
    using assms unfolding fix_word_def part_less by (simp only: truncated_def)
  have sign: "rep_sign a \<Longrightarrow> truncated F a \<le> 0" "\<not> rep_sign a \<Longrightarrow> 0 \<le> truncated F a" by (simp_all add: truncated_def)
  show ?thesis
  proof (cases "missed_overflow LENGTH('i) F a")
    case True
    then have gap: "is_finite F a" "\<bar>truncated F a\<bar> < 2 * M" "truncated F a < - M \<or> M \<le> truncated F a"
      by (simp_all add: missed_overflow_def part_less M_def)
    have "sint r = truncated F a - sgn (truncated F a) * (2 * M)"
      using gap M sint_wrap_above [where 'a = 'i, of "truncated F a"] sint_wrap_below [where 'a = 'i, of "truncated F a"]
      unfolding M_def [symmetric] M(1) r by (auto simp: sgn_if)
    then show ?thesis using True by (simp add: fix_result_def M(1))
  next
    case False
    then have no_gap: "is_finite F a \<Longrightarrow> \<bar>truncated F a\<bar> < 2 * M \<Longrightarrow> - M \<le> truncated F a \<and> truncated F a < M"
      by (auto simp: missed_overflow_def part_less M_def)
    have "sint r = saturated LENGTH('i) F a"
    proof (cases "is_finite F a \<and> \<bar>truncated F a\<bar> < 2 * M")
      case True
      then have "sint r = truncated F a"
        using no_gap unfolding M_def by (intro sint_eq_of_range) (simp_all only: r M_def simp_thms if_True)
      then show ?thesis using True no_gap unfolding saturated_def M_def [symmetric] by simp
    next
      case False
      then have "r = (if rep_sign a then int_min else - 1 - int_min)" unfolding r by (rule if_not_P)
      then have "sint r = (if rep_sign a then - M else M - 1)" by (simp only: sizes if_distrib [of sint])
      then show ?thesis using False M(2) sign unfolding saturated_def M_def [symmetric] by auto
    qed
    then show ?thesis using False by (simp add: fix_result_def)
  qed
qed

definition fixuns_result :: "'r::len fp_format \<Rightarrow> 'r word \<Rightarrow> 'i::len word \<Rightarrow> bool" where
  "fixuns_result F a r \<longleftrightarrow>
     unat r = (if rep_sign a then 0
               else if is_finite F a then min (integral_part F a) (2 ^ LENGTH('i) - 1)
               else 2 ^ LENGTH('i) - 1)"

context fp_base
begin

text \<open>The unbiased exponent as the template computes it, and the integral part in terms of it.\<close>

lemma field_exponent:
  "uint (shr (x AND absMask F) (significandBits F)) = int (rep_abs x div 2 ^ significandBits F)" for x :: "'r word"
  using unat_abs_exponent [of x] by (metis uint_nat)

lemma field_significand:
  "(x AND absMask F) AND significandMask F = x AND significandMask F" for x :: "'r word"
proof -
  have "unat ((x AND absMask F) AND significandMask F) = unat (x AND significandMask F)"
    by (simp add: unat_fraction rep_abs_def)
  then show ?thesis by (simp only: word_unat_eq_iff)
qed

lemma integral_part_cases:
  fixes x :: "'r word"
  defines "e \<equiv> int (rep_abs x div 2 ^ significandBits F) - exponentBias F"
    and "S \<equiv> unat ((x AND significandMask F) OR implicitBit F)"
  shows "e < 0 \<Longrightarrow> integral_part F x = 0"
    and "0 \<le> e \<Longrightarrow> e < int (significandBits F) \<Longrightarrow> integral_part F x = S div 2 ^ nat (int (significandBits F) - e)"
    and "int (significandBits F) \<le> e \<Longrightarrow> integral_part F x = S * 2 ^ nat (e - int (significandBits F))"
    and "2 ^ significandBits F \<le> S" "S < 2 * 2 ^ significandBits F"
proof -
  let ?P = "2 ^ significandBits F :: nat"
  define E b where "E = rep_abs x div ?P" and "b = nat (exponentBias F)"
  have b: "exponentBias F = int b" "0 < b" using maxExponent_bounds by (simp_all add: b_def exponentBias_def)
  have fraction: "rep_abs x mod ?P < ?P" by simp
  then have S: "S = ?P + rep_abs x mod ?P"
    unfolding S_def by (subst or_implicitBit) (simp_all add: unat_fraction order_less_trans [OF fraction])
  then show S_bounds: "?P \<le> S" "S < 2 * ?P" by simp_all
  have e: "e = int E - int b" by (simp add: e_def E_def b)
  have unit: "(2::nat) ^ (b + significandBits F - 1) = 2 ^ (b - 1) * ?P" using b by (simp flip: power_add)
  have normal: "magnitude F x = S * 2 ^ (E - 1)" if "0 < E"
    using unpack_normal(1) [of x E] that by (simp add: E_def S_def)
  show "integral_part F x = 0" if "e < 0"
  proof -
    have "magnitude F x < ?P * 2 ^ (b - 1)"
    proof (cases "E = 0")
      case True
      then have "magnitude F x < ?P * 1" by (simp add: E_def magnitude_def div_eq_0_iff mag_subnormal)
      also have "\<dots> \<le> ?P * 2 ^ (b - 1)" by (intro mult_le_mono2) simp
      finally show ?thesis .
    next
      case False
      then have "magnitude F x < 2 * ?P * 2 ^ (E - 1)" using S_bounds by (simp add: normal)
      also have "\<dots> = ?P * 2 ^ E" using False by (cases E) simp_all
      also have "\<dots> \<le> ?P * 2 ^ (b - 1)" using that e b by (intro mult_le_mono2 power_increasing) auto
      finally show ?thesis .
    qed
    then show ?thesis unfolding integral_part_def b_def [symmetric] unit by (simp add: mult.commute)
  qed
  have part: "integral_part F x = S * 2 ^ nat e div ?P" if "0 \<le> e"
  proof -
    have "E - 1 = (b - 1) + nat e" "0 < E" using that e b by simp_all
    then show ?thesis
      unfolding integral_part_def b_def [symmetric] unit by (simp add: normal power_add)
  qed
  show "integral_part F x = S div 2 ^ nat (int (significandBits F) - e)" if "0 \<le> e" "e < int (significandBits F)"
  proof -
    have "?P = 2 ^ nat e * 2 ^ nat (int (significandBits F) - e)" using that by (simp flip: power_add)
    then show ?thesis unfolding part [OF that(1)] by (simp add: mult.commute)
  qed
  show "integral_part F x = S * 2 ^ nat (e - int (significandBits F))" if "int (significandBits F) \<le> e"
  proof -
    have "(2::nat) ^ nat e = 2 ^ nat (e - int (significandBits F)) * ?P" using that by (simp flip: power_add)
    then show ?thesis using part that by simp
  qed
qed

text \<open>The number that both templates extract, as a word of the integer type.\<close>

lemma integral_part_bounds:
  fixes x :: "'r word"
  defines "e \<equiv> int (rep_abs x div 2 ^ significandBits F) - exponentBias F"
  shows "integral_part F x < 2 ^ nat (e + 1)" and "0 \<le> e \<Longrightarrow> 2 ^ nat e \<le> integral_part F x"
proof -
  note parts = integral_part_cases [of x, folded e_def]
  let ?S = "unat ((x AND significandMask F) OR implicitBit F)" and ?P = "2 ^ significandBits F :: nat"
  consider "e < 0" | "0 \<le> e" "e < int (significandBits F)" | "int (significandBits F) \<le> e" by linarith
  then have "integral_part F x < 2 ^ nat (e + 1) \<and> (0 \<le> e \<longrightarrow> 2 ^ nat e \<le> integral_part F x)"
  proof cases
    case 1
    then show ?thesis using parts(1) by simp
  next
    case 2
    have "?P = 2 ^ nat e * 2 ^ nat (int (significandBits F) - e)" using 2 by (simp flip: power_add)
    moreover have "nat (e + 1) = Suc (nat e)" using 2 by simp
    ultimately show ?thesis
      using parts(2,4,5) 2 by (simp add: less_mult_imp_div_less less_eq_div_iff_mult_less_eq mult.assoc)
  next
    case 3
    have "2 ^ nat e = ?P * 2 ^ nat (e - int (significandBits F))" using 3 by (simp flip: power_add)
    moreover have "nat (e + 1) = Suc (nat e)" using 3 by simp
    ultimately show ?thesis using parts(3-5) 3 by simp
  qed
  then show "integral_part F x < 2 ^ nat (e + 1)" and "0 \<le> e \<Longrightarrow> 2 ^ nat e \<le> integral_part F x" by simp_all
qed

lemma extracted_word:
  fixes x :: "'r word"
  defines "e \<equiv> int (rep_abs x div 2 ^ significandBits F) - exponentBias F"
    and "s \<equiv> (x AND significandMask F) OR implicitBit F"
  assumes "0 \<le> e"
  shows "(if e < int (significandBits F) then ucast (shr s (nat (int (significandBits F) - e)))
      else shl (ucast s) (nat (e - int (significandBits F)))) = (word_of_int (int (integral_part F x)) :: 'i::len word)"
proof -
  note parts = integral_part_cases [of x, folded e_def, folded s_def]
  have u: "(ucast w :: 'i word) = of_nat (unat w)" for w :: "'r word"
    by simp
  show ?thesis
    unfolding u using parts(2,3) assms(3) by (auto simp: unat_shr push_bit_eq_mult)
qed

lemma finite_exponent_bias:
  "is_finite F x \<longleftrightarrow> int (rep_abs x div 2 ^ significandBits F) - exponentBias F < exponentBias F + 1" for x :: "'r word"
proof -
  have "int (2 ^ exponentBits F - 1) = maxExponent F" by (simp add: maxExponent_def of_nat_diff)
  then have "is_finite F x \<longleftrightarrow> int (rep_abs x div 2 ^ significandBits F) < maxExponent F"
    unfolding finite_exponent by (simp only: flip: of_nat_less_iff [where 'a = int])
  then show ?thesis using maxExponent_bias by auto
qed

lemma saturation_test:
  fixes x :: "'r word"
  defines "e \<equiv> int (rep_abs x div 2 ^ significandBits F) - exponentBias F"
  assumes "0 \<le> e" "int LENGTH('i::len) \<le> exponentBias F + 1"
  shows "e < int LENGTH('i) \<longleftrightarrow> is_finite F x \<and> integral_part F x < 2 ^ LENGTH('i)"
proof -
  note bounds = integral_part_bounds [of x, folded e_def]
  have fin: "is_finite F x \<longleftrightarrow> e < exponentBias F + 1" unfolding e_def by (rule finite_exponent_bias)
  show ?thesis
  proof
    assume e: "e < int LENGTH('i)"
    then have "(2::nat) ^ nat (e + 1) \<le> 2 ^ LENGTH('i)" by (intro power_increasing) auto
    then show "is_finite F x \<and> integral_part F x < 2 ^ LENGTH('i)"
      using e bounds(1) assms(3) fin by (meson less_le_trans order.strict_trans2)
  next
    assume "is_finite F x \<and> integral_part F x < 2 ^ LENGTH('i)"
    then have "(2::nat) ^ nat e < 2 ^ LENGTH('i)" using bounds(2) assms(2) by (meson le_less_trans)
    then show "e < int LENGTH('i)" by (simp add: nat_less_iff assms(2))
  qed
qed

lemma rep_sign_test: "x AND signBit F \<noteq> 0 \<longleftrightarrow> rep_sign x" for x :: "'r word"
  using unat_signBit by (auto simp: and_signBit)

lemma fixint_correct:
  fixes a :: "'r word"
  assumes "2 \<le> LENGTH('i::len)" "int LENGTH('i) \<le> exponentBias F + 1"
  shows "fix_word F a (fixint F a :: 'i word)"
proof -
  define e where "e = int (rep_abs a div 2 ^ significandBits F) - exponentBias F"
  define sign :: "'i word" where "sign = (if rep_sign a then - 1 else 1)"
  have one: "sign = 1 \<longleftrightarrow> \<not> rep_sign a"
  proof -
    have "(- 1 :: 'i word) \<noteq> 1" using assms(1) by simp
    then show ?thesis by (simp add: sign_def)
  qed
  have max: "shr (NOT 0) 1 = (- 1 - int_min :: 'i word)"
  proof -
    have "shr (NOT 0) 1 = (NOT int_min :: 'i word)"
      by (rule bit_word_eqI) (auto simp: bit_drop_bit_eq bit_not_iff int_min_def bit_push_bit_iff bit_1_iff
        bit_mask_iff bit_exp_iff)
    then show ?thesis by (simp add: not_eq_complement)
  qed
  have run: "fixint F a =
      (if e < 0 then 0 else if e \<ge> int LENGTH('i) then (if rep_sign a then int_min else - 1 - int_min)
       else sign * word_of_int (int (integral_part F a)))"
    unfolding fixint_def Let_def toRep_def field_exponent field_significand e_def [symmetric] rep_sign_test
      sign_def [symmetric] max
    using extracted_word [of a, folded e_def, where 'i = 'i] one by (auto simp: if_distrib [of "(*) sign"])
  show ?thesis
  proof (cases "e < 0")
    case True
    then have "is_finite F a" "integral_part F a = 0"
      using integral_part_cases(1) [of a] exponentBias_bounds by (simp_all add: e_def finite_exponent_bias)
    then show ?thesis using True by (simp add: fix_word_def run)
  next
    case False
    then show ?thesis
      using saturation_test [where 'i = 'i, of a] assms(2)
      by (auto simp: fix_word_def run sign_def e_def [symmetric])
  qed
qed

lemma fixuint_correct:
  fixes a :: "'r word"
  assumes "int LENGTH('i::len) \<le> exponentBias F + 1"
  shows "fixuns_result F a (fixuint F a :: 'i word)"
proof -
  define e where "e = int (rep_abs a div 2 ^ significandBits F) - exponentBias F"
  have sign: "(if rep_sign a then - 1 else 1) = (- 1 :: int) \<longleftrightarrow> rep_sign a" by simp
  have run: "fixuint F a =
      (if rep_sign a \<or> e < 0 then 0 else if e \<ge> int LENGTH('i) then - 1
       else (word_of_int (int (integral_part F a)) :: 'i word))"
    unfolding fixuint_def Let_def toRep_def field_exponent field_significand e_def [symmetric] rep_sign_test sign
    using extracted_word [of a, folded e_def, where 'i = 'i] by auto
  have max: "unat (- 1 :: 'i word) = 2 ^ LENGTH('i) - 1" by (simp add: unsigned_minus_1_eq_mask mask_eq_exp_minus_1)
  show ?thesis
  proof (cases "e < 0")
    case True
    then have "is_finite F a" "integral_part F a = 0"
      using integral_part_cases(1) [of a] exponentBias_bounds by (simp_all add: e_def finite_exponent_bias)
    then show ?thesis using True by (simp add: fixuns_result_def run)
  next
    case False
    have small: "unat (word_of_int (int (integral_part F a)) :: 'i word) = integral_part F a" if "integral_part F a < 2 ^ LENGTH('i)"
      using that by (simp add: unsigned_of_nat take_bit_nat_eq_self)
    show ?thesis
      using False saturation_test [where 'i = 'i, of a] assms max small
      by (auto simp: fixuns_result_def run e_def [symmetric] min_def not_less)
  qed
qed

end

lemma fixsfsi_result: "fix_word single_precision a (fixsfsi a)"
  unfolding fixsfsi_def by (rule single.fixint_correct) (simp_all add: precision_values)

lemma fixdfdi_result: "fix_word double_precision a (fixdfdi a)"
  unfolding fixdfdi_def by (rule double.fixint_correct) (simp_all add: precision_values)

lemma fixunssfsi_result: "fixuns_result single_precision a (fixunssfsi a)"
  unfolding fixunssfsi_def by (rule single.fixuint_correct) (simp_all add: precision_values)

text \<open>The definitions that evaluate a representation.\<close>

lemmas rep_value_defs = is_finite_def infty_rep_def rep_abs_def rep_sign_def integral_part_def magnitude_def mag_def Let_def
  absMask_def signBit_def significandMask_def implicitBit_def

section \<open>Properties\<close>

text \<open>C23. The conversions of single, double and quadruple precision numbers to integers of 32, 64 and 128 bits
  truncate towards zero.  Signed: a value that fits is converted exactly, and magnitudes of \<open>2 ^ N\<close> and more,
  infinities and NaNs saturate by their sign; but a value outside the range whose magnitude is below \<open>2 ^ N\<close> does
  not saturate, as the comment of the template says it should: it wraps around and is off by \<open>2 ^ N\<close>.  Unsigned: 0
  for every negative operand, the integral part of a nonnegative one, the largest integer when it does not fit, for
  an infinity and for a NaN.\<close>

theorem float_to_int_correct:
  "fix_result single_precision a (fixsfsi a) \<and> fix_result single_precision a (fixsfdi a) \<and>
   fix_result single_precision a (fixsfti a) \<and>
   fix_result double_precision b (fixdfsi b) \<and> fix_result double_precision b (fixdfdi b) \<and>
   fix_result double_precision b (fixdfti b) \<and>
   fix_result quad_precision c (fixtfsi c) \<and> fix_result quad_precision c (fixtfdi c) \<and>
   fix_result quad_precision c (fixtfti c) \<and>
   fixuns_result single_precision a (fixunssfsi a) \<and> fixuns_result single_precision a (fixunssfdi a) \<and>
   fixuns_result single_precision a (fixunssfti a) \<and>
   fixuns_result double_precision b (fixunsdfsi b) \<and> fixuns_result double_precision b (fixunsdfdi b) \<and>
   fixuns_result double_precision b (fixunsdfti b) \<and>
   fixuns_result quad_precision c (fixunstfsi c) \<and> fixuns_result quad_precision c (fixunstfdi c) \<and>
   fixuns_result quad_precision c (fixunstfti c)"
  unfolding fixsfsi_def fixsfdi_def fixsfti_def fixdfsi_def fixdfdi_def fixdfti_def fixtfsi_def fixtfdi_def fixtfti_def
    fixunssfsi_def fixunssfdi_def fixunssfti_def fixunsdfsi_def fixunsdfdi_def fixunsdfti_def
    fixunstfsi_def fixunstfdi_def fixunstfti_def
  by (intro conjI; rule fix_result_of_word [OF single.fixint_correct] fix_result_of_word [OF double.fixint_correct]
      fix_result_of_word [OF quad.fixint_correct] single.fixuint_correct double.fixuint_correct quad.fixuint_correct)
    (simp_all add: precision_values)

text \<open>In range, the signed conversion is the exact integral part with its sign.\<close>

theorem fix_exact_in_range:
  assumes "is_finite single_precision a" "integral_part single_precision a < 2 ^ 31"
    and "is_finite double_precision b" "integral_part double_precision b < 2 ^ 63"
  shows "sint (fixsfsi a) = sgn (val single_precision a) * int (integral_part single_precision a) \<and>
    sint (fixdfdi b) = sgn (val double_precision b) * int (integral_part double_precision b)"
proof -
  have sgn: "sgn (val F x) * int (integral_part F x) = (if rep_sign x then - int (integral_part F x) else int (integral_part F x))"
    for F and x :: "'r::len word"
    by (auto simp: val_def integral_part_def sgn_if)
  show ?thesis
    unfolding sgn using fixsfsi_result [of a] fixdfdi_result [of b] assms
    by (intro conjI; intro sint_eq_of_range) (auto simp: fix_word_def)
qed

theorem fix_exact_in_range_witness:
  "sint (fixsfsi 0xc2280000) = - 42 \<and> sint (fixdfdi 0x4045000000000000) = 42"
  using fix_exact_in_range [of "0xc2280000" "0x4045000000000000"]
  by (simp add: val_def rep_value_defs precision_values)

text \<open>When the C conversion of \<open>__mspabi_fixful\<close> is defined, it is the library's conversion.\<close>

theorem bridge_fixful:
  "(case mspabi_fixful a of None \<Rightarrow> True | Some r \<Rightarrow> r = fixunssfsi a)"
  using fixunssfsi_result [of a]
  by (auto simp: mspabi_fixful_def c_to_su_int_def fixuns_result_def min_def word_unat_eq_iff unsigned_of_nat
      take_bit_nat_eq_self split: if_splits)

text \<open>The test of the exponent against the width leaves out the magnitudes between \<open>2 ^ (N - 1)\<close> and
  \<open>2 ^ N\<close>: the float 2147483648 converts to the smallest 32-bit integer instead of saturating to the largest.\<close>

theorem fix_saturation_gap:
  "is_finite single_precision 0x4f000000 \<and> \<not> rep_sign (0x4f000000 :: 32 word) \<and>
   integral_part single_precision 0x4f000000 = 2 ^ 31 \<and> sint (fixsfsi 0x4f000000) = - (2 ^ 31)"
  by (simp add: fixsfsi_def fixint_def rep_value_defs precision_values)

end
