(* ===== verification/Fp_Float.thy ===== *)
theory Fp_Float
  imports Fp_Mul
begin

text \<open>
  Conversion of integers to floating-point numbers, in the variant for targets without floating-point
  hardware.  The routines for integers wider than the significand (\<open>floatdisf.c\<close>, \<open>floatdidf.c\<close>,
  \<open>floattisf.c\<close>, \<open>floattidf.c\<close>, \<open>floattitf.c\<close> and their unsigned forms) share one rounding of the
  significant digits; the others (\<open>floatsisf.c\<close>, \<open>floatsidf.c\<close>, \<open>floatsitf.c\<close>, \<open>floatditf.c\<close>
  and their unsigned forms) shift the integer into the significand field.  Each returns the integer rounded
  to nearest, ties to even.
\<close>

section \<open>Rounding the significant digits\<close>

text \<open>\<open>right\<close> is the right shift of the integer type, \<open>D\<close> is \<open>FLT_MANT_DIG\<close>, \<open>DBL_MANT_DIG\<close> or
  \<open>LDBL_MANT_DIG\<close>, and \<open>sd\<close> the number of significant digits of \<open>a\<close>.\<close>

definition keep_PQR :: "nat \<Rightarrow> nat \<Rightarrow> 'i::len word \<Rightarrow> 'i word" where
  "keep_PQR D sd a =
     (if sd = D + 1 then shl a 1
      else if sd = D + 2 then a
      else shr a (sd - (D + 2)) OR truth (a AND shr (- 1) ((LENGTH('i) + D + 2) - sd) \<noteq> 0))"

definition round_digits :: "('i::len word \<Rightarrow> nat \<Rightarrow> 'i word) \<Rightarrow> nat \<Rightarrow> nat \<Rightarrow> 'i word \<Rightarrow> 'i word \<times> int" where
  "round_digits right D sd a =
     (let e = int sd - 1 in
      if sd > D then
        let a = keep_PQR D sd a;
            a = a OR truth (a AND 4 \<noteq> 0);
            a = a + 1;
            a = right a 2
        in if a AND shl 1 D \<noteq> 0 then (right a 1, e + 1) else (a, e)
      else (shl a (D - sd), e))"

text \<open>The sign word \<open>s\<close>, exponent and significand are assembled in the unions \<open>float_bits\<close>,
  \<open>double_bits\<close> and \<open>long_double_bits\<close>; an unsigned routine has no sign term.\<close>

definition pack_single :: "'i::len word \<Rightarrow> int \<Rightarrow> 'i word \<Rightarrow> 32 word" where
  "pack_single s e a =
     ((ucast s :: su_int) AND 0x80000000) OR shl (word_of_int (e + 127)) 23 OR ((ucast a :: su_int) AND 0x007FFFFF)"

definition pack_double :: "'i::len word \<Rightarrow> int \<Rightarrow> 'i word \<Rightarrow> 64 word" where
  "pack_double s e a =
     make_dword
       (((ucast s :: su_int) AND 0x80000000) OR shl (word_of_int (e + 1023)) 20 OR
         ((ucast (shr a 32) :: su_int) AND 0x000FFFFF))
       (ucast a :: su_int)"

definition pack_quad :: "128 word \<Rightarrow> int \<Rightarrow> 128 word \<Rightarrow> 128 word" where
  "pack_quad s e a =
     make_dword
       (((ucast s :: du_int) AND 0x8000000000000000) OR shl (word_of_int (e + 16383)) 48 OR
         ((ucast (shr a 64) :: du_int) AND 0x0000ffffffffffff))
       (ucast a :: du_int)"

definition float_signed ::
  "nat \<Rightarrow> ('i::len word \<Rightarrow> nat) \<Rightarrow> ('i word \<Rightarrow> int \<Rightarrow> 'i word \<Rightarrow> 'r::len word) \<Rightarrow> 'i word \<Rightarrow> 'r word" where
  "float_signed D clz pack a =
     (if a = 0 then 0
      else
        let N = LENGTH('i);
            s = sar a (N - 1);
            a = (a XOR s) - s;
            sd = N - clz a;
            (a, e) = round_digits sar D sd a
        in pack s e a)"

definition float_unsigned ::
  "nat \<Rightarrow> ('i::len word \<Rightarrow> nat) \<Rightarrow> ('i word \<Rightarrow> int \<Rightarrow> 'i word \<Rightarrow> 'r::len word) \<Rightarrow> 'i word \<Rightarrow> 'r word" where
  "float_unsigned D clz pack a =
     (if a = 0 then 0
      else
        let N = LENGTH('i);
            sd = N - clz a;
            (a, e) = round_digits shr D sd a
        in pack 0 e a)"

definition floatdisf :: "di_int \<Rightarrow> 32 word" where "floatdisf = float_signed 24 builtin_clz pack_single"
definition floatdidf :: "di_int \<Rightarrow> 64 word" where "floatdidf = float_signed 53 builtin_clz pack_double"
definition floattisf :: "ti_int \<Rightarrow> 32 word" where "floattisf = float_signed 24 (\<lambda>a. unat (clzti2 a)) pack_single"
definition floattidf :: "ti_int \<Rightarrow> 64 word" where "floattidf = float_signed 53 (\<lambda>a. unat (clzti2 a)) pack_double"
definition floattitf :: "ti_int \<Rightarrow> 128 word" where "floattitf = float_signed 113 (\<lambda>a. unat (clzti2 a)) pack_quad"
definition floatundisf :: "du_int \<Rightarrow> 32 word" where "floatundisf = float_unsigned 24 builtin_clz pack_single"
definition floatundidf :: "du_int \<Rightarrow> 64 word" where "floatundidf = float_unsigned 53 builtin_clz pack_double"
definition floatuntisf :: "tu_int \<Rightarrow> 32 word" where "floatuntisf = float_unsigned 24 (\<lambda>a. unat (clzti2 a)) pack_single"
definition floatuntidf :: "tu_int \<Rightarrow> 64 word" where "floatuntidf = float_unsigned 53 (\<lambda>a. unat (clzti2 a)) pack_double"
definition floatuntitf :: "tu_int \<Rightarrow> 128 word" where "floatuntitf = float_unsigned 113 (\<lambda>a. unat (clzti2 a)) pack_quad"

section \<open>Shifting into the significand field\<close>

text \<open>The common end of the routines: the exponent and the sign bit.\<close>

definition insert_exponent :: "'r::len fp_format \<Rightarrow> int \<Rightarrow> 'r word \<Rightarrow> 'r word \<Rightarrow> 'r word" where
  "insert_exponent F exponent sign result =
     fromRep ((result + shl (word_of_int (exponent + exponentBias F)) (significandBits F)) OR sign)"

definition float_exact :: "'r::len fp_format \<Rightarrow> 'r word \<Rightarrow> 'i::len word \<Rightarrow> 'r word" where
  "float_exact F sign a =
     (let exponent = (int LENGTH('i) - 1) - int (builtin_clz a);
          shift = int (significandBits F) - exponent;
          result = shl (ucast a) (nat shift) XOR implicitBit F
      in insert_exponent F exponent sign result)"

definition float_rounded :: "'r::len fp_format \<Rightarrow> 'r word \<Rightarrow> 'i::len word \<Rightarrow> 'r word" where
  "float_rounded F sign a =
     (let exponent = (int LENGTH('i) - 1) - int (builtin_clz a);
          result =
            (if exponent \<le> int (significandBits F) then
               shl (ucast a) (nat (int (significandBits F) - exponent)) XOR implicitBit F
             else
               let shift = nat (exponent - int (significandBits F));
                   result = shr (ucast a) shift XOR implicitBit F;
                   round = shl (ucast a) (LENGTH('r) - shift);
                   result = (if round > signBit F then result + 1 else result)
               in if round = signBit F then result + (result AND 1) else result)
      in insert_exponent F exponent sign result)"

definition floatsisf :: "si_int \<Rightarrow> 32 word" where
  "floatsisf a =
     (if a = 0 then fromRep 0
      else if a <s 0 then float_rounded single_precision (signBit single_precision) (- a)
      else float_rounded single_precision 0 a)"

definition floatsidf :: "si_int \<Rightarrow> 64 word" where
  "floatsidf a =
     (if a = 0 then fromRep 0
      else if a <s 0 then float_exact double_precision (signBit double_precision) (- a)
      else float_exact double_precision 0 a)"

definition floatsitf :: "si_int \<Rightarrow> 128 word" where
  "floatsitf a =
     (if a = 0 then fromRep 0
      else if a <s 0 then float_exact quad_precision (signBit quad_precision) (NOT a + 1)
      else float_exact quad_precision 0 a)"

definition floatditf :: "di_int \<Rightarrow> 128 word" where
  "floatditf a =
     (if a = 0 then fromRep 0
      else if a <s 0 then float_exact quad_precision (signBit quad_precision) (NOT a + 1)
      else float_exact quad_precision 0 a)"

definition floatunsisf :: "su_int \<Rightarrow> 32 word" where
  "floatunsisf a = (if a = 0 then fromRep 0 else float_rounded single_precision 0 a)"

definition floatunsidf :: "su_int \<Rightarrow> 64 word" where
  "floatunsidf a = (if a = 0 then fromRep 0 else float_exact double_precision 0 a)"

definition floatunsitf :: "su_int \<Rightarrow> 128 word" where
  "floatunsitf a = (if a = 0 then fromRep 0 else float_exact quad_precision 0 a)"

definition floatunditf :: "du_int \<Rightarrow> 128 word" where
  "floatunditf a = (if a = 0 then fromRep 0 else float_exact quad_precision 0 a)"

text \<open>The contract: the integer \<open>k\<close>, rounded to nearest with ties to even.\<close>

definition int_rounds_to :: "'r::len fp_format \<Rightarrow> int \<Rightarrow> 'r word \<Rightarrow> bool" where
  "int_rounds_to F k x \<longleftrightarrow>
     rounds_to F (nat \<bar>k\<bar> * 2 ^ (nat (exponentBias F) + significandBits F - 1)) 1 (k < 0) x"


section \<open>The rounded digits\<close>

lemma or_truth: "unat (a OR truth b :: 'i::len word) = (if b \<and> even (unat a) then unat a + 1 else unat a)"
proof (cases b)
  case True
  have "unat (a OR 1) = unat a OR 1" by (simp add: unsigned_or_eq)
  then show ?thesis using True by (simp only: truth_def if_True or_one_nat) simp
qed (simp add: truth_def)

lemma and_four: "a AND 4 \<noteq> 0 \<longleftrightarrow> odd (unat a div 4)" if "3 \<le> LENGTH('i)" for a :: "'i::len word"
proof -
  have "a AND 4 \<noteq> 0 \<longleftrightarrow> bit a 2"
    using and_exp_eq_0_iff_not_bit [of a 2] by simp
  also have "\<dots> \<longleftrightarrow> bit (unat a) 2" using that by (simp add: bit_unsigned_iff)
  finally show ?thesis by (simp add: bit_iff_odd)
qed

lemma unat_plus_one: "unat a + 1 < 2 ^ LENGTH('i) \<Longrightarrow> unat (a + 1) = unat a + 1" for a :: "'i::len word"
  by (simp add: unat_plus_mod)

text \<open>Or-ing P into R, adding one and dropping Q and R rounds to nearest even.\<close>

lemma round_PQR:
  fixes a :: "'i::len word"
  assumes "unat a < 2 ^ k" "Suc k \<le> LENGTH('i)" "2 \<le> k"
  shows "unat ((a OR truth (a AND 4 \<noteq> 0)) + 1) div 4 = unat a div 4 + (if round_up 2 (unat a) (unat a div 4) then 1 else 0)"
    and "unat ((a OR truth (a AND 4 \<noteq> 0)) + 1) \<le> 2 ^ k"
proof -
  define g where "g = unat a"
  define q r where "q = g div 4" and "r = g mod 4"
  have g: "g = 4 * q + r" and r: "r < 4" by (simp_all add: q_def r_def)
  define b where "b \<longleftrightarrow> a AND 4 \<noteq> 0"
  have b: "b \<longleftrightarrow> odd q" using and_four [of a] assms by (simp add: b_def q_def g_def)
  have g': "unat (a OR truth b) = (if b \<and> even r then g + 1 else g)"
    unfolding or_truth g_def [symmetric] using g by simp
  have "4 dvd (2::nat) ^ k" using le_imp_power_dvd [OF assms(3), of "2 :: nat"] by simp
  then obtain c :: nat where c: "2 ^ k = 4 * c" by (elim dvdE)
  have le: "unat (a OR truth b) + 1 \<le> 2 ^ k"
  proof -
    have "q + 1 \<le> c" using assms(1) unfolding g_def [symmetric] c g by linarith
    moreover have "even r \<Longrightarrow> r \<le> 2" using r by presburger
    ultimately show ?thesis using r unfolding g' c g by auto
  qed
  have "(2::nat) ^ k < 2 ^ LENGTH('i)" using assms(2) by (intro power_strict_increasing) auto
  then have one: "unat ((a OR truth b) + 1) = unat (a OR truth b) + 1" using le by (intro unat_plus_one) linarith
  then show "unat ((a OR truth (a AND 4 \<noteq> 0)) + 1) \<le> 2 ^ k" using le by (simp only: b_def)
  have "r \<in> {0, 1, 2, 3}" using r by auto
  then show "unat ((a OR truth (a AND 4 \<noteq> 0)) + 1) div 4
      = unat a div 4 + (if round_up 2 (unat a) (unat a div 4) then 1 else 0)"
    unfolding b_def [symmetric] one g' g_def [symmetric] q_def [symmetric] round_up_def
    using g b by auto
qed

lemma unat_keep_PQR:
  fixes a :: "'i::len word"
  assumes n: "unat a < 2 ^ sd" and sd: "D < sd" "sd \<le> LENGTH('i)" and D: "D + 3 \<le> LENGTH('i)"
  shows "unat (keep_PQR D sd a) = (if sd = D + 1 then 2 * unat a else sticky (unat a) (sd - (D + 2)))"
proof -
  consider "sd = D + 1" | "sd = D + 2" | "D + 2 < sd" using sd(1) by linarith
  then show ?thesis
  proof cases
    case 1
    have "unat a * 2 ^ 1 < 2 ^ sd * 2" using n by simp
    also have "\<dots> = 2 ^ Suc sd" by simp
    also have "(2::nat) ^ Suc sd \<le> 2 ^ LENGTH('i)" using 1 D by (intro power_increasing) auto
    finally have "unat (shl a 1) = unat a * 2 ^ 1" by (rule unat_shl_small)
    then show ?thesis using 1 by (simp only: keep_PQR_def if_True) simp
  next
    case 2
    then show ?thesis by (simp add: keep_PQR_def)
  next
    case 3
    define k where "k = sd - (D + 2)"
    have m: "shr (- 1) ((LENGTH('i) + D + 2) - sd) = (mask k :: 'i word)"
      by (rule bit_word_eqI) (use 3 sd in \<open>auto simp: bit_drop_bit_eq bit_mask_iff k_def\<close>)
    have "a AND shr (- 1) ((LENGTH('i) + D + 2) - sd) \<noteq> 0 \<longleftrightarrow> unat a mod 2 ^ k \<noteq> 0"
      unfolding m by (simp only: word_unat_eq_iff unat_and_mask_low unat_0)
    then show ?thesis
      unfolding keep_PQR_def or_truth k_def [symmetric] using 3
      by (simp add: or_truth unat_shr sticky_def or_one_nat flip: One_nat_def)
  qed
qed


lemma sar_eq_shr: "unat w < 2 ^ (LENGTH('i) - 1) \<Longrightarrow> sar w n = shr w n" for w :: "'i::len word"
proof (rule bit_word_eqI)
  fix m
  assume w: "unat w < 2 ^ (LENGTH('i) - 1)" and m: "m < LENGTH('i)"
  note high = not_bit_of_unat_less [OF w]
  show "bit (sar w n) m = bit (shr w n) m"
    using m high [of "LENGTH('i) - 1"] high [of "n + m"]
    by (cases "LENGTH('i) - n \<le> m") (simp_all add: bit_signed_drop_bit_iff bit_drop_bit_eq)
qed

text \<open>The rounded digits and exponent are those of the representation nearest to the integer.\<close>

lemma round_digits_large:
  fixes a :: "'i::len word"
  assumes n: "2 ^ (sd - 1) \<le> unat a" "unat a < 2 ^ sd" and sd: "D < sd" "sd \<le> LENGTH('i)" and D: "2 \<le> D" "D + 4 \<le> LENGTH('i)"
    and right: "right = shr \<or> right = sar"
  defines "g \<equiv> unat (keep_PQR D sd a)"
  obtains a' j where "round_digits right D sd a = (a', int (sd - 1 + j))"
    "2 ^ (D - 1) \<le> unat a'" "unat a' < 2 ^ D"
    "unat a' * 2 ^ j = g div 4 + (if round_up 2 g (g div 4) then 1 else 0)" "j \<le> 1"
    "2 ^ (D - 1) \<le> g div 4" "g div 4 < 2 ^ D"
    "tracks 2 g (unat a * 2 ^ (D + 2)) (2 ^ sd)"
proof -
  define v where "v = (keep_PQR D sd a OR truth (keep_PQR D sd a AND 4 \<noteq> 0)) + 1"
  define t where "t = g div 4 + (if round_up 2 g (g div 4) then 1 else 0)"
  have g: "g = (if sd = D + 1 then 2 * unat a else sticky (unat a) (sd - (D + 2)))"
    unfolding g_def using n sd D by (intro unat_keep_PQR) simp_all
  have bounds: "2 ^ (D + 1) \<le> g \<and> g < 2 ^ (D + 2) \<and> tracks 2 g (unat a * 2 ^ (D + 2)) (2 ^ sd)"
  proof (cases "sd = D + 1")
    case True
    then show ?thesis using n tracks_exact [of "2 ^ sd" 2 g] by (simp add: g ac_simps)
  next
    case False
    define k where "k = sd - (D + 2)"
    have k: "sd = D + 2 + k" "sd - 1 = D + 1 + k" using False sd by (simp_all add: k_def)
    have "\<not> g < 2 ^ (D + 1)" "g < 2 ^ (D + 2)"
      unfolding g k_def [symmetric] using n False
      by (simp_all only: if_False) (subst sticky_less_iff; simp add: k power_add)+
    moreover have "tracks 2 g (unat a * 2 ^ (D + 2)) (2 ^ k * 2 ^ (D + 2))"
      unfolding g k_def [symmetric] using False by (intro tracks_scale) (simp_all add: tracks_sticky)
    moreover have "(2::nat) ^ k * 2 ^ (D + 2) = 2 ^ sd" by (simp add: k power_add)
    ultimately show ?thesis by simp
  qed
  have four: "(2::nat) ^ (D + 2) = 4 * 2 ^ D" "(2::nat) ^ (D + 1) = 4 * 2 ^ (D - 1)"
    using D by (simp_all add: power_eq_if)
  have q: "2 ^ (D - 1) \<le> g div 4" "g div 4 < 2 ^ D" using bounds unfolding four by linarith+
  have v: "unat v div 4 = t" "unat v \<le> 2 ^ (D + 2)"
    using round_PQR [of "keep_PQR D sd a" "D + 2"] bounds D unfolding v_def t_def g_def [symmetric] by simp_all
  have "(2::nat) ^ (D + 2) < 2 ^ (LENGTH('i) - 1)" using D by (intro power_strict_increasing) auto
  then have "unat v < 2 ^ (LENGTH('i) - 1)" using v(2) by linarith
  then have sh: "right w i = shr w i" if "unat w \<le> unat v" for w :: "'i word" and i
    using right that by (auto intro: sar_eq_shr)
  have rv: "right v 2 = shr v 2" "unat (shr v 2) = t" by (simp_all add: sh unat_shr v(1))
  have t: "2 ^ (D - 1) \<le> t" "t \<le> 2 ^ D" using q by (simp_all add: t_def)
  have "0 < (2::nat) ^ D" by simp
  then have "t < 2 * 2 ^ D" using t by linarith
  then have test: "shr v 2 AND shl 1 D \<noteq> 0 \<longleftrightarrow> t = 2 ^ D"
    using and_exp_eq_0_iff [of "shr v 2" D] t by (simp add: rv push_bit_eq_mult)
  show thesis
  proof (cases "t = 2 ^ D")
    case False
    then have "round_digits right D sd a = (shr v 2, int (sd - 1 + 0))"
      using sd test by (simp add: round_digits_def Let_def rv(1) flip: v_def)
    moreover have "unat (shr v 2) < 2 ^ D" "2 ^ (D - 1) \<le> unat (shr v 2)" using False t by (simp_all add: rv(2))
    ultimately show thesis
      using q bounds by (intro that [of "shr v 2" 0]) (simp_all only: rv(2) t_def power_0 mult_1_right le0)
  next
    case True
    have "unat (shr v 2) \<le> unat v" by (simp add: unat_shr)
    then have "right (shr v 2) 1 = shr (shr v 2) 1" by (rule sh)
    then have "round_digits right D sd a = (shr (shr v 2) 1, int (sd - 1 + 1))"
      using sd test True by (simp add: round_digits_def Let_def rv(1) flip: v_def)
    moreover have two: "(2::nat) ^ D = 2 ^ (D - 1) * 2 ^ 1" using D by (simp add: power_eq_if)
    moreover have half: "unat (shr (shr v 2) 1) = 2 ^ (D - 1)"
      unfolding unat_shr [where w = "shr v 2"] rv(2) True two by simp
    moreover have "(2::nat) ^ (D - 1) < 2 ^ D" using D by simp
    moreover have "2 ^ (D - 1) * 2 ^ 1 = g div 4 + (if round_up 2 g (g div 4) then 1 else 0)"
      using True two by (simp only: t_def)
    ultimately show thesis
      using q bounds by (intro that [of "shr (shr v 2) 1" 1]) (simp_all only: le_refl)
  qed
qed


lemma round_up_join_rep:
  assumes "0 < sb" "0 < e" "2 ^ sb \<le> q"
  shows "round_up f g (join_rep sb e q) \<longleftrightarrow> round_up f g q"
proof -
  have "even ((2::nat) ^ sb)" using assms(1) by simp
  then have "odd (join_rep sb e q) \<longleftrightarrow> odd q" using assms(2,3) by (simp add: join_rep_def)
  then show ?thesis by (simp add: round_up_def)
qed

lemma round_digits_nearest:
  fixes a :: "'i::len word"
  assumes n: "2 ^ (sd - 1) \<le> unat a" "unat a < 2 ^ sd" and sd: "0 < sd" "sd \<le> LENGTH('i)"
    and D: "D = Suc sb" "1 \<le> sb" "D + 4 \<le> LENGTH('i)"
    and right: "right = shr \<or> right = sar" and b: "0 < b" "sd - 1 + b < E"
  obtains a' e where "round_digits right D sd a = (a', int e)" "e + b \<le> E"
    "2 ^ sb \<le> unat a'" "unat a' < 2 * 2 ^ sb"
    "nearest_even sb (E * 2 ^ sb) (unat a * 2 ^ (b + sb - 1)) 1 (join_rep sb (e + b) (unat a'))"
proof (cases "D < sd")
  case True
  have "2 \<le> D" using D by simp
  define g where "g = unat (keep_PQR D sd a)"
  obtain a' j where r: "round_digits right D sd a = (a', int (sd - 1 + j))"
    "2 ^ sb \<le> unat a'" "unat a' < 2 * 2 ^ sb"
    "unat a' * 2 ^ j = g div 4 + (if round_up 2 g (g div 4) then 1 else 0)" "j \<le> 1"
    "2 ^ sb \<le> g div 4" "g div 4 < 2 * 2 ^ sb" "tracks 2 g (unat a * 2 ^ (D + 2)) (2 ^ sd)"
    using round_digits_large [OF n True sd(2) \<open>2 \<le> D\<close> D(3) right] unfolding g_def D(1) by auto
  define r0 where "r0 = join_rep sb (sd - 1 + b) (g div 4)"
  have ok: "significand_ok sb (sd - 1 + b) (g div 4)" using r(6,7) b by (simp add: significand_ok_def)
  have up: "round_up 2 g (g div 4) \<longleftrightarrow> round_up 2 g r0"
    unfolding r0_def using D b r(6) by (simp add: round_up_join_rep)
  have pow: "2 ^ (D + 2) * 2 ^ (b + sb - 1) = (2::nat) ^ (b + sb - 1) * 2 ^ 2 * 2 ^ D"
    "(2::nat) ^ sd * 2 ^ (b + sb - 1) = 2 ^ (sd - 1 + b - 1) * 2 ^ D"
  proof -
    show "2 ^ (D + 2) * 2 ^ (b + sb - 1) = (2::nat) ^ (b + sb - 1) * 2 ^ 2 * 2 ^ D" by (simp add: power_add)
    have "sd + (b + sb - 1) = (sd - 1 + b - 1) + D" using D sd b by simp
    then show "(2::nat) ^ sd * 2 ^ (b + sb - 1) = 2 ^ (sd - 1 + b - 1) * 2 ^ D" by (simp only: flip: power_add)
  qed
  have "tracks 2 g (unat a * 2 ^ (D + 2) * 2 ^ (b + sb - 1)) (2 ^ sd * 2 ^ (b + sb - 1))"
    using r(8) by (rule tracks_scale) simp
  then have "tracks 2 g (unat a * 2 ^ (b + sb - 1) * 2 ^ 2 * 2 ^ D) (2 ^ (sd - 1 + b - 1) * 2 ^ D)"
    by (simp only: mult.assoc pow)
  then have "tracks 2 g (unat a * 2 ^ (b + sb - 1) * 2 ^ 2) (2 ^ (sd - 1 + b - 1))" by (rule tracks_unscale) simp
  then have "nearest_even sb (E * 2 ^ sb) (unat a * 2 ^ (b + sb - 1)) 1 (if round_up 2 g r0 then r0 + 1 else r0)"
    using join_rep_less [OF ok b(2)]
    by (intro nearest_even_round [where e = "sd - 1 + b"]) (use ok in \<open>simp_all add: r0_def\<close>)
  moreover have "join_rep sb (sd - 1 + j + b) (unat a') = (if round_up 2 g r0 then r0 + 1 else r0)"
  proof -
    define U where "U = (if round_up 2 g r0 then 1 else 0 :: nat)"
    have a': "unat a' * 2 ^ j = g div 4 + U" using r(4) up by (simp add: U_def)
    have "U \<le> 1" by (simp add: U_def)
    have r0: "r0 + 2 ^ sb = (sd - 1 + b) * 2 ^ sb + g div 4" using r(6) b by (simp add: r0_def join_rep_def)
    have "join_rep sb (sd - 1 + j + b) (unat a') + 2 ^ sb = (sd - 1 + j + b) * 2 ^ sb + unat a'"
      using r(2) b by (simp add: join_rep_def)
    moreover have "j * 2 ^ sb + unat a' = g div 4 + U"
    proof (cases "j = 0")
      case False
      then have j: "j = 1" using r(5) by simp
      then have "2 * unat a' = g div 4 + U" using a' by simp
      then have "unat a' = 2 ^ sb" using r(2,7) \<open>U \<le> 1\<close> by linarith
      then show ?thesis using j \<open>2 * unat a' = g div 4 + U\<close> by simp
    qed (use a' in simp)
    ultimately have "join_rep sb (sd - 1 + j + b) (unat a') = r0 + U" using r0 by (simp add: add_mult_distrib)
    then show ?thesis by (simp add: U_def)
  qed
  ultimately show thesis using r(1-3,5) b(2) by (intro that [of a' "sd - 1 + j"]) simp_all
next
  case False
  have le: "unat a * 2 ^ (D - sd) < 2 ^ sd * 2 ^ (D - sd)" using n(2) by simp
  also have eq: "2 ^ sd * 2 ^ (D - sd) = (2::nat) ^ D" using False by (simp flip: power_add)
  finally have less: "unat a * 2 ^ (D - sd) < 2 ^ D" .
  also have "(2::nat) ^ D \<le> 2 ^ LENGTH('i)" using D by (intro power_increasing) auto
  finally have u: "unat (shl a (D - sd)) = unat a * 2 ^ (D - sd)" by (rule unat_shl_small)
  have "2 ^ (sd - 1) * 2 ^ (D - sd) \<le> unat a * 2 ^ (D - sd)" using n(1) by simp
  moreover have "2 ^ (sd - 1) * 2 ^ (D - sd) = (2::nat) ^ sb" using False D sd by (simp flip: power_add)
  ultimately have range: "2 ^ sb \<le> unat (shl a (D - sd))" "unat (shl a (D - sd)) < 2 * 2 ^ sb"
  proof -
    have "(2::nat) ^ D = 2 * 2 ^ sb" by (simp add: D(1))
    then show "unat (shl a (D - sd)) < 2 * 2 ^ sb" unfolding u using less by linarith
    show "2 ^ sb \<le> unat (shl a (D - sd))" unfolding u
      using \<open>2 ^ (sd - 1) * 2 ^ (D - sd) \<le> _\<close> \<open>2 ^ (sd - 1) * 2 ^ (D - sd) = 2 ^ sb\<close> by linarith
  qed
  then have ok: "significand_ok sb (sd - 1 + b) (unat (shl a (D - sd)))" using b by (simp add: significand_ok_def)
  have "mag sb (join_rep sb (sd - 1 + b) (unat (shl a (D - sd)))) = unat a * 2 ^ (D - sd) * 2 ^ (sd - 1 + b - 1)"
    using mag_join_rep(1) [OF ok] by (simp only: u)
  also have "\<dots> = unat a * 2 ^ (b + sb - 1)" using False D sd b by (simp add: mult.assoc add.commute flip: power_add)
  finally have mag: "mag sb (join_rep sb (sd - 1 + b) (unat (shl a (D - sd)))) = unat a * 2 ^ (b + sb - 1)" .
  have "nearest_even sb (E * 2 ^ sb) (unat a * 2 ^ (b + sb - 1)) 1 (join_rep sb (sd - 1 + b) (unat (shl a (D - sd))))"
    using nearest_even_exact [of "join_rep sb (sd - 1 + b) (unat (shl a (D - sd)))" "E * 2 ^ sb" 1 sb]
      join_rep_less [OF ok b(2)] unfolding mag by simp
  moreover have "round_digits right D sd a = (shl a (D - sd), int (sd - 1))"
    using False sd by (simp add: round_digits_def Let_def)
  ultimately show thesis using range b by (intro that [of "shl a (D - sd)" "sd - 1"]) simp_all
qed


section \<open>The packed representation\<close>

definition sign_word :: "bool \<Rightarrow> 'i::len word" where
  "sign_word neg = (if neg then - 1 else 0)"

lemma bit_sign_word: "bit (sign_word neg :: 'i::len word) n \<longleftrightarrow> neg \<and> n < LENGTH('i)"
  by (auto simp: sign_word_def)

text \<open>The masks of the packing, bit by bit.\<close>

lemma bit_mask_constants:
  "bit (0x80000000 :: 32 word) n \<longleftrightarrow> n = 31" "bit (0x8000000000000000 :: 64 word) n \<longleftrightarrow> n = 63"
  "bit (0x007FFFFF :: 32 word) n \<longleftrightarrow> n < 23" "bit (0x000FFFFF :: 32 word) n \<longleftrightarrow> n < 20"
  "bit (0x0000ffffffffffff :: 64 word) n \<longleftrightarrow> n < 48"
proof -
  have "(0x80000000 :: 32 word) = push_bit 31 1" "(0x8000000000000000 :: 64 word) = push_bit 63 1"
    "(0x007FFFFF :: 32 word) = mask 23" "(0x000FFFFF :: 32 word) = mask 20" "(0x0000ffffffffffff :: 64 word) = mask 48"
    by (simp_all add: mask_eq_exp_minus_1)
  then show "bit (0x80000000 :: 32 word) n \<longleftrightarrow> n = 31" "bit (0x8000000000000000 :: 64 word) n \<longleftrightarrow> n = 63"
    "bit (0x007FFFFF :: 32 word) n \<longleftrightarrow> n < 23" "bit (0x000FFFFF :: 32 word) n \<longleftrightarrow> n < 20"
    "bit (0x0000ffffffffffff :: 64 word) n \<longleftrightarrow> n < 48"
    by (simp_all only: bit_push_bit_iff bit_mask_iff) auto
qed

lemmas pack_bits = bit_or_iff bit_and_iff bit_ucast_iff bit_sign_word bit_mask_iff bit_push_bit_iff bit_mask_constants
  bit_1_iff bit_0_eq bit_drop_bit_eq bit_word_of_int_iff if_distrib [of bit] if_distrib [of "\<lambda>f. f n" for n]

lemma pack_single_eq:
  fixes a :: "'i::len word"
  assumes "32 \<le> LENGTH('i)"
  shows "pack_single (sign_word neg) e a = ((ucast a AND mask 23) OR shl (word_of_int (e + 127)) 23) OR (if neg then shl 1 31 else 0)"
  unfolding pack_single_def by (rule bit_word_eqI) (use assms in \<open>simp only: pack_bits, auto\<close>)

lemma pack_double_eq:
  fixes a :: "'i::len word"
  assumes "64 \<le> LENGTH('i)"
  shows "pack_double (sign_word neg) e a = ((ucast a AND mask 52) OR shl (word_of_int (e + 1023)) 52) OR (if neg then shl 1 63 else 0)"
  unfolding pack_double_def make_dword_def
  by (rule bit_word_eqI) (use assms in \<open>simp only: pack_bits, auto\<close>)

lemma pack_quad_eq:
  "pack_quad (sign_word neg) e a = ((ucast a AND mask 112) OR shl (word_of_int (e + 16383)) 112) OR (if neg then shl 1 127 else 0)"
  unfolding pack_quad_def make_dword_def by (rule bit_word_eqI) (simp only: pack_bits, auto)

context fp_base
begin

lemma packed_rounds:
  fixes q :: "'r word"
  assumes near: "nearest_even (significandBits F) (infty_rep F) num 1 (join_rep (significandBits F) E (unat q))"
    and q: "2 ^ significandBits F \<le> unat q" "unat q < 2 * 2 ^ significandBits F" and E: "0 < E" "E < 2 ^ exponentBits F"
  shows "rounds_to F num 1 neg
    (((q AND significandMask F) OR shl (word_of_int (int E)) (significandBits F)) OR (if neg then signBit F else 0))"
proof -
  let ?m = "(q AND significandMask F) OR shl (word_of_int (int E)) (significandBits F)"
  have "int E < 2 ^ exponentBits F" using E(2) by (simp flip: of_nat_less_iff)
  then have "unat ?m = E * 2 ^ significandBits F + unat q mod 2 ^ significandBits F"
    using pack_fields [of "int E" q] by simp
  moreover have "significand_ok (significandBits F) E (unat q)" using q E by (simp add: significand_ok_def)
  ultimately have m: "unat ?m = join_rep (significandBits F) E (unat q)" by (simp add: join_rep_mod)
  have "unat ?m \<le> infty_rep F" using near unfolding m by (simp only: nearest_even_def)
  then have less: "unat ?m < 2 ^ (LENGTH('r) - 1)" using infty_rep_less by linarith
  show ?thesis using near sign_or_if [OF less, of neg] by (simp only: rounds_to_def m)
qed

lemma round_digits_rounds:
  fixes a :: "'i::len word"
  assumes a: "a \<noteq> 0" and right: "right = shr \<or> right = sar"
    and sizes: "significandBits F + 5 \<le> LENGTH('i)" "int LENGTH('i) \<le> exponentBias F + 1"
    and r: "round_digits right (Suc (significandBits F)) (LENGTH('i) - builtin_clz a) a = (a', e)"
  shows "rounds_to F (unat a * 2 ^ (nat (exponentBias F) + significandBits F - 1)) 1 neg
    (((ucast a' AND significandMask F) OR shl (word_of_int (e + exponentBias F)) (significandBits F))
      OR (if neg then signBit F else 0))"
proof -
  let ?sb = "significandBits F"
  define sd b where "sd = LENGTH('i) - builtin_clz a" and "b = nat (exponentBias F)"
  have sd: "0 < sd" "sd \<le> LENGTH('i)" using builtin_clz.clz_less [OF a] by (simp_all add: sd_def)
  have "LENGTH('i) - 1 - builtin_clz a = sd - 1" by (simp add: sd_def)
  then have n: "2 ^ (sd - 1) \<le> unat a" "unat a < 2 ^ sd"
    using builtin_clz.clz_lower [OF a] builtin_clz.clz_upper [OF a] by (simp_all add: sd_def)
  have b: "exponentBias F = int b" "0 < b" using maxExponent_bounds by (simp_all add: b_def exponentBias_def)
  have E: "int (2 ^ exponentBits F - 1) = 2 * int b + 1"
    using maxExponent_bias by (simp add: b maxExponent_def of_nat_diff)
  then have "sd - 1 + b < 2 ^ exponentBits F - 1" using sd sizes b by linarith
  moreover have "1 \<le> ?sb" "Suc ?sb + 4 \<le> LENGTH('i)" using fraction_bits sizes by simp_all
  ultimately obtain a'' k where k: "round_digits right (Suc ?sb) sd a = (a'', int k)" "k + b \<le> 2 ^ exponentBits F - 1"
    "2 ^ ?sb \<le> unat a''" "unat a'' < 2 * 2 ^ ?sb"
    "nearest_even ?sb ((2 ^ exponentBits F - 1) * 2 ^ ?sb) (unat a * 2 ^ (b + ?sb - 1)) 1 (join_rep ?sb (k + b) (unat a''))"
    using round_digits_nearest [OF n sd refl _ _ right b(2)] by metis
  then have eq: "a'' = a'" "int k = e" using r by (simp_all add: sd_def)
  have "(2::nat) * 2 ^ ?sb \<le> 2 ^ LENGTH('r)" by (simp add: width power_add)
  then have u: "unat (ucast a' :: 'r word) = unat a'"
    using k(4) by (simp add: eq unsigned_ucast_eq take_bit_nat_eq_self)
  have "word_of_int (e + exponentBias F) = (word_of_int (int (k + b)) :: 'r word)" by (simp add: b eq [symmetric])
  moreover have "k + b < 2 ^ exponentBits F" using k(2) by (simp add: Suc_le_eq [symmetric] le_diff_conv2 flip: Suc_eq_plus1)
  ultimately show ?thesis
    using packed_rounds [of _ "k + b" "ucast a'" neg] k(3-5) b(2)
    by (simp only: u eq infty_rep_def b_def [symmetric])
qed

lemma int_rounds_to_zero: "int_rounds_to F 0 (0 :: 'r word)"
  using rounds_to_zero [of 0 1 "0 :: 'r word"] by (simp add: int_rounds_to_def rep_sign_def)

lemma float_unsigned_rounds:
  fixes a :: "'i::len word" and pack :: "'i word \<Rightarrow> int \<Rightarrow> 'i word \<Rightarrow> 'r word"
  assumes clz: "\<And>w. w \<noteq> 0 \<Longrightarrow> clz w = builtin_clz w"
    and pack: "\<And>neg e a. pack (sign_word neg) e a =
      ((ucast a AND significandMask F) OR shl (word_of_int (e + exponentBias F)) (significandBits F))
        OR (if neg then signBit F else 0)"
    and sizes: "significandBits F + 5 \<le> LENGTH('i)" "int LENGTH('i) \<le> exponentBias F + 1"
  shows "int_rounds_to F (uint a) (float_unsigned (Suc (significandBits F)) clz pack a)"
proof (cases "a = 0")
  case False
  obtain a' e where r: "round_digits shr (Suc (significandBits F)) (LENGTH('i) - builtin_clz a) a = (a', e)"
    by fastforce
  have "pack 0 e a' = pack (sign_word False) e a'" by (simp add: sign_word_def)
  then have "float_unsigned (Suc (significandBits F)) clz pack a = pack (sign_word False) e a'"
    using False by (simp add: float_unsigned_def Let_def clz r)
  then show ?thesis
    using round_digits_rounds [OF False _ sizes r, of False] by (simp add: pack int_rounds_to_def)
qed (simp add: float_unsigned_def int_rounds_to_zero)

lemma float_signed_rounds:
  fixes a :: "'i::len word" and pack :: "'i word \<Rightarrow> int \<Rightarrow> 'i word \<Rightarrow> 'r word"
  assumes clz: "\<And>w. w \<noteq> 0 \<Longrightarrow> clz w = builtin_clz w"
    and pack: "\<And>neg e a. pack (sign_word neg) e a =
      ((ucast a AND significandMask F) OR shl (word_of_int (e + exponentBias F)) (significandBits F))
        OR (if neg then signBit F else 0)"
    and sizes: "significandBits F + 5 \<le> LENGTH('i)" "int LENGTH('i) \<le> exponentBias F + 1"
  shows "int_rounds_to F (sint a) (float_signed (Suc (significandBits F)) clz pack a)"
proof (cases "a = 0")
  case False
  define m where "m = (if sint a < 0 then - a else a)"
  have m: "m \<noteq> 0" "uint m = \<bar>sint a\<bar>" using False uint_abs_word [of a] by (simp_all add: m_def)
  then have um: "unat m = nat \<bar>sint a\<bar>" by (metis nat_uint_eq)
  obtain a' e where r: "round_digits sar (Suc (significandBits F)) (LENGTH('i) - builtin_clz m) m = (a', e)"
    by fastforce
  have s: "sar a (LENGTH('i) - 1) = sign_word (sint a < 0)" by (simp only: sar_sign sign_word_def)
  have "(a XOR sign_word (sint a < 0)) - sign_word (sint a < 0) = m"
    by (simp add: sign_word_def m_def not_eq_complement)
  then have "float_signed (Suc (significandBits F)) clz pack a = pack (sign_word (sint a < 0)) e a'"
    using False by (simp only: float_signed_def Let_def if_False s clz [OF m(1)] r prod.case)
  then show ?thesis
    using round_digits_rounds [OF m(1) _ sizes r, of "sint a < 0"] by (simp add: pack int_rounds_to_def um)
qed (simp add: float_signed_def int_rounds_to_zero)

end

text \<open>The packings, in terms of the formats.\<close>

lemma pack_formats:
  "32 \<le> LENGTH('i) \<Longrightarrow> pack_single (sign_word neg) e (a :: 'i::len word) =
    ((ucast a AND significandMask single_precision) OR shl (word_of_int (e + exponentBias single_precision)) (significandBits single_precision))
        OR (if neg then signBit single_precision else 0)"
  "64 \<le> LENGTH('i) \<Longrightarrow> pack_double (sign_word neg) e (a :: 'i word) =
    ((ucast a AND significandMask double_precision) OR shl (word_of_int (e + exponentBias double_precision)) (significandBits double_precision))
        OR (if neg then signBit double_precision else 0)"
  "pack_quad (sign_word neg) e b =
    ((ucast b AND significandMask quad_precision) OR shl (word_of_int (e + exponentBias quad_precision)) (significandBits quad_precision))
        OR (if neg then signBit quad_precision else 0)"
  by (simp_all add: pack_single_eq pack_double_eq pack_quad_eq single.significandMask_eq double.significandMask_eq
      quad.significandMask_eq signBit_def)


section \<open>The integer in the significand field\<close>

context fp_base
begin

lemma xor_implicitBit:
  fixes q :: "'r word"
  assumes "2 ^ significandBits F \<le> unat q" "unat q < 2 * 2 ^ significandBits F"
  shows "unat (q XOR implicitBit F) = unat q - 2 ^ significandBits F"
proof -
  have "q AND implicitBit F \<noteq> 0" using and_exp_eq_0_iff [OF assms(2)] assms(1) by (simp add: implicitBit_exp)
  then have b: "bit q (significandBits F)" by (simp add: implicitBit_exp and_exp_eq_0_iff_not_bit)
  have "unat q < 2 ^ Suc (significandBits F)" using assms(2) by simp
  note high = not_bit_of_unat_less [OF this]
  have "q XOR implicitBit F = q AND significandMask F"
  proof (rule bit_word_eqI)
    fix i
    assume "i < LENGTH('r)"
    then show "bit (q XOR implicitBit F) i = bit (q AND significandMask F) i"
      using b high [of i]
      by (cases i "significandBits F" rule: linorder_cases) (simp_all add: bit_xor_iff bit_and_iff implicitBit_exp significandMask_eq bit_exp_iff bit_mask_iff)
  qed
  then have "unat (q XOR implicitBit F) = unat q mod 2 ^ significandBits F"
    by (simp only: significandMask_eq unat_and_mask_low)
  then show ?thesis using assms by (simp add: le_mod_geq)
qed

lemma insert_exponent_rounds:
  fixes r :: "'r word"
  assumes near: "nearest_even (significandBits F) (infty_rep F) num 1 (unat r + nat (x + exponentBias F) * 2 ^ significandBits F)"
    and x: "0 \<le> x" "x + exponentBias F < 2 ^ exponentBits F"
  shows "rounds_to F num 1 neg (insert_exponent F x (if neg then signBit F else 0) r)"
proof -
  let ?E = "x + exponentBias F"
  have E: "0 \<le> ?E" using x(1) exponentBias_bounds by simp
  have shift: "unat (shl (word_of_int ?E) (significandBits F) :: 'r word) = nat ?E * 2 ^ significandBits F"
    using pack_fields [OF E x(2), of 0] by simp
  have "unat r + nat ?E * 2 ^ significandBits F \<le> infty_rep F" using near by (simp only: nearest_even_def)
  then have less: "unat r + nat ?E * 2 ^ significandBits F < 2 ^ (LENGTH('r) - 1)" using infty_rep_less by linarith
  moreover have "(2::nat) ^ (LENGTH('r) - 1) \<le> 2 ^ LENGTH('r)" by (intro power_increasing) auto
  ultimately have sum: "unat (r + shl (word_of_int ?E) (significandBits F)) = unat r + nat ?E * 2 ^ significandBits F"
    by (subst unat_plus_small) (simp_all only: shift less_le_trans)
  show ?thesis
    using near less sign_or_if [of "r + shl (word_of_int ?E) (significandBits F)" neg]
    unfolding sum by (simp add: rounds_to_def insert_exponent_def sum)
qed

text \<open>The exponent of a nonzero integer is the position of its leading one bit.\<close>

lemma leading_exponent:
  fixes a :: "'i::len word"
  assumes "a \<noteq> 0"
  obtains x where "(int LENGTH('i) - 1) - int (builtin_clz a) = int x" "2 ^ x \<le> unat a" "unat a < 2 * 2 ^ x" "x < LENGTH('i)"
proof -
  have "LENGTH('i) - builtin_clz a = Suc (LENGTH('i) - 1 - builtin_clz a)" using builtin_clz.clz_less [OF assms] by simp
  then show thesis
    using that [of "LENGTH('i) - 1 - builtin_clz a"] builtin_clz.clz_less [OF assms]
      builtin_clz.clz_lower [OF assms] builtin_clz.clz_upper [OF assms] by (simp add: of_nat_diff)
qed

lemma field_exact:
  fixes a :: "'i::len word"
  assumes a: "2 ^ x \<le> unat a" "unat a < 2 * 2 ^ x" and x: "x \<le> significandBits F" "int x \<le> exponentBias F"
  shows "rounds_to F (unat a * 2 ^ (nat (exponentBias F) + significandBits F - 1)) 1 neg
    (insert_exponent F (int x) (if neg then signBit F else 0)
      (shl (ucast a) (nat (int (significandBits F) - int x)) XOR implicitBit F))"
proof -
  let ?sb = "significandBits F"
  define k b where "k = ?sb - x" and "b = nat (exponentBias F)"
  have b: "exponentBias F = int b" "0 < b" using maxExponent_bounds by (simp_all add: b_def exponentBias_def)
  have k: "nat (int ?sb - int x) = k" "x + k = ?sb" using x by (simp_all add: k_def nat_diff_distrib)
  have P: "2 ^ x * 2 ^ k = (2::nat) ^ ?sb" by (simp add: k(2) flip: power_add)
  have range: "2 ^ ?sb \<le> unat a * 2 ^ k" "unat a * 2 ^ k < 2 * 2 ^ ?sb" using a unfolding P [symmetric] by simp_all
  have W: "2 * 2 ^ ?sb \<le> (2::nat) ^ LENGTH('r)" by (simp add: width power_add)
  have "unat a * 1 \<le> unat a * 2 ^ k" by (intro mult_le_mono2) simp
  then have "unat a < 2 ^ LENGTH('r)" using range(2) W by linarith
  then have u: "unat (ucast a :: 'r word) = unat a" by (simp add: unsigned_ucast_eq take_bit_nat_eq_self)
  have q: "unat (shl (ucast a :: 'r word) k) = unat a * 2 ^ k"
    using range(2) W unfolding u [symmetric] by (intro unat_shl_small) linarith
  have "int (2 ^ exponentBits F - 1) = 2 * int b + 1" "(2::int) ^ exponentBits F = 2 * int b + 2"
    using maxExponent_bias by (simp_all add: b maxExponent_def of_nat_diff)
  then have E: "x + b < 2 ^ exponentBits F - 1" "int x + exponentBias F < 2 ^ exponentBits F" "nat (int x + exponentBias F) = x + b"
    using x(2) unfolding b(1) by linarith+
  have ok: "significand_ok ?sb (x + b) (unat a * 2 ^ k)" using range b by (simp add: significand_ok_def)
  have r: "unat (shl (ucast a :: 'r word) k XOR implicitBit F) + nat (int x + exponentBias F) * 2 ^ ?sb
      = join_rep ?sb (x + b) (unat a * 2 ^ k)"
    using xor_implicitBit [of "shl (ucast a) k"] range b(2) unfolding q E(3) by (simp add: join_rep_def)
  have "mag ?sb (join_rep ?sb (x + b) (unat a * 2 ^ k)) = unat a * 2 ^ (b + ?sb - 1)"
  proof -
    have "k + (x + b - 1) = b + ?sb - 1" using k(2) b(2) by simp
    then show ?thesis unfolding mag_join_rep(1) [OF ok] by (simp only: mult.assoc flip: power_add)
  qed
  then have "nearest_even ?sb (infty_rep F) (unat a * 2 ^ (b + ?sb - 1)) 1 (join_rep ?sb (x + b) (unat a * 2 ^ k))"
    using nearest_even_exact [of "join_rep ?sb (x + b) (unat a * 2 ^ k)" "infty_rep F" 1 ?sb] join_rep_less [OF ok E(1)]
    by (simp only: infty_rep_def) simp
  then show ?thesis
    unfolding k(1) b_def [symmetric] using E(2) by (intro insert_exponent_rounds) (simp_all only: r of_nat_0_le_iff)
qed

lemma float_exact_rounds:
  fixes a :: "'i::len word"
  assumes "a \<noteq> 0" "LENGTH('i) \<le> significandBits F" "int LENGTH('i) \<le> exponentBias F"
  shows "rounds_to F (unat a * 2 ^ (nat (exponentBias F) + significandBits F - 1)) 1 neg
    (float_exact F (if neg then signBit F else 0) a)"
proof -
  obtain x where x: "(int LENGTH('i) - 1) - int (builtin_clz a) = int x" "2 ^ x \<le> unat a" "unat a < 2 * 2 ^ x" "x < LENGTH('i)"
    using leading_exponent [OF assms(1)] .
  show ?thesis
    unfolding float_exact_def Let_def x(1) using assms(2,3) x(2-4) by (intro field_exact) simp_all
qed

lemma field_rounded:
  fixes a :: "'i::len word"
  assumes a: "2 ^ x \<le> unat a" "unat a < 2 * 2 ^ x" and x: "significandBits F < x" "int x < exponentBias F"
    and width_i: "x < LENGTH('i)" "LENGTH('i) \<le> LENGTH('r)"
  defines "k \<equiv> x - significandBits F"
  shows "rounds_to F (unat a * 2 ^ (nat (exponentBias F) + significandBits F - 1)) 1 neg
    (insert_exponent F (int x) (if neg then signBit F else 0)
      (let result = shr (ucast a) k XOR implicitBit F;
           round = shl (ucast a) (LENGTH('r) - k);
           result = (if round > signBit F then result + 1 else result)
       in if round = signBit F then result + (result AND 1) else result))"
proof -
  let ?sb = "significandBits F"
  define b where "b = nat (exponentBias F)"
  have b: "exponentBias F = int b" "0 < b" using maxExponent_bounds by (simp_all add: b_def exponentBias_def)
  have k: "0 < k" "x = ?sb + k" using x by (simp_all add: k_def)
  have kW: "k < LENGTH('r)" using k(2) width_i by linarith
  define q where "q = unat a div 2 ^ k"
  have range: "2 ^ ?sb \<le> q" "q < 2 * 2 ^ ?sb"
    using a unfolding q_def k(2) power_add by (simp_all add: less_eq_div_iff_mult_less_eq less_mult_imp_div_less)
  have "(2::nat) ^ LENGTH('i) \<le> 2 ^ LENGTH('r)" using width_i by (intro power_increasing) auto
  then have "unat a < 2 ^ LENGTH('r)" using unat_less_exp_len [of a] by linarith
  then have u: "unat (ucast a :: 'r word) = unat a" by (simp add: unsigned_ucast_eq take_bit_nat_eq_self)
  then have uq: "unat (shr (ucast a :: 'r word) k) = q" by (simp add: unat_shr q_def)
  define r where "r = (shr (ucast a) k XOR implicitBit F :: 'r word)"
  have r: "unat r = q - 2 ^ ?sb" unfolding r_def using xor_implicitBit [of "shr (ucast a) k"] range by (simp only: uq)
  have P: "even ((2::nat) ^ ?sb)" "0 < (2::nat) ^ ?sb" using fraction_bits by simp_all
  have W: "(2::nat) ^ LENGTH('r) = 2 ^ (LENGTH('r) - k) * 2 ^ k" "(2::nat) ^ (LENGTH('r) - 1) = 2 ^ (LENGTH('r) - k) * 2 ^ (k - 1)"
    using kW k(1) by (simp_all flip: power_add)
  define round where "round = (shl (ucast a) (LENGTH('r) - k) :: 'r word)"
  have round: "unat round = 2 ^ (LENGTH('r) - k) * (unat a mod 2 ^ k)"
    unfolding round_def unat_shl u W(1) mult.commute [of "unat a"] by (rule mult_mod_right [symmetric])
  have test: "round > signBit F \<longleftrightarrow> 2 ^ (k - 1) < unat a mod 2 ^ k" "round = signBit F \<longleftrightarrow> unat a mod 2 ^ k = 2 ^ (k - 1)"
    unfolding word_less_nat_alt word_unat_eq_iff unat_signBit round W(2) by simp_all
  have E: "int (2 ^ exponentBits F - 1) = 2 * int b + 1" "(2::int) ^ exponentBits F = 2 * int b + 2"
    using maxExponent_bias by (simp_all add: b maxExponent_def of_nat_diff)
  then have E: "x + b < 2 ^ exponentBits F - 1" "int x + exponentBias F < 2 ^ exponentBits F" "nat (int x + exponentBias F) = x + b"
    using x(2) unfolding b(1) by linarith+
  have ok: "significand_ok ?sb (x + b) q" using range b by (simp add: significand_ok_def)
  define r0 where "r0 = join_rep ?sb (x + b) q"
  have up: "round_up k (unat a) r0 \<longleftrightarrow> round_up k (unat a) (unat r)"
  proof -
    have "odd r0 \<longleftrightarrow> odd (unat r)" unfolding r r0_def using range b P(1) by (simp add: join_rep_def)
    then show ?thesis by (simp add: round_up_def)
  qed
  define R where "R = (let result = (if round > signBit F then r + 1 else r) in if round = signBit F then result + (result AND 1) else result)"
  have "unat r + 1 < 2 ^ LENGTH('r)"
  proof -
    have "unat r + 1 \<le> 2 ^ ?sb" using r range by simp
    also have "(2::nat) ^ ?sb < 2 ^ LENGTH('r)" using width by (intro power_strict_increasing) auto
    finally show ?thesis .
  qed
  then have one: "unat (r + 1) = unat r + 1" by (simp add: unat_plus_mod)
  have R: "unat R = unat r + (if round_up k (unat a) (unat r) then 1 else 0)"
    using one by (auto simp: R_def Let_def test round_up_def and_one)
  have sum: "unat R + nat (int x + exponentBias F) * 2 ^ ?sb = (if round_up k (unat a) r0 then r0 + 1 else r0)"
  proof -
    have "r0 + 2 ^ ?sb = (x + b) * 2 ^ ?sb + q" using range b by (simp add: r0_def join_rep_def)
    then show ?thesis unfolding R up E(3) r using range(1) by auto
  qed
  have "nearest_even ?sb (infty_rep F) (unat a * 2 ^ (b + ?sb - 1)) 1 (if round_up k (unat a) r0 then r0 + 1 else r0)"
  proof (rule nearest_even_round [OF k(1), of _ "x + b"])
    have "b + ?sb - 1 + k = x + b - 1" using k(2) b(2) by simp
    then have "unat a * 2 ^ (b + ?sb - 1) * 2 ^ k = unat a * 2 ^ (x + b - 1)" by (simp only: mult.assoc flip: power_add)
    then show "tracks (2 ^ (k - 1)) (unat a) (unat a * 2 ^ (b + ?sb - 1) * 2 ^ k) (1 * 2 ^ (x + b - 1))"
      by (simp only: mult_1_left tracks_exact zero_less_power zero_less_numeral)
  qed (use ok join_rep_less [OF ok E(1)] in \<open>simp_all add: q_def r0_def infty_rep_def\<close>)
  then show ?thesis
    unfolding r_def [symmetric] round_def [symmetric] R_def [symmetric, unfolded Let_def] Let_def b_def [symmetric]
    using E(2) by (intro insert_exponent_rounds) (simp_all only: sum of_nat_0_le_iff)
qed

lemma float_rounded_rounds:
  fixes a :: "'i::len word"
  assumes "a \<noteq> 0" "LENGTH('i) \<le> LENGTH('r)" "int LENGTH('i) \<le> exponentBias F"
  shows "rounds_to F (unat a * 2 ^ (nat (exponentBias F) + significandBits F - 1)) 1 neg
    (float_rounded F (if neg then signBit F else 0) a)"
proof -
  obtain x where x: "(int LENGTH('i) - 1) - int (builtin_clz a) = int x" "2 ^ x \<le> unat a" "unat a < 2 * 2 ^ x" "x < LENGTH('i)"
    using leading_exponent [OF assms(1)] .
  show ?thesis
  proof (cases "x \<le> significandBits F")
    case True
    then show ?thesis
      unfolding float_rounded_def Let_def x(1) using field_exact [OF x(2,3) True, of neg] assms(3) x(4) by simp
  next
    case False
    then have k: "nat (int x - int (significandBits F)) = x - significandBits F"
      "int x \<le> int (significandBits F) \<longleftrightarrow> False" "significandBits F < x" "int x < exponentBias F"
      using assms(3) x(4) by simp_all
    show ?thesis
      unfolding float_rounded_def Let_def x(1) k(1,2) if_False
      by (rule field_rounded [OF x(2,3) k(3,4) x(4) assms(2), of neg, unfolded Let_def])
  qed
qed

end


section \<open>Properties\<close>

context fp_base
begin

text \<open>The routines take the magnitude of a signed integer and convert it as an unsigned one.\<close>

lemma by_sign_rounds:
  fixes a :: "'i::len word"
  assumes conv: "\<And>neg w. w \<noteq> 0 \<Longrightarrow>
    rounds_to F (unat w * 2 ^ (nat (exponentBias F) + significandBits F - 1)) 1 neg (conv (if neg then signBit F else 0) (w :: 'i word))"
  shows "int_rounds_to F (sint a) (if a = 0 then fromRep 0 else if a <s 0 then conv (signBit F) (- a) else conv 0 a)"
    and "int_rounds_to F (uint a) (if a = 0 then fromRep 0 else conv 0 a)"
proof -
  have m: "unat (if sint a < 0 then - a else a) = nat \<bar>sint a\<bar>"
    using uint_abs_word [of a] by (metis nat_uint_eq)
  have s: "a <s 0 \<longleftrightarrow> sint a < 0" by (simp add: word_sless_alt)
  show "int_rounds_to F (sint a) (if a = 0 then fromRep 0 else if a <s 0 then conv (signBit F) (- a) else conv 0 a)"
    using conv [of "- a" True] conv [of a False] m int_rounds_to_zero unfolding s
    by (cases "sint a < 0") (auto simp: int_rounds_to_def)
  show "int_rounds_to F (uint a) (if a = 0 then fromRep 0 else conv 0 a)"
    using conv [of a False] int_rounds_to_zero by (auto simp: int_rounds_to_def)
qed

text \<open>An integer that fits the significand is represented exactly.\<close>

lemma int_rounds_exact:
  fixes r :: "'r word"
  assumes r: "int_rounds_to F k r" and k: "\<bar>k\<bar> < 2 * 2 ^ significandBits F" "int (significandBits F) \<le> exponentBias F"
  shows "is_finite F r" and "integral_part F r = nat \<bar>k\<bar>" and "rep_sign r \<longleftrightarrow> k < 0"
proof -
  let ?sb = "significandBits F"
  define b n where "b = nat (exponentBias F)" and "n = nat \<bar>k\<bar>"
  have b: "exponentBias F = int b" "0 < b" using maxExponent_bounds by (simp_all add: b_def exponentBias_def)
  have "int (2 ^ exponentBits F - 1) = 2 * int b + 1"
    using maxExponent_bias by (simp add: b maxExponent_def of_nat_diff)
  then have E: "b + ?sb < 2 ^ exponentBits F - 1" using k(2) unfolding b(1) by linarith
  have "int n < int (2 * 2 ^ ?sb)" using k(1) by (simp add: n_def)
  then have n: "n < 2 * 2 ^ ?sb" by (simp only: of_nat_less_iff)
  have "\<exists>m < infty_rep F. mag ?sb m = n * 2 ^ (b + ?sb - 1)"
  proof (cases "n = 0")
    case True
    then show ?thesis using infty_rep_pos by (intro exI [of _ 0]) simp
  next
    case False
    then obtain x where x: "2 ^ x \<le> n" "n < 2 ^ Suc x" using ex_power_ivl1 [of 2 n] by auto
    have "(2::nat) ^ x < 2 ^ Suc ?sb" using x(1) n by simp
    then have "x < Suc ?sb" by (rule power_less_imp_less_exp [rotated]) simp
    then have le: "x \<le> ?sb" by simp
    have P: "2 ^ x * 2 ^ (?sb - x) = (2::nat) ^ ?sb" using le by (simp flip: power_add)
    have "2 ^ x * 2 ^ (?sb - x) \<le> n * 2 ^ (?sb - x)" "n * 2 ^ (?sb - x) < 2 * 2 ^ x * 2 ^ (?sb - x)" using x by simp_all
    then have ok: "significand_ok ?sb (x + b) (n * 2 ^ (?sb - x))" using b(2) P by (simp add: significand_ok_def mult.assoc)
    have "(?sb - x) + (x + b - 1) = b + ?sb - 1" using le b(2) by simp
    then have "mag ?sb (join_rep ?sb (x + b) (n * 2 ^ (?sb - x))) = n * 2 ^ (b + ?sb - 1)"
      unfolding mag_join_rep(1) [OF ok] by (simp only: mult.assoc flip: power_add)
    moreover have "join_rep ?sb (x + b) (n * 2 ^ (?sb - x)) < infty_rep F"
      unfolding infty_rep_def using le E by (intro join_rep_less [OF ok]) linarith
    ultimately show ?thesis by blast
  qed
  then obtain m where m: "m < infty_rep F" "mag ?sb m = n * 2 ^ (b + ?sb - 1)" by blast
  then have "nearest_even ?sb (infty_rep F) (n * 2 ^ (b + ?sb - 1)) 1 m"
    using nearest_even_exact [of m "infty_rep F" 1 ?sb] by simp
  then have abs: "rep_abs r = m"
    using r nearest_even_unique [of 1 ?sb "infty_rep F" "n * 2 ^ (b + ?sb - 1)" "rep_abs r" m]
    by (simp add: int_rounds_to_def rounds_to_def b_def n_def)
  then show "is_finite F r" using m by (simp add: is_finite_def)
  show "integral_part F r = nat \<bar>k\<bar>"
    using m(2) by (simp add: integral_part_def magnitude_def abs b_def n_def)
  show "rep_sign r \<longleftrightarrow> k < 0" using r by (simp add: int_rounds_to_def rounds_to_def)
qed

lemmas exact_by_sign = by_sign_rounds [where conv = "float_exact F", OF float_exact_rounds]
lemmas rounded_by_sign = by_sign_rounds [where conv = "float_rounded F", OF float_rounded_rounds]

end

lemma not_plus_one: "NOT w + 1 = - w" for w :: "'i::len word" by (simp add: not_eq_complement)

lemma float_wide_correct:
  "int_rounds_to single_precision (sint a) (floatdisf a) \<and> int_rounds_to double_precision (sint a) (floatdidf a) \<and>
   int_rounds_to single_precision (sint b) (floattisf b) \<and> int_rounds_to double_precision (sint b) (floattidf b) \<and>
   int_rounds_to quad_precision (sint b) (floattitf b) \<and>
   int_rounds_to single_precision (uint a) (floatundisf a) \<and> int_rounds_to double_precision (uint a) (floatundidf a) \<and>
   int_rounds_to single_precision (uint b) (floatuntisf b) \<and> int_rounds_to double_precision (uint b) (floatuntidf b) \<and>
   int_rounds_to quad_precision (uint b) (floatuntitf b)"
  using single.float_signed_rounds [OF refl pack_formats(1), of a] double.float_signed_rounds [OF refl pack_formats(2), of a]
    single.float_signed_rounds [OF clzti2_value pack_formats(1), of b] double.float_signed_rounds [OF clzti2_value pack_formats(2), of b]
    quad.float_signed_rounds [OF clzti2_value pack_formats(3), of b]
    single.float_unsigned_rounds [OF refl pack_formats(1), of a] double.float_unsigned_rounds [OF refl pack_formats(2), of a]
    single.float_unsigned_rounds [OF clzti2_value pack_formats(1), of b] double.float_unsigned_rounds [OF clzti2_value pack_formats(2), of b]
    quad.float_unsigned_rounds [OF clzti2_value pack_formats(3), of b]
  by (simp add: floatdisf_def floatdidf_def floattisf_def floattidf_def floattitf_def
      floatundisf_def floatundidf_def floatuntisf_def floatuntidf_def floatuntitf_def)

lemma float_narrow_correct:
  "int_rounds_to single_precision (sint a) (floatsisf a) \<and> int_rounds_to double_precision (sint a) (floatsidf a) \<and>
   int_rounds_to quad_precision (sint a) (floatsitf a) \<and> int_rounds_to quad_precision (sint b) (floatditf b) \<and>
   int_rounds_to single_precision (uint a) (floatunsisf a) \<and> int_rounds_to double_precision (uint a) (floatunsidf a) \<and>
   int_rounds_to quad_precision (uint a) (floatunsitf a) \<and> int_rounds_to quad_precision (uint b) (floatunditf b)"
  unfolding floatsisf_def floatsidf_def floatsitf_def floatditf_def floatunsisf_def floatunsidf_def
    floatunsitf_def floatunditf_def not_plus_one
  by (intro conjI; rule single.rounded_by_sign double.exact_by_sign quad.exact_by_sign; simp)

text \<open>C22. The conversions of 32, 64 and 128-bit integers, signed and unsigned, return the integer rounded to nearest
  with ties to even: an exact value when it fits the significand, and an infinity for 128-bit unsigned integers
  that round beyond the largest single precision number.\<close>

theorem int_to_float_correct:
  "int_rounds_to single_precision (sint a) (floatdisf a) \<and> int_rounds_to double_precision (sint a) (floatdidf a) \<and>
   int_rounds_to single_precision (sint b) (floattisf b) \<and> int_rounds_to double_precision (sint b) (floattidf b) \<and>
   int_rounds_to quad_precision (sint b) (floattitf b) \<and>
   int_rounds_to single_precision (uint a) (floatundisf a) \<and> int_rounds_to double_precision (uint a) (floatundidf a) \<and>
   int_rounds_to single_precision (uint b) (floatuntisf b) \<and> int_rounds_to double_precision (uint b) (floatuntidf b) \<and>
   int_rounds_to quad_precision (uint b) (floatuntitf b) \<and>
   int_rounds_to single_precision (sint c) (floatsisf c) \<and> int_rounds_to double_precision (sint c) (floatsidf c) \<and>
   int_rounds_to quad_precision (sint c) (floatsitf c) \<and> int_rounds_to quad_precision (sint a) (floatditf a) \<and>
   int_rounds_to single_precision (uint c) (floatunsisf c) \<and> int_rounds_to double_precision (uint c) (floatunsidf c) \<and>
   int_rounds_to quad_precision (uint c) (floatunsitf c) \<and> int_rounds_to quad_precision (uint a) (floatunditf a)"
  using float_wide_correct [of a b] float_narrow_correct [of c a] by blast

end
