(* ===== verification/Fp_Convert.thy ===== *)
theory Fp_Convert
  imports Fp_Fix Fp_Float
begin

text \<open>
  The conversions between integers and floating-point numbers taken together: an integer that fits the
  significand survives the way to the floating-point format and back.
\<close>

context fp_base
begin

lemma fix_of_exact:
  fixes r :: "'r word" and k :: "'i::len word"
  assumes r: "int_rounds_to F (sint k) r" and result: "fix_word F r (f :: 'i word)"
    and size: "LENGTH('i) \<le> Suc (significandBits F)" "int (significandBits F) \<le> exponentBias F"
  shows "f = k"
proof -
  have "(2::int) ^ (LENGTH('i) - 1) < 2 ^ Suc (significandBits F)" using size(1) by (intro power_strict_increasing) auto
  then have "\<bar>sint k\<bar> < 2 * 2 ^ significandBits F" using sint_ge [of k] sint_lt [of k] by simp
  note exact = int_rounds_exact [OF r this size(2)]
  have "(2::int) ^ (LENGTH('i) - 1) < 2 ^ LENGTH('i)" by simp
  then have "\<bar>sint k\<bar> < 2 ^ LENGTH('i)" using sint_ge [of k] sint_lt [of k] by linarith
  then have "nat \<bar>sint k\<bar> < 2 ^ LENGTH('i)" by (simp add: nat_less_iff)
  then show ?thesis
    using result exact by (auto simp: fix_word_def abs_if split: if_splits)
qed

lemma fixuns_of_exact:
  fixes r :: "'r word" and k :: "'i::len word"
  assumes r: "int_rounds_to F (uint k) r" and result: "fixuns_result F r (f :: 'i word)"
    and size: "LENGTH('i) \<le> Suc (significandBits F)" "int (significandBits F) \<le> exponentBias F"
  shows "f = k"
proof -
  have "(2::int) ^ LENGTH('i) \<le> 2 ^ Suc (significandBits F)" using size(1) by (intro power_increasing) auto
  moreover have "uint k < 2 ^ LENGTH('i)" by (rule unsigned_less)
  ultimately have "uint k < 2 * 2 ^ significandBits F" unfolding power_Suc by (rule less_le_trans [rotated])
  then have "\<bar>uint k\<bar> < 2 * 2 ^ significandBits F" by simp
  note exact = int_rounds_exact [OF r this size(2)]
  have "unat k \<le> 2 ^ LENGTH('i) - 1" using unat_less_exp_len [of k] by linarith
  then have "unat f = unat k"
    using result exact by (simp add: fixuns_result_def min_def)
  then show ?thesis by (simp add: word_unat_eq_iff)
qed

end

section \<open>Properties\<close>

text \<open>C27. Converting a 32-bit integer to double or quadruple precision and back, or a 64-bit integer to
  quadruple precision and back, returns the integer, signed or unsigned.\<close>

theorem int_float_roundtrip:
  "fixdfsi (floatsidf a) = a \<and> fixtfsi (floatsitf a) = a \<and> fixtfdi (floatditf b) = b \<and>
   fixunsdfsi (floatunsidf a) = a \<and> fixunstfsi (floatunsitf a) = a \<and> fixunstfdi (floatunditf b) = b"
proof -
  note defs = fixdfsi_def fixtfsi_def fixtfdi_def fixunsdfsi_def fixunstfsi_def fixunstfdi_def
    floatsidf_def floatsitf_def floatditf_def floatunsidf_def floatunsitf_def floatunditf_def not_plus_one
  show ?thesis
    unfolding defs
    by (intro conjI;
        rule double.fix_of_exact [OF double.exact_by_sign(1) double.fixint_correct]
          quad.fix_of_exact [OF quad.exact_by_sign(1) quad.fixint_correct]
          double.fixuns_of_exact [OF double.exact_by_sign(2) double.fixuint_correct]
          quad.fixuns_of_exact [OF quad.exact_by_sign(2) quad.fixuint_correct]; simp)
qed

end
