(* ===== verification/Fp_Resize.thy ===== *)
theory Fp_Resize
  imports Fp_Float
begin

text \<open>
  Conversions between floating-point formats: the template \<open>fp_extend_impl.inc\<close> (\<open>__extendXfYf2__\<close>)
  with \<open>extendhfsf2.c\<close>, \<open>extendsfdf2.c\<close>, \<open>extendsftf2.c\<close>, \<open>extenddftf2.c\<close>, and the template
  \<open>fp_trunc_impl.inc\<close> (\<open>__truncXfYf2__\<close>) with \<open>truncsfhf2.c\<close>, \<open>truncdfhf2.c\<close>, \<open>truncdfsf2.c\<close>,
  \<open>trunctfsf2.c\<close>, \<open>trunctfdf2.c\<close>.  Widening is exact, narrowing rounds to nearest even, and narrowing
  undoes widening.  The locale \<open>fp_pair\<close> states what the two formats of a conversion have in common.
\<close>

section \<open>The templates\<close>

definition srcToRep :: "'s::len word \<Rightarrow> 's word" where [simp]: "srcToRep x = x"
definition dstFromRep :: "'d::len word \<Rightarrow> 'd word" where [simp]: "dstFromRep x = x"

text \<open>The parameters are \<open>srcSigBits\<close>, \<open>dstSigBits\<close> and \<open>src_rep_t_clz\<close>; the widths come from the types.\<close>

definition extendXfYf2 :: "nat \<Rightarrow> nat \<Rightarrow> ('s::len word \<Rightarrow> int) \<Rightarrow> 's word \<Rightarrow> 'd::len word" where
  "extendXfYf2 srcSigBits dstSigBits src_rep_t_clz a =
     (let srcBits = LENGTH('s);
          srcExpBits = srcBits - srcSigBits - 1;
          srcInfExp = 2 ^ srcExpBits - 1 :: int;
          srcExpBias = srcInfExp div 2;
          srcMinNormal = shl 1 srcSigBits :: 's word;
          srcInfinity = shl (word_of_int srcInfExp) srcSigBits :: 's word;
          srcSignMask = shl 1 (srcSigBits + srcExpBits) :: 's word;
          srcAbsMask = srcSignMask - 1;
          srcQNaN = shl 1 (srcSigBits - 1) :: 's word;
          srcNaNCode = srcQNaN - 1;
          dstBits = LENGTH('d);
          dstExpBits = dstBits - dstSigBits - 1;
          dstInfExp = 2 ^ dstExpBits - 1 :: int;
          dstExpBias = dstInfExp div 2;
          dstMinNormal = shl 1 dstSigBits :: 'd word;
          aRep = srcToRep a;
          aAbs = aRep AND srcAbsMask;
          sign = aRep AND srcSignMask;
          absResult =
            (if aAbs - srcMinNormal < srcInfinity - srcMinNormal then
               shl (ucast aAbs) (dstSigBits - srcSigBits) + shl (word_of_int (dstExpBias - srcExpBias)) dstSigBits
             else if aAbs \<ge> srcInfinity then
               shl (word_of_int dstInfExp) dstSigBits
                 OR shl (ucast (aAbs AND srcQNaN)) (dstSigBits - srcSigBits)
                 OR shl (ucast (aAbs AND srcNaNCode)) (dstSigBits - srcSigBits)
             else if aAbs \<noteq> 0 then
               let scale = src_rep_t_clz aAbs - src_rep_t_clz srcMinNormal;
                   absResult = shl (ucast aAbs) (nat (int dstSigBits - int srcSigBits + scale));
                   absResult = absResult XOR dstMinNormal;
                   resultExponent = dstExpBias - srcExpBias - scale + 1
               in absResult OR shl (word_of_int resultExponent) dstSigBits
             else 0) :: 'd word;
          result = absResult OR shl (ucast sign) (dstBits - srcBits)
      in dstFromRep result)"

definition truncXfYf2 :: "nat \<Rightarrow> nat \<Rightarrow> 's::len word \<Rightarrow> 'd::len word" where
  "truncXfYf2 srcSigBits dstSigBits a =
     (let srcBits = LENGTH('s);
          srcExpBits = srcBits - srcSigBits - 1;
          srcInfExp = 2 ^ srcExpBits - 1 :: int;
          srcExpBias = srcInfExp div 2;
          srcMinNormal = shl 1 srcSigBits :: 's word;
          srcSignificandMask = srcMinNormal - 1;
          srcInfinity = shl (word_of_int srcInfExp) srcSigBits :: 's word;
          srcSignMask = shl 1 (srcSigBits + srcExpBits) :: 's word;
          srcAbsMask = srcSignMask - 1;
          roundMask = shl 1 (srcSigBits - dstSigBits) - 1 :: 's word;
          halfway = shl 1 (srcSigBits - dstSigBits - 1) :: 's word;
          srcQNaN = shl 1 (srcSigBits - 1) :: 's word;
          srcNaNCode = srcQNaN - 1;
          dstBits = LENGTH('d);
          dstExpBits = dstBits - dstSigBits - 1;
          dstInfExp = 2 ^ dstExpBits - 1 :: int;
          dstExpBias = dstInfExp div 2;
          underflowExponent = srcExpBias + 1 - dstExpBias;
          overflowExponent = srcExpBias + dstInfExp - dstExpBias;
          underflow = shl (word_of_int underflowExponent) srcSigBits :: 's word;
          overflow = shl (word_of_int overflowExponent) srcSigBits :: 's word;
          dstQNaN = shl 1 (dstSigBits - 1) :: 'd word;
          dstNaNCode = dstQNaN - 1;
          aRep = srcToRep a;
          aAbs = aRep AND srcAbsMask;
          sign = aRep AND srcSignMask;
          absResult =
            (if aAbs - underflow < aAbs - overflow then
               let absResult = ucast (shr aAbs (srcSigBits - dstSigBits));
                   absResult = absResult - shl (word_of_int (srcExpBias - dstExpBias)) dstSigBits;
                   roundBits = aAbs AND roundMask
               in if roundBits > halfway then absResult + 1
                  else if roundBits = halfway then absResult + (absResult AND 1)
                  else absResult
             else if aAbs > srcInfinity then
               shl (word_of_int dstInfExp) dstSigBits OR dstQNaN
                 OR (ucast (shr (aAbs AND srcNaNCode) (srcSigBits - dstSigBits)) AND dstNaNCode)
             else if aAbs \<ge> overflow then shl (word_of_int dstInfExp) dstSigBits
             else
               let aExp = uint (shr aAbs srcSigBits);
                   shift = srcExpBias - dstExpBias - aExp + 1;
                   significand = (aRep AND srcSignificandMask) OR srcMinNormal
               in if shift > int srcSigBits then 0
                  else
                    let sticky = shl significand (srcBits - nat shift) \<noteq> 0;
                        denormalizedSignificand = shr significand (nat shift) OR truth sticky;
                        absResult = ucast (shr denormalizedSignificand (srcSigBits - dstSigBits));
                        roundBits = denormalizedSignificand AND roundMask
                    in if roundBits > halfway then absResult + 1
                       else if roundBits = halfway then absResult + (absResult AND 1)
                       else absResult) :: 'd word;
          result = absResult OR ucast (shr sign (srcBits - dstBits))
      in dstFromRep result)"

text \<open>The half-precision source counts zeros in the promoted \<open>int\<close>.\<close>

definition src_rep_t_clz_half :: "16 word \<Rightarrow> int" where
  "src_rep_t_clz_half a = int (builtin_clz (ucast a :: su_int))"

definition src_rep_t_clz_single :: "32 word \<Rightarrow> int" where
  "src_rep_t_clz_single a = int (builtin_clz a)"

definition src_rep_t_clz_double :: "64 word \<Rightarrow> int" where
  "src_rep_t_clz_double a =
     (if a AND 0xffffffff00000000 \<noteq> 0 then int (builtin_clz (ucast (shr a 32) :: su_int))
      else 32 + int (builtin_clz (ucast (a AND 0xffffffff) :: su_int)))"

definition extendhfsf2 :: "16 word \<Rightarrow> 32 word" where "extendhfsf2 = extendXfYf2 10 23 src_rep_t_clz_half"
definition extendsfdf2 :: "32 word \<Rightarrow> 64 word" where "extendsfdf2 = extendXfYf2 23 52 src_rep_t_clz_single"
definition extendsftf2 :: "32 word \<Rightarrow> 128 word" where "extendsftf2 = extendXfYf2 23 112 src_rep_t_clz_single"
definition extenddftf2 :: "64 word \<Rightarrow> 128 word" where "extenddftf2 = extendXfYf2 52 112 src_rep_t_clz_double"
definition gnu_h2f_ieee :: "16 word \<Rightarrow> 32 word" where "gnu_h2f_ieee a = extendhfsf2 a"

definition truncsfhf2 :: "32 word \<Rightarrow> 16 word" where "truncsfhf2 = truncXfYf2 23 10"
definition truncdfhf2 :: "64 word \<Rightarrow> 16 word" where "truncdfhf2 = truncXfYf2 52 10"
definition truncdfsf2 :: "64 word \<Rightarrow> 32 word" where "truncdfsf2 = truncXfYf2 52 23"
definition trunctfsf2 :: "128 word \<Rightarrow> 32 word" where "trunctfsf2 = truncXfYf2 112 23"
definition trunctfdf2 :: "128 word \<Rightarrow> 64 word" where "trunctfdf2 = truncXfYf2 112 52"
definition gnu_f2h_ieee :: "32 word \<Rightarrow> 16 word" where "gnu_f2h_ieee a = truncsfhf2 a"


section \<open>Two formats, one wider than the other\<close>

text \<open>The half-precision format of \<open>SRC_HALF\<close> and \<open>DST_HALF\<close>; no product is ever formed in it.\<close>

definition half_precision :: "16 fp_format" where
  "half_precision = \<lparr>significandBits = 10, rep_clz = (\<lambda>a. int (builtin_clz a)),
     wideMultiply = (\<lambda>a b. (ucast (shr (ucast a * ucast b :: su_int) 16), ucast (ucast a * ucast b :: su_int)))\<rparr>"

text \<open>The smallest subnormal number of a format is \<open>2 ^ - value_scale F\<close>; magnitudes of two formats are
  compared in a common unit.  A widening keeps sign, class and value, a narrowing rounds to nearest
  with ties to even.\<close>

definition value_scale :: "'r::len fp_format \<Rightarrow> nat" where
  "value_scale F = nat (exponentBias F) + significandBits F - 1"

definition same_value :: "'n::len fp_format \<Rightarrow> 'w::len fp_format \<Rightarrow> 'n word \<Rightarrow> 'w word \<Rightarrow> bool" where
  "same_value N W a r \<longleftrightarrow> magnitude W r * 2 ^ value_scale N = magnitude N a * 2 ^ value_scale W"

definition widens_to :: "'n::len fp_format \<Rightarrow> 'w::len fp_format \<Rightarrow> 'n word \<Rightarrow> 'w word \<Rightarrow> bool" where
  "widens_to N W a r \<longleftrightarrow> rep_sign r = rep_sign a \<and>
     (if is_finite N a then is_finite W r \<and> same_value N W a r else if is_inf N a then is_inf W r else is_nan W r)"

definition narrows_to :: "'w::len fp_format \<Rightarrow> 'n::len fp_format \<Rightarrow> 'w word \<Rightarrow> 'n word \<Rightarrow> bool" where
  "narrows_to W N a r \<longleftrightarrow>
     (if is_finite W a
      then rounds_to N (magnitude W a * 2 ^ value_scale N) (2 ^ value_scale W) (rep_sign a) r
      else rep_sign r = rep_sign a \<and> (if is_inf W a then is_inf N r else is_nan N r))"

text \<open>\<open>N\<close> is the narrow and \<open>W\<close> the wide format.  The gap of the exponent ranges takes up the subnormal
  numbers of the narrow format; \<open>clz\<close> counts the leading zeros of the narrow type up to a constant.\<close>

locale fp_pair = N: fp_base N + W: fp_base W
  for N :: "'n::len fp_format" and W :: "'w::len fp_format" +
  fixes clz :: "'n word \<Rightarrow> int"
  assumes wider: "significandBits N + 2 \<le> significandBits W"
    and exponent_gap: "int (significandBits W) \<le> exponentBias W - exponentBias N"
    and clz_difference: "w \<noteq> 0 \<Longrightarrow> clz w - clz (2 ^ significandBits N) = rep_clz N w - rep_clz N (2 ^ significandBits N)"
begin

definition sig_gap :: nat where "sig_gap = significandBits W - significandBits N"
definition exp_gap :: nat where "exp_gap = nat (exponentBias W - exponentBias N)"

lemma gaps: "significandBits W = significandBits N + sig_gap" "2 \<le> sig_gap"
  "exponentBias W = exponentBias N + int exp_gap" "significandBits W \<le> exp_gap"
  using wider exponent_gap by (simp_all add: sig_gap_def exp_gap_def)

lemma exponent_ranges:
  "(2::nat) ^ exponentBits W = 2 * nat (exponentBias N) + 2 * exp_gap + 2"
  "(2::nat) ^ exponentBits N = 2 * nat (exponentBias N) + 2"
proof -
  have "int (2 ^ exponentBits W) = 2 * exponentBias W + 2" "int (2 ^ exponentBits N) = 2 * exponentBias N + 2"
    using N.maxExponent_bias W.maxExponent_bias by (simp_all add: maxExponent_def)
  then have "int (2 ^ exponentBits W) = int (2 * nat (exponentBias N) + 2 * exp_gap + 2)"
    "int (2 ^ exponentBits N) = int (2 * nat (exponentBias N) + 2)"
    using gaps(3) N.exponentBias_bounds by simp_all
  then show "(2::nat) ^ exponentBits W = 2 * nat (exponentBias N) + 2 * exp_gap + 2"
    "(2::nat) ^ exponentBits N = 2 * nat (exponentBias N) + 2" by (simp_all only: of_nat_eq_iff)
qed

lemma narrower: "LENGTH('n) \<le> LENGTH('w)" "LENGTH('n) < LENGTH('w)"
proof -
  have "(2::nat) ^ exponentBits N \<le> 2 ^ exponentBits W" using exponent_ranges by simp
  then have "exponentBits N \<le> exponentBits W" by simp
  then show "LENGTH('n) \<le> LENGTH('w)" "LENGTH('n) < LENGTH('w)" using N.width W.width gaps(1,2) by simp_all
qed

lemma unat_widen: "unat (ucast x :: 'w word) = unat x" for x :: "'n word"
proof -
  have "(2::nat) ^ LENGTH('n) \<le> 2 ^ LENGTH('w)" using narrower(1) by (intro power_increasing) auto
  then have "unat x < 2 ^ LENGTH('w)" using unat_less_exp_len [of x] by linarith
  then show ?thesis by (simp add: unsigned_ucast_eq take_bit_nat_eq_self)
qed

text \<open>The value of the smallest subnormal number of \<open>N\<close> in units of that of \<open>W\<close>.\<close>

definition unit_ratio :: nat where "unit_ratio = 2 ^ (sig_gap + exp_gap)"

text \<open>The constants of the templates are those of the formats.\<close>

lemma field_widths: "LENGTH('n) - significandBits N - 1 = exponentBits N" "LENGTH('w) - significandBits W - 1 = exponentBits W"
  using N.width W.width by simp_all

lemma inf_constant: "shl (word_of_int (2 ^ exponentBits N - 1)) (significandBits N) = infRep N"
  "shl (word_of_int (2 ^ exponentBits W - 1)) (significandBits W) = infRep W"
  by (simp_all add: infRep_def N.exponentMask_eq W.exponentMask_eq mask_eq_exp_minus_1)

lemma bias_constant: "((2::int) ^ exponentBits N - 1) div 2 = exponentBias N" "((2::int) ^ exponentBits W - 1) div 2 = exponentBias W"
  by (simp_all add: exponentBias_def maxExponent_def)

lemma sign_constant: "shl 1 (significandBits N + exponentBits N) = signBit N" "shl 1 (significandBits W + exponentBits W) = signBit W"
  by (simp_all add: signBit_def)

lemma abs_constant: "signBit N - 1 = absMask N" "signBit W - 1 = absMask W"
  by (simp_all add: absMask_def)

lemma quiet_constant: "shl 1 (significandBits N - 1) = quietBit N" "shl 1 (significandBits W - 1) = quietBit W"
  using N.fraction_bits W.fraction_bits unfolding quietBit_def implicitBit_def
  by (intro bit_word_eqI; auto simp: bit_drop_bit_eq bit_exp_iff N.width W.width)+

lemma scales: "value_scale W = value_scale N + sig_gap + exp_gap"
  using gaps N.exponentBias_bounds N.fraction_bits by (simp add: value_scale_def nat_add_distrib)

end

section \<open>Widening\<close>

context fp_pair
begin

lemma bit_join:
  assumes "unat l < 2 ^ n"
  shows "unat (shl h n OR l) = unat (shl h n) + unat l"
  by (rule unat_shl_or) (rule assms)

lemma shl_field: "k * 2 ^ significandBits W < 2 ^ LENGTH('w) \<Longrightarrow>
    unat (shl (word_of_int (int k)) (significandBits W) :: 'w word) = k * 2 ^ significandBits W"
proof -
  assume k: "k * 2 ^ significandBits W < 2 ^ LENGTH('w)"
  then have "k < 2 ^ LENGTH('w)" by (rule le_less_trans [rotated]) simp
  then have "unat (word_of_int (int k) :: 'w word) = k" by (simp add: unsigned_of_nat take_bit_nat_eq_self)
  then show ?thesis using k unat_shl_small [of "word_of_int (int k) :: 'w word" "significandBits W"] by simp
qed

lemma wide_sign:
  fixes m :: "'w word"
  assumes "unat m < 2 ^ (LENGTH('w) - 1)"
  shows "rep_abs (m OR shl (ucast (a AND signBit N)) (LENGTH('w) - LENGTH('n))) = unat m"
    and "rep_sign (m OR shl (ucast (a AND signBit N)) (LENGTH('w) - LENGTH('n))) = rep_sign a"
proof -
  have "shl (ucast (a AND signBit N)) (LENGTH('w) - LENGTH('n)) = (if rep_sign a then signBit W else 0)"
    using narrower by (intro bit_word_eqI)
      (auto simp: bit_push_bit_iff bit_ucast_iff bit_and_iff N.signBit_eq W.signBit_eq bit_exp_iff rep_sign_def)
  then show "rep_abs (m OR shl (ucast (a AND signBit N)) (LENGTH('w) - LENGTH('n))) = unat m"
    and "rep_sign (m OR shl (ucast (a AND signBit N)) (LENGTH('w) - LENGTH('n))) = rep_sign a"
    using W.sign_or_if [OF assms, of "rep_sign a"] by simp_all
qed

text \<open>The magnitude bits of the result, case by case.\<close>

definition widened :: "'n word \<Rightarrow> 'w word" where
  "widened a =
     (let aAbs = a AND absMask N in
      if aAbs - implicitBit N < infRep N - implicitBit N then
        shl (ucast aAbs) sig_gap + shl (word_of_int (int exp_gap)) (significandBits W)
      else if aAbs \<ge> infRep N then
        infRep W OR shl (ucast (aAbs AND quietBit N)) sig_gap OR shl (ucast (aAbs AND (quietBit N - 1))) sig_gap
      else if aAbs \<noteq> 0 then
        let scale = clz aAbs - clz (implicitBit N)
        in (shl (ucast aAbs) (nat (int sig_gap + scale)) XOR implicitBit W)
             OR shl (word_of_int (int exp_gap - scale + 1)) (significandBits W)
      else 0)"

lemma extend_eq: "extendXfYf2 (significandBits N) (significandBits W) clz a =
    widened a OR shl (ucast (a AND signBit N)) (LENGTH('w) - LENGTH('n))"
proof -
  have gap: "significandBits W - significandBits N = sig_gap" "exponentBias W - exponentBias N = int exp_gap"
    "int (significandBits W) - int (significandBits N) = int sig_gap"
    using gaps by simp_all
  show ?thesis
    unfolding extendXfYf2_def widened_def Let_def field_widths bias_constant sign_constant abs_constant
      inf_constant gap quiet_constant srcToRep_def dstFromRep_def
    by (simp only: implicitBit_def [symmetric] field_widths bias_constant gap inf_constant)
qed

lemma normal_test:
  "(a AND absMask N) - implicitBit N < infRep N - implicitBit N \<longleftrightarrow>
     2 ^ significandBits N \<le> rep_abs a \<and> rep_abs a < infty_rep N"
proof -
  have le: "(2::nat) ^ significandBits N \<le> infty_rep N"
    using exponent_ranges by (simp add: infty_rep_def)
  have inf: "infty_rep N < 2 ^ LENGTH('n)"
    using N.infty_rep_less less_le_trans [OF _ power_increasing [of "LENGTH('n) - 1" "LENGTH('n)" "2::nat"]] by simp
  have "unat (infRep N - implicitBit N) = infty_rep N - 2 ^ significandBits N"
    using le by (subst unat_minus_le) (simp_all add: word_le_nat_alt N.unat_infRep N.unat_implicitBit)
  moreover have "unat ((a AND absMask N) - implicitBit N) =
      (if 2 ^ significandBits N \<le> rep_abs a then rep_abs a - 2 ^ significandBits N
       else rep_abs a + 2 ^ LENGTH('n) - 2 ^ significandBits N)"
    by (simp add: unat_sub_if_size word_size N.unat_implicitBit)
  ultimately show ?thesis
    using le inf by (auto simp: word_less_nat_alt)
qed

lemma special_test: "infRep N \<le> (a AND absMask N) \<longleftrightarrow> infty_rep N \<le> rep_abs a"
  by (simp add: word_le_nat_alt N.unat_infRep)

lemma widened_normal:
  assumes "2 ^ significandBits N \<le> rep_abs a" "rep_abs a < infty_rep N"
  shows "unat (widened a) = rep_abs a * 2 ^ sig_gap + exp_gap * 2 ^ significandBits W"
    and "unat (widened a) < infty_rep W" and "magnitude W (widened a) = magnitude N a * unit_ratio"
proof -
  define P E f where "P = (2::nat) ^ significandBits N" and "E = rep_abs a div P" and "f = rep_abs a mod P"
  have A: "rep_abs a = E * P + f" and f: "f < P"
    by (simp_all only: E_def f_def div_mult_mod_eq) (simp add: P_def)
  have QP: "(2::nat) ^ significandBits W = P * 2 ^ sig_gap" by (simp add: P_def gaps power_add)
  have E: "0 < E" using assms(1) f by (cases E) (auto simp: A P_def)
  have "E * P + f < (2 ^ exponentBits N - 1) * P" using assms(2) unfolding A infty_rep_def P_def [symmetric] .
  then have "E * P < (2 ^ exponentBits N - 1) * P" by linarith
  then have "E < 2 ^ exponentBits N - 1" by (rule mult_less_cancel2 [THEN iffD1, THEN conjunct2])
  then have E2: "E + exp_gap < 2 ^ exponentBits W - 1" using exponent_ranges by simp
  have total: "rep_abs a * 2 ^ sig_gap + exp_gap * 2 ^ significandBits W = (E + exp_gap) * 2 ^ significandBits W + f * 2 ^ sig_gap"
    by (simp add: A QP algebra_simps)
  have f': "f * 2 ^ sig_gap < 2 ^ significandBits W" using f by (simp add: QP)
  have "(E + exp_gap) * 2 ^ significandBits W + f * 2 ^ sig_gap < (E + exp_gap + 1) * 2 ^ significandBits W"
    using f' by simp
  also have "\<dots> \<le> infty_rep W" unfolding infty_rep_def using E2 by (intro mult_le_mono1) simp
  finally have less: "rep_abs a * 2 ^ sig_gap + exp_gap * 2 ^ significandBits W < infty_rep W" unfolding total .
  have bound: "infty_rep W < 2 ^ LENGTH('w)"
    using W.infty_rep_less less_le_trans [OF _ power_increasing [of "LENGTH('w) - 1" "LENGTH('w)" "2::nat"]] by simp
  have s1: "unat (shl (ucast (a AND absMask N) :: 'w word) sig_gap) = rep_abs a * 2 ^ sig_gap"
    using less bound unat_shl_small [of "ucast (a AND absMask N) :: 'w word" sig_gap] by (simp add: unat_widen)
  have s2: "unat (shl (word_of_int (int exp_gap)) (significandBits W) :: 'w word) = exp_gap * 2 ^ significandBits W"
    using less bound by (intro shl_field) simp
  have "widened a = shl (ucast (a AND absMask N)) sig_gap + shl (word_of_int (int exp_gap)) (significandBits W)"
    using assms normal_test [of a] by (simp add: widened_def Let_def)
  then show val: "unat (widened a) = rep_abs a * 2 ^ sig_gap + exp_gap * 2 ^ significandBits W"
    using less bound unat_plus_small [of "shl (ucast (a AND absMask N) :: 'w word) sig_gap" "shl (word_of_int (int exp_gap)) (significandBits W)"]
    unfolding s1 s2 by simp
  show small: "unat (widened a) < infty_rep W" using less val by simp
  then have "rep_abs (widened a) = (E + exp_gap) * 2 ^ significandBits W + f * 2 ^ sig_gap"
    using W.infty_rep_less val total by (simp add: rep_abs_def)
  then have "magnitude W (widened a) = (2 ^ significandBits W + f * 2 ^ sig_gap) * 2 ^ (E + exp_gap - 1)"
    unfolding magnitude_def using f' E by (simp only: mag_normal)
  also have "\<dots> = (P + f) * 2 ^ (E - 1) * 2 ^ (sig_gap + exp_gap)"
  proof -
    have "E + exp_gap - 1 = (E - 1) + exp_gap" using E by simp
    then show ?thesis by (simp only: QP power_add distrib_left distrib_right ac_simps)
  qed
  also have "(P + f) * 2 ^ (E - 1) = magnitude N a"
    unfolding magnitude_def A using f E unfolding P_def by (simp only: mag_normal)
  finally show "magnitude W (widened a) = magnitude N a * unit_ratio" by (simp add: unit_ratio_def)
qed

lemma widened_special:
  assumes "infty_rep N \<le> rep_abs a"
  shows "unat (widened a) = infty_rep W + (rep_abs a - infty_rep N) * 2 ^ sig_gap"
    and "unat (widened a) < 2 ^ (LENGTH('w) - 1)"
proof -
  define P f where "P = (2::nat) ^ significandBits N" and "f = rep_abs a mod P"
  have f: "f < P" by (simp add: f_def P_def)
  have QP: "(2::nat) ^ significandBits W = P * 2 ^ sig_gap" by (simp add: P_def gaps power_add)
  have "rep_abs a < 2 ^ exponentBits N * P" using N.rep_abs_less [of a] by (simp add: N.width_minus_1 power_add P_def mult.commute)
  moreover have "(2 ^ exponentBits N - 1) * P \<le> rep_abs a" using assms unfolding infty_rep_def P_def .
  ultimately have "rep_abs a div P = 2 ^ exponentBits N - 1"
    using exponent_ranges(2) by (intro div_nat_eqI) (simp_all add: P_def mult.commute)
  then have "rep_abs a = infty_rep N + f"
    using div_mult_mod_eq [of "rep_abs a" P] unfolding infty_rep_def P_def [symmetric] f_def by simp
  then have diff: "rep_abs a - infty_rep N = f" by simp
  have quiet: "quietBit N OR (quietBit N - 1) = mask (significandBits N)"
  proof -
    have q: "quietBit N = 2 ^ (significandBits N - 1)"
      using N.unat_quietBit N.width N.fraction_bits by (simp add: word_unat_eq_iff unat_exp_word)
    then have "quietBit N - 1 = mask (significandBits N - 1)" by (simp only: mask_eq_exp_minus_1)
    then show ?thesis using N.fraction_bits N.width
      by (intro bit_word_eqI) (auto simp: q bit_or_iff bit_exp_iff bit_mask_iff)
  qed
  define l where "l = shl (ucast ((a AND absMask N) AND mask (significandBits N)) :: 'w word) sig_gap"
  have "unat ((a AND absMask N) AND mask (significandBits N)) = f"
    by (simp only: unat_and_mask_low N.unat_abs f_def P_def)
  moreover have "f * 2 ^ sig_gap < 2 ^ significandBits W" using f by (simp add: QP)
  moreover have "(2::nat) ^ significandBits W \<le> 2 ^ LENGTH('w)" using W.width by (intro power_increasing) auto
  ultimately have "unat (ucast ((a AND absMask N) AND mask (significandBits N)) :: 'w word) * 2 ^ sig_gap < 2 ^ LENGTH('w)"
    and "unat ((a AND absMask N) AND mask (significandBits N)) * 2 ^ sig_gap < 2 ^ significandBits W"
    unfolding unat_widen by (simp_all only: less_le_trans)
  moreover note \<open>unat ((a AND absMask N) AND mask (significandBits N)) = f\<close>
  ultimately have l: "unat l = f * 2 ^ sig_gap" "unat l < 2 ^ significandBits W"
    unfolding l_def by (simp_all only: unat_shl_small unat_widen)
  have join: "shl (ucast ((a AND absMask N) AND quietBit N)) sig_gap OR shl (ucast ((a AND absMask N) AND (quietBit N - 1))) sig_gap = l"
    unfolding l_def quiet [symmetric]
    by (rule bit_word_eqI) (auto simp: bit_push_bit_iff bit_or_iff bit_and_iff bit_ucast_iff)
  have "widened a = infRep W OR l"
    using assms normal_test [of a] special_test [of a] by (simp add: widened_def Let_def or.assoc join)
  also have "unat \<dots> = infty_rep W + f * 2 ^ sig_gap"
    unfolding infRep_def W.exponentMask_eq using unat_shl_or [OF l(2), of "mask (exponentBits W)"] W.unat_infRep
    by (simp add: infRep_def W.exponentMask_eq l(1))
  finally show val: "unat (widened a) = infty_rep W + (rep_abs a - infty_rep N) * 2 ^ sig_gap" by (simp only: diff)
  have "infty_rep W + 2 ^ significandBits W = 2 ^ exponentBits W * 2 ^ significandBits W"
    unfolding infty_rep_def by (simp add: diff_mult_distrib)
  then have "infty_rep W + f * 2 ^ sig_gap < 2 ^ exponentBits W * 2 ^ significandBits W"
    using l by linarith
  then show "unat (widened a) < 2 ^ (LENGTH('w) - 1)"
    unfolding val diff W.width_minus_1 power_add by (simp add: mult.commute)
qed

lemma widened_subnormal:
  assumes "rep_abs a < 2 ^ significandBits N"
  shows "unat (widened a) < infty_rep W" and "magnitude W (widened a) = magnitude N a * unit_ratio"
proof -
  have tests: "\<not> 2 ^ significandBits N \<le> rep_abs a" "\<not> infty_rep N \<le> rep_abs a"
    using assms exponent_ranges(2) by (simp_all add: infty_rep_def not_le less_le_trans)
  have mag_a: "magnitude N a = rep_abs a" using assms by (simp add: magnitude_def mag_subnormal)
  have "unat (widened a) < infty_rep W \<and> magnitude W (widened a) = magnitude N a * unit_ratio"
  proof (cases "rep_abs a = 0")
    case True
    then have "widened a = 0"
      using tests normal_test [of a] special_test [of a] N.zero_iff [of a] by (simp add: widened_def Let_def)
    then show ?thesis using W.infty_rep_pos mag_a True by (simp add: magnitude_def rep_abs_def)
  next
    case False
    then have nz: "a AND absMask N \<noteq> 0" by (simp add: N.zero_iff)
    obtain k where k: "rep_clz N (a AND absMask N) - rep_clz N (2 ^ significandBits N) = int k" "k \<le> significandBits N"
      "2 ^ significandBits N \<le> rep_abs a * 2 ^ k" "rep_abs a * 2 ^ k < 2 ^ Suc (significandBits N)"
      using N.normalise_to [OF nz, of "significandBits N"] assms N.width by (auto simp del: N.unat_abs simp: N.unat_abs)
    define q where "q = shl (ucast (a AND absMask N) :: 'w word) (sig_gap + k)"
    have QP: "(2::nat) ^ significandBits W = 2 ^ significandBits N * 2 ^ sig_gap" by (simp add: gaps power_add)
    have val: "rep_abs a * 2 ^ (sig_gap + k) = rep_abs a * 2 ^ k * 2 ^ sig_gap" by (simp add: power_add)
    have lower: "2 ^ significandBits W \<le> rep_abs a * 2 ^ (sig_gap + k)" unfolding val QP using k(3) by simp
    have upper: "rep_abs a * 2 ^ (sig_gap + k) < 2 * 2 ^ significandBits W" unfolding val QP using k(4) by simp
    have "(2::nat) * 2 ^ significandBits W \<le> 2 ^ LENGTH('w)"
      using power_increasing [of "Suc (significandBits W)" "LENGTH('w)" "2::nat"] W.width by simp
    then have uq: "unat q = rep_abs a * 2 ^ (sig_gap + k)"
      unfolding q_def using upper unat_shl_small [of "ucast (a AND absMask N) :: 'w word" "sig_gap + k"] by (simp add: unat_widen)
    define e where "e = exp_gap + 1 - k"
    have e: "0 < e" "int exp_gap - int k + 1 = int e" "e \<le> exp_gap + 1"
      using k(2) gaps by (simp_all add: e_def)
    have "e < 2 ^ exponentBits W - 1" using e(3) exponent_ranges(1) gaps(4) W.fraction_bits(1) by linarith
    have "widened a = (q XOR implicitBit W) OR shl (word_of_int (int e)) (significandBits W)"
      using tests normal_test [of a] special_test [of a] nz clz_difference [OF nz] k(1)
      by (simp add: widened_def Let_def q_def N.implicitBit_exp e(2) [symmetric] nat_add_distrib)
    also have "unat \<dots> = join_rep (significandBits W) e (unat q)"
    proof -
      have x: "unat (q XOR implicitBit W) = unat q - 2 ^ significandBits W"
        using lower upper by (intro W.xor_implicitBit) (simp_all add: uq)
      moreover have "unat q - 2 ^ significandBits W < 2 ^ significandBits W" using lower upper uq by linarith
      moreover have "e * 2 ^ significandBits W < infty_rep W"
        unfolding infty_rep_def using \<open>e < 2 ^ exponentBits W - 1\<close> by simp
      then have "e * 2 ^ significandBits W < 2 ^ LENGTH('w)"
        using W.infty_rep_less less_le_trans [OF _ power_increasing [of "LENGTH('w) - 1" "LENGTH('w)" "2::nat"]] by simp
      ultimately show ?thesis
        using e(1) unat_shl_or [of "q XOR implicitBit W" "significandBits W" "word_of_int (int e)"]
        using shl_field [of e] by (simp add: or.commute join_rep_def)
    qed
    finally have rep: "unat (widened a) = join_rep (significandBits W) e (unat q)" .
    have ok: "significand_ok (significandBits W) e (unat q)" using lower upper e(1) uq by (simp add: significand_ok_def)
    have less: "unat (widened a) < infty_rep W"
      unfolding rep infty_rep_def by (rule join_rep_less [OF ok \<open>e < 2 ^ exponentBits W - 1\<close>])
    then have "rep_abs (widened a) = join_rep (significandBits W) e (unat q)"
      using W.infty_rep_less rep by (simp add: rep_abs_def)
    then have "magnitude W (widened a) = rep_abs a * 2 ^ (sig_gap + k) * 2 ^ (e - 1)"
      using mag_join_rep(1) [OF ok] by (simp add: magnitude_def uq)
    also have "\<dots> = rep_abs a * unit_ratio"
      using k(2) gaps by (simp add: unit_ratio_def e_def mult.assoc flip: power_add)
    finally show ?thesis using less mag_a by simp
  qed
  then show "unat (widened a) < infty_rep W" and "magnitude W (widened a) = magnitude N a * unit_ratio" by simp_all
qed

text \<open>Widening keeps the sign, the class and the exact value.\<close>

lemma extend_widens: "widens_to N W a (extendXfYf2 (significandBits N) (significandBits W) clz a)"
proof -
  define r :: "'w word" where "r = extendXfYf2 (significandBits N) (significandBits W) clz a"
  note r = r_def [unfolded extend_eq]
  have small: "unat (widened a) < 2 ^ (LENGTH('w) - 1)" if "unat (widened a) < infty_rep W"
    using that W.infty_rep_less by linarith
  show ?thesis unfolding r_def [symmetric]
  proof (cases "is_finite N a")
    case True
    have fin: "unat (widened a) < infty_rep W" "magnitude W (widened a) = magnitude N a * unit_ratio"
      using widened_normal(2,3) [of a] widened_subnormal [of a] True
      by (cases "rep_abs a < 2 ^ significandBits N"; simp add: is_finite_def not_less)+
    note abs = wide_sign [OF small [OF fin(1)], of a, folded r]
    have "magnitude W r = magnitude W (widened a)"
      using small [OF fin(1)] by (simp add: magnitude_def abs(1) rep_abs_def [of "widened a"])
    then show "widens_to N W a r"
      using True fin abs by (simp add: widens_to_def is_finite_def same_value_def scales unit_ratio_def power_add)
  next
    case False
    then have le: "infty_rep N \<le> rep_abs a" by (simp add: is_finite_def)
    note abs = wide_sign [OF widened_special(2) [OF le], of a, folded r, unfolded widened_special(1) [OF le]]
    then show "widens_to N W a r"
      using False le by (auto simp: widens_to_def is_finite_def is_inf_def is_nan_def)
  qed
qed

end

section \<open>Narrowing\<close>

context fp_pair
begin

definition underflow_word :: "'w word" where "underflow_word = shl (word_of_int (int (exp_gap + 1))) (significandBits W)"
definition overflow_word :: "'w word" where "overflow_word = shl (word_of_int (int (exp_gap + 2 ^ exponentBits N - 1))) (significandBits W)"

definition nearest_step :: "'n word \<Rightarrow> 'w word \<Rightarrow> 'n word" where
  "nearest_step m b =
     (if b > shl 1 (sig_gap - 1) then m + 1 else if b = shl 1 (sig_gap - 1) then m + (m AND 1) else m)"

definition narrowed :: "'w word \<Rightarrow> 'n word" where
  "narrowed a =
     (let aAbs = a AND absMask W
      in if aAbs - underflow_word < aAbs - overflow_word then
           nearest_step (ucast (shr aAbs sig_gap) - shl (word_of_int (int exp_gap)) (significandBits N)) (aAbs AND (shl 1 sig_gap - 1))
         else if aAbs > infRep W then
           infRep N OR quietBit N OR (ucast (shr (aAbs AND (quietBit W - 1)) sig_gap) AND (quietBit N - 1))
         else if aAbs \<ge> overflow_word then infRep N
         else
           let shift = int exp_gap - uint (shr aAbs (significandBits W)) + 1;
               significand = (a AND significandMask W) OR implicitBit W
           in if shift > int (significandBits W) then 0
              else
                let sticky = shl significand (LENGTH('w) - nat shift) \<noteq> 0;
                    denormalizedSignificand = shr significand (nat shift) OR truth sticky
                in nearest_step (ucast (shr denormalizedSignificand sig_gap)) (denormalizedSignificand AND (shl 1 sig_gap - 1)))"

lemma trunc_eq: "truncXfYf2 (significandBits W) (significandBits N) a =
    narrowed a OR ucast (shr (a AND signBit W) (LENGTH('w) - LENGTH('n)))"
proof -
  have gap: "significandBits W - significandBits N = sig_gap" "exponentBias W - exponentBias N = int exp_gap"
    "exponentBias W + 1 - exponentBias N = int (exp_gap + 1)"
    "exponentBias W + (2 ^ exponentBits N - 1) - exponentBias N = int (exp_gap + 2 ^ exponentBits N - 1)"
    using gaps by (simp_all add: of_nat_diff)
  show ?thesis
    unfolding truncXfYf2_def narrowed_def nearest_step_def underflow_word_def overflow_word_def Let_def field_widths bias_constant sign_constant abs_constant
      inf_constant gap quiet_constant srcToRep_def dstFromRep_def
    by (simp only: implicitBit_def [symmetric] significandMask_def [symmetric])
qed

lemma nearest_step_value:
  assumes m: "unat m < infty_rep N" and b: "unat b = g mod 2 ^ sig_gap"
  shows "unat (nearest_step m b) = (if round_up sig_gap g (unat m) then unat m + 1 else unat m)"
proof -
  have "sig_gap - 1 < LENGTH('w)" using gaps(1) W.width by simp
  then have half: "unat (shl 1 (sig_gap - 1) :: 'w word) = 2 ^ (sig_gap - 1)"
    by (simp add: push_bit_eq_mult unat_exp_word)
  have "(2::nat) ^ (LENGTH('n) - 1) \<le> 2 ^ LENGTH('n)" by (intro power_increasing) auto
  then have "unat m + 1 < 2 ^ LENGTH('n)" using m N.infty_rep_less by linarith
  then have one: "unat (m + 1) = unat m + 1" by (simp add: unat_plus_mod)
  have test: "b > shl 1 (sig_gap - 1) \<longleftrightarrow> 2 ^ (sig_gap - 1) < g mod 2 ^ sig_gap"
    "b = shl 1 (sig_gap - 1) \<longleftrightarrow> g mod 2 ^ sig_gap = 2 ^ (sig_gap - 1)"
    by (simp_all only: word_less_nat_alt word_unat_eq_iff half b)
  show ?thesis unfolding nearest_step_def test round_up_def N.and_one using one by auto
qed

text \<open>The exponents at which the narrow format starts to be subnormal and to overflow.\<close>

definition underflow_rep :: nat where "underflow_rep = (exp_gap + 1) * 2 ^ significandBits W"
definition overflow_rep :: nat where "overflow_rep = (exp_gap + 2 ^ exponentBits N - 1) * 2 ^ significandBits W"

lemma range_reps: "underflow_rep < overflow_rep" "overflow_rep \<le> infty_rep W" "infty_rep W < 2 ^ (LENGTH('w) - 1)"
proof -
  have "exp_gap + 1 < exp_gap + 2 ^ exponentBits N - 1" "exp_gap + 2 ^ exponentBits N - 1 \<le> 2 ^ exponentBits W - 1"
    using exponent_ranges gaps(4) W.fraction_bits N.maxExponent_bounds N.maxExponent_bias by simp_all
  then show "underflow_rep < overflow_rep" "overflow_rep \<le> infty_rep W"
    by (simp_all only: underflow_rep_def overflow_rep_def infty_rep_def mult_less_cancel2 mult_le_mono1) simp
qed (rule W.infty_rep_less)

lemma unat_range: "unat underflow_word = underflow_rep" "unat overflow_word = overflow_rep"
proof -
  have "(2::nat) ^ (LENGTH('w) - 1) < 2 ^ LENGTH('w)" by (intro power_strict_increasing) auto
  then have "underflow_rep < 2 ^ LENGTH('w)" "overflow_rep < 2 ^ LENGTH('w)" using range_reps by linarith+
  then show "unat underflow_word = underflow_rep" "unat overflow_word = overflow_rep"
    unfolding underflow_rep_def overflow_rep_def underflow_word_def overflow_word_def by (simp_all only: shl_field)
qed

lemma range_test: "(a AND absMask W) - underflow_word < (a AND absMask W) - overflow_word
    \<longleftrightarrow> underflow_rep \<le> rep_abs a \<and> rep_abs a < overflow_rep"
proof -
  have P: "(2::nat) ^ LENGTH('w) = 2 ^ (LENGTH('w) - 1) + 2 ^ (LENGTH('w) - 1)"
    by (metis len_gt_0 mult_2 power_minus_mult mult.commute)
  have "unat ((a AND absMask W) - w) = (if unat w \<le> rep_abs a then rep_abs a - unat w else rep_abs a + 2 ^ LENGTH('w) - unat w)" for w
    by (simp add: unat_sub_if_size word_size)
  then show ?thesis
    unfolding word_less_nat_alt using range_reps W.rep_abs_less [of a] P by (auto simp: unat_range)
qed

abbreviation (input) rounded :: "'w word \<Rightarrow> 'n word \<Rightarrow> bool" where
  "rounded a r \<equiv> nearest_even (significandBits N) (infty_rep N) (magnitude W a) unit_ratio (unat r)"

lemma narrowed_in_range:
  assumes "underflow_rep \<le> rep_abs a" "rep_abs a < overflow_rep"
  shows "rounded a (narrowed a)"
proof -
  define P Q E f where "P = (2::nat) ^ significandBits N" and "Q = (2::nat) ^ significandBits W"
    and "E = rep_abs a div Q" and "f = rep_abs a mod Q"
  have A: "rep_abs a = E * Q + f" and f: "f < Q"
    by (simp_all only: E_def f_def div_mult_mod_eq) (simp add: Q_def)
  have QP: "Q = P * 2 ^ sig_gap" by (simp add: P_def Q_def gaps power_add)
  have "(exp_gap + 1) * Q < Suc E * Q" "E * Q < (exp_gap + 2 ^ exponentBits N - 1) * Q"
    using assms f unfolding underflow_rep_def overflow_rep_def A Q_def [symmetric] mult_Suc by linarith+
  then have E: "exp_gap < E" "E < exp_gap + 2 ^ exponentBits N - 1"
    unfolding mult_less_cancel2 by simp_all
  define e q where "e = E - exp_gap" and "q = (Q + f) div 2 ^ sig_gap"
  have e: "0 < e" "e < 2 ^ exponentBits N - 1" "E = e + exp_gap" using E by (simp_all add: e_def)
  have q: "q = P + f div 2 ^ sig_gap" by (simp add: q_def QP)
  have "f div 2 ^ sig_gap < P" using f unfolding QP by (rule less_mult_imp_div_less)
  then have ok: "significand_ok (significandBits N) e q" using e(1) by (simp add: significand_ok_def q P_def)
  define m where "m = (ucast (shr (a AND absMask W) sig_gap) - shl (word_of_int (int exp_gap)) (significandBits N) :: 'n word)"
  have "rep_abs a div 2 ^ sig_gap = E * P + f div 2 ^ sig_gap"
    by (simp add: A QP flip: mult.assoc)
  then have div: "rep_abs a div 2 ^ sig_gap - exp_gap * P = join_rep (significandBits N) e q" "exp_gap * P \<le> rep_abs a div 2 ^ sig_gap"
    using e by (simp_all add: join_rep_def q P_def [symmetric] e(3) distrib_right)
  have less: "join_rep (significandBits N) e q < infty_rep N"
    unfolding infty_rep_def by (rule join_rep_less [OF ok e(2)])
  have "ucast (shr (a AND absMask W) sig_gap) = (of_nat (rep_abs a div 2 ^ sig_gap) :: 'n word)"
    using of_nat_unat [of "shr (a AND absMask W) sig_gap", where 'a = "'n word"] by (simp only: unat_shr W.unat_abs)
  then have "m = of_nat (rep_abs a div 2 ^ sig_gap) - of_nat (exp_gap * P)"
    by (simp add: m_def P_def push_bit_eq_mult)
  also have "\<dots> = of_nat (join_rep (significandBits N) e q)" 
    using of_nat_diff [OF div(2), where 'a = "'n word"] unfolding div(1) by (simp only:)
  finally have "m = of_nat (join_rep (significandBits N) e q)" .
  moreover have "(2::nat) ^ (LENGTH('n) - 1) \<le> 2 ^ LENGTH('n)" by (intro power_increasing) auto
  then have "join_rep (significandBits N) e q < 2 ^ LENGTH('n)" using less N.infty_rep_less by linarith
  ultimately have m: "unat m = join_rep (significandBits N) e q"
    by (simp add: unsigned_of_nat take_bit_nat_eq_self)
  define b where "b = (a AND absMask W) AND (shl 1 sig_gap - 1)"
  have "b = (a AND absMask W) AND mask sig_gap" by (simp add: b_def push_bit_eq_mult mask_eq_exp_minus_1)
  then have "unat b = rep_abs a mod 2 ^ sig_gap" by (simp only: unat_and_mask_low W.unat_abs)
  then have b: "unat b = (Q + f) mod 2 ^ sig_gap" by (simp add: A QP flip: mult.assoc)
  have "magnitude W a = (Q + f) * 2 ^ (E - 1)"
    using f E unfolding magnitude_def A unfolding Q_def by (intro mag_normal) simp_all
  moreover have "2 ^ (E - 1) * 2 ^ sig_gap = unit_ratio * 2 ^ (e - 1)"
    using e(1) by (simp add: unit_ratio_def e(3) flip: power_add)
  ultimately have "magnitude W a * 2 ^ sig_gap = (Q + f) * (unit_ratio * 2 ^ (e - 1))" by (simp only: mult.assoc)
  then have "tracks (2 ^ (sig_gap - 1)) (Q + f) (magnitude W a * 2 ^ sig_gap) (unit_ratio * 2 ^ (e - 1))"
    by (simp add: tracks_exact unit_ratio_def)
  then have "rounded a (nearest_step m b)"
    unfolding nearest_step_value [OF less [folded m] b] m using ok less gaps(2)
    by (intro nearest_even_round [where e = e]) (simp_all add: q_def)
  moreover have "narrowed a = nearest_step m b"
    using assms range_test [of a] by (simp add: narrowed_def Let_def m_def b_def)
  ultimately show ?thesis by simp
qed

lemma narrowed_overflow:
  assumes "overflow_rep \<le> rep_abs a" "rep_abs a < infty_rep W"
  shows "rounded a (narrowed a)"
proof -
  have "\<not> infRep W < a AND absMask W" using assms(2) by (simp add: word_less_nat_alt W.unat_infRep)
  moreover have "overflow_word \<le> a AND absMask W"
    using assms(1) by (simp only: word_le_nat_alt unat_range W.unat_abs)
  ultimately have r: "narrowed a = infRep N"
    using assms range_test [of a] by (simp add: narrowed_def Let_def)
  define n where "n = (2::nat) ^ exponentBits N - 2"
  have n: "(2::nat) ^ exponentBits N - 1 = Suc n" "exp_gap + 2 ^ exponentBits N - 1 = exp_gap + n + 1"
    using N.maxExponent_bounds N.maxExponent_bias exponent_ranges(2) by (simp_all add: n_def)
  have "mag (significandBits N) (infty_rep N) = 2 ^ significandBits N * 2 ^ n"
    unfolding infty_rep_def n using mag_normal [of 0 "significandBits N" "Suc n"] by simp
  moreover have "mag (significandBits W) overflow_rep = 2 ^ significandBits W * 2 ^ (exp_gap + n)"
    unfolding overflow_rep_def n using mag_normal [of 0 "significandBits W" "exp_gap + n + 1"] by simp
  ultimately have "mag (significandBits N) (infty_rep N) * unit_ratio = mag (significandBits W) overflow_rep"
    by (simp add: unit_ratio_def gaps(1) power_add)
  also have "\<dots> \<le> magnitude W a" unfolding magnitude_def using assms(1) by (rule mag_mono)
  finally show ?thesis
    unfolding r N.unat_infRep by (intro nearest_even_overflow N.infty_rep_pos) (simp_all add: unit_ratio_def)
qed

lemma below_test:
  assumes "rep_abs a < underflow_rep"
  shows "\<not> overflow_word \<le> a AND absMask W" "\<not> infRep W < a AND absMask W"
    "\<not> (a AND absMask W) - underflow_word < (a AND absMask W) - overflow_word"
    "uint (shr (a AND absMask W) (significandBits W)) = int (rep_abs a div 2 ^ significandBits W)"
proof -
  show "\<not> overflow_word \<le> a AND absMask W" "\<not> infRep W < a AND absMask W"
    using assms range_reps by (simp_all add: word_le_nat_alt word_less_nat_alt unat_range W.unat_infRep)
  show "\<not> (a AND absMask W) - underflow_word < (a AND absMask W) - overflow_word"
    using assms range_test [of a] by simp
  show "uint (shr (a AND absMask W) (significandBits W)) = int (rep_abs a div 2 ^ significandBits W)"
    using W.unat_abs_exponent [of a] by (simp only: uint_nat)
qed

lemma narrowed_tiny:
  assumes "rep_abs a div 2 ^ significandBits W + significandBits W \<le> exp_gap"
  shows "rounded a (narrowed a)"
proof -
  define Q E f where "Q = (2::nat) ^ significandBits W" and "E = rep_abs a div Q" and "f = rep_abs a mod Q"
  have f: "f < Q" by (simp add: f_def Q_def)
  have E: "E + significandBits W \<le> exp_gap" using assms by (simp add: E_def Q_def)
  have "rep_abs a = E * Q + f" by (simp only: E_def f_def div_mult_mod_eq)
  moreover have "Suc E * Q \<le> (exp_gap + 1) * Q" using E by (intro mult_le_mono1) simp
  ultimately have below: "rep_abs a < underflow_rep"
    using f unfolding underflow_rep_def Q_def [symmetric] mult_Suc by linarith
  have "narrowed a = 0"
    unfolding narrowed_def Let_def below_test(4) [OF below] E_def [symmetric] Q_def [symmetric]
    using E below_test(1-3) [OF below] by simp
  moreover have "2 * magnitude W a < unit_ratio"
  proof -
    have "magnitude W a \<le> (Q + f) * 2 ^ (E - 1)"
      by (simp add: magnitude_def mag_def Let_def E_def [symmetric] f_def [symmetric] flip: Q_def)
    also have "\<dots> < 2 * Q * 2 ^ (E - 1)" using f by simp
    finally have "2 * magnitude W a < 2 ^ (significandBits W + 2 + (E - 1))" by (simp add: Q_def power_add)
    also have "\<dots> \<le> 2 ^ (sig_gap + exp_gap)" using E gaps(2,4) by (intro power_increasing) auto
    finally show ?thesis by (simp add: unit_ratio_def)
  qed
  ultimately show ?thesis
    using N.infty_rep_pos mag_Suc [of "significandBits N" 0] by (simp add: nearest_even_def)
qed

lemma narrowed_subnormal:
  assumes "rep_abs a < underflow_rep" "exp_gap < rep_abs a div 2 ^ significandBits W + significandBits W"
  shows "rounded a (narrowed a)"
proof -
  define P Q E f where "P = (2::nat) ^ significandBits N" and "Q = (2::nat) ^ significandBits W"
    and "E = rep_abs a div Q" and "f = rep_abs a mod Q"
  have A: "rep_abs a = E * Q + f" and f: "f < Q"
    by (simp_all only: E_def f_def div_mult_mod_eq) (simp add: Q_def)
  have QP: "Q = P * 2 ^ sig_gap" by (simp add: P_def Q_def gaps power_add)
  have "E < exp_gap + 1" using assms(1) unfolding E_def Q_def underflow_rep_def by (rule less_mult_imp_div_less)
  moreover have "0 < E" using assms(2) gaps(4) by (simp add: E_def Q_def)
  moreover define k where "k = exp_gap + 1 - E"
  ultimately have k: "0 < E" "exp_gap + 1 = E + k" "0 < k" "k \<le> significandBits W"
    using assms(2) by (simp_all add: E_def Q_def)
  define s where "s = ((a AND significandMask W) OR implicitBit W)"
  have "unat (a AND significandMask W) = f" by (simp add: W.unat_fraction f_def Q_def)
  then have s: "unat s = Q + f"
    unfolding s_def using f by (subst W.or_implicitBit) (simp_all add: Q_def)
  define g where "g = shr s k OR truth (shl s (LENGTH('w) - k) \<noteq> 0)"
  have g: "unat g = sticky (Q + f) k"
    unfolding g_def s [symmetric] using k W.width by (intro unat_shr_sticky) simp_all
  have "even Q" using W.fraction_bits by (simp add: Q_def)
  moreover have "Q + f < Q * 2 ^ k"
  proof -
    have "Q * 2 ^ 1 \<le> Q * 2 ^ k" using k(3) by (intro mult_le_mono2 power_increasing) auto
    then have "Q * 2 \<le> Q * 2 ^ k" by (simp only: power_one_right)
    then show ?thesis using f by linarith
  qed
  ultimately have "unat g < Q" by (simp add: g sticky_less_iff)
  then have q: "unat g div 2 ^ sig_gap < P" unfolding QP by (rule less_mult_imp_div_less)
  define m where "m = (ucast (shr g sig_gap) :: 'n word)"
  have "P < infty_rep N" using exponent_ranges(2) N.maxExponent_bounds N.maxExponent_bias by (simp add: P_def infty_rep_def)
  moreover have "(2::nat) ^ (LENGTH('n) - 1) \<le> 2 ^ LENGTH('n)" by (intro power_increasing) auto
  ultimately have "unat g div 2 ^ sig_gap < 2 ^ LENGTH('n)" "unat g div 2 ^ sig_gap < infty_rep N"
    using q N.infty_rep_less by linarith+
  then have m: "unat m = unat g div 2 ^ sig_gap" "unat m < infty_rep N"
    by (simp_all add: m_def unsigned_ucast_eq unat_shr take_bit_nat_eq_self)
  have b: "unat (g AND (shl 1 sig_gap - 1)) = unat g mod 2 ^ sig_gap"
    using unat_and_mask_low [of g sig_gap] by (simp add: push_bit_eq_mult mask_eq_exp_minus_1)
  have "even ((2::nat) ^ (sig_gap - 1))" using gaps(2) by simp
  then have "tracks (2 ^ (sig_gap - 1)) (unat g) ((Q + f) * 2 ^ (E - 1 + sig_gap)) (2 ^ k * 2 ^ (E - 1 + sig_gap))"
    unfolding g by (intro tracks_scale tracks_sticky) simp_all
  moreover have "magnitude W a = (Q + f) * 2 ^ (E - 1)"
    using f k(1) unfolding magnitude_def A unfolding Q_def by (intro mag_normal) simp_all
  moreover have "k + (E - 1 + sig_gap) = sig_gap + exp_gap" using k by simp
  then have "2 ^ k * 2 ^ (E - 1 + sig_gap) = unit_ratio" by (simp only: unit_ratio_def flip: power_add)
  ultimately have "tracks (2 ^ (sig_gap - 1)) (unat g) (magnitude W a * 2 ^ sig_gap) (unit_ratio * 2 ^ (0 - 1))"
    by (simp add: power_add mult.assoc)
  moreover have "significand_ok (significandBits N) 0 (unat g div 2 ^ sig_gap)" using q by (simp add: significand_ok_def P_def)
  ultimately have "rounded a (nearest_step m (g AND (shl 1 sig_gap - 1)))"
    unfolding nearest_step_value [OF m(2) b] using gaps(2) m
    by (intro nearest_even_round [where e = 0]) (simp_all add: join_rep_def)
  moreover have "narrowed a = nearest_step m (g AND (shl 1 sig_gap - 1))"
  proof -
    have "int exp_gap - int E + 1 = int k" using k(2) by simp
    moreover have "\<not> int k > int (significandBits W)" using k(4) by simp
    ultimately show ?thesis
      unfolding narrowed_def Let_def below_test(4) [OF assms(1)] E_def [symmetric] Q_def [symmetric]
      using below_test(1-3) [OF assms(1)] by (simp only: if_False nat_int m_def g_def s_def)
  qed
  ultimately show ?thesis by simp
qed

lemma narrowed_nan:
  assumes "is_nan W a"
  shows "infty_rep N < unat (narrowed a)" "unat (narrowed a) < 2 ^ (LENGTH('n) - 1)"
proof -
  define x where "x = ucast (shr ((a AND absMask W) AND (quietBit W - 1)) sig_gap) AND (quietBit N - 1)"
  have "\<not> (a AND absMask W) - underflow_word < (a AND absMask W) - overflow_word" "infRep W < a AND absMask W"
    using assms range_test [of a] range_reps by (simp_all add: W.nan_iff is_nan_def)
  then have r: "narrowed a = qnanRep N OR x"
    unfolding narrowed_def Let_def x_def qnanRep_def infRep_def or.assoc by simp
  have no: "\<not> bit (narrowed a) n" if "LENGTH('n) - 1 \<le> n" for n
  proof -
    have q: "quietBit N = 2 ^ (significandBits N - 1)"
      using N.unat_quietBit N.width N.fraction_bits by (simp add: word_unat_eq_iff unat_exp_word)
    then have "quietBit N - 1 = mask (significandBits N - 1)" by (simp only: mask_eq_exp_minus_1)
    then show ?thesis
      using that N.width N.fraction_bits unfolding r qnanRep_def x_def q
      by (auto simp: bit_or_iff bit_and_iff N.bit_exponentMask bit_mask_iff bit_exp_iff)
  qed
  then have "take_bit (LENGTH('n) - 1) (narrowed a) = narrowed a"
    by (intro bit_word_eqI) (metis bit_take_bit_iff not_le)
  then have "unat (take_bit (LENGTH('n) - 1) (narrowed a)) = unat (narrowed a)" by simp
  then have abs: "rep_abs (narrowed a) = unat (narrowed a)"
    by (simp only: rep_abs_def unsigned_take_bit_eq) (simp only: take_bit_eq_mod)
  then show "unat (narrowed a) < 2 ^ (LENGTH('n) - 1)" using N.rep_abs_less [of "narrowed a"] by simp
  have "int (rep_abs (qnanRep N)) \<le> int (rep_abs (qnanRep N)) OR int (rep_abs x)" by (rule or_greater_eq) simp
  then have "rep_abs (qnanRep N) \<le> rep_abs (narrowed a)"
    unfolding r N.rep_abs_or by (simp only: of_nat_or_eq [symmetric] of_nat_le_iff)
  then show "infty_rep N < unat (narrowed a)" using N.qnan_is_nan by (simp add: is_nan_def abs)
qed

lemma narrow_sign:
  fixes m :: "'n word"
  assumes "unat m < 2 ^ (LENGTH('n) - 1)"
  shows "rep_abs (m OR ucast (shr (a AND signBit W) (LENGTH('w) - LENGTH('n)))) = unat m"
    and "rep_sign (m OR ucast (shr (a AND signBit W) (LENGTH('w) - LENGTH('n)))) = rep_sign a"
proof -
  have "ucast (shr (a AND signBit W) (LENGTH('w) - LENGTH('n))) = (if rep_sign a then signBit N else 0)"
  proof (rule bit_word_eqI)
    fix n
    assume n: "n < LENGTH('n)"
    have "LENGTH('w) - LENGTH('n) + n = LENGTH('w) - 1 \<longleftrightarrow> n = LENGTH('n) - 1"
      using narrower(2) len_gt_0 [where 'a = 'n] by linarith
    then have "bit (a AND signBit W) (LENGTH('w) - LENGTH('n) + n) \<longleftrightarrow> rep_sign a \<and> n = LENGTH('n) - 1"
      by (auto simp: bit_and_iff W.signBit_eq bit_exp_iff rep_sign_def)
    then show "bit (ucast (shr (a AND signBit W) (LENGTH('w) - LENGTH('n))) :: 'n word) n = bit (if rep_sign a then signBit N else 0) n"
      using n by (auto simp: bit_ucast_iff bit_drop_bit_eq N.signBit_eq bit_exp_iff simp del: drop_bit_and)
  qed
  then show "rep_abs (m OR ucast (shr (a AND signBit W) (LENGTH('w) - LENGTH('n)))) = unat m"
    and "rep_sign (m OR ucast (shr (a AND signBit W) (LENGTH('w) - LENGTH('n)))) = rep_sign a"
    using N.sign_or_if [OF assms, of "rep_sign a"] by simp_all
qed

lemma trunc_rounds:
  assumes "is_finite W a"
  shows "rounds_to N (magnitude W a) unit_ratio (rep_sign a) (truncXfYf2 (significandBits W) (significandBits N) a)"
proof -
  have r: "rounded a (narrowed a)"
    using assms narrowed_in_range [of a] narrowed_overflow [of a] narrowed_tiny [of a] narrowed_subnormal [of a]
    unfolding is_finite_def by (meson not_less)
  then have "unat (narrowed a) \<le> infty_rep N" by (simp add: nearest_even_def)
  then have "unat (narrowed a) < 2 ^ (LENGTH('n) - 1)" using N.infty_rep_less by simp
  then show ?thesis unfolding rounds_to_def trunc_eq narrow_sign [OF \<open>unat (narrowed a) < _\<close>] using r by simp
qed

text \<open>Narrowing rounds to nearest with ties to even, and keeps infinities and not-a-numbers.\<close>

lemma trunc_narrows: "narrows_to W N a (truncXfYf2 (significandBits W) (significandBits N) a)"
proof (cases "is_finite W a")
  case True
  have "rounds_to N (magnitude W a * 2 ^ value_scale N) (2 ^ value_scale W) (rep_sign a)
      (truncXfYf2 (significandBits W) (significandBits N) a)"
    using trunc_rounds [OF True] nearest_even_scale [of "significandBits N" _ "magnitude W a" unit_ratio _ "2 ^ value_scale N"]
    by (simp add: rounds_to_def scales unit_ratio_def power_add ac_simps)
  then show ?thesis using True by (simp add: narrows_to_def)
next
  case False
  show ?thesis
  proof (cases "is_inf W a")
    case True
    then have "\<not> infRep W < a AND absMask W" by (simp add: word_less_nat_alt W.unat_infRep is_inf_def)
    moreover have "overflow_word \<le> a AND absMask W"
      using True range_reps by (simp add: word_le_nat_alt unat_range is_inf_def)
    ultimately have "narrowed a = infRep N"
      using True range_reps range_test [of a] by (simp add: narrowed_def Let_def is_inf_def)
    then have "unat (narrowed a) = infty_rep N" by (simp add: N.unat_infRep)
    then show ?thesis
      using True False N.infty_rep_less narrow_sign [of "narrowed a" a] by (simp add: narrows_to_def trunc_eq is_inf_def)
  next
    case nan: False
    then have "is_nan W a" using W.classes False by blast
    then show ?thesis
      using False nan narrow_sign [of "narrowed a" a] narrowed_nan [of a] by (simp add: narrows_to_def trunc_eq is_nan_def)
  qed
qed

text \<open>Narrowing a widened number gives it back.\<close>

lemma extend_trunc:
  assumes "\<not> is_nan N a"
  shows "truncXfYf2 (significandBits W) (significandBits N) (extendXfYf2 (significandBits N) (significandBits W) clz a :: 'w word) = a"
proof -
  define r :: "'w word" where "r = extendXfYf2 (significandBits N) (significandBits W) clz a"
  have w: "widens_to N W a r" unfolding r_def by (rule extend_widens)
  show ?thesis unfolding r_def [symmetric]
  proof (cases "is_finite N a")
    case True
    then have "is_finite W r" "magnitude W r * 2 ^ value_scale N = magnitude N a * unit_ratio * 2 ^ value_scale N" "rep_sign r = rep_sign a"
      using w by (simp_all add: widens_to_def same_value_def scales unit_ratio_def power_add)
    then have "rounds_to N (magnitude N a * unit_ratio) unit_ratio (rep_sign a) (truncXfYf2 (significandBits W) (significandBits N) r)"
      using trunc_rounds [of r] by simp
    moreover have "nearest_even (significandBits N) (infty_rep N) (magnitude N a * unit_ratio) unit_ratio (rep_abs a)"
      using True unfolding magnitude_def by (intro nearest_even_exact) (simp_all add: is_finite_def unit_ratio_def)
    ultimately show "truncXfYf2 (significandBits W) (significandBits N) r = a"
      using nearest_even_unique [of unit_ratio] by (intro N.rep_eqI) (auto simp: rounds_to_def unit_ratio_def)
  next
    case False
    then have i: "is_inf N a" using N.classes assms by blast
    then have "\<not> is_finite W r" "is_inf W r" "rep_sign r = rep_sign a"
      using w False by (simp_all add: widens_to_def is_finite_def is_inf_def)
    then show "truncXfYf2 (significandBits W) (significandBits N) r = a"
      using trunc_narrows [of r] i by (intro N.rep_eqI) (auto simp: narrows_to_def is_inf_def)
  qed
qed

end

interpretation half: fp_base half_precision
  by unfold_locales (simp_all add: half_precision_def exponentBits_def)

lemma half_precision_values [simp]:
  "significandBits half_precision = 10" "exponentBits half_precision = 5"
  "maxExponent half_precision = 31" "exponentBias half_precision = 15"
  by (simp_all add: exponentBits_def maxExponent_def exponentBias_def half_precision_def)

lemma src_rep_t_clz_half_eq: "w \<noteq> 0 \<Longrightarrow> src_rep_t_clz_half w = int (builtin_clz w) + 16"
proof -
  assume w: "w \<noteq> 0"
  have "high_half (ucast w :: su_int) = (0 :: 16 word)" "low_half (ucast w :: su_int) = w"
    by (rule bit_word_eqI; auto simp: bit_halves bit_ucast_iff dest: bit_imp_le_length)+
  moreover have "ucast w \<noteq> (0 :: su_int)" using calculation(2) w by (auto simp: low_half_def)
  ultimately show ?thesis
    using builtin_clz_halves [where 'h = 16, of "ucast w :: su_int"] by (simp add: src_rep_t_clz_half_def)
qed

lemma src_rep_t_clz_double_eq: "w \<noteq> 0 \<Longrightarrow> src_rep_t_clz_double w = int (builtin_clz w)"
  using rep_clz_double_eq [of w] by (simp add: src_rep_t_clz_double_def rep_clz_double_def)

interpretation half_single: fp_pair half_precision single_precision src_rep_t_clz_half
  by unfold_locales (simp_all add: src_rep_t_clz_half_eq half.rep_clz)

interpretation half_double: fp_pair half_precision double_precision src_rep_t_clz_half
  by unfold_locales (simp_all add: src_rep_t_clz_half_eq half.rep_clz)

interpretation single_double: fp_pair single_precision double_precision src_rep_t_clz_single
  by unfold_locales (simp_all add: src_rep_t_clz_single_def single.rep_clz)

interpretation single_quad: fp_pair single_precision quad_precision src_rep_t_clz_single
  by unfold_locales (simp_all add: src_rep_t_clz_single_def single.rep_clz)

interpretation double_quad: fp_pair double_precision quad_precision src_rep_t_clz_double
  by unfold_locales (simp_all add: src_rep_t_clz_double_eq double.rep_clz)



section \<open>Properties\<close>

lemmas resize_defs = extendhfsf2_def extendsfdf2_def extendsftf2_def extenddftf2_def gnu_h2f_ieee_def
  truncsfhf2_def truncdfhf2_def truncdfsf2_def trunctfsf2_def trunctfdf2_def gnu_f2h_ieee_def

text \<open>C25. A widening conversion keeps the sign, returns the same value for a finite operand, subnormal numbers
  included, an infinity for an infinity and a not-a-number for a not-a-number.\<close>

theorem extension_exact:
  "widens_to half_precision single_precision h (extendhfsf2 h) \<and> widens_to single_precision double_precision s (extendsfdf2 s) \<and>
   widens_to single_precision quad_precision s (extendsftf2 s) \<and> widens_to double_precision quad_precision d (extenddftf2 d) \<and>
   gnu_h2f_ieee h = extendhfsf2 h"
  using half_single.extend_widens [of h] single_double.extend_widens [of s] single_quad.extend_widens [of s]
    double_quad.extend_widens [of d] by (simp add: resize_defs)

text \<open>C24. A narrowing conversion rounds the value to nearest with ties to even, to a subnormal number, zero or an
  infinity where the narrow format needs it; it keeps the sign, and a not-a-number stays one.\<close>

theorem truncation_rounds:
  "narrows_to single_precision half_precision s (truncsfhf2 s) \<and> narrows_to double_precision half_precision d (truncdfhf2 d) \<and>
   narrows_to double_precision single_precision d (truncdfsf2 d) \<and> narrows_to quad_precision single_precision q (trunctfsf2 q) \<and>
   narrows_to quad_precision double_precision q (trunctfdf2 q) \<and> gnu_f2h_ieee s = truncsfhf2 s"
  using half_single.trunc_narrows [of s] half_double.trunc_narrows [of d] single_double.trunc_narrows [of d]
    single_quad.trunc_narrows [of q] double_quad.trunc_narrows [of q] by (simp add: resize_defs)

text \<open>C26. Narrowing a widened number gives the number back, zeros, subnormal numbers and infinities included.\<close>

theorem resize_roundtrip:
  "(is_nan half_precision h \<or> truncsfhf2 (extendhfsf2 h) = h) \<and> (is_nan single_precision s \<or> truncdfsf2 (extendsfdf2 s) = s) \<and>
   (is_nan single_precision s \<or> trunctfsf2 (extendsftf2 s) = s) \<and> (is_nan double_precision d \<or> trunctfdf2 (extenddftf2 d) = d)"
  using half_single.extend_trunc [of h] single_double.extend_trunc [of s] single_quad.extend_trunc [of s] double_quad.extend_trunc [of d]
  by (auto simp: resize_defs)

end
