(* ===== verification/Fp_Scale.thy ===== *)
theory Fp_Scale
  imports Fp_Power Fp_Convert "HOL-Library.Log_Nat"
begin

text \<open>
  The exponent of a number and scaling by a power of two: \<open>__compiler_rt_logbX\<close> of \<open>fp_lib.h\<close> and the functions
  of the C mathematical library that \<open>int_math.h\<close> takes from the compiler (\<open>copysign\<close>, \<open>fabs\<close>, \<open>fmax\<close>,
  \<open>scalbn\<close>, the classification macros), by their definition in ISO C, annex F.
\<close>

section \<open>The arithmetic of a format\<close>

text \<open>The operators of C on a floating-point type are the routines of the library; conversions from and to \<open>int\<close>
  are too.\<close>

record (overloaded) ('r::len) arithmetic =
  precision :: "'r fp_format"
  fadd :: "'r word \<Rightarrow> 'r word \<Rightarrow> 'r word"
  fsub :: "'r word \<Rightarrow> 'r word \<Rightarrow> 'r word"
  fmul :: "'r word \<Rightarrow> 'r word \<Rightarrow> 'r word"
  fdiv :: "'r word \<Rightarrow> 'r word \<Rightarrow> 'r word"
  from_int :: "si_int \<Rightarrow> 'r word"
  to_int :: "'r word \<Rightarrow> si_int"

definition single_arithmetic :: "32 arithmetic" where
  "single_arithmetic = \<lparr>precision = single_precision, fadd = addsf3, fsub = subsf3, fmul = mulsf3, fdiv = divsf3,
     from_int = floatsisf, to_int = fixsfsi\<rparr>"

definition double_arithmetic :: "64 arithmetic" where
  "double_arithmetic = \<lparr>precision = double_precision, fadd = adddf3, fsub = subdf3, fmul = muldf3, fdiv = divdf3,
     from_int = floatsidf, to_int = fixdfsi\<rparr>"

definition quad_arithmetic :: "128 arithmetic" where
  "quad_arithmetic = \<lparr>precision = quad_precision, fadd = addtf3, fsub = subtf3, fmul = multf3, fdiv = divtf3,
     from_int = floatsitf, to_int = fixtfsi\<rparr>"

section \<open>Library functions\<close>

definition c_equal :: "'r::len fp_format \<Rightarrow> 'r word \<Rightarrow> 'r word \<Rightarrow> bool" where
  "c_equal F x y \<longleftrightarrow> \<not> is_nan F x \<and> \<not> is_nan F y \<and> val F x = val F y"

definition crt_copysign :: "'r::len fp_format \<Rightarrow> 'r word \<Rightarrow> 'r word \<Rightarrow> 'r word" where
  "crt_copysign F x y = (x AND absMask F) OR (y AND signBit F)"

definition crt_fabs :: "'r::len fp_format \<Rightarrow> 'r word \<Rightarrow> 'r word" where
  "crt_fabs F x = x AND absMask F"

definition crt_fmax :: "'r::len fp_format \<Rightarrow> 'r word \<Rightarrow> 'r word \<Rightarrow> 'r word" where
  "crt_fmax F x y = (if is_nan F x then y else if is_nan F y then x else if c_less F x y then y else x)"

text \<open>\<open>num / 2 ^ shift\<close>, in units of the smallest subnormal number, rounded to nearest with ties to even.\<close>

definition scaled_rep :: "nat \<Rightarrow> nat \<Rightarrow> nat \<Rightarrow> nat \<Rightarrow> nat" where
  "scaled_rep sb infty num shift =
     (let e = floorlog 2 num - shift - sb;
          f = shift + (e - 1) + 1;
          r = join_rep sb e (2 * num div 2 ^ f)
      in if infty \<le> r then infty else if round_up f (2 * num) r then r + 1 else r)"

definition crt_scalbn :: "'r::len fp_format \<Rightarrow> 'r word \<Rightarrow> si_int \<Rightarrow> 'r word" where
  "crt_scalbn F x n =
     (if is_finite F x then
        of_nat (scaled_rep (significandBits F) (infty_rep F) (magnitude F x * 2 ^ nat (sint n)) (nat (- sint n)))
        OR (x AND signBit F)
      else x)"

section \<open>The exponent\<close>

definition logbX :: "'r::len arithmetic \<Rightarrow> 'r word \<Rightarrow> 'r word" where
  "logbX A x =
     (let F = precision A;
          rep = toRep x;
          exp = uint (shr (rep AND exponentMask F) (significandBits F))
      in if exp = maxExponent F then
           if rep AND signBit F = 0 \<or> \<not> c_equal F x x then x else negXf2 F x
         else if c_equal F x 0 then fromRep (infRep F OR signBit F)
         else if exp \<noteq> 0 then from_int A (word_of_int (exp - exponentBias F))
         else
           let rep = rep AND absMask F;
               (rep, scale) = normalize F rep;
               shift = 1 - scale;
               exp = uint (shr (rep AND exponentMask F) (significandBits F))
           in from_int A (word_of_int (exp - exponentBias F - shift)))"

section \<open>Scaling rounds to nearest\<close>

lemma scaled_rep_nearest:
  assumes infty: "0 < infty"
  shows "nearest_even sb infty num (2 ^ shift) (scaled_rep sb infty num shift)"
proof -
  define e f r where "e = floorlog 2 num - shift - sb" and "f = shift + (e - 1) + 1"
    and "r = join_rep sb e (2 * num div 2 ^ f)"
  have run: "scaled_rep sb infty num shift = (if infty \<le> r then infty else if round_up f (2 * num) r then r + 1 else r)"
    unfolding scaled_rep_def Let_def e_def f_def r_def by (rule refl)
  have q: "2 * num div 2 ^ f = num div 2 ^ (shift + (e - 1))" by (simp add: f_def)
  have ok: "significand_ok sb e (num div 2 ^ (shift + (e - 1)))"
  proof (cases "e = 0")
    case True
    then have "floorlog 2 num \<le> sb + shift" by (simp add: e_def)
    then have "num < 2 ^ (sb + shift)" by (rule floorlog_leD) simp
    then have "num div 2 ^ shift < 2 ^ sb" by (simp add: less_mult_imp_div_less power_add)
    then show ?thesis by (simp add: True significand_ok_def)
  next
    case False
    then have L: "floorlog 2 num = e + shift + sb" "0 < num"
      by (auto simp: e_def floorlog_def split: if_splits)
    have b: "2 ^ (e + shift + sb - 1) \<le> num" "num < 2 ^ (e + shift + sb)"
      using floorlog_bounds [OF L(2), of 2] by (simp_all add: L(1))
    have "e + shift + sb - 1 = sb + (shift + (e - 1))" "e + shift + sb = Suc sb + (shift + (e - 1))" using False by simp_all
    then have "2 ^ sb * 2 ^ (shift + (e - 1)) \<le> num" "num < 2 * 2 ^ sb * 2 ^ (shift + (e - 1))"
      using b by (simp_all only: power_add power_Suc mult.assoc) 
    then have "2 ^ sb \<le> num div 2 ^ (shift + (e - 1))" "num div 2 ^ (shift + (e - 1)) < 2 * 2 ^ sb"
      by (simp_all only: less_eq_div_iff_mult_less_eq zero_less_power zero_less_numeral less_mult_imp_div_less)
    then show ?thesis using False by (simp add: significand_ok_def)
  qed
  show ?thesis
  proof (cases "infty \<le> r")
    case True
    have "mag sb infty \<le> mag sb r" using True by (rule mag_mono)
    then have "mag sb infty * 2 ^ shift \<le> num div 2 ^ (shift + (e - 1)) * 2 ^ (e - 1) * 2 ^ shift"
      unfolding r_def q mag_join_rep(1) [OF ok] by simp
    also have "\<dots> \<le> num" using div_times_less_eq_dividend [of num "2 ^ (shift + (e - 1))"] by (simp add: power_add ac_simps)
    finally have "nearest_even sb infty num (2 ^ shift) infty" using infty by (intro nearest_even_overflow) simp_all
    then show ?thesis using True by (simp add: run)
  next
    case False
    have "tracks (2 ^ (f - 1)) (2 * num) (num * 2 ^ f) (2 ^ shift * 2 ^ (e - 1))"
      using tracks_exact [of "2 ^ shift * 2 ^ (e - 1)" "2 ^ (f - 1)" "2 * num"] by (simp add: f_def power_add ac_simps)
    then have "nearest_even sb infty num (2 ^ shift) (if round_up f (2 * num) r then r + 1 else r)"
      using False ok r_def unfolding q [symmetric] by (intro nearest_even_round) (simp_all add: f_def)
    then show ?thesis using False by (simp add: run)
  qed
qed

text \<open>Rounding is monotonic at the representable values.\<close>

lemma nearest_even_le:
  assumes "nearest_even sb infty num den r" "num \<le> mag sb s * den" "0 < den"
  shows "r \<le> s"
proof (rule ccontr)
  assume "\<not> r \<le> s"
  then have "mag sb s \<le> mag sb (r - 1)" "mag sb s < mag sb r" by (auto intro: mag_mono mag_strict_mono)
  then have "2 * mag sb s < mag sb (r - 1) + mag sb r" by linarith
  then have "2 * mag sb s * den < (mag sb (r - 1) + mag sb r) * den" using assms(3) by simp
  then have "2 * (mag sb s * den) < (mag sb (r - 1) + mag sb r) * den" by (simp only: mult.assoc)
  moreover have "(mag sb (r - 1) + mag sb r) * den \<le> 2 * num"
    using assms(1) \<open>\<not> r \<le> s\<close> by (auto simp: nearest_even_def)
  ultimately show False using assms(2) by linarith
qed

lemma nearest_even_ge:
  assumes "nearest_even sb infty num den r" "mag sb s * den \<le> num" "0 < den" "s \<le> infty"
  shows "s \<le> r"
proof (rule ccontr)
  assume "\<not> s \<le> r"
  then have "mag sb (r + 1) \<le> mag sb s" "mag sb r < mag sb s" by (auto intro: mag_mono mag_strict_mono)
  then have "mag sb r + mag sb (r + 1) < 2 * mag sb s" by linarith
  then have "(mag sb r + mag sb (r + 1)) * den < 2 * mag sb s * den" using assms(3) by simp
  then have "(mag sb r + mag sb (r + 1)) * den < 2 * (mag sb s * den)" by (simp only: mult.assoc)
  moreover have "2 * num \<le> (mag sb r + mag sb (r + 1)) * den"
    using assms(1,4) \<open>\<not> s \<le> r\<close> by (auto simp: nearest_even_def)
  ultimately show False using assms(2) by linarith
qed

context fp_base
begin

lemma copysign_fields:
  "rep_abs (crt_copysign F x y) = rep_abs x" "rep_sign (crt_copysign F x y) = rep_sign y" for x y :: "'r word"
proof -
  have "unat (x AND absMask F) < 2 ^ (LENGTH('r) - 1)" using rep_abs_less [of x] by simp
  then show "rep_abs (crt_copysign F x y) = rep_abs x" "rep_sign (crt_copysign F x y) = rep_sign y"
    unfolding crt_copysign_def by (simp_all add: sign_or)
qed

lemma fabs_fields: "rep_abs (crt_fabs F x) = rep_abs x" "\<not> rep_sign (crt_fabs F x)" for x :: "'r word"
  unfolding crt_fabs_def using rep_word_split [of "x AND absMask F"] rep_abs_less [of x]
  by (auto simp: rep_abs_def [of "x AND absMask F"] split: if_splits)

lemma scalbn_rounds:
  fixes x :: "'r word"
  assumes "is_finite F x"
  shows "rounds_to F (magnitude F x * 2 ^ nat (sint n)) (2 ^ nat (- sint n)) (rep_sign x) (crt_scalbn F x n)"
proof -
  define r where "r = scaled_rep (significandBits F) (infty_rep F) (magnitude F x * 2 ^ nat (sint n)) (nat (- sint n))"
  have near: "nearest_even (significandBits F) (infty_rep F) (magnitude F x * 2 ^ nat (sint n)) (2 ^ nat (- sint n)) r"
    unfolding r_def using infty_rep_pos by (rule scaled_rep_nearest)
  then have "r < 2 ^ (LENGTH('r) - 1)" using infty_rep_less by (simp add: nearest_even_def)
  moreover from this have "r < 2 ^ LENGTH('r)"
    using power_strict_increasing [of "LENGTH('r) - 1" "LENGTH('r)" "2::nat"] by (simp add: less_trans)
  ultimately have "unat (of_nat r :: 'r word) = r" "unat (of_nat r :: 'r word) < 2 ^ (LENGTH('r) - 1)"
    by (simp_all add: unsigned_of_nat take_bit_nat_eq_self)
  then show ?thesis
    using assms near by (simp add: rounds_to_def crt_scalbn_def sign_or flip: r_def)
qed

lemma scalbn_not_finite: "\<not> is_finite F x \<Longrightarrow> crt_scalbn F x n = x"
  by (simp add: crt_scalbn_def)

text \<open>A result below the representation \<open>s\<close>, and one above it.\<close>

lemma rounds_to_le: "rounds_to F num den neg r \<Longrightarrow> num \<le> mag (significandBits F) s * den \<Longrightarrow> 0 < den \<Longrightarrow> rep_abs r \<le> s"
  unfolding rounds_to_def by (blast intro: nearest_even_le)

lemma rounds_to_ge:
  "rounds_to F num den neg r \<Longrightarrow> mag (significandBits F) s * den \<le> num \<Longrightarrow> 0 < den \<Longrightarrow> s \<le> infty_rep F \<Longrightarrow> s \<le> rep_abs r"
  unfolding rounds_to_def by (blast intro: nearest_even_ge)

lemma rounds_to_not_nan: "rounds_to F num den neg r \<Longrightarrow> \<not> is_nan F r"
  by (simp add: rounds_to_def nearest_even_def is_nan_def)

end

section \<open>The contract of an arithmetic\<close>

text \<open>The exponent of a number, as \<open>logb\<close> of ISO C returns it; the units of a magnitude are
  \<open>2 ^ - (bias + significandBits - 1)\<close>.\<close>

definition is_logb :: "'r::len arithmetic \<Rightarrow> 'r word \<Rightarrow> 'r word \<Rightarrow> bool" where
  "is_logb A x r \<longleftrightarrow>
     (let F = precision A in
      if is_nan F x then r = x
      else if is_inf F x then is_inf F r \<and> \<not> rep_sign r
      else if rep_abs x = 0 then is_inf F r \<and> rep_sign r
      else \<exists>k. 2 ^ k \<le> magnitude F x \<and> magnitude F x < 2 * 2 ^ k \<and>
        r = from_int A (word_of_int (int k - (exponentBias F + int (significandBits F) - 1))))"

text \<open>Products of two finite operands are left out where neither operand is 0 or 1 in absolute value: quadruple
  precision does not round all of them correctly (theory \<open>Fp_Quad\<close>).\<close>

definition zero_or_unit :: "'r::len fp_format \<Rightarrow> 'r word \<Rightarrow> bool" where
  "zero_or_unit F x \<longleftrightarrow> rep_abs x = 0 \<or> rep_abs x = rep_abs (oneRep F)"

locale arithmetic_laws = fp_base F for F :: "'r::len fp_format" +
  fixes A :: "'r arithmetic"
  assumes format: "precision A = F"
    and add: "ieee_sum F x y (fadd A x y)"
    and sub: "ieee_difference F x y (fsub A x y)"
    and mul: "\<not> is_finite F x \<or> \<not> is_finite F y \<or> zero_or_unit F x \<or> zero_or_unit F y \<Longrightarrow>
      ieee_product F x y (fmul A x y)"
    and div: "ieee_quotient F x y (fdiv A x y)"
    and int_exact: "\<bar>k\<bar> < 2 ^ 15 \<Longrightarrow>
      is_finite F (from_int A (word_of_int k)) \<and> to_int A (from_int A (word_of_int k)) = word_of_int k"
begin

lemma exponent_of: "uint (shr (x AND exponentMask F) (significandBits F)) = int (rep_abs x div 2 ^ significandBits F)" for x :: "'r word"
proof -
  have "(word_of_int (maxExponent F) :: 'r word) = mask (exponentBits F)" by (simp add: maxExponent_def mask_eq_exp_minus_1)
  then have "shr (x AND exponentMask F) (significandBits F) = shr x (significandBits F) AND word_of_int (maxExponent F)"
    by (intro bit_word_eqI) (auto simp: bit_drop_bit_eq bit_and_iff exponentMask_eq bit_push_bit_iff bit_mask_iff width)
  then show ?thesis by (simp only: uint_exponent_field)
qed

lemma fmax_number:
  fixes c d :: "'r word"
  assumes "\<not> is_nan F c" "\<not> is_nan F d"
  shows "rep_abs (crt_fmax F (crt_fabs F c) (crt_fabs F d)) = max (rep_abs c) (rep_abs d)"
    and "\<not> rep_sign (crt_fmax F (crt_fabs F c) (crt_fabs F d))"
  using assms fabs_fields [of c] fabs_fields [of d]
  by (auto simp: crt_fmax_def c_less_def is_nan_def val_def magnitude_def mag_less_iff)

lemma fmax_infinite:
  fixes c d :: "'r word"
  assumes "is_inf F c \<or> is_inf F d"
  shows "is_inf F (crt_fmax F (crt_fabs F c) (crt_fabs F d))" and "\<not> rep_sign (crt_fmax F (crt_fabs F c) (crt_fabs F d))"
  using assms fabs_fields [of c] fabs_fields [of d]
  by (auto simp: crt_fmax_def c_less_def is_nan_def is_inf_def val_def magnitude_def mag_less_iff)

lemma exponent_bias_small: "exponentBias F < 2 ^ 14"
  using maxExponent_bounds maxExponent_bias by simp

lemma exponent_max:
  "int (rep_abs x div 2 ^ significandBits F) = maxExponent F \<longleftrightarrow> \<not> is_finite F x"
  "int (rep_abs x div 2 ^ significandBits F) \<le> maxExponent F" for x :: "'r word"
proof -
  define n P where "n = rep_abs x div 2 ^ significandBits F" and "P = (2::nat) ^ exponentBits F"
  have "maxExponent F = int P - 1" by (simp add: maxExponent_def P_def)
  moreover have "n < P" using exponent_field_less [of x] by (simp add: n_def P_def)
  moreover have "is_finite F x \<longleftrightarrow> n < P - 1" by (simp add: finite_exponent n_def P_def)
  ultimately show "int n = maxExponent F \<longleftrightarrow> \<not> is_finite F x" "int n \<le> maxExponent F" by auto
qed

lemma logbX_run:
  fixes x :: "'r word"
  shows "logbX A x =
    (if \<not> is_finite F x then if \<not> rep_sign x \<or> \<not> c_equal F x x then x else negXf2 F x
     else if c_equal F x 0 then infRep F OR signBit F
     else if rep_abs x div 2 ^ significandBits F \<noteq> 0 then
       from_int A (word_of_int (int (rep_abs x div 2 ^ significandBits F) - exponentBias F))
     else
       case normalize F (x AND absMask F) of (rep, scale) \<Rightarrow>
         from_int A (word_of_int (int (rep_abs rep div 2 ^ significandBits F) - exponentBias F - (1 - scale))))"
proof -
  have "x AND signBit F = 0 \<longleftrightarrow> \<not> rep_sign x" using rep_sign_test [of x] by blast
  then show ?thesis
    unfolding logbX_def Let_def format toRep_def fromRep_def exponent_of exponent_max(1) by simp
qed

lemma logbX_special:
  "is_nan F x \<Longrightarrow> logbX A x = x"
  "is_inf F x \<Longrightarrow> is_inf F (logbX A x) \<and> \<not> rep_sign (logbX A x)"
  "rep_abs x = 0 \<Longrightarrow> is_inf F (logbX A x) \<and> rep_sign (logbX A x)"
proof -
  have inf: "\<not> is_nan F x" if "is_inf F x" using that by (simp add: is_inf_def is_nan_def)
  show "is_nan F x \<Longrightarrow> logbX A x = x"
    by (simp add: logbX_run is_nan_def is_finite_def c_equal_def)
  show "is_inf F x \<Longrightarrow> is_inf F (logbX A x) \<and> \<not> rep_sign (logbX A x)"
    using inf neg_fields [of x]
    by (auto simp: logbX_run is_inf_def is_finite_def c_equal_def)
  show "rep_abs x = 0 \<Longrightarrow> is_inf F (logbX A x) \<and> rep_sign (logbX A x)"
  proof -
    assume zero: "rep_abs x = 0"
    have "rep_sign (signBit F)" by (simp add: rep_sign_def signBit_eq bit_exp_iff)
    then have "is_inf F (infRep F OR signBit F)" "rep_sign (infRep F OR signBit F)"
      using infinity_signed [of "signBit F"] by simp_all
    moreover have "is_finite F x" "\<not> is_nan F x" "c_equal F x 0"
      using zero infty_rep_pos by (simp_all add: is_finite_def is_nan_def c_equal_def val_def magnitude_def rep_abs_def)
    ultimately show ?thesis by (simp add: logbX_run)
  qed
qed

lemma logbX_finite:
  fixes x :: "'r word"
  assumes fin: "is_finite F x" and nz: "rep_abs x \<noteq> 0"
  obtains k where "logbX A x = from_int A (word_of_int (int k - (exponentBias F + int (significandBits F) - 1)))"
    "2 ^ k \<le> magnitude F x" "magnitude F x < 2 * 2 ^ k" "\<bar>int k - (exponentBias F + int (significandBits F) - 1)\<bar> < 2 ^ 15"
proof -
  define e where "e = rep_abs x div 2 ^ significandBits F"
  have max: "int e \<noteq> maxExponent F" "int e < 2 ^ 15"
    using fin exponent_max [of x] maxExponent_bounds by (simp_all add: e_def)
  have zero: "\<not> c_equal F x 0" using nz by (auto simp: c_equal_def val_def magnitude_def rep_abs_def)
  show thesis
  proof (cases "e = 0")
    case False
    define k where "k = significandBits F + e - 1"
    have "magnitude F x = (2 ^ significandBits F + rep_abs x mod 2 ^ significandBits F) * 2 ^ (e - 1)"
      using False by (simp add: magnitude_def mag_def e_def)
    moreover have "2 ^ significandBits F \<le> 2 ^ significandBits F + rep_abs x mod 2 ^ significandBits F"
      "2 ^ significandBits F + rep_abs x mod 2 ^ significandBits F < 2 * 2 ^ significandBits F" by simp_all
    then have "2 ^ significandBits F * 2 ^ (e - 1) \<le> (2 ^ significandBits F + rep_abs x mod 2 ^ significandBits F) * 2 ^ (e - 1)"
      "(2 ^ significandBits F + rep_abs x mod 2 ^ significandBits F) * 2 ^ (e - 1) < 2 * 2 ^ significandBits F * 2 ^ (e - 1)"
      by (simp_all only: mult_le_mono1 mult_less_mono1 zero_less_power zero_less_numeral)
    moreover have "(2::nat) ^ significandBits F * 2 ^ (e - 1) = 2 ^ k" using False by (simp add: k_def flip: power_add)
    ultimately have "2 ^ k \<le> magnitude F x" "magnitude F x < 2 * 2 ^ k" by (simp_all only: mult.assoc)
    moreover have k: "int k - (exponentBias F + int (significandBits F) - 1) = int e - exponentBias F" using False by (simp add: k_def)
    moreover have "logbX A x = from_int A (word_of_int (int e - exponentBias F))"
      using fin zero False unfolding e_def by (simp add: logbX_run)
    moreover have "\<bar>int e - exponentBias F\<bar> < 2 ^ 15" using max(2) exponentBias_bounds by simp
    ultimately show thesis using that by metis
  next
    case True
    then have less: "rep_abs x < 2 ^ significandBits F" by (simp add: e_def div_eq_0_iff)
    then have mag: "magnitude F x = rep_abs x" by (simp add: magnitude_def mag_subnormal)
    have "x AND absMask F \<noteq> 0" "unat (x AND absMask F) < 2 ^ significandBits F" using nz less by (simp_all add: zero_iff)
    then obtain j s where j: "normalize F (x AND absMask F) = (s, 1 - int j)" "0 < j" "j \<le> significandBits F"
      "unat s = rep_abs x * 2 ^ j" "2 ^ significandBits F \<le> unat s" "unat s < 2 * 2 ^ significandBits F"
      using normalize_eq [of "x AND absMask F"] by (metis unat_abs)
    define k where "k = significandBits F - j"
    have P: "2 ^ k * 2 ^ j = (2::nat) ^ significandBits F" using j(3) by (simp add: k_def flip: power_add)
    have "2 ^ k * 2 ^ j \<le> rep_abs x * 2 ^ j" "rep_abs x * 2 ^ j < 2 * 2 ^ k * 2 ^ j"
      using j(4-6) unfolding mult.assoc P by simp_all
    then have "2 ^ k \<le> magnitude F x" "magnitude F x < 2 * 2 ^ k" unfolding mag by (simp_all only: mult_le_cancel2 mult_less_cancel2)
    moreover have k: "int k - (exponentBias F + int (significandBits F) - 1) = 1 - exponentBias F - int j" using j(3) by (simp add: k_def)
    moreover have "logbX A x = from_int A (word_of_int (1 - exponentBias F - int j))"
    proof -
      have "2 * 2 ^ significandBits F \<le> (2::nat) ^ (LENGTH('r) - 1)"
        unfolding width_minus_1 power_Suc [symmetric] using exponent_bits by (intro power_increasing) simp_all
      then have "rep_abs s = unat s" using j(6) by (simp add: rep_abs_def)
      then have "rep_abs s div 2 ^ significandBits F = 1" using j(5,6) by (simp add: div_nat_eqI)
      then show ?thesis using fin zero True j(1) unfolding e_def by (simp add: logbX_run diff_diff_eq add.commute)
    qed
    moreover have "\<bar>1 - exponentBias F - int j\<bar> < 2 ^ 15"
      using j(2,3) fraction_bits exponent_bias_small exponentBias_bounds by simp
    ultimately show thesis using that by metis
  qed
qed

lemma logbX_correct: "is_logb A x (logbX A x)"
proof -
  consider "is_nan F x" | "\<not> is_nan F x" "is_inf F x" | "\<not> is_nan F x" "\<not> is_inf F x" "rep_abs x = 0"
    | "is_finite F x" "rep_abs x \<noteq> 0"
    using classes [of x] by blast
  then show ?thesis
  proof cases
    case 4
    moreover from 4 have "\<not> is_nan F x" "\<not> is_inf F x" by (simp_all add: is_finite_def is_nan_def is_inf_def)
    ultimately show ?thesis using logbX_finite [of x] by (simp add: is_logb_def Let_def format) metis
  qed (simp_all add: is_logb_def Let_def format logbX_special)
qed

end

section \<open>The three arithmetics\<close>

lemma unit_significand:
  assumes "rep_abs x = rep_abs (oneRep quad_precision)"
  shows "fst (mul_normalize quad_precision x) OR implicitBit quad_precision = implicitBit quad_precision"
proof -
  have x: "rep_abs x = 16383 * 2 ^ 112" using assms quad.oneRep_value(1) by simp
  then have "x AND significandMask quad_precision = 0"
    using quad.unat_fraction [of x] by (simp add: word_unat_eq_iff)
  moreover have "\<not> x AND absMask quad_precision < implicitBit quad_precision"
    by (simp add: word_less_nat_alt quad.unat_implicitBit x)
  ultimately show ?thesis by (simp add: mul_normalize_def)
qed

lemma quad_unit_product:
  assumes "\<not> is_finite quad_precision x \<or> \<not> is_finite quad_precision y \<or> zero_or_unit quad_precision x \<or> zero_or_unit quad_precision y"
  shows "ieee_product quad_precision x y (multf3 x y)"
  unfolding multf3_def
proof (rule quad.mulXf3_correct, rule quad_exact_product)
  assume nz: "is_finite quad_precision x" "is_finite quad_precision y" "rep_abs x \<noteq> 0" "rep_abs y \<noteq> 0"
  have one: "unat (implicitBit quad_precision) = 2 ^ 112" "unat (shl (implicitBit quad_precision) 15) = 2 ^ 127"
    by (simp_all add: quad.unat_implicitBit unat_shl_small)
  have no: "\<not> quad_carry (2 ^ 112) n" "\<not> quad_carry m (2 ^ 127)" for m n
    by (simp_all add: quad_carry_def)
  from nz assms consider "rep_abs x = rep_abs (oneRep quad_precision)" | "rep_abs y = rep_abs (oneRep quad_precision)"
    by (auto simp: zero_or_unit_def)
  then show "\<not> case_prod quad_carry (quad_operands x y)"
    by cases (simp_all add: quad_operands_def unit_significand one no del: power_numeral)
qed

context fp_base
begin

lemma small_int_exact:
  fixes r :: "'r word" and f :: "'i::len word"
  assumes r: "int_rounds_to F k r" and result: "fix_word F r f"
    and k: "\<bar>k\<bar> < 2 * 2 ^ significandBits F" "int (significandBits F) \<le> exponentBias F" "\<bar>k\<bar> < 2 ^ LENGTH('i)"
  shows "is_finite F r \<and> f = word_of_int k"
proof -
  note exact = int_rounds_exact [OF r k(1,2)]
  have "nat \<bar>k\<bar> < 2 ^ LENGTH('i)" using k(3) by (simp add: nat_less_iff)
  then show ?thesis using result exact by (auto simp: fix_word_def)
qed

end

lemma sint_small: "\<bar>k\<bar> < 2 ^ 15 \<Longrightarrow> sint (word_of_int k :: si_int) = k"
  by (simp add: signed_of_int signed_take_bit_int_eq_self)

interpretation single: arithmetic_laws single_precision single_arithmetic
proof
  fix k :: int
  assume k: "\<bar>k\<bar> < 2 ^ 15"
  have "int_rounds_to single_precision (sint (word_of_int k :: si_int)) (floatsisf (word_of_int k))"
    unfolding floatsisf_def by (rule single.rounded_by_sign) simp_all
  from single.small_int_exact [OF this [unfolded sint_small [OF k]] fixsfsi_result] k
  show "is_finite single_precision (from_int single_arithmetic (word_of_int k)) \<and>
      to_int single_arithmetic (from_int single_arithmetic (word_of_int k)) = word_of_int k"
    by (simp add: single_arithmetic_def)
qed (simp_all add: single_arithmetic_def addsf3_def subsf3_def single.addXf3_correct single.subtract_correct single.product
    divsf3_def single.divXf3_correct)

interpretation double: arithmetic_laws double_precision double_arithmetic
proof
  fix k :: int
  assume k: "\<bar>k\<bar> < 2 ^ 15"
  have "int_rounds_to double_precision (sint (word_of_int k :: si_int)) (floatsidf (word_of_int k))"
    unfolding floatsidf_def by (rule double.exact_by_sign) simp_all
  moreover have "fix_word double_precision (floatsidf (word_of_int k)) (fixdfsi (floatsidf (word_of_int k)))"
    unfolding fixdfsi_def by (rule double.fixint_correct) simp_all
  ultimately have "is_finite double_precision (floatsidf (word_of_int k)) \<and> fixdfsi (floatsidf (word_of_int k)) = word_of_int k"
    using k unfolding sint_small [OF k] by (intro double.small_int_exact) simp_all
  then show "is_finite double_precision (from_int double_arithmetic (word_of_int k)) \<and>
      to_int double_arithmetic (from_int double_arithmetic (word_of_int k)) = word_of_int k"
    by (simp add: double_arithmetic_def)
qed (simp_all add: double_arithmetic_def adddf3_def subdf3_def double.addXf3_correct double.subtract_correct double.product
    divdf3_def double.divXf3_correct)

lemma divtf3_quotient: "ieee_quotient quad_precision x y (divtf3 x y)"
  unfolding divtf3_def by (rule quad.divXf3_correct)

interpretation quad: arithmetic_laws quad_precision quad_arithmetic
proof
  fix k :: int
  assume k: "\<bar>k\<bar> < 2 ^ 15"
  have "int_rounds_to quad_precision (sint (word_of_int k :: si_int)) (floatsitf (word_of_int k))"
    unfolding floatsitf_def not_plus_one by (rule quad.exact_by_sign) simp_all
  moreover have "fix_word quad_precision (floatsitf (word_of_int k)) (fixtfsi (floatsitf (word_of_int k)))"
    unfolding fixtfsi_def by (rule quad.fixint_correct) simp_all
  ultimately have "is_finite quad_precision (floatsitf (word_of_int k)) \<and> fixtfsi (floatsitf (word_of_int k)) = word_of_int k"
    using k unfolding sint_small [OF k] by (intro quad.small_int_exact) simp_all
  then show "is_finite quad_precision (from_int quad_arithmetic (word_of_int k)) \<and>
      to_int quad_arithmetic (from_int quad_arithmetic (word_of_int k)) = word_of_int k"
    by (simp add: quad_arithmetic_def)
qed (simp_all add: quad_arithmetic_def addtf3_def subtf3_def quad.addXf3_correct quad.subtract_correct quad_unit_product
    divtf3_quotient)

section \<open>Properties\<close>

text \<open>C29. \<open>__compiler_rt_logbX\<close> in each precision returns the exponent of its operand, the rounded-down binary
  logarithm of the absolute value, for subnormal numbers too; zero gives minus infinity, an infinity plus infinity
  and a NaN itself.\<close>

theorem logb_correct:
  "is_logb single_arithmetic a (logbX single_arithmetic a) \<and> is_logb double_arithmetic b (logbX double_arithmetic b) \<and>
   is_logb quad_arithmetic c (logbX quad_arithmetic c)"
  using single.logbX_correct double.logbX_correct quad.logbX_correct by blast

end
