(* ===== verification/Fp_Complex.thy ===== *)
theory Fp_Complex
  imports Fp_Scale
begin

text \<open>
  Complex multiplication and division: \<open>mulsc3.c\<close>, \<open>muldc3.c\<close>, \<open>multc3.c\<close> and \<open>divsc3.c\<close>, \<open>divdc3.c\<close>,
  \<open>divtc3.c\<close>.  The files of a group are the same text in three precisions, so each group is one definition over
  the arithmetic of its format.  Both follow ISO C, annex G: when the textbook formula gives two NaNs, infinities
  are recovered from the operands.
\<close>

section \<open>The routines\<close>

text \<open>\<open>crt_copysign(crt_isinf(x) ? 1 : 0, x)\<close>, and the replacement of a NaN by a zero of its sign.\<close>

definition box_infinity :: "'r::len fp_format \<Rightarrow> 'r word \<Rightarrow> 'r word" where
  "box_infinity F x = crt_copysign F (if is_inf F x then oneRep F else 0) x"

definition nan_to_zero :: "'r::len fp_format \<Rightarrow> 'r word \<Rightarrow> 'r word" where
  "nan_to_zero F x = (if is_nan F x then crt_copysign F 0 x else x)"

definition mulXc3 :: "'r::len arithmetic \<Rightarrow> 'r word \<Rightarrow> 'r word \<Rightarrow> 'r word \<Rightarrow> 'r word \<Rightarrow> 'r word \<times> 'r word" where
  "mulXc3 A a b c d =
     (let F = precision A;
          ac = fmul A a c;
          bd = fmul A b d;
          ad = fmul A a d;
          bc = fmul A b c;
          re = fsub A ac bd;
          im = fadd A ad bc
      in if is_nan F re \<and> is_nan F im then
           let recalc = False;
               (a, b, c, d, recalc) =
                 (if is_inf F a \<or> is_inf F b then
                    (box_infinity F a, box_infinity F b, nan_to_zero F c, nan_to_zero F d, True)
                  else (a, b, c, d, recalc));
               (a, b, c, d, recalc) =
                 (if is_inf F c \<or> is_inf F d then
                    (nan_to_zero F a, nan_to_zero F b, box_infinity F c, box_infinity F d, True)
                  else (a, b, c, d, recalc));
               (a, b, c, d, recalc) =
                 (if \<not> recalc \<and> (is_inf F ac \<or> is_inf F bd \<or> is_inf F ad \<or> is_inf F bc) then
                    (nan_to_zero F a, nan_to_zero F b, nan_to_zero F c, nan_to_zero F d, True)
                  else (a, b, c, d, recalc))
           in if recalc then
                (fmul A (infRep F) (fsub A (fmul A a c) (fmul A b d)),
                 fmul A (infRep F) (fadd A (fmul A a d) (fmul A b c)))
              else (re, im)
         else (re, im))"

definition divXc3 :: "'r::len arithmetic \<Rightarrow> 'r word \<Rightarrow> 'r word \<Rightarrow> 'r word \<Rightarrow> 'r word \<Rightarrow> 'r word \<times> 'r word" where
  "divXc3 A a b c d =
     (let F = precision A;
          logbw = logbX A (crt_fmax F (crt_fabs F c) (crt_fabs F d));
          (ilogbw, c, d) =
            (if is_finite F logbw then
               let ilogbw = to_int A logbw in (ilogbw, crt_scalbn F c (- ilogbw), crt_scalbn F d (- ilogbw))
             else (0, c, d));
          denom = fadd A (fmul A c c) (fmul A d d);
          re = crt_scalbn F (fdiv A (fadd A (fmul A a c) (fmul A b d)) denom) (- ilogbw);
          im = crt_scalbn F (fdiv A (fsub A (fmul A b c) (fmul A a d)) denom) (- ilogbw)
      in if is_nan F re \<and> is_nan F im then
           if c_equal F denom 0 \<and> (\<not> is_nan F a \<or> \<not> is_nan F b) then
             (fmul A (crt_copysign F (infRep F) c) a, fmul A (crt_copysign F (infRep F) c) b)
           else if (is_inf F a \<or> is_inf F b) \<and> is_finite F c \<and> is_finite F d then
             let a = box_infinity F a; b = box_infinity F b
             in (fmul A (infRep F) (fadd A (fmul A a c) (fmul A b d)), fmul A (infRep F) (fsub A (fmul A b c) (fmul A a d)))
           else if is_inf F logbw \<and> c_less F 0 logbw \<and> is_finite F a \<and> is_finite F b then
             let c = box_infinity F c; d = box_infinity F d
             in (fmul A 0 (fadd A (fmul A a c) (fmul A b d)), fmul A 0 (fsub A (fmul A b c) (fmul A a d)))
           else (re, im)
         else (re, im))"

definition mulsc3 :: "32 word \<Rightarrow> 32 word \<Rightarrow> 32 word \<Rightarrow> 32 word \<Rightarrow> 32 word \<times> 32 word" where
  "mulsc3 = mulXc3 single_arithmetic"
definition muldc3 :: "64 word \<Rightarrow> 64 word \<Rightarrow> 64 word \<Rightarrow> 64 word \<Rightarrow> 64 word \<times> 64 word" where
  "muldc3 = mulXc3 double_arithmetic"
definition multc3 :: "128 word \<Rightarrow> 128 word \<Rightarrow> 128 word \<Rightarrow> 128 word \<Rightarrow> 128 word \<times> 128 word" where
  "multc3 = mulXc3 quad_arithmetic"
definition divsc3 :: "32 word \<Rightarrow> 32 word \<Rightarrow> 32 word \<Rightarrow> 32 word \<Rightarrow> 32 word \<times> 32 word" where
  "divsc3 = divXc3 single_arithmetic"
definition divdc3 :: "64 word \<Rightarrow> 64 word \<Rightarrow> 64 word \<Rightarrow> 64 word \<Rightarrow> 64 word \<times> 64 word" where
  "divdc3 = divXc3 double_arithmetic"
definition divtc3 :: "128 word \<Rightarrow> 128 word \<Rightarrow> 128 word \<Rightarrow> 128 word \<Rightarrow> 128 word \<times> 128 word" where
  "divtc3 = divXc3 quad_arithmetic"

section \<open>What annex G asks for\<close>

text \<open>A complex number is infinite when a part is, even if the other part is a NaN.\<close>

definition complex_infinite :: "'r::len fp_format \<Rightarrow> 'r word \<Rightarrow> 'r word \<Rightarrow> bool" where
  "complex_infinite F x y \<longleftrightarrow> is_inf F x \<or> is_inf F y"

definition complex_finite :: "'r::len fp_format \<Rightarrow> 'r word \<Rightarrow> 'r word \<Rightarrow> bool" where
  "complex_finite F x y \<longleftrightarrow> is_finite F x \<and> is_finite F y"

definition complex_zero :: "'r::len word \<Rightarrow> 'r word \<Rightarrow> bool" where
  "complex_zero x y \<longleftrightarrow> rep_abs x = 0 \<and> rep_abs y = 0"

definition complex_nonzero :: "'r::len fp_format \<Rightarrow> 'r word \<Rightarrow> 'r word \<Rightarrow> bool" where
  "complex_nonzero F x y \<longleftrightarrow> complex_infinite F x y \<or> complex_finite F x y \<and> \<not> complex_zero x y"

text \<open>The value is the textbook one, unless that consists of two NaNs and an operand or a partial product is
  infinite; and an infinity times a nonzero number or an infinity is an infinity.\<close>

definition complex_product :: "'r::len arithmetic \<Rightarrow> 'r word \<Rightarrow> 'r word \<Rightarrow> 'r word \<Rightarrow> 'r word \<Rightarrow> 'r word \<times> 'r word \<Rightarrow> bool" where
  "complex_product A a b c d z \<longleftrightarrow>
     (let F = precision A;
          ac = fmul A a c; bd = fmul A b d; ad = fmul A a d; bc = fmul A b c;
          re = fsub A ac bd; im = fadd A ad bc
      in (z = (re, im) \<or> is_nan F re \<and> is_nan F im \<and>
            (complex_infinite F a b \<or> complex_infinite F c d \<or> complex_infinite F ac bd \<or> complex_infinite F ad bc)) \<and>
         (complex_infinite F a b \<and> complex_nonzero F c d \<or> complex_nonzero F a b \<and> complex_infinite F c d \<longrightarrow>
            complex_infinite F (fst z) (snd z)))"

text \<open>An infinity divided by a finite number is an infinity, a nonzero number divided by zero is an infinity, and
  a finite number divided by an infinity is a zero, here as long as a sum of two parts does not overflow.\<close>

definition complex_quotient :: "'r::len arithmetic \<Rightarrow> 'r word \<Rightarrow> 'r word \<Rightarrow> 'r word \<Rightarrow> 'r word \<Rightarrow> 'r word \<times> 'r word \<Rightarrow> bool" where
  "complex_quotient A a b c d z \<longleftrightarrow>
     (let F = precision A in
      (complex_infinite F a b \<and> complex_finite F c d \<longrightarrow> complex_infinite F (fst z) (snd z)) \<and>
      (complex_finite F a b \<and> \<not> complex_zero a b \<and> complex_zero c d \<longrightarrow> complex_infinite F (fst z) (snd z)) \<and>
      (complex_finite F a b \<and> complex_infinite F c d \<and>
         (is_inf F c \<and> is_inf F d \<longrightarrow> magnitude F a + magnitude F b \<le> mag (significandBits F) (infty_rep F - 1)) \<longrightarrow>
       complex_zero (fst z) (snd z)))"

section \<open>Infinities, zeros and units\<close>

text \<open>The value of an operand that is 0 or 1 in absolute value, as an integer.\<close>

definition unit_value :: "'r::len word \<Rightarrow> int" where
  "unit_value x = (if rep_abs x = 0 then 0 else if rep_sign x then - 1 else 1)"

lemma one_part_nonzero:
  fixes s t x y :: int
  assumes "s \<noteq> 0 \<or> t \<noteq> 0" "x \<noteq> 0 \<or> y \<noteq> 0"
  shows "s * x - t * y \<noteq> 0 \<or> s * y + t * x \<noteq> 0" and "s * x + t * y \<noteq> 0 \<or> t * x - s * y \<noteq> 0"
proof -
  have "0 < s * s + t * t" "0 < x * x + y * y"
    using assms by (simp_all only: sum_squares_gt_zero_iff)
  then have pos: "0 < (s * s + t * t) * (x * x + y * y)" by simp
  have "(s * s + t * t) * (x * x + y * y) = (s * x - t * y) * (s * x - t * y) + (s * y + t * x) * (s * y + t * x)"
    "(s * s + t * t) * (x * x + y * y) = (s * x + t * y) * (s * x + t * y) + (t * x - s * y) * (t * x - s * y)"
    by (simp_all add: algebra_simps)
  with pos show "s * x - t * y \<noteq> 0 \<or> s * y + t * x \<noteq> 0" and "s * x + t * y \<noteq> 0 \<or> t * x - s * y \<noteq> 0"
    by (metis add_0 less_irrefl mult_zero_left)+
qed

context fp_base
begin

lemma finite_class: "is_finite F x \<Longrightarrow> \<not> is_nan F x \<and> \<not> is_inf F x"
  by (simp add: is_finite_def is_nan_def is_inf_def)

lemma not_finite: "\<not> is_finite F x \<longleftrightarrow> is_nan F x \<or> is_inf F x" "is_inf F x \<Longrightarrow> \<not> is_nan F x"
  by (auto simp: is_finite_def is_nan_def is_inf_def)

lemma box_infinity_fields:
  "is_finite F (box_infinity F x)" "zero_or_unit F (box_infinity F x)" "unit_value (box_infinity F x) \<noteq> 0 \<longleftrightarrow> is_inf F x"
proof -
  have "rep_abs (box_infinity F x) = (if is_inf F x then rep_abs (oneRep F) else 0)"
    by (simp add: box_infinity_def copysign_fields) (simp add: rep_abs_def)
  moreover have "rep_abs (oneRep F) \<noteq> 0"
    using unit_magnitude_pos magnitude_oneRep mag_pos_iff [of "significandBits F" "rep_abs (oneRep F)"] by (simp add: magnitude_def)
  ultimately show "is_finite F (box_infinity F x)" "zero_or_unit F (box_infinity F x)" "unit_value (box_infinity F x) \<noteq> 0 \<longleftrightarrow> is_inf F x"
    using oneRep_finite infty_rep_pos by (auto simp: is_finite_def zero_or_unit_def unit_value_def)
qed

lemma nan_to_zero_finite: "\<not> is_inf F x \<Longrightarrow> is_finite F (nan_to_zero F x)" and nan_to_zero_id: "\<not> is_nan F x \<Longrightarrow> nan_to_zero F x = x"
  and nan_to_zero_inf: "is_inf F (nan_to_zero F x) \<longleftrightarrow> is_inf F x"
proof -
  have "rep_abs (crt_copysign F 0 x) = 0" by (simp add: copysign_fields) (simp add: rep_abs_def)
  then show "\<not> is_inf F x \<Longrightarrow> is_finite F (nan_to_zero F x)" "\<not> is_nan F x \<Longrightarrow> nan_to_zero F x = x"
    "is_inf F (nan_to_zero F x) \<longleftrightarrow> is_inf F x"
    using classes [of x] infty_rep_pos by (auto simp: nan_to_zero_def is_finite_def is_inf_def is_nan_def)
qed

lemma val_nonzero: "is_finite F x \<Longrightarrow> val F x \<noteq> 0 \<longleftrightarrow> rep_abs x \<noteq> 0"
  by (simp add: val_zero_iff)

lemma rounds_to_nonzero: "rounds_to F num (Suc 0) neg r \<Longrightarrow> 0 < num \<Longrightarrow> 0 < rep_abs r"
proof -
  assume r: "rounds_to F num (Suc 0) neg r" and num: "0 < num"
  have "(1::nat) < 2 ^ significandBits F" using fraction_bits by (intro one_less_power) auto
  then have "mag (significandBits F) 1 = 1" by (rule mag_subnormal)
  then have "1 \<le> rep_abs r" using num infty_rep_pos by (intro rounds_to_ge [OF r]) simp_all
  then show ?thesis by simp
qed

lemma infinity_fields: "is_inf F (infRep F)" "\<not> rep_sign (infRep F)"
proof -
  have u: "unat (infRep F) < 2 ^ (LENGTH('r) - 1)" using infty_rep_less by (simp add: unat_infRep)
  then show "is_inf F (infRep F)" by (simp add: is_inf_def rep_abs_def unat_infRep)
  then show "\<not> rep_sign (infRep F)"
    using u rep_word_split [of "infRep F"] by (auto simp: is_inf_def unat_infRep split: if_splits)
qed

end

context arithmetic_laws
begin

lemma nonfinite_sum: "\<not> is_finite F x \<or> \<not> is_finite F y \<Longrightarrow> \<not> is_finite F (fadd A x y)"
  using add [of x y] by (auto simp: ieee_sum_def not_finite split: if_splits dest: finite_class)

lemma nonfinite_difference: "\<not> is_finite F x \<or> \<not> is_finite F y \<Longrightarrow> \<not> is_finite F (fsub A x y)"
  using sub [of x y] by (auto simp: ieee_difference_def not_finite is_inf_def split: if_splits)

lemma nonfinite_product: "\<not> is_finite F x \<or> \<not> is_finite F y \<Longrightarrow> \<not> is_finite F (fmul A x y)"
  using mul [of x y] by (auto simp: ieee_product_def not_finite split: if_splits)

lemma nonfinite_quotient: "\<not> is_finite F x \<Longrightarrow> \<not> is_finite F (fdiv A x y)"
  using div [of x y] by (auto simp: ieee_quotient_def not_finite split: if_splits)

lemma nan_quotient: "\<not> is_finite F x \<Longrightarrow> \<not> is_finite F y \<Longrightarrow> is_nan F (fdiv A x y)"
  using div [of x y] by (auto simp: ieee_quotient_def not_finite split: if_splits)

lemma infinite_product:
  "\<not> is_nan F y \<Longrightarrow> rep_abs y \<noteq> 0 \<Longrightarrow> is_inf F x \<Longrightarrow> is_inf F (fmul A x y)"
  using mul [of x y] infty_rep_pos by (auto simp: ieee_product_def not_finite is_inf_def is_nan_def split: if_splits)

lemma unit_product:
  assumes "zero_or_unit F x" "is_finite F x" "is_finite F y"
  shows "is_finite F (fmul A x y)" "val F (fmul A x y) = unit_value x * val F y"
    and "is_finite F (fmul A y x)" "val F (fmul A y x) = unit_value x * val F y"
proof -
  have main: "is_finite F r \<and> val F r = unit_value x * val F y"
    if "rounds_to F (magnitude F x * magnitude F y) (unit_magnitude F) (rep_sign x \<noteq> rep_sign y) r" for r
  proof (cases "rep_abs x = 0")
    case True
    then have "rounds_to F (magnitude F x * unit_magnitude F) (unit_magnitude F) (rep_sign x \<noteq> rep_sign y) r"
      using that by (simp add: magnitude_def)
    then have "rep_abs r = 0" using rounds_to_exact(1) [OF _ assms(2) unit_magnitude_pos] True by simp
    then show ?thesis using infty_rep_pos True by (simp add: is_finite_def val_def magnitude_def unit_value_def)
  next
    case False
    then have "magnitude F x = unit_magnitude F"
      using assms(1) magnitude_oneRep by (simp add: zero_or_unit_def magnitude_def)
    then have r: "rounds_to F (magnitude F y * unit_magnitude F) (unit_magnitude F) (rep_sign x \<noteq> rep_sign y) r"
      using that by (simp add: mult.commute)
    show ?thesis
      using rounds_to_exact [OF r assms(3) unit_magnitude_pos] assms(3) False
      by (auto simp: is_finite_def val_def magnitude_def unit_value_def)
  qed
  have "ieee_product F x y (fmul A x y)" "ieee_product F y x (fmul A y x)" using assms(1) by (simp_all add: mul)
  then have "rounds_to F (magnitude F x * magnitude F y) (unit_magnitude F) (rep_sign x \<noteq> rep_sign y) (fmul A x y)"
    "rounds_to F (magnitude F x * magnitude F y) (unit_magnitude F) (rep_sign x \<noteq> rep_sign y) (fmul A y x)"
    using assms(2,3) by (auto simp: ieee_product_def finite_class unit_magnitude_def mult.commute eq_commute [of "rep_sign y"])
  from main [OF this(1)] main [OF this(2)] show "is_finite F (fmul A x y)" "val F (fmul A x y) = unit_value x * val F y"
    and "is_finite F (fmul A y x)" "val F (fmul A y x) = unit_value x * val F y" by simp_all
qed

text \<open>Sums whose exact value is not zero, multiplied by infinity.\<close>

lemma infinite_sum: "is_finite F x \<Longrightarrow> is_finite F y \<Longrightarrow> val F x + val F y \<noteq> 0 \<Longrightarrow> is_inf F (fmul A (infRep F) (fadd A x y))"
  using add [of x y] by (intro infinite_product infinity_fields)
    (auto simp: ieee_sum_def finite_class dest: rounds_to_nonzero rounds_to_not_nan)

lemma infinite_difference: "is_finite F x \<Longrightarrow> is_finite F y \<Longrightarrow> val F x - val F y \<noteq> 0 \<Longrightarrow> is_inf F (fmul A (infRep F) (fsub A x y))"
  using sub [of x y] by (intro infinite_product infinity_fields)
    (auto simp: ieee_difference_def finite_class dest: rounds_to_nonzero rounds_to_not_nan)

end

section \<open>Multiplication\<close>

context arithmetic_laws
begin

lemma complex_zero_val: "complex_finite F x y \<Longrightarrow> \<not> complex_zero x y \<longleftrightarrow> val F x \<noteq> 0 \<or> val F y \<noteq> 0"
  by (auto simp: complex_finite_def complex_zero_def val_nonzero)

text \<open>The recalculation with one operand boxed, on either side.\<close>

lemma boxed_product:
  assumes u: "is_inf F a \<or> is_inf F b" and x: "complex_finite F x y" "\<not> complex_zero x y"
  shows "complex_infinite F
      (fmul A (infRep F) (fsub A (fmul A (box_infinity F a) x) (fmul A (box_infinity F b) y)))
      (fmul A (infRep F) (fadd A (fmul A (box_infinity F a) y) (fmul A (box_infinity F b) x)))"
    and "complex_infinite F
      (fmul A (infRep F) (fsub A (fmul A x (box_infinity F a)) (fmul A y (box_infinity F b))))
      (fmul A (infRep F) (fadd A (fmul A x (box_infinity F b)) (fmul A y (box_infinity F a))))"
    and "complex_infinite F
      (fmul A (infRep F) (fadd A (fmul A (box_infinity F a) x) (fmul A (box_infinity F b) y)))
      (fmul A (infRep F) (fsub A (fmul A (box_infinity F b) x) (fmul A (box_infinity F a) y)))"
proof -
  let ?s = "unit_value (box_infinity F a)" and ?t = "unit_value (box_infinity F b)"
  have f: "is_finite F x" "is_finite F y" using x(1) by (simp_all add: complex_finite_def)
  note unit = unit_product [OF box_infinity_fields(2,1)]
  note facts = f unit(1,3) [OF f(1)] unit(1,3) [OF f(2)] unit(2,4) [OF f(1)] unit(2,4) [OF f(2)]
  have st: "?s \<noteq> 0 \<or> ?t \<noteq> 0" "val F x \<noteq> 0 \<or> val F y \<noteq> 0"
    using u x complex_zero_val by (simp_all add: box_infinity_fields(3))
  note part = one_part_nonzero [OF st]
  show "complex_infinite F
      (fmul A (infRep F) (fsub A (fmul A (box_infinity F a) x) (fmul A (box_infinity F b) y)))
      (fmul A (infRep F) (fadd A (fmul A (box_infinity F a) y) (fmul A (box_infinity F b) x)))"
    unfolding complex_infinite_def
    using part(1) infinite_difference [of "fmul A (box_infinity F a) x" "fmul A (box_infinity F b) y"]
      infinite_sum [of "fmul A (box_infinity F a) y" "fmul A (box_infinity F b) x"] by (auto simp only: facts)
  show "complex_infinite F
      (fmul A (infRep F) (fsub A (fmul A x (box_infinity F a)) (fmul A y (box_infinity F b))))
      (fmul A (infRep F) (fadd A (fmul A x (box_infinity F b)) (fmul A y (box_infinity F a))))"
    unfolding complex_infinite_def
    using part(1) infinite_difference [of "fmul A x (box_infinity F a)" "fmul A y (box_infinity F b)"]
      infinite_sum [of "fmul A x (box_infinity F b)" "fmul A y (box_infinity F a)"] by (auto simp only: facts add.commute)
  show "complex_infinite F
      (fmul A (infRep F) (fadd A (fmul A (box_infinity F a) x) (fmul A (box_infinity F b) y)))
      (fmul A (infRep F) (fsub A (fmul A (box_infinity F b) x) (fmul A (box_infinity F a) y)))"
    unfolding complex_infinite_def
    using part(2) infinite_sum [of "fmul A (box_infinity F a) x" "fmul A (box_infinity F b) y"]
      infinite_difference [of "fmul A (box_infinity F b) x" "fmul A (box_infinity F a) y"] by (auto simp only: facts)
qed

lemma finite_not_infinite: "complex_finite F x y \<Longrightarrow> \<not> complex_infinite F x y"
  by (simp add: complex_finite_def complex_infinite_def finite_class)

lemma box_zero: "\<not> complex_zero (box_infinity F c) (box_infinity F d) \<longleftrightarrow> is_inf F c \<or> is_inf F d"
  unfolding box_infinity_fields(3) [symmetric] by (auto simp: complex_zero_def unit_value_def)

lemma mulXc3_correct: "complex_product A a b c d (mulXc3 A a b c d)"
proof -
  define re im where "re = fsub A (fmul A a c) (fmul A b d)" and "im = fadd A (fmul A a d) (fmul A b c)"
  define both where "both \<longleftrightarrow> is_nan F re \<and> is_nan F im"
  have not_finite_parts: "\<not> is_finite F re \<and> \<not> is_finite F im" if "complex_infinite F a b \<or> complex_infinite F c d"
    using that unfolding re_def im_def complex_infinite_def
    by (auto intro!: nonfinite_sum nonfinite_difference nonfinite_product dest: finite_class)
  have inf: "complex_infinite F re im" if "complex_infinite F a b \<or> complex_infinite F c d" "\<not> both"
    using not_finite_parts [OF that(1)] that(2) by (auto simp: both_def complex_infinite_def not_finite)
  have textbook: "mulXc3 A a b c d = (re, im)"
    if "\<not> both \<or> \<not> complex_infinite F a b \<and> \<not> complex_infinite F c d \<and>
      \<not> complex_infinite F (fmul A a c) (fmul A b d) \<and> \<not> complex_infinite F (fmul A a d) (fmul A b c)"
    using that by (auto simp: mulXc3_def Let_def format complex_infinite_def both_def re_def im_def)
  have recover: "complex_infinite F (fst (mulXc3 A a b c d)) (snd (mulXc3 A a b c d))"
    if infinite: "complex_infinite F a b \<and> complex_nonzero F c d \<or> complex_nonzero F a b \<and> complex_infinite F c d" and nans: both
  proof -
    have nan: "is_nan F (fsub A (fmul A a c) (fmul A b d)) \<and> is_nan F (fadd A (fmul A a d) (fmul A b c)) \<longleftrightarrow> True"
      using nans by (simp add: both_def re_def im_def)
    note run = mulXc3_def [of A a b c d, unfolded Let_def format nan if_True]
    consider (left) "complex_infinite F a b" "\<not> complex_infinite F c d" "complex_finite F c d" "\<not> complex_zero c d"
      | (right) "\<not> complex_infinite F a b" "complex_infinite F c d" "complex_finite F a b" "\<not> complex_zero a b"
      | (both) "complex_infinite F a b" "complex_infinite F c d"
      using infinite finite_not_infinite [of a b] finite_not_infinite [of c d] by (auto simp: complex_nonzero_def)
    then show ?thesis
    proof cases
      case left
      then have "nan_to_zero F c = c" "nan_to_zero F d = d" by (simp_all add: complex_finite_def nan_to_zero_id finite_class)
      then have "mulXc3 A a b c d =
          (fmul A (infRep F) (fsub A (fmul A (box_infinity F a) c) (fmul A (box_infinity F b) d)),
           fmul A (infRep F) (fadd A (fmul A (box_infinity F a) d) (fmul A (box_infinity F b) c)))"
        unfolding run using left by (simp add: complex_infinite_def)
      then show ?thesis using boxed_product(1) [of a b c d] left by (simp add: complex_infinite_def)
    next
      case right
      then have "nan_to_zero F a = a" "nan_to_zero F b = b" by (simp_all add: complex_finite_def nan_to_zero_id finite_class)
      then have "mulXc3 A a b c d =
          (fmul A (infRep F) (fsub A (fmul A a (box_infinity F c)) (fmul A b (box_infinity F d))),
           fmul A (infRep F) (fadd A (fmul A a (box_infinity F d)) (fmul A b (box_infinity F c))))"
        unfolding run using right by (simp add: complex_infinite_def)
      then show ?thesis using boxed_product(2) [of c d a b] right by (simp add: complex_infinite_def)
    next
      case both
      let ?a = "box_infinity F a" and ?b = "box_infinity F b"
        and ?c = "box_infinity F (nan_to_zero F c)" and ?d = "box_infinity F (nan_to_zero F d)"
      have "nan_to_zero F ?a = ?a" "nan_to_zero F ?b = ?b" by (simp_all add: nan_to_zero_id finite_class box_infinity_fields)
      then have "mulXc3 A a b c d =
          (fmul A (infRep F) (fsub A (fmul A ?a ?c) (fmul A ?b ?d)), fmul A (infRep F) (fadd A (fmul A ?a ?d) (fmul A ?b ?c)))"
        unfolding run using both by (simp add: complex_infinite_def nan_to_zero_inf)
      moreover have "complex_finite F ?c ?d" by (simp add: complex_finite_def box_infinity_fields)
      moreover have "\<not> complex_zero ?c ?d" using both by (simp only: box_zero) (simp add: complex_infinite_def nan_to_zero_inf)
      ultimately show ?thesis using boxed_product(1) [of a b ?c ?d] both by (simp add: complex_infinite_def)
    qed
  qed
  show ?thesis
    using textbook recover inf unfolding complex_product_def Let_def format re_def [symmetric] im_def [symmetric] both_def [symmetric]
    by (cases both) (auto simp: both_def)
qed

end

section \<open>Division\<close>

text \<open>A divisor that is finite and not zero is scaled to parts of at most 2, one of them at least 1.\<close>

context fp_base
begin

lemma unit_exponent: "int (nat (exponentBias F) + significandBits F - 1) = exponentBias F + int (significandBits F) - 1"
  using exponentBias_bounds fraction_bits by simp

lemma scalbn_range:
  fixes x :: "'r word"
  assumes x: "is_finite F x" "magnitude F x < 2 * 2 ^ k" and n: "sint n = exponentBias F + int (significandBits F) - 1 - int k"
  shows "is_finite F (crt_scalbn F x n)" and "2 ^ k \<le> magnitude F x \<Longrightarrow> rep_abs (crt_scalbn F x n) \<noteq> 0"
proof -
  define u where "u = nat (exponentBias F) + significandBits F - 1"
  have n': "sint n = int u - int k" unfolding u_def unit_exponent n by simp
  have exp: "k + nat (sint n) = u + nat (- sint n)" unfolding n' by linarith
  have scale: "2 ^ k * 2 ^ nat (sint n) = 2 ^ u * (2::nat) ^ nat (- sint n)" by (simp add: exp flip: power_add)
  have bias: "0 < nat (exponentBias F)" using maxExponent_bias maxExponent_bounds by simp
  define two where "two = (nat (exponentBias F) + 1) * 2 ^ significandBits F"
  have "mag (significandBits F) two = 2 * 2 ^ u"
    using mag_normal [of 0 "significandBits F" "nat (exponentBias F) + 1"] bias
    by (simp add: two_def u_def flip: power_add power_Suc)
  moreover have "magnitude F x * 2 ^ nat (sint n) \<le> 2 * 2 ^ k * 2 ^ nat (sint n)" using x(2) by simp
  ultimately have "magnitude F x * 2 ^ nat (sint n) \<le> mag (significandBits F) two * 2 ^ nat (- sint n)"
    by (simp add: scale mult.assoc)
  then have "rep_abs (crt_scalbn F x n) \<le> two" by (intro rounds_to_le [OF scalbn_rounds [OF x(1)]]) simp_all
  also have "two < infty_rep F"
  proof -
    have "int (nat (exponentBias F) + 1) < maxExponent F" using maxExponent_bias maxExponent_bounds by simp
    also have "maxExponent F = int (2 ^ exponentBits F - 1)" by (simp add: maxExponent_def of_nat_diff)
    finally have "nat (exponentBias F) + 1 < 2 ^ exponentBits F - 1" by (simp only: of_nat_less_iff)
    then show ?thesis unfolding two_def infty_rep_def by (intro mult_less_mono1) simp_all
  qed
  finally show "is_finite F (crt_scalbn F x n)" by (simp add: is_finite_def)
  show "rep_abs (crt_scalbn F x n) \<noteq> 0" if "2 ^ k \<le> magnitude F x"
  proof -
    have "2 ^ k * 2 ^ nat (sint n) \<le> magnitude F x * 2 ^ nat (sint n)" using that by simp
    moreover have "mag (significandBits F) (rep_abs (oneRep F)) = 2 ^ u"
      using magnitude_oneRep by (simp add: magnitude_def unit_magnitude_def u_def)
    ultimately have "mag (significandBits F) (rep_abs (oneRep F)) * 2 ^ nat (- sint n) \<le> magnitude F x * 2 ^ nat (sint n)"
      by (simp add: scale)
    then have "rep_abs (oneRep F) \<le> rep_abs (crt_scalbn F x n)"
      using oneRep_finite by (intro rounds_to_ge [OF scalbn_rounds [OF x(1)]]) (simp_all add: is_finite_def)
    moreover have "0 < rep_abs (oneRep F)" using bias by (simp add: oneRep_value(1))
    ultimately show ?thesis by linarith
  qed
qed

end

context arithmetic_laws
begin

lemma divXc3_run:
  assumes "logbw = logbX A (crt_fmax F (crt_fabs F c) (crt_fabs F d))"
    and "(if is_finite F logbw then
            (to_int A logbw, crt_scalbn F c (- to_int A logbw), crt_scalbn F d (- to_int A logbw)) else (0, c, d)) = (n, c', d')"
    and "denom = fadd A (fmul A c' c') (fmul A d' d')"
    and "re = crt_scalbn F (fdiv A (fadd A (fmul A a c') (fmul A b d')) denom) (- n)"
    and "im = crt_scalbn F (fdiv A (fsub A (fmul A b c') (fmul A a d')) denom) (- n)"
  shows "divXc3 A a b c d =
    (if is_nan F re \<and> is_nan F im then
       if c_equal F denom 0 \<and> (\<not> is_nan F a \<or> \<not> is_nan F b) then
         (fmul A (crt_copysign F (infRep F) c') a, fmul A (crt_copysign F (infRep F) c') b)
       else if (is_inf F a \<or> is_inf F b) \<and> is_finite F c' \<and> is_finite F d' then
         (fmul A (infRep F) (fadd A (fmul A (box_infinity F a) c') (fmul A (box_infinity F b) d')),
          fmul A (infRep F) (fsub A (fmul A (box_infinity F b) c') (fmul A (box_infinity F a) d')))
       else if is_inf F logbw \<and> c_less F 0 logbw \<and> is_finite F a \<and> is_finite F b then
         (fmul A 0 (fadd A (fmul A a (box_infinity F c')) (fmul A b (box_infinity F d'))),
          fmul A 0 (fsub A (fmul A b (box_infinity F c')) (fmul A a (box_infinity F d'))))
       else (re, im)
     else (re, im))"
  using assms(2) unfolding divXc3_def Let_def format assms(1) [symmetric] assms(3-5) by (auto split: if_splits)

lemma scaled_divisor:
  assumes fin: "complex_finite F c d" and nz: "\<not> complex_zero c d"
  obtains n where "is_finite F (logbX A (crt_fmax F (crt_fabs F c) (crt_fabs F d)))"
    "to_int A (logbX A (crt_fmax F (crt_fabs F c) (crt_fabs F d))) = n"
    "complex_finite F (crt_scalbn F c (- n)) (crt_scalbn F d (- n))" "\<not> complex_zero (crt_scalbn F c (- n)) (crt_scalbn F d (- n))"
proof -
  define m where "m = crt_fmax F (crt_fabs F c) (crt_fabs F d)"
  have cd: "is_finite F c" "is_finite F d" using fin by (simp_all add: complex_finite_def)
  then have m: "rep_abs m = max (rep_abs c) (rep_abs d)"
    using fmax_number(1) [of c d] finite_class by (simp add: m_def)
  then have "is_finite F m" "rep_abs m \<noteq> 0" using cd nz by (auto simp: is_finite_def complex_zero_def)
  then obtain k where k: "logbX A m = from_int A (word_of_int (int k - (exponentBias F + int (significandBits F) - 1)))"
    "2 ^ k \<le> magnitude F m" "magnitude F m < 2 * 2 ^ k" "\<bar>int k - (exponentBias F + int (significandBits F) - 1)\<bar> < 2 ^ 15"
    by (rule logbX_finite)
  define e n where "e = int k - (exponentBias F + int (significandBits F) - 1)" and "n = (word_of_int e :: si_int)"
  have n: "is_finite F (logbX A m)" "to_int A (logbX A m) = n"
    using int_exact [OF k(4)] by (simp_all only: k(1) n_def e_def)
  have "sint (- n) = - e"
    using sint_small [of "- e"] k(4) by (simp add: n_def e_def [symmetric])
  then have s: "sint (- n) = exponentBias F + int (significandBits F) - 1 - int k" by (simp add: e_def)
  have mono: "magnitude F x \<le> magnitude F y" if "rep_abs x \<le> rep_abs y" for x y :: "'r word"
    using that by (simp add: magnitude_def mag_mono)
  have "magnitude F c < 2 * 2 ^ k" "magnitude F d < 2 * 2 ^ k" using mono [of c m] mono [of d m] k(3) m by simp_all
  note c = scalbn_range [OF cd(1) this(1) s] and d = scalbn_range [OF cd(2) this(2) s]
  have "2 ^ k \<le> magnitude F c \<or> 2 ^ k \<le> magnitude F d"
    using k(2) m by (cases "rep_abs c \<le> rep_abs d") (auto simp: magnitude_def max_def)
  then have "\<not> complex_zero (crt_scalbn F c (- n)) (crt_scalbn F d (- n))" using c(2) d(2) by (auto simp: complex_zero_def)
  then show thesis using that n c(1) d(1) by (simp add: m_def complex_finite_def)
qed

lemma zero_value: "rep_abs x = 0 \<Longrightarrow> is_finite F x \<and> val F x = 0" for x :: "'r word"
  using infty_rep_pos by (simp add: is_finite_def val_def magnitude_def)

lemma zero_sum:
  assumes "rep_abs x = 0" "rep_abs y = 0"
  shows "rep_abs (fadd A x y) = 0" "rep_abs (fsub A x y) = 0"
  using add [of x y] sub [of x y] zero_value [OF assms(1)] zero_value [OF assms(2)] finite_class
  by (simp_all add: ieee_sum_def ieee_difference_def)

lemma zero_product:
  assumes "is_finite F x" "rep_abs y = 0"
  shows "rep_abs (fmul A x y) = 0" "rep_abs (fmul A y x) = 0"
proof -
  have "zero_or_unit F y" "unit_value y = 0" using assms(2) by (simp_all add: zero_or_unit_def unit_value_def)
  then show "rep_abs (fmul A x y) = 0" "rep_abs (fmul A y x) = 0"
    using unit_product [of y x] zero_value [OF assms(2)] assms(1) by (simp_all add: val_zero_iff)
qed

lemma zero_divisor:
  assumes "complex_zero c d"
  shows "\<not> is_finite F (logbX A (crt_fmax F (crt_fabs F c) (crt_fabs F d)))"
    and "rep_abs (fadd A (fmul A c c) (fmul A d d)) = 0" "c_equal F (fadd A (fmul A c c) (fmul A d d)) 0"
proof -
  have cd: "rep_abs c = 0" "rep_abs d = 0" using assms by (simp_all add: complex_zero_def)
  then have "rep_abs (crt_fmax F (crt_fabs F c) (crt_fabs F d)) = 0"
    using fmax_number(1) [of c d] zero_value [of c] zero_value [of d] finite_class by simp
  then show "\<not> is_finite F (logbX A (crt_fmax F (crt_fabs F c) (crt_fabs F d)))"
    using logbX_special(3) finite_class by blast
  show "rep_abs (fadd A (fmul A c c) (fmul A d d)) = 0"
    using cd zero_value by (intro zero_sum zero_product) simp_all
  moreover have "rep_abs (0 :: 'r word) = 0" by (simp add: rep_abs_def)
  ultimately show "c_equal F (fadd A (fmul A c c) (fmul A d d)) 0"
    using zero_value finite_class by (simp add: c_equal_def)
qed

text \<open>A signed infinity times one part of a nonzero number.\<close>

lemma signed_infinity: "is_inf F (crt_copysign F (infRep F) x)" for x :: "'r word"
  using infinity_fields(1) by (simp add: is_inf_def copysign_fields)

lemma infinite_part:
  "is_inf F a \<Longrightarrow> is_inf F (fmul A (crt_copysign F (infRep F) x) a)"
  "is_finite F a \<Longrightarrow> rep_abs a \<noteq> 0 \<Longrightarrow> is_inf F (fmul A (crt_copysign F (infRep F) x) a)"
  using infinite_product [of a, OF _ _ signed_infinity] infty_rep_pos finite_class [of a]
  by (auto simp: is_inf_def is_nan_def)

lemma divXc3_infinite:
  assumes inf: "complex_infinite F a b" and fin: "complex_finite F c d"
  shows "complex_infinite F (fst (divXc3 A a b c d)) (snd (divXc3 A a b c d))"
proof -
  define logbw where "logbw = logbX A (crt_fmax F (crt_fabs F c) (crt_fabs F d))"
  obtain n c' d' where s: "(if is_finite F logbw then
      (to_int A logbw, crt_scalbn F c (- to_int A logbw), crt_scalbn F d (- to_int A logbw)) else (0, c, d)) = (n, c', d')"
    by (cases "is_finite F logbw") auto
  define denom re im where "denom = fadd A (fmul A c' c') (fmul A d' d')"
    and "re = crt_scalbn F (fdiv A (fadd A (fmul A a c') (fmul A b d')) denom) (- n)"
    and "im = crt_scalbn F (fdiv A (fsub A (fmul A b c') (fmul A a d')) denom) (- n)"
  note run = divXc3_run [OF logbw_def s denom_def re_def im_def]
  have ab: "\<not> is_finite F a \<or> \<not> is_finite F b" "\<not> is_nan F a \<or> \<not> is_nan F b"
    using inf by (auto simp: complex_infinite_def not_finite)
  then have "\<not> is_finite F (fadd A (fmul A a c') (fmul A b d'))" "\<not> is_finite F (fsub A (fmul A b c') (fmul A a d'))"
    using nonfinite_sum nonfinite_difference nonfinite_product by blast+
  then have "\<not> is_finite F re" "\<not> is_finite F im"
    unfolding re_def im_def by (simp_all add: nonfinite_quotient scalbn_not_finite)
  then have parts: "complex_infinite F re im" if "\<not> (is_nan F re \<and> is_nan F im)"
    using that by (auto simp: complex_infinite_def not_finite)
  have cases: "c_equal F denom 0 \<or> complex_finite F c' d' \<and> \<not> complex_zero c' d'"
  proof (cases "complex_zero c d")
    case True
    then have "c' = c" "d' = d" using s zero_divisor(1) by (auto simp: logbw_def)
    then show ?thesis using zero_divisor(3) [OF True] by (simp add: denom_def)
  next
    case False
    then obtain m where m: "is_finite F logbw" "to_int A logbw = m"
      "complex_finite F (crt_scalbn F c (- m)) (crt_scalbn F d (- m))" "\<not> complex_zero (crt_scalbn F c (- m)) (crt_scalbn F d (- m))"
      using scaled_divisor [OF fin False, folded logbw_def] by metis
    then have "c' = crt_scalbn F c (- m)" "d' = crt_scalbn F d (- m)" using s by auto
    then show ?thesis using m by blast
  qed
  consider "\<not> (is_nan F re \<and> is_nan F im)" | "is_nan F re \<and> is_nan F im" "c_equal F denom 0"
    | "is_nan F re \<and> is_nan F im" "\<not> c_equal F denom 0" "complex_finite F c' d'" "\<not> complex_zero c' d'"
    using cases by blast
  then show ?thesis
  proof cases
    case 1
    then have "(is_nan F re \<and> is_nan F im) = False" by simp
    then show ?thesis unfolding run using parts by (simp only: if_False fst_conv snd_conv simp_thms)
  next
    case 2
    then have "divXc3 A a b c d = (fmul A (crt_copysign F (infRep F) c') a, fmul A (crt_copysign F (infRep F) c') b)"
      unfolding run using ab(2) by (simp only: simp_thms if_True)
    then show ?thesis using inf infinite_part(1) by (auto simp: complex_infinite_def)
  next
    case 3
    have ab': "is_inf F a \<or> is_inf F b" using inf by (simp add: complex_infinite_def)
    from 3 have "divXc3 A a b c d =
        (fmul A (infRep F) (fadd A (fmul A (box_infinity F a) c') (fmul A (box_infinity F b) d')),
         fmul A (infRep F) (fsub A (fmul A (box_infinity F b) c') (fmul A (box_infinity F a) d')))"
      unfolding run using ab' by (simp only: complex_finite_def simp_thms if_True if_False)
    then show ?thesis using boxed_product(3) [OF ab' 3(3,4)] by simp
  qed
qed

lemma divXc3_by_zero:
  assumes ab: "complex_finite F a b" "\<not> complex_zero a b" and cd: "complex_zero c d"
  shows "complex_infinite F (fst (divXc3 A a b c d)) (snd (divXc3 A a b c d))"
proof -
  define logbw where "logbw = logbX A (crt_fmax F (crt_fabs F c) (crt_fabs F d))"
  have s: "(if is_finite F logbw then
      (to_int A logbw, crt_scalbn F c (- to_int A logbw), crt_scalbn F d (- to_int A logbw)) else (0, c, d)) = (0, c, d)"
    using zero_divisor(1) [OF cd] by (simp add: logbw_def)
  define denom re im where "denom = fadd A (fmul A c c) (fmul A d d)"
    and "re = crt_scalbn F (fdiv A (fadd A (fmul A a c) (fmul A b d)) denom) (- 0)"
    and "im = crt_scalbn F (fdiv A (fsub A (fmul A b c) (fmul A a d)) denom) (- 0)"
  note run = divXc3_run [OF logbw_def s denom_def re_def im_def]
  have zero: "c_equal F denom 0" and denom: "rep_abs denom = 0" using zero_divisor(2,3) [OF cd] by (simp_all add: denom_def)
  have fin: "is_finite F a" "is_finite F b" using ab(1) by (simp_all add: complex_finite_def)
  have num: "rep_abs (fadd A (fmul A a c) (fmul A b d)) = 0" "rep_abs (fsub A (fmul A b c) (fmul A a d)) = 0"
    using fin cd by (simp_all add: zero_sum zero_product complex_zero_def)
  have "is_nan F (fdiv A x denom)" if "rep_abs x = 0" for x
    using div [of x denom] that denom zero_value finite_class by (simp add: ieee_quotient_def)
  then have "is_nan F re" "is_nan F im"
    unfolding re_def im_def using num by (simp_all add: scalbn_not_finite not_finite)
  then show ?thesis
    unfolding run using zero fin finite_class ab(2) infinite_part(2) by (auto simp: complex_infinite_def complex_zero_def)
qed

text \<open>Two finite values whose sum stays below infinity.\<close>

lemma bounded_sum:
  assumes fin: "is_finite F x" "is_finite F y" and bound: "\<bar>val F x\<bar> + \<bar>val F y\<bar> \<le> int (mag (significandBits F) (infty_rep F - 1))"
  shows "is_finite F (fadd A x y)" "is_finite F (fsub A x y)"
proof -
  have below: "is_finite F r" if "rounds_to F (nat \<bar>v\<bar>) 1 neg r" "\<bar>v\<bar> \<le> \<bar>val F x\<bar> + \<bar>val F y\<bar>" for r :: "'r word" and v neg
  proof -
    have "int (nat \<bar>v\<bar>) \<le> int (mag (significandBits F) (infty_rep F - 1))" using that(2) bound by simp
    then have "nat \<bar>v\<bar> \<le> mag (significandBits F) (infty_rep F - 1) * 1" by (simp only: of_nat_le_iff mult_1_right)
    from rounds_to_le [OF that(1) this] show ?thesis using infty_rep_pos by (simp add: is_finite_def)
  qed
  show "is_finite F (fadd A x y)"
    using add [of x y] fin finite_class zero_value below [of "val F x + val F y"] abs_triangle_ineq [of "val F x" "val F y"]
    by (auto simp: ieee_sum_def split: if_splits)
  show "is_finite F (fsub A x y)"
    using sub [of x y] fin finite_class zero_value below [of "val F x - val F y"] abs_triangle_ineq4 [of "val F x" "val F y"]
    by (auto simp: ieee_difference_def split: if_splits)
qed

lemma divXc3_boxed:
  assumes ab: "complex_finite F a b" and cd: "complex_infinite F c d"
  shows "divXc3 A a b c d =
    (fmul A 0 (fadd A (fmul A a (box_infinity F c)) (fmul A b (box_infinity F d))),
     fmul A 0 (fsub A (fmul A b (box_infinity F c)) (fmul A a (box_infinity F d))))"
proof -
  define logbw where "logbw = logbX A (crt_fmax F (crt_fabs F c) (crt_fabs F d))"
  have inf: "is_inf F logbw" "\<not> rep_sign logbw"
    using logbX_special(2) fmax_infinite(1) cd by (auto simp: logbw_def complex_infinite_def)
  then have s: "(if is_finite F logbw then
      (to_int A logbw, crt_scalbn F c (- to_int A logbw), crt_scalbn F d (- to_int A logbw)) else (0, c, d)) = (0, c, d)"
    using finite_class by auto
  define denom re im where "denom = fadd A (fmul A c c) (fmul A d d)"
    and "re = crt_scalbn F (fdiv A (fadd A (fmul A a c) (fmul A b d)) denom) (- 0)"
    and "im = crt_scalbn F (fdiv A (fsub A (fmul A b c) (fmul A a d)) denom) (- 0)"
  note run = divXc3_run [OF logbw_def s denom_def re_def im_def]
  have nf: "\<not> is_finite F c \<or> \<not> is_finite F d" using cd finite_class by (auto simp: complex_infinite_def)
  then have "\<not> is_finite F denom" "\<not> is_finite F (fadd A (fmul A a c) (fmul A b d))" "\<not> is_finite F (fsub A (fmul A b c) (fmul A a d))"
    unfolding denom_def using nonfinite_sum nonfinite_difference nonfinite_product by blast+
  note nonfinite = this
  have fin: "is_finite F a" "is_finite F b" using ab by (simp_all add: complex_finite_def)
  have "is_nan F re" "is_nan F im"
    unfolding re_def im_def using nonfinite by (simp_all add: nan_quotient scalbn_not_finite not_finite)
  moreover have "\<not> c_equal F denom 0"
    using nonfinite(1) infty_rep_pos by (auto simp: c_equal_def val_def magnitude_def not_finite is_inf_def rep_abs_def [of 0])
  moreover have "c_less F 0 logbw"
    using inf infty_rep_pos by (auto simp: c_less_def is_nan_def is_inf_def val_def magnitude_def rep_abs_def [of 0] mag_pos_iff)
  ultimately show ?thesis unfolding run using inf(1) fin finite_class by simp
qed

lemma divXc3_by_infinity:
  assumes ab: "complex_finite F a b" and cd: "complex_infinite F c d"
    and bound: "is_inf F c \<and> is_inf F d \<longrightarrow> magnitude F a + magnitude F b \<le> mag (significandBits F) (infty_rep F - 1)"
  shows "complex_zero (fst (divXc3 A a b c d)) (snd (divXc3 A a b c d))"
proof -
  have fin: "is_finite F a" "is_finite F b" using ab by (simp_all add: complex_finite_def)
  note ca = unit_product [OF box_infinity_fields(2,1) fin(1)] and cb = unit_product [OF box_infinity_fields(2,1) fin(2)]
  have small: "magnitude F x \<le> mag (significandBits F) (infty_rep F - 1)" if "is_finite F x" for x
    using that by (simp add: magnitude_def is_finite_def mag_mono)
  have unit: "\<bar>unit_value (box_infinity F x)\<bar> = (if is_inf F x then 1 else 0)" for x
    using box_infinity_fields(3) [of x] by (simp add: unit_value_def split: if_splits)
  have "\<bar>val F (fmul A a (box_infinity F c))\<bar> + \<bar>val F (fmul A b (box_infinity F d))\<bar> \<le> int (mag (significandBits F) (infty_rep F - 1))"
    "\<bar>val F (fmul A b (box_infinity F c))\<bar> + \<bar>val F (fmul A a (box_infinity F d))\<bar> \<le> int (mag (significandBits F) (infty_rep F - 1))"
    using bound [folded of_nat_le_iff [where 'a = int]] small [OF fin(1)] small [OF fin(2)]
    by (auto simp: ca cb abs_mult unit abs_val)
  then have "is_finite F (fadd A (fmul A a (box_infinity F c)) (fmul A b (box_infinity F d)))"
    "is_finite F (fsub A (fmul A b (box_infinity F c)) (fmul A a (box_infinity F d)))"
    by (simp_all add: bounded_sum ca cb)
  then show ?thesis unfolding divXc3_boxed [OF ab cd] complex_zero_def by (simp add: zero_product rep_abs_def [of 0])
qed

lemma divXc3_correct: "complex_quotient A a b c d (divXc3 A a b c d)"
  unfolding complex_quotient_def Let_def format
  by (intro conjI impI) (simp_all add: divXc3_infinite divXc3_by_zero divXc3_by_infinity)

end

section \<open>Properties\<close>

text \<open>C17. Complex multiplication in the three precisions returns the textbook product whenever that does not consist
  of two NaNs; an infinity (one infinite part is enough, the other may be a NaN) times a nonzero number or an
  infinity is an infinity, on either side.\<close>

theorem complex_multiplication_correct:
  "complex_product single_arithmetic a b c d (mulsc3 a b c d) \<and>
   complex_product double_arithmetic e f g h (muldc3 e f g h) \<and>
   complex_product quad_arithmetic i j k l (multc3 i j k l)"
  unfolding mulsc3_def muldc3_def multc3_def
  using single.mulXc3_correct double.mulXc3_correct quad.mulXc3_correct by blast

text \<open>C18. Complex division in the three precisions: an infinity divided by a finite number is an infinity, a nonzero
  number divided by zero is an infinity, and a finite number divided by an infinity is a zero, provided that the
  parts of the dividend do not overflow when added, which matters only if both parts of the divisor are infinite.\<close>

theorem complex_division_correct:
  "complex_quotient single_arithmetic a b c d (divsc3 a b c d) \<and>
   complex_quotient double_arithmetic e f g h (divdc3 e f g h) \<and>
   complex_quotient quad_arithmetic i j k l (divtc3 i j k l)"
  unfolding divsc3_def divdc3_def divtc3_def
  using single.divXc3_correct double.divXc3_correct quad.divXc3_correct by blast

text \<open>Without the proviso the quotient need not be a zero: the largest number in both parts divided by an infinity in
  both parts has a NaN in its real part, because the sum overflows before it is multiplied by 0.\<close>

lemma complex_division_overflow:
  "is_nan single_precision (fst (divsc3 0x7f7fffff 0x7f7fffff 0x7f800000 0x7f800000))"
proof -
  have "complex_finite single_precision 0x7f7fffff 0x7f7fffff" "complex_infinite single_precision 0x7f800000 0x7f800000"
    by (simp_all add: complex_finite_def complex_infinite_def is_finite_def is_inf_def infty_rep_def rep_abs_def)
  from single.divXc3_boxed [OF this]
  have "fst (divsc3 0x7f7fffff 0x7f7fffff 0x7f800000 0x7f800000) =
    mulsf3 0 (addsf3 (mulsf3 0x7f7fffff (box_infinity single_precision 0x7f800000)) (mulsf3 0x7f7fffff (box_infinity single_precision 0x7f800000)))"
    by (simp add: divsc3_def single_arithmetic_def)
  also have "box_infinity single_precision 0x7f800000 = 0x3f800000"
  proof -
    have "is_inf single_precision 0x7f800000" by (simp add: is_inf_def infty_rep_def rep_abs_def)
    then have "box_infinity single_precision 0x7f800000 = crt_copysign single_precision (oneRep single_precision) 0x7f800000"
      by (simp only: box_infinity_def if_True)
    also have "\<dots> = 0x3f800000" by code_simp
    finally show ?thesis .
  qed
  also have "mulsf3 0 (addsf3 (mulsf3 0x7f7fffff 0x3f800000) (mulsf3 0x7f7fffff 0x3f800000)) = 0x7fc00000" by code_simp
  finally show ?thesis by (simp add: is_nan_def infty_rep_def rep_abs_def)
qed

end
