(* ===== verification/Fp_X87.thy ===== *)
theory Fp_X87
  imports Fp_Convert Overflow
begin

text \<open>
  The conversions between integers and the 80-bit format of the x87, in which the significand has 64 bits and an
  explicit leading bit: \<open>float\<close>\<dots>\<open>xf.c\<close>, \<open>fixxf\<close>\<dots>\<open>.c\<close> and \<open>fixunsxf\<close>\<dots>\<open>.c\<close>.  They are built where \<open>long double\<close> has
  this format.  A number is given by the two words of the union \<open>long_double_bits\<close> that the code uses.
\<close>

section \<open>The format\<close>

text \<open>\<open>u.high.s.low\<close> with sign and exponent in its low 16 bits, and \<open>u.low.all\<close>, the significand.\<close>

record long_double_bits =
  high_low :: su_int
  low_all :: du_int

text \<open>The exponent that all routines extract, and the sign bit.\<close>

definition xf_exponent :: "long_double_bits \<Rightarrow> int" where
  "xf_exponent fb = uint (high_low fb AND 0x00007FFF) - 16383"

definition xf_sign :: "long_double_bits \<Rightarrow> bool" where
  "xf_sign fb \<longleftrightarrow> high_low fb AND 0x00008000 \<noteq> 0"


section \<open>From integers\<close>





section \<open>To integers\<close>


definition fixunsxfdi :: "long_double_bits \<Rightarrow> du_int option" where
  "fixunsxfdi fb =
     (let e = xf_exponent fb in
      if e < 0 \<or> xf_sign fb then Some 0
      else if e > 64 then Some (NOT 0)
      else if 63 - e < 0 then None
      else Some (shr (low_all fb) (nat (63 - e))))"




section \<open>What the conversions promise\<close>






section \<open>Packing\<close>










section \<open>Truncation\<close>














section \<open>Properties\<close>


text \<open>The smallest number that is too large for 64 bits is shifted by a negative distance.\<close>

lemma fixunsxfdi_undefined: "fixunsxfdi \<lparr>high_low = 0x403f, low_all = 0x8000000000000000\<rparr> = None"
  by (simp add: fixunsxfdi_def Let_def xf_exponent_def xf_sign_def)

end
