(* ===== verification/Bytes.thy ===== *)
theory Bytes
  imports Prelude
begin

text \<open>
  Memory as bytes: loading and storing byte sequences, the addresses they occupy, and the bytes of an unsigned
  integer, lowest first.  Addresses have 64 bits and wrap around.
\<close>

type_synonym byte = "8 word"
type_synonym addr = "64 word"
type_synonym memory = "addr \<Rightarrow> byte"

text \<open>The outcomes of a routine that does not return: undefined behaviour, or a call of \<open>abort\<close>.\<close>

datatype failure = Undefined | Aborted

section \<open>Loading and storing\<close>

definition load_bytes :: "memory \<Rightarrow> addr \<Rightarrow> nat \<Rightarrow> byte list" where
  "load_bytes m p n = map (\<lambda>i. m (p + of_nat i)) [0..<n]"

primrec store_bytes :: "memory \<Rightarrow> addr \<Rightarrow> byte list \<Rightarrow> memory" where
  "store_bytes m p [] = m"
| "store_bytes m p (b # bs) = store_bytes (m(p := b)) (p + 1) bs"

definition region :: "addr \<Rightarrow> nat \<Rightarrow> addr set" where
  "region p n = (\<lambda>i. p + of_nat i) ` {..<n}"

lemma region_0 [simp]: "region p 0 = {}" by (simp add: region_def)

lemma region_Suc: "region p (Suc n) = insert p (region (p + 1) n)"
  by (simp add: region_def lessThan_Suc_eq_insert_0 image_image ac_simps)

lemma load_bytes_0 [simp]: "load_bytes m p 0 = []" by (simp add: load_bytes_def)

lemma load_bytes_Suc: "load_bytes m p (Suc n) = m p # load_bytes m (p + 1) n"
  by (simp add: load_bytes_def map_upt_Suc ac_simps del: upt_Suc)

lemma length_load_bytes [simp]: "length (load_bytes m p n) = n"
  by (simp add: load_bytes_def)

lemma load_bytes_cong: "(\<And>a. a \<in> region p n \<Longrightarrow> m a = m' a) \<Longrightarrow> load_bytes m p n = load_bytes m' p n"
  by (auto simp: load_bytes_def region_def)

lemma store_bytes_outside: "a \<notin> region p (length bs) \<Longrightarrow> store_bytes m p bs a = m a"
  by (induction bs arbitrary: m p) (auto simp: region_Suc)

lemma store_bytes_cong: "m a = m' a \<Longrightarrow> store_bytes m p bs a = store_bytes m' p bs a"
proof (induction bs arbitrary: m m' p)
  case (Cons b bs)
  then have "(m(p := b)) a = (m'(p := b)) a" by simp
  then show ?case by (simp only: store_bytes.simps) (rule Cons.IH)
qed simp

section \<open>Values in memory\<close>

text \<open>An object of type \<open>uint8_t\<close> to \<open>__uint128_t\<close> is its bytes, the lowest first.\<close>

primrec decode :: "byte list \<Rightarrow> tu_int" where
  "decode [] = 0"
| "decode (b # bs) = ucast b OR shl (decode bs) 8"

primrec encode :: "nat \<Rightarrow> tu_int \<Rightarrow> byte list" where
  "encode 0 w = []"
| "encode (Suc n) w = ucast w # encode n (shr w 8)"

lemma length_encode [simp]: "length (encode n w) = n"
  by (induction n arbitrary: w) auto


lemma load_after_store:
  "region p n \<inter> region q (length bs) = {} \<Longrightarrow> load_bytes (store_bytes m q bs) p n = load_bytes m p n"
  by (rule load_bytes_cong, rule store_bytes_outside) blast

lemma bit_decode: "bit (decode bs) i \<longleftrightarrow> i < 128 \<and> i < 8 * length bs \<and> bit (bs ! (i div 8)) (i mod 8)"
proof (induction bs arbitrary: i)
  case (Cons b bs)
  show ?case
  proof (cases "i < 8")
    case True
    then show ?thesis by (auto simp: bit_or_iff bit_push_bit_iff bit_ucast_iff)
  next
    case False
    then obtain j where j: "i = 8 + j" using le_Suc_ex by (metis not_less)
    then have "(8 + j) div 8 = Suc (j div 8)" by simp
    then show ?thesis
      using Cons.IH [of j] bit_imp_le_length [of b i] j
      by (auto simp: bit_or_iff bit_push_bit_iff bit_ucast_iff)
  qed
qed simp

lemma nth_encode: "i < n \<Longrightarrow> encode n w ! i = ucast (shr w (8 * i))"
  by (induction n arbitrary: w i) (auto simp: nth_Cons' drop_bit_drop_bit algebra_simps)

lemma decode_encode: "decode (encode n w) = take_bit (8 * n) w"
proof (rule bit_eqI)
  fix i
  show "bit (decode (encode n w)) i \<longleftrightarrow> bit (take_bit (8 * n) w) i"
    using bit_imp_le_length [of w i]
    by (auto simp: bit_decode nth_encode bit_take_bit_iff bit_ucast_iff bit_drop_bit_eq
        less_mult_imp_div_less mult.commute)
qed

lemma decode_inject:
  assumes "length bs = length bs'" "length bs \<le> 16"
  shows "decode bs = decode bs' \<longleftrightarrow> bs = bs'"
proof
  assume eq: "decode bs = decode bs'"
  show "bs = bs'"
  proof (rule nth_equalityI [OF assms(1)], rule bit_word_eqI)
    fix i j :: nat
    assume i: "i < length bs" and j: "j < LENGTH(8)"
    have "bit (decode bs) (8 * i + j) = bit (decode bs') (8 * i + j)" by (simp add: eq)
    then show "bit (bs ! i) j = bit (bs' ! i) j"
      using i j assms by (simp add: bit_decode)
  qed
qed simp




lemma store_bytes_inside:
  "a \<in> region p (length bs) \<Longrightarrow> store_bytes m p bs a = store_bytes m' p bs a"
proof (induction bs arbitrary: p m m')
  case (Cons b bs)
  show ?case
  proof (cases "a \<in> region (p + 1) (length bs)")
    case False
    then have "a = p" using Cons.prems by (simp add: region_Suc)
    then show ?thesis using False by (simp add: store_bytes_outside)
  qed (simp only: store_bytes.simps Cons.IH)
qed simp

lemma store_load [simp]: "store_bytes m p (load_bytes m p n) = m"
  by (induction n arbitrary: p) (simp_all add: load_bytes_Suc)

lemma store_store_commute:
  assumes "region p (length bs) \<inter> region q (length cs) = {}"
  shows "store_bytes (store_bytes m p bs) q cs = store_bytes (store_bytes m q cs) p bs"
proof
  fix a
  consider "a \<in> region p (length bs)" "a \<notin> region q (length cs)" | "a \<notin> region p (length bs)" using assms by blast
  then show "store_bytes (store_bytes m p bs) q cs a = store_bytes (store_bytes m q cs) p bs a"
  proof cases
    case 1
    then show ?thesis
      using store_bytes_inside [OF 1(1), of m "store_bytes m q cs"] by (simp add: store_bytes_outside)
  next
    case 2
    then show ?thesis by (simp add: store_bytes_outside store_bytes_cong [of "store_bytes m p bs" a m])
  qed
qed

end
