(* ===== verification/Interleave.thy ===== *)
theory Interleave
  imports Bytes
begin

text \<open>
  The execution model of \<open>atomic.c\<close>: threads that share a memory of bytes and an array of spin locks.  The
  body of an operation is a tree of micro-steps, one access to memory or to a lock each, and the threads
  interleave at these micro-steps; \<open>memcpy\<close> and \<open>memcmp\<close> are therefore not atomic.  The memory is
  sequentially consistent: the \<open>model\<close> arguments of the operations, which only weaken the order, are not
  represented.  The locale \<open>lock_discipline\<close> is the contract of an operation, the locale
  \<open>guarded_threads\<close> adds that operations only overlap in memory that the same lock guards; under it every
  interleaving has the effect of running the operations one after the other.
\<close>

section \<open>Code as trees of micro-steps\<close>

text \<open>\<open>C11 p n f k\<close> is an atomic read-modify-write of the \<open>n\<close> bytes at \<open>p\<close>: the builtins \<open>__c11_atomic_load\<close>,
  \<open>_store\<close>, \<open>_exchange\<close>, \<open>_compare_exchange_strong\<close> and \<open>_fetch_op\<close> are instances of it.\<close>

datatype 'v code =
    Return 'v
  | Read addr "byte \<Rightarrow> 'v code"
  | Write addr byte "'v code"
  | C11 addr nat "byte list \<Rightarrow> byte list" "byte list \<Rightarrow> 'v code"
  | Lock nat "'v code"
  | Unlock nat "'v code"

text \<open>The effect of code that runs alone and finds its locks free.\<close>

primrec run :: "'v code \<Rightarrow> memory \<Rightarrow> 'v \<times> memory" where
  "run (Return v) m = (v, m)"
| "run (Read a k) m = run (k (m a)) m"
| "run (Write a b k) m = run k (m(a := b))"
| "run (C11 p n f k) m = run (k (load_bytes m p n)) (store_bytes m p (f (load_bytes m p n)))"
| "run (Lock l k) m = run k m"
| "run (Unlock l k) m = run k m"

section \<open>Interleaved execution\<close>

record 'v config =
  locks :: "nat \<Rightarrow> 64 word"
  mem :: memory
  threads :: "nat \<Rightarrow> 'v code"

text \<open>One step of thread \<open>t\<close>.  \<open>lock\<close> spins until its compare-and-exchange finds 0 and stores 1; \<open>unlock\<close>
  stores 0.\<close>

definition micro_step :: "nat \<Rightarrow> 'v config \<Rightarrow> 'v config" where
  "micro_step t c =
     (case threads c t of
        Return v \<Rightarrow> c
      | Read a k \<Rightarrow> c\<lparr>threads := (threads c)(t := k (mem c a))\<rparr>
      | Write a b k \<Rightarrow> c\<lparr>mem := (mem c)(a := b), threads := (threads c)(t := k)\<rparr>
      | C11 p n f k \<Rightarrow>
          (let old = load_bytes (mem c) p n
           in c\<lparr>mem := store_bytes (mem c) p (f old), threads := (threads c)(t := k old)\<rparr>)
      | Lock l k \<Rightarrow>
          (if locks c l = 0 then c\<lparr>locks := (locks c)(l := 1), threads := (threads c)(t := k)\<rparr> else c)
      | Unlock l k \<Rightarrow> c\<lparr>locks := (locks c)(l := 0), threads := (threads c)(t := k)\<rparr>)"

text \<open>The compare-and-exchange of \<open>lock\<close> is the weak one: it may also fail when the lock is free.\<close>

inductive step :: "'v config \<Rightarrow> 'v config \<Rightarrow> bool" where
  micro: "step c (micro_step t c)"
| spin: "threads c t = Lock l k \<Longrightarrow> step c c"

inductive_cases stepE: "step c c'"

definition initial :: "(nat \<Rightarrow> 'v code) \<Rightarrow> memory \<Rightarrow> 'v config" where
  "initial prog m = \<lparr>locks = \<lambda>_. 0, mem = m, threads = prog\<rparr>"

definition reachable :: "(nat \<Rightarrow> 'v code) \<Rightarrow> memory \<Rightarrow> 'v config \<Rightarrow> bool" where
  "reachable prog m c = step\<^sup>*\<^sup>* (initial prog m) c"

text \<open>The lock that a thread in a critical section holds: the one it will unlock without locking it first.\<close>

primrec holding :: "'v code \<Rightarrow> nat option" where
  "holding (Return v) = None"
| "holding (Read a k) = holding (k 0)"
| "holding (Write a b k) = holding k"
| "holding (C11 p n f k) = holding (k (replicate n 0))"
| "holding (Lock l k) = None"
| "holding (Unlock l k) = Some l"

definition finished :: "'v code \<Rightarrow> bool" where
  "finished c = (case c of Return v \<Rightarrow> True | _ \<Rightarrow> False)"

text \<open>A thread can proceed unless it has returned or waits for a lock that is taken.\<close>

definition can_proceed :: "'v config \<Rightarrow> nat \<Rightarrow> bool" where
  "can_proceed c t = (case threads c t of Return v \<Rightarrow> False | Lock l k \<Rightarrow> locks c l = 0 | _ \<Rightarrow> True)"

text \<open>The specification: the operations of the threads \<open>ts\<close> run one after the other.\<close>

fun one_by_one :: "(nat \<Rightarrow> 'v code) \<Rightarrow> nat list \<Rightarrow> memory \<Rightarrow> (nat \<Rightarrow> 'v option) \<times> memory" where
  "one_by_one prog [] m = (\<lambda>_. None, m)"
| "one_by_one prog (t # ts) m =
     (let (v, m') = run (prog t) m; (results, m'') = one_by_one prog ts m'
      in (results(t := Some v), m''))"

lemma finished_iff: "finished c \<longleftrightarrow> (\<exists>v. c = Return v)"
  by (cases c) (simp_all add: finished_def)

lemma one_by_one_snoc:
  assumes "t \<notin> set ts" "one_by_one prog ts m = (r, m')"
  shows "one_by_one prog (ts @ [t]) m = (r(t := Some (fst (run (prog t) m'))), snd (run (prog t) m'))"
  using assms
proof (induction ts arbitrary: m r m')
  case (Cons u ts)
  obtain v m1 where u: "run (prog u) m = (v, m1)" by force
  obtain r' where r': "one_by_one prog ts m1 = (r', m')" "r = r'(u := Some v)"
    using Cons.prems u by (auto split: prod.splits)
  show ?case using Cons.IH [OF _ r'(1)] Cons.prems(1) u r'
    by (auto simp: fun_upd_twist split: prod.splits)
qed (auto split: prod.splits)

section \<open>The shape of an operation\<close>

text \<open>Before its access to shared memory an operation only reads its private memory \<open>P\<close>; between \<open>lock\<close> and
  \<open>unlock\<close> it stays within its footprint \<open>F\<close>; after a lock-free access it only touches \<open>P\<close>.\<close>

primrec after :: "addr set \<Rightarrow> 'v code \<Rightarrow> bool" where
  "after P (Return v) = True"
| "after P (Read a k) = (a \<in> P \<and> (\<forall>b. after P (k b)))"
| "after P (Write a b k) = (a \<in> P \<and> after P k)"
| "after P (C11 p n f k) = False"
| "after P (Lock l k) = False"
| "after P (Unlock l k) = False"

primrec inside :: "nat \<Rightarrow> addr set \<Rightarrow> 'v code \<Rightarrow> bool" where
  "inside l F (Return v) = False"
| "inside l F (Read a k) = (a \<in> F \<and> (\<forall>b. inside l F (k b)))"
| "inside l F (Write a b k) = (a \<in> F \<and> inside l F k)"
| "inside l F (C11 p n f k) = False"
| "inside l F (Lock l' k) = False"
| "inside l F (Unlock l' k) = (l' = l \<and> finished k)"

primrec before :: "nat option \<Rightarrow> addr set \<Rightarrow> addr set \<Rightarrow> 'v code \<Rightarrow> bool" where
  "before g S P (Return v) = False"
| "before g S P (Read a k) = (a \<in> P \<and> (\<forall>b. before g S P (k b)))"
| "before g S P (Write a b k) = False"
| "before g S P (C11 p n f k) =
     (g = None \<and> region p n \<subseteq> S \<and> (\<forall>bs. length bs = n \<longrightarrow> length (f bs) = n \<and> after P (k bs)))"
| "before g S P (Lock l k) = (g = Some l \<and> inside l (S \<union> P) k)"
| "before g S P (Unlock l k) = False"

lemma before_not_after: "before g S P c \<Longrightarrow> \<not> after P c"
  by (induction c) auto

lemma before_not_inside: "before g S P c \<Longrightarrow> \<not> inside l F c"
  by (induction c) auto

lemma before_not_finished: "before g S P c \<Longrightarrow> \<not> finished c"
  by (cases c) (auto simp: finished_def)

lemma inside_not_finished: "inside l F c \<Longrightarrow> \<not> finished c"
  by (cases c) (auto simp: finished_def)

lemma inside_not_after: "inside l F c \<Longrightarrow> \<not> after P c"
  by (induction c) auto

lemma holding_inside: "inside l F c \<Longrightarrow> holding c = Some l"
  by (induction c) auto

lemma holding_after: "after P c \<Longrightarrow> holding c = None"
  by (induction c) auto

lemma holding_before: "before g S P c \<Longrightarrow> holding c = None"
  by (induction c) (auto intro: holding_after [where P = P])


text \<open>Code that stays within a footprint computes from it and changes nothing else.\<close>

definition confined :: "addr set \<Rightarrow> 'v code \<Rightarrow> bool" where
  "confined F c \<longleftrightarrow>
     (\<forall>m a. a \<notin> F \<longrightarrow> snd (run c m) a = m a) \<and>
     (\<forall>m m'. (\<forall>a\<in>F. m a = m' a) \<longrightarrow>
        fst (run c m) = fst (run c m') \<and> (\<forall>a\<in>F. snd (run c m) a = snd (run c m') a))"

lemma confined_outside: "confined F c \<Longrightarrow> a \<notin> F \<Longrightarrow> snd (run c m) a = m a"
  by (simp add: confined_def)

lemma confined_result: "confined F c \<Longrightarrow> (\<And>a. a \<in> F \<Longrightarrow> m a = m' a) \<Longrightarrow> fst (run c m) = fst (run c m')"
  unfolding confined_def by blast

lemma confined_memory:
  "confined F c \<Longrightarrow> (\<And>a. a \<in> F \<Longrightarrow> m a = m' a) \<Longrightarrow> a \<in> F \<Longrightarrow> snd (run c m) a = snd (run c m') a"
  unfolding confined_def by blast

lemma confined_Return: "confined F (Return v)"
  by (simp add: confined_def)

lemma confined_Read: "a \<in> F \<Longrightarrow> (\<And>b. confined F (k b)) \<Longrightarrow> confined F (Read a k)"
  by (simp add: confined_def)

lemma confined_Write:
  assumes "a \<in> F" "confined F k"
  shows "confined F (Write a b k)"
  unfolding confined_def run.simps
proof (intro conjI allI impI)
  fix m m' x
  show "x \<notin> F \<Longrightarrow> snd (run k (m(a := b))) x = m x"
    using assms by (auto simp: confined_outside)
  assume "\<forall>a\<in>F. m a = m' a"
  then have eq: "\<And>y. y \<in> F \<Longrightarrow> (m(a := b)) y = (m'(a := b)) y" by simp
  show "fst (run k (m(a := b))) = fst (run k (m'(a := b)))"
    by (rule confined_result [OF assms(2) eq])
  show "\<forall>y\<in>F. snd (run k (m(a := b))) y = snd (run k (m'(a := b))) y"
    by (intro ballI confined_memory [OF assms(2)] eq)
qed

lemma confined_Unlock: "finished k \<Longrightarrow> confined F (Unlock l k)"
  by (auto simp: confined_def finished_iff)

lemma confined_mono:
  assumes "confined P c" "P \<subseteq> F"
  shows "confined F c"
  unfolding confined_def
proof (intro conjI allI impI)
  fix m m' :: memory and a
  show "snd (run c m) a = m a" if "a \<notin> F" using assms that by (auto intro: confined_outside)
  assume eq: "\<forall>a\<in>F. m a = m' a"
  show "fst (run c m) = fst (run c m')" by (rule confined_result [OF assms(1)]) (use eq assms(2) in blast)
  show "\<forall>a\<in>F. snd (run c m) a = snd (run c m') a"
  proof
    fix a assume "a \<in> F"
    show "snd (run c m) a = snd (run c m') a"
    proof (cases "a \<in> P")
      case True
      show ?thesis by (rule confined_memory [OF assms(1) _ True]) (use eq assms(2) in blast)
    next
      case False
      then show ?thesis using eq \<open>a \<in> F\<close> by (simp add: confined_outside [OF assms(1)])
    qed
  qed
qed

lemma confined_C11:
  assumes "region p n \<subseteq> F" "\<And>bs. length bs = n \<Longrightarrow> length (f bs) = n" "\<And>bs. length bs = n \<Longrightarrow> confined F (k bs)"
  shows "confined F (C11 p n f k)"
  unfolding confined_def run.simps
proof (intro conjI allI impI ballI)
  fix m m' a
  have "a \<notin> F \<Longrightarrow> store_bytes m p (f (load_bytes m p n)) a = m a"
    using assms(1,2) by (intro store_bytes_outside) auto
  then show "a \<notin> F \<Longrightarrow> snd (run (k (load_bytes m p n)) (store_bytes m p (f (load_bytes m p n)))) a = m a"
    by (simp add: confined_outside [OF assms(3) [OF length_load_bytes]])
  assume eq: "\<forall>a\<in>F. m a = m' a"
  have old: "load_bytes m' p n = load_bytes m p n" by (rule load_bytes_cong) (use eq assms(1) in auto)
  have st: "y \<in> F \<Longrightarrow> store_bytes m p bs y = store_bytes m' p bs y" for bs y
    by (rule store_bytes_cong) (use eq in blast)
  show "fst (run (k (load_bytes m p n)) (store_bytes m p (f (load_bytes m p n)))) =
      fst (run (k (load_bytes m' p n)) (store_bytes m' p (f (load_bytes m' p n))))"
    unfolding old by (rule confined_result [OF assms(3) [OF length_load_bytes] st])
  show "snd (run (k (load_bytes m p n)) (store_bytes m p (f (load_bytes m p n)))) a =
      snd (run (k (load_bytes m' p n)) (store_bytes m' p (f (load_bytes m' p n)))) a" if "a \<in> F"
    unfolding old by (rule confined_memory [OF assms(3) [OF length_load_bytes] st that])
qed

lemma confined_Lock: "confined F k \<Longrightarrow> confined F (Lock l k)"
  by (simp add: confined_def)

lemma confined_after: "after P c \<Longrightarrow> confined P c"
  by (induction c) (auto intro: confined_Return confined_Read confined_Write)

lemma confined_inside: "inside l F c \<Longrightarrow> confined F c"
  by (induction c) (auto intro: confined_Read confined_Write confined_Unlock)

section \<open>Mutual exclusion\<close>

text \<open>Thread \<open>t\<close> runs \<open>prog t\<close>, guarded by the lock \<open>guard t\<close> or lock-free, with shared memory \<open>S t\<close> and
  private memory \<open>P t\<close>; or it has nothing to do.\<close>

locale lock_discipline =
  fixes prog :: "nat \<Rightarrow> 'v code" and guard :: "nat \<Rightarrow> nat option" and S P :: "nat \<Rightarrow> addr set"
  assumes prog: "before (guard t) (S t) (P t) (prog t) \<or> finished (prog t)"
begin

definition pending :: "'v config \<Rightarrow> nat \<Rightarrow> bool" where
  "pending c t = before (guard t) (S t) (P t) (threads c t)"

definition critical :: "'v config \<Rightarrow> nat \<Rightarrow> nat \<Rightarrow> bool" where
  "critical c t l \<longleftrightarrow> guard t = Some l \<and> inside l (S t \<union> P t) (threads c t)"

definition tail :: "'v config \<Rightarrow> nat \<Rightarrow> bool" where
  "tail c t \<longleftrightarrow> finished (threads c t) \<or> guard t = None \<and> after (P t) (threads c t)"

definition phases :: "'v config \<Rightarrow> bool" where
  "phases c \<longleftrightarrow> (\<forall>t. pending c t \<or> (\<exists>l. critical c t l) \<or> tail c t)"

definition locked :: "'v config \<Rightarrow> bool" where
  "locked c \<longleftrightarrow>
     (\<forall>t l. critical c t l \<longrightarrow> locks c l = 1) \<and>
     (\<forall>t u l. critical c t l \<longrightarrow> critical c u l \<longrightarrow> t = u) \<and>
     (\<forall>l. locks c l \<noteq> 0 \<longrightarrow> (\<exists>t. critical c t l))"

lemma not_critical: "pending c t \<Longrightarrow> \<not> critical c t l" "tail c t \<Longrightarrow> \<not> critical c t l"
  by (auto simp: pending_def critical_def tail_def dest: before_not_inside inside_not_finished inside_not_after)

lemma not_pending_tail: "pending c t \<Longrightarrow> \<not> tail c t"
  by (auto simp: pending_def tail_def dest: before_not_finished before_not_after)

text \<open>What the step of a thread does in each phase.\<close>

lemma micro_step_other: "u \<noteq> t \<Longrightarrow> threads (micro_step t c) u = threads c u"
  by (simp add: micro_step_def Let_def split: code.split)

lemma critical_step:
  assumes "critical c t l"
  shows "locks (micro_step t c) = locks c \<and> critical (micro_step t c) t l \<or>
    locks (micro_step t c) = (locks c)(l := 0) \<and> finished (threads (micro_step t c) t)"
  using assms by (cases "threads c t") (auto simp: critical_def micro_step_def)

lemma tail_step:
  assumes "tail c t"
  shows "locks (micro_step t c) = locks c \<and> tail (micro_step t c) t"
  using assms by (cases "threads c t") (auto simp: tail_def micro_step_def finished_iff)

lemma pending_step:
  assumes "pending c t"
  shows "locks (micro_step t c) = locks c \<and> (pending (micro_step t c) t \<or> tail (micro_step t c) t) \<or>
    (\<exists>l. locks c l = 0 \<and> locks (micro_step t c) = (locks c)(l := 1) \<and> critical (micro_step t c) t l)"
  using assms
  by (cases "threads c t") (auto simp: pending_def critical_def tail_def micro_step_def Let_def)

lemma other_phases:
  assumes "u \<noteq> t"
  shows "pending (micro_step t c) u = pending c u" "critical (micro_step t c) u l = critical c u l"
    "tail (micro_step t c) u = tail c u"
  using micro_step_other [OF assms, of c] by (simp_all add: pending_def critical_def tail_def)

lemma phases_step:
  assumes "phases c"
  shows "phases (micro_step t c)"
  unfolding phases_def
proof
  fix u
  show "pending (micro_step t c) u \<or> (\<exists>l. critical (micro_step t c) u l) \<or> tail (micro_step t c) u"
  proof (cases "u = t")
    case True
    have "pending c t \<or> (\<exists>l. critical c t l) \<or> tail c t" using assms by (simp add: phases_def)
    then show ?thesis
      unfolding True using pending_step [of c t] critical_step [of c t] tail_step [of c t]
      by (auto simp: tail_def)
  next
    case False
    then show ?thesis using assms by (simp add: other_phases phases_def)
  qed
qed

lemma critical_unique: "critical c t l \<Longrightarrow> critical c t l' \<Longrightarrow> l = l'"
  by (simp add: critical_def)

lemma locked_cong:
  assumes "locked c" "locks c' = locks c" "\<And>u l. critical c' u l = critical c u l"
  shows "locked c'"
  using assms by (simp add: locked_def)

lemma locked_acquire:
  assumes "locked c" "locks c l = 0" "locks c' = (locks c)(l := 1)" "critical c' t l" "\<And>k. \<not> critical c t k"
    and "\<And>u k. u \<noteq> t \<Longrightarrow> critical c' u k = critical c u k"
  shows "locked c'"
proof -
  have free: "\<not> critical c u l" for u using assms(1,2) by (auto simp: locked_def)
  have iff: "critical c' u k \<longleftrightarrow> (u = t \<and> k = l \<or> critical c u k)" for u k
    using assms(4-6) critical_unique [of c' t] by (cases "u = t") auto
  show ?thesis
    using assms(1,3) free unfolding locked_def iff by (auto simp: fun_upd_def)
qed

lemma locked_release:
  assumes "locked c" "critical c t l" "locks c' = (locks c)(l := 0)" "\<And>k. \<not> critical c' t k"
    and "\<And>u k. u \<noteq> t \<Longrightarrow> critical c' u k = critical c u k"
  shows "locked c'"
proof -
  have iff: "critical c' u k \<longleftrightarrow> u \<noteq> t \<and> critical c u k" for u k
    using assms(4,5) by (cases "u = t") auto
  have "critical c t k \<Longrightarrow> k = l" for k using assms(2) critical_unique by blast
  moreover have "critical c u l \<Longrightarrow> u = t" for u using assms(1,2) by (auto simp: locked_def)
  moreover have "locks c k = 1" if "critical c u k" for u k using assms(1) that by (auto simp: locked_def)
  moreover have "u = v" if "critical c u k" "critical c v k" for u v k using assms(1) that by (auto simp: locked_def)
  moreover have "\<exists>u. critical c u k" if "locks c k \<noteq> 0" for k using assms(1) that by (auto simp: locked_def)
  ultimately show ?thesis
    unfolding locked_def iff assms(3) by (intro conjI allI impI) (auto split: if_splits, metis)
qed

lemma locked_step:
  assumes "locked c" "phases c"
  shows "locked (micro_step t c)"
proof -
  let ?c = "micro_step t c"
  consider "pending c t" | l where "critical c t l" | "tail c t" using assms(2) by (auto simp: phases_def)
  then show ?thesis
  proof cases
    case 1
    then consider "locks ?c = locks c" "pending ?c t \<or> tail ?c t"
      | l where "locks c l = 0" "locks ?c = (locks c)(l := 1)" "critical ?c t l"
      using pending_step [OF 1] by blast
    then show ?thesis
    proof cases
      case 1
      have "critical ?c u l = critical c u l" for u l
        using 1(2) \<open>pending c t\<close> by (cases "u = t") (auto simp: other_phases dest: not_critical)
      then show ?thesis using assms(1) 1(1) by (auto intro: locked_cong)
    next
      case 2
      show ?thesis
        by (rule locked_acquire [OF assms(1) 2]) (use \<open>pending c t\<close> not_critical in \<open>auto simp: other_phases\<close>)
    qed
  next
    case 2
    have fin: "finished (threads ?c t) \<Longrightarrow> \<not> critical ?c t k" for k
      by (auto simp: critical_def dest: inside_not_finished)
    from critical_step [OF 2] show ?thesis
    proof
      assume *: "locks ?c = locks c \<and> critical ?c t l"
      have "critical ?c u k = critical c u k" for u k
        using * 2 critical_unique by (cases "u = t") (auto simp: other_phases)
      then show ?thesis using assms(1) * by (auto intro: locked_cong)
    next
      assume *: "locks ?c = (locks c)(l := 0) \<and> finished (threads ?c t)"
      show ?thesis by (rule locked_release [OF assms(1) 2]) (use * fin in \<open>auto simp: other_phases\<close>)
    qed
  next
    case 3
    have "critical ?c u l = critical c u l" for u l
      using 3 tail_step [OF 3] by (cases "u = t") (auto simp: other_phases dest: not_critical)
    then show ?thesis using assms(1) tail_step [OF 3] by (auto intro: locked_cong)
  qed
qed

lemma invariants:
  assumes "reachable prog m c"
  shows "phases c \<and> locked c"
  using assms unfolding reachable_def
proof (induction rule: rtranclp_induct)
  case base
  have "\<not> critical (initial prog m) t l" for t l
    using prog [of t] by (auto simp: critical_def initial_def dest: before_not_inside inside_not_finished)
  then show ?case
    using prog by (auto simp: phases_def locked_def pending_def tail_def initial_def)
next
  case (step c c')
  then show ?case by (auto elim!: stepE intro: phases_step locked_step)
qed

lemma critical_iff_holding:
  assumes "phases c"
  shows "holding (threads c t) = Some l \<longleftrightarrow> critical c t l"
proof -
  consider "pending c t" | l' where "critical c t l'" | "tail c t" using assms by (auto simp: phases_def)
  then show ?thesis
  proof cases
    case 1
    then show ?thesis using not_critical(1) [OF 1] by (auto simp: pending_def dest: holding_before)
  next
    case 2
    then have "holding (threads c t) = Some l'" by (auto simp: critical_def dest: holding_inside)
    then show ?thesis using 2 critical_unique by auto
  next
    case 3
    then have "holding (threads c t) = None" by (auto simp: tail_def finished_iff holding_after)
    then show ?thesis using not_critical(2) [OF 3] by simp
  qed
qed

lemma mutual_exclusion:
  assumes "reachable prog m c" "holding (threads c t) = Some l" "holding (threads c u) = Some l"
  shows "t = u"
  using assms invariants critical_iff_holding by (auto simp: locked_def)

lemma lock_taken_iff:
  assumes "reachable prog m c"
  shows "locks c l \<noteq> 0 \<longleftrightarrow> (\<exists>t. holding (threads c t) = Some l)"
  using invariants [OF assms] critical_iff_holding by (auto simp: locked_def)

lemma no_deadlock:
  assumes "reachable prog m c" "\<not> finished (threads c t)"
  shows "\<exists>u. can_proceed c u"
proof (cases "can_proceed c t")
  case False
  then obtain l k where "threads c t = Lock l k" "locks c l \<noteq> 0"
    using assms(2) by (auto simp: can_proceed_def finished_def split: code.splits if_splits)
  then obtain u where "critical c u l" using invariants [OF assms(1)] by (auto simp: locked_def)
  then have "can_proceed c u" by (cases "threads c u") (auto simp: critical_def can_proceed_def)
  then show ?thesis by blast
qed blast

end


section \<open>Linearization\<close>

text \<open>Private memory is private, and shared memory is shared with operations of the same guard only.\<close>

locale guarded_threads = lock_discipline prog guard S P
  for prog :: "nat \<Rightarrow> 'v code" and guard :: "nat \<Rightarrow> nat option" and S P :: "nat \<Rightarrow> addr set" +
  assumes separate: "t \<noteq> u \<Longrightarrow> P t \<inter> (S u \<union> P u) = {}"
    and overlap: "t \<noteq> u \<Longrightarrow> S t \<inter> S u \<noteq> {} \<Longrightarrow> guard t = guard u"
begin

text \<open>The memory that a thread past its linearization point may still change.\<close>

definition footprint :: "'v config \<Rightarrow> nat \<Rightarrow> addr set" where
  "footprint c t = (if guard t = None then P t else if \<exists>l. critical c t l then S t \<union> P t else {})"

text \<open>The abstract state holds the results of the operations that have taken effect and the memory they
  leave; the concrete threads past their linearization point have yet to produce it.\<close>

definition simulates :: "'v config \<Rightarrow> (nat \<Rightarrow> 'v option) \<times> memory \<Rightarrow> bool" where
  "simulates c A \<longleftrightarrow>
     (\<forall>t. pending c t \<longrightarrow> fst A t = None \<and>
        (\<forall>m. (\<forall>a\<in>P t. m a = snd A a) \<longrightarrow> run (threads c t) m = run (prog t) m)) \<and>
     (\<forall>t. \<not> pending c t \<longrightarrow> fst A t = Some (fst (run (threads c t) (mem c))) \<and>
        (\<forall>a\<in>footprint c t. snd A a = snd (run (threads c t) (mem c)) a)) \<and>
     (\<forall>a. (\<forall>t. \<not> pending c t \<longrightarrow> a \<notin> footprint c t) \<longrightarrow> snd A a = mem c a)"

lemma confined_active:
  assumes "phases c" "\<not> pending c t"
  shows "confined (footprint c t) (threads c t)"
proof -
  consider l where "critical c t l" | "tail c t" using assms by (auto simp: phases_def)
  then show ?thesis
  proof cases
    case 1
    then show ?thesis by (auto simp: footprint_def critical_def intro: confined_inside)
  next
    case 2
    then show ?thesis
      by (auto simp: tail_def footprint_def finished_iff intro: confined_after confined_Return)
  qed
qed

lemma footprint_le: "footprint c t \<subseteq> S t \<union> P t"
  by (auto simp: footprint_def)

text \<open>The memory of a thread that may take its step is apart from the footprint of every other thread.\<close>

lemma apart:
  assumes "t \<noteq> u" "guard t = None \<or> (\<exists>l. guard t = Some l \<and> (\<forall>v. v \<noteq> t \<longrightarrow> \<not> critical c v l))"
  shows "(S t \<union> P t) \<inter> footprint c u = {}"
proof -
  have "a \<notin> S t" if "a \<in> S u" "a \<in> footprint c u" for a
  proof
    assume "a \<in> S t"
    with that assms(1) have eq: "guard t = guard u" using overlap [of t u] by blast
    have "a \<notin> P u" using separate [of u t] assms(1) \<open>a \<in> S t\<close> by blast
    with that eq obtain l where "guard u = Some l" "critical c u l"
      by (auto simp: footprint_def critical_def split: if_splits)
    with assms eq show False by auto
  qed
  moreover have "a \<notin> S t \<union> P t" if "a \<in> P u" for a using separate [of u t] assms(1) that by blast
  moreover have "a \<notin> P t" if "a \<in> S u" for a using separate [of t u] assms(1) that by blast
  ultimately show ?thesis using footprint_le [of c u] by blast
qed

lemma private_apart: "t \<noteq> u \<Longrightarrow> P t \<inter> footprint c u = {}"
  using separate [of t u] footprint_le [of c u] by blast

lemma simulates_memory:
  assumes "simulates c A" "\<And>u. \<not> pending c u \<Longrightarrow> a \<notin> footprint c u"
  shows "snd A a = mem c a"
  using assms by (simp add: simulates_def)

lemma footprint_other: "u \<noteq> t \<Longrightarrow> footprint (micro_step t c) u = footprint c u"
proof -
  assume "u \<noteq> t"
  then have "critical (micro_step t c) u = critical c u" by (intro ext) (rule other_phases)
  then show ?thesis by (simp only: footprint_def)
qed

text \<open>A step leaves what the thread still has to do unchanged.\<close>

lemma run_step: "run (threads (micro_step t c) t) (mem (micro_step t c)) = run (threads c t) (mem c)"
  by (simp add: micro_step_def Let_def split: code.split)

lemma confined_before: "before (guard t) (S t) (P t) k \<Longrightarrow> confined (S t \<union> P t) k"
proof (induction k)
  case (C11 p n f k)
  then show ?case
    by (intro confined_C11) (auto intro: confined_mono [OF confined_after])
qed (auto intro: confined_Read confined_Lock confined_inside)


text \<open>The three kinds of step: the thread is past its linearization point, still before it, or at it.\<close>

lemma step_memory:
  assumes "phases c" "\<not> pending c t" "a \<notin> footprint c t"
  shows "mem (micro_step t c) a = mem c a"
proof -
  consider l where "critical c t l" | "tail c t" using assms by (auto simp: phases_def)
  then show ?thesis using assms(3)
    by cases (auto simp: footprint_def critical_def tail_def micro_step_def finished_iff split: code.splits if_splits)
qed

lemma step_footprint:
  assumes "phases c" "\<not> pending c t"
  shows "footprint (micro_step t c) t \<subseteq> footprint c t"
    and "footprint (micro_step t c) t = footprint c t \<or> finished (threads (micro_step t c) t)"
proof -
  consider l where "critical c t l" | "tail c t" using assms by (auto simp: phases_def)
  then have "footprint (micro_step t c) t = footprint c t \<or>
      footprint (micro_step t c) t = {} \<and> finished (threads (micro_step t c) t)"
  proof cases
    case 1
    then show ?thesis using critical_step [OF 1] by (auto simp: footprint_def critical_def)
  next
    case 2
    then show ?thesis using tail_step [OF 2] not_critical(2) [of c t] not_critical(2) [of "micro_step t c" t]
      by (auto simp: footprint_def)
  qed
  then show "footprint (micro_step t c) t \<subseteq> footprint c t"
    "footprint (micro_step t c) t = footprint c t \<or> finished (threads (micro_step t c) t)" by auto
qed

lemma active_step:
  assumes "phases c" "\<not> pending c t"
  shows "\<not> pending (micro_step t c) t"
proof -
  consider l where "critical c t l" | "tail c t" using assms by (auto simp: phases_def)
  then show ?thesis
  proof cases
    case 1
    then show ?thesis
      using critical_step [OF 1] not_critical(1) [of "micro_step t c" t l]
      by (auto simp: pending_def dest: before_not_finished)
  next
    case 2
    then show ?thesis using tail_step [OF 2] not_pending_tail by blast
  qed
qed

lemma active_apart:
  assumes "locked c" "phases c" "\<not> pending c t" "u \<noteq> t"
  shows "footprint c t \<inter> footprint c u = {}"
proof -
  consider l where "critical c t l" | "tail c t" using assms by (auto simp: phases_def)
  then show ?thesis
  proof cases
    case 1
    then have "(S t \<union> P t) \<inter> footprint c u = {}"
      using assms(1,4) by (intro apart) (auto simp: critical_def locked_def)
    then show ?thesis using footprint_le [of c t] by blast
  next
    case 2
    then have "footprint c t \<subseteq> P t" using not_critical(2) [OF 2] by (auto simp: footprint_def)
    then show ?thesis using private_apart [of t u c] assms(4) by blast
  qed
qed

text \<open>The other threads past their linearization point do not notice changes outside their footprint.\<close>

lemma unaffected:
  assumes "phases c" "\<not> pending c u" "\<And>a. a \<in> footprint c u \<Longrightarrow> m a = mem c a"
  shows "fst (run (threads c u) m) = fst (run (threads c u) (mem c))"
    and "a \<in> footprint c u \<Longrightarrow> snd (run (threads c u) m) a = snd (run (threads c u) (mem c)) a"
  using confined_active [OF assms(1,2)] assms(3) by (auto intro: confined_result confined_memory)

lemma simulates_active_step:
  assumes "simulates c A" "phases c" "locked c" "\<not> pending c t"
  shows "simulates (micro_step t c) A"
proof -
  let ?c = "micro_step t c"
  note sim = assms(1)[unfolded simulates_def]
  have other: "threads ?c u = threads c u" "pending ?c u = pending c u" "footprint ?c u = footprint c u"
    if "u \<noteq> t" for u using that by (simp_all add: micro_step_other other_phases footprint_other)
  have act: "\<not> pending ?c t" by (rule active_step [OF assms(2,4)])
  have same: "mem ?c a = mem c a" if "u \<noteq> t" "a \<in> footprint c u" for u a
    using step_memory [OF assms(2,4)] active_apart [OF assms(3,2,4) that(1)] that(2) by blast
  have pend: "fst A u = None \<and> (\<forall>m. (\<forall>a\<in>P u. m a = snd A a) \<longrightarrow> run (threads ?c u) m = run (prog u) m)"
    if "pending ?c u" for u using sim that act other by (cases "u = t") auto
  have res: "fst A u = Some (fst (run (threads ?c u) (mem ?c))) \<and>
      (\<forall>a\<in>footprint ?c u. snd A a = snd (run (threads ?c u) (mem ?c)) a)" if "\<not> pending ?c u" for u
  proof (cases "u = t")
    case True
    then show ?thesis using sim assms(4) step_footprint(1) [OF assms(2,4)] by (auto simp: run_step)
  next
    case False
    then show ?thesis using sim that unaffected [OF assms(2), of u "mem ?c"] same other by auto
  qed
  have "snd A a = mem ?c a" if out: "\<forall>u. \<not> pending ?c u \<longrightarrow> a \<notin> footprint ?c u" for a
  proof (cases "a \<in> footprint c t")
    case True
    then have "finished (threads ?c t)" using out act step_footprint(2) [OF assms(2,4)] by auto
    then have "snd (run (threads ?c t) (mem ?c)) a = mem ?c a" by (auto simp: finished_iff)
    then show ?thesis using sim assms(4) True by (simp add: run_step)
  next
    case False
    have "\<not> pending c u \<longrightarrow> a \<notin> footprint c u" for u
      using out [rule_format, of u] other [of u] False by (cases "u = t") auto
    then show ?thesis using sim False step_memory [OF assms(2,4)] by simp
  qed
  then show ?thesis unfolding simulates_def using pend res by blast
qed


lemma linearization_guard:
  assumes "pending c t" "\<not> pending (micro_step t c) t"
  shows "guard t = None \<or> (\<exists>l. guard t = Some l \<and> locks c l = 0)"
  using assms by (cases "threads c t") (auto simp: pending_def micro_step_def split: if_splits)

lemma pending_memory:
  assumes "pending c t" "a \<notin> S t"
  shows "mem (micro_step t c) a = mem c a"
  using assms
  by (cases "threads c t")
    (auto simp: pending_def micro_step_def Let_def intro!: store_bytes_outside split: if_splits)

lemma simulates_silent_step:
  assumes "simulates c A" "pending c t" "pending (micro_step t c) t"
  shows "simulates (micro_step t c) A"
proof -
  let ?c = "micro_step t c"
  note sim = assms(1)[unfolded simulates_def]
  have mem: "mem ?c = mem c"
    using assms(2,3) by (cases "threads c t") (auto simp: pending_def micro_step_def Let_def dest: before_not_after)
  have other: "threads ?c u = threads c u" "pending ?c u = pending c u" "footprint ?c u = footprint c u"
    if "u \<noteq> t" for u using that by (simp_all add: micro_step_other other_phases footprint_other)
  have "snd A a = mem c a" if "a \<in> P t" for a
    using that private_apart [of t] assms(2) by (intro simulates_memory [OF assms(1)]) fastforce
  then have "run (threads ?c t) m = run (threads c t) m" if "\<forall>a\<in>P t. m a = snd A a" for m
    using that assms(2,3) by (cases "threads c t")
      (auto simp: pending_def micro_step_def Let_def dest: before_not_after split: if_splits)
  then have "fst A u = None \<and> (\<forall>m. (\<forall>a\<in>P u. m a = snd A a) \<longrightarrow> run (threads ?c u) m = run (prog u) m)"
    if "pending ?c u" for u using sim that assms(2) other by (cases "u = t") auto
  moreover have "fst A u = Some (fst (run (threads ?c u) (mem ?c))) \<and>
      (\<forall>a\<in>footprint ?c u. snd A a = snd (run (threads ?c u) (mem ?c)) a)" if "\<not> pending ?c u" for u
    using sim that assms(3) other by (cases "u = t") (auto simp: mem)
  moreover have "snd A a = mem ?c a" if out: "\<forall>u. \<not> pending ?c u \<longrightarrow> a \<notin> footprint ?c u" for a
    unfolding mem using assms(2) out other by (intro simulates_memory [OF assms(1)]) (metis)
  ultimately show ?thesis unfolding simulates_def by blast
qed

lemma simulates_linearization:
  assumes "simulates c A" "phases c" "locked c" "pending c t" "\<not> pending (micro_step t c) t"
  shows "simulates (micro_step t c)
    ((fst A)(t := Some (fst (run (prog t) (snd A)))), snd (run (prog t) (snd A)))"
proof -
  let ?c = "micro_step t c" and ?M = "snd (run (prog t) (snd A))" and ?F = "S t \<union> P t"
  note sim = assms(1)[unfolded simulates_def]
  have other: "threads ?c u = threads c u" "pending ?c u = pending c u" "footprint ?c u = footprint c u"
    if "u \<noteq> t" for u using that by (simp_all add: micro_step_other other_phases footprint_other)
  have apart: "?F \<inter> footprint c u = {}" if "u \<noteq> t" for u
    using linearization_guard [OF assms(4,5)] assms(3) that by (intro apart) (auto simp: locked_def)
  have agree: "snd A a = mem c a" if "a \<in> ?F" for a
    using that apart assms(4) by (intro simulates_memory [OF assms(1)]) fastforce
  have conf: "confined ?F (threads c t)" using assms(4) confined_before by (simp add: pending_def)
  have prog: "run (prog t) (snd A) = run (threads c t) (snd A)" using sim assms(4) by simp
  have mem: "mem ?c a = mem c a" if "a \<notin> ?F" for a using pending_memory [OF assms(4)] that by simp
  have M_out: "?M a = snd A a" if "a \<notin> ?F" for a unfolding prog by (rule confined_outside [OF conf that])
  have M_in: "?M a = snd (run (threads ?c t) (mem ?c)) a" if "a \<in> ?F" for a
    unfolding prog run_step by (rule confined_memory [OF conf agree that])
  have result: "fst (run (prog t) (snd A)) = fst (run (threads ?c t) (mem ?c))"
    unfolding prog run_step by (rule confined_result [OF conf agree])
  have phases: "phases ?c" by (rule phases_step [OF assms(2)])
  let ?A = "((fst A)(t := Some (fst (run (prog t) (snd A)))), ?M)"
  have pend: "fst ?A u = None \<and> (\<forall>m. (\<forall>a\<in>P u. m a = snd ?A a) \<longrightarrow> run (threads ?c u) m = run (prog u) m)"
    if "pending ?c u" for u
  proof -
    have "u \<noteq> t" using that assms(5) by auto
    moreover have "?M a = snd A a" if "a \<in> P u" for a
      using M_out [of a] separate [of u t] that \<open>u \<noteq> t\<close> by blast
    ultimately show ?thesis using sim that other by auto
  qed
  have res: "fst ?A u = Some (fst (run (threads ?c u) (mem ?c))) \<and>
      (\<forall>a\<in>footprint ?c u. snd ?A a = snd (run (threads ?c u) (mem ?c)) a)" if "\<not> pending ?c u" for u
  proof (cases "u = t")
    case True
    then show ?thesis using result M_in footprint_le [of ?c t] by auto
  next
    case False
    then have "a \<in> footprint c u \<Longrightarrow> a \<notin> ?F" for a using apart [of u] by blast
    then show ?thesis
      using sim that unaffected [OF assms(2), of u "mem ?c"] mem M_out other [OF False] False by auto
  qed
  have "?M a = mem ?c a" if out: "\<forall>u. \<not> pending ?c u \<longrightarrow> a \<notin> footprint ?c u" for a
  proof (cases "a \<in> ?F")
    case True
    have "a \<notin> footprint ?c t" using out assms(5) by blast
    then show ?thesis
      unfolding M_in [OF True] by (rule confined_outside [OF confined_active [OF phases assms(5)]])
  next
    case False
    have "a \<notin> footprint c u" if "\<not> pending c u" for u
      using out [rule_format, of u] other [of u] that assms(4) by (cases "u = t") auto
    then show ?thesis using simulates_memory [OF assms(1)] M_out [OF False] mem [OF False] by metis
  qed
  then show ?thesis unfolding simulates_def using pend res by auto
qed


text \<open>The abstract state after the operations \<open>ts\<close>; threads without an operation have their result.\<close>

definition outcome :: "nat list \<Rightarrow> memory \<Rightarrow> (nat \<Rightarrow> 'v option) \<times> memory" where
  "outcome ts m =
     (\<lambda>t. if finished (prog t) then Some (fst (run (prog t) m)) else fst (one_by_one prog ts m) t,
      snd (one_by_one prog ts m))"

lemma outcome_snoc:
  assumes "t \<notin> set ts" "\<not> finished (prog t)"
  shows "outcome (ts @ [t]) m =
    ((fst (outcome ts m))(t := Some (fst (run (prog t) (snd (outcome ts m))))), snd (run (prog t) (snd (outcome ts m))))"
  using assms(2) one_by_one_snoc [OF assms(1), of prog m "fst (one_by_one prog ts m)" "snd (one_by_one prog ts m)"]
  by (auto simp: outcome_def)

lemma simulation:
  assumes "reachable prog m c"
  shows "\<exists>ts. distinct ts \<and> set ts = {t. \<not> pending c t \<and> \<not> finished (prog t)} \<and> simulates c (outcome ts m)"
  using assms unfolding reachable_def
proof (induction rule: rtranclp_induct)
  case base
  have init: "pending (initial prog m) t \<longleftrightarrow> \<not> finished (prog t)" for t
    using prog [of t] by (auto simp: pending_def initial_def dest: before_not_finished)
  have "\<not> critical (initial prog m) t l" for t l
    using prog [of t] by (auto simp: critical_def initial_def dest: before_not_inside inside_not_finished)
  then have "simulates (initial prog m) (outcome [] m)"
    unfolding simulates_def init by (auto simp: outcome_def initial_def finished_iff)
  then show ?case using init by (intro exI [of _ "[]"]) auto
next
  case (step c c')
  then obtain ts where ts: "distinct ts" "set ts = {t. \<not> pending c t \<and> \<not> finished (prog t)}"
    "simulates c (outcome ts m)" by blast
  have inv: "phases c" "locked c" using invariants step.hyps(1) by (simp_all add: reachable_def)
  show ?case
  proof (cases "c' = c")
    case False
    then obtain t where t: "c' = micro_step t c" using step.hyps(2) by (auto elim: stepE)
    have other: "pending c' u = pending c u" if "u \<noteq> t" for u using that t by (simp add: other_phases)
    consider "\<not> pending c t" | "pending c t" "pending c' t" | "pending c t" "\<not> pending c' t" by blast
    then show ?thesis
    proof cases
      case 1
      then have "{t. \<not> pending c' t \<and> \<not> finished (prog t)} = set ts"
        using ts(2) other active_step [OF inv(1) 1] t by auto metis+
      then show ?thesis using ts simulates_active_step [OF ts(3) inv 1] t by blast
    next
      case 2
      then have "{t. \<not> pending c' t \<and> \<not> finished (prog t)} = set ts" using ts(2) other by auto metis+
      then show ?thesis using ts simulates_silent_step [OF ts(3)] 2 t by blast
    next
      case 3
      have prog: "\<not> finished (prog t)" using ts(3) 3(1) by (auto simp: simulates_def outcome_def)
      have new: "t \<notin> set ts" using 3(1) ts(2) by simp
      have "{t. \<not> pending c' t \<and> \<not> finished (prog t)} = set (ts @ [t])"
        using ts(2) other 3 prog by auto metis+
      moreover have "simulates c' (outcome (ts @ [t]) m)"
        unfolding outcome_snoc [OF new prog] t using simulates_linearization [OF ts(3) inv 3(1)] 3(2) t by simp
      ultimately show ?thesis using ts(1) new by (intro exI [of _ "ts @ [t]"]) auto
    qed
  qed (use ts in blast)
qed

lemma linearizable:
  assumes "reachable prog m c" "\<And>t. finished (threads c t)"
  shows "\<exists>ts. distinct ts \<and> set ts = {t. \<not> finished (prog t)} \<and>
    (\<forall>t\<in>set ts. \<exists>v. threads c t = Return v \<and> fst (one_by_one prog ts m) t = Some v) \<and>
    mem c = snd (one_by_one prog ts m)"
proof -
  obtain ts where ts: "distinct ts" "set ts = {t. \<not> pending c t \<and> \<not> finished (prog t)}"
    "simulates c (outcome ts m)" using simulation [OF assms(1)] by blast
  have not_pending: "\<not> pending c t" for t using assms(2) [of t] by (auto simp: pending_def dest: before_not_finished)
  have ret: "\<exists>v. threads c t = Return v" for t using assms(2) by (simp add: finished_iff)
  have "threads c t = Return v \<Longrightarrow> fst (outcome ts m) t = Some v" for t v
    using ts(3) not_pending by (auto simp: simulates_def)
  then have results: "\<forall>t\<in>set ts. \<exists>v. threads c t = Return v \<and> fst (one_by_one prog ts m) t = Some v"
    using ret ts(2) by (force simp: outcome_def)
  have "snd (outcome ts m) a = mem c a" for a
  proof (cases "\<exists>t. a \<in> footprint c t")
    case True
    then obtain t where "a \<in> footprint c t" by blast
    then have "snd (outcome ts m) a = snd (run (threads c t) (mem c)) a"
      using ts(3) not_pending by (simp add: simulates_def)
    then show ?thesis using ret [of t] by auto
  next
    case False
    then show ?thesis using simulates_memory [OF ts(3)] by blast
  qed
  then have "mem c = snd (one_by_one prog ts m)" by (auto simp: outcome_def)
  then show ?thesis using ts not_pending results by (intro exI [of _ ts]) auto
qed

end

end
