(* ===== verification/Atomic.thy ===== *)
theory Atomic
  imports Interleave
begin

text \<open>
  \<open>atomic.c\<close>: atomic access to objects of any size.  An operation is lock-free where the compiler has a
  lock-free builtin for its size; otherwise it takes the spin lock that its pointer hashes to.  Each
  operation is a tree of micro-steps (theory \<open>Interleave\<close>), so that operations of several threads
  interleave inside \<open>memcpy\<close>.  The parameter \<open>lf\<close> stands for \<open>__c11_atomic_is_lock_free\<close>, which the
  compiler answers for the target.
\<close>

datatype result = Void | Value tu_int

text \<open>\<open>memcpy\<close>, \<open>memcmp(p, q, n) == 0\<close>, and reading and writing an object, byte by byte.\<close>

primrec memcpy :: "addr \<Rightarrow> addr \<Rightarrow> nat \<Rightarrow> 'v code \<Rightarrow> 'v code" where
  "memcpy dest src 0 k = k"
| "memcpy dest src (Suc n) k = Read src (\<lambda>b. Write dest b (memcpy (dest + 1) (src + 1) n k))"

primrec memcmp :: "addr \<Rightarrow> addr \<Rightarrow> nat \<Rightarrow> (bool \<Rightarrow> 'v code) \<Rightarrow> 'v code" where
  "memcmp p q 0 k = k True"
| "memcmp p q (Suc n) k = Read p (\<lambda>a. Read q (\<lambda>b. if a = b then memcmp (p + 1) (q + 1) n k else k False))"

primrec read_value :: "addr \<Rightarrow> nat \<Rightarrow> (byte list \<Rightarrow> 'v code) \<Rightarrow> 'v code" where
  "read_value p 0 k = k []"
| "read_value p (Suc n) k = Read p (\<lambda>b. read_value (p + 1) n (\<lambda>bs. k (b # bs)))"

primrec write_value :: "addr \<Rightarrow> byte list \<Rightarrow> 'v code \<Rightarrow> 'v code" where
  "write_value p [] k = k"
| "write_value p (b # bs) k = Write p b (write_value (p + 1) bs k)"

section \<open>Locks\<close>

definition SPINLOCK_COUNT :: "64 word" where "SPINLOCK_COUNT = shl 1 10"
definition SPINLOCK_MASK :: "64 word" where "SPINLOCK_MASK = SPINLOCK_COUNT - 1"

text \<open>The index into \<open>locks\<close>.\<close>

definition lock_for_pointer :: "addr \<Rightarrow> nat" where
  "lock_for_pointer ptr =
     (let hash = ptr;
          hash = sar hash 4;
          low = hash AND SPINLOCK_MASK;
          hash = sar hash 16;
          hash = hash XOR low
      in unat (hash AND SPINLOCK_MASK))"

text \<open>\<open>IS_LOCK_FREE_n\<close>, and the cases of \<open>LOCK_FREE_CASES\<close>.\<close>

definition is_lock_free :: "(nat \<Rightarrow> bool) \<Rightarrow> nat \<Rightarrow> bool" where
  "is_lock_free lf n = (if n = 16 then False else lf n)"

definition lock_free_case :: "(nat \<Rightarrow> bool) \<Rightarrow> nat \<Rightarrow> bool" where
  "lock_free_case lf sz =
     (if sz = 1 \<or> sz = 2 \<or> sz = 4 \<or> sz = 8 \<or> sz = 16 then is_lock_free lf sz else False)"

section \<open>Operations on objects of any size\<close>

definition atomic_load_c :: "(nat \<Rightarrow> bool) \<Rightarrow> nat \<Rightarrow> addr \<Rightarrow> addr \<Rightarrow> result code" where
  "atomic_load_c lf sz src dest =
     (if lock_free_case lf sz then C11 src sz (\<lambda>bs. bs) (\<lambda>bs. write_value dest bs (Return Void))
      else let l = lock_for_pointer src in Lock l (memcpy dest src sz (Unlock l (Return Void))))"

definition atomic_store_c :: "(nat \<Rightarrow> bool) \<Rightarrow> nat \<Rightarrow> addr \<Rightarrow> addr \<Rightarrow> result code" where
  "atomic_store_c lf sz dest src =
     (if lock_free_case lf sz then read_value src sz (\<lambda>v. C11 dest sz (\<lambda>_. v) (\<lambda>_. Return Void))
      else let l = lock_for_pointer dest in Lock l (memcpy dest src sz (Unlock l (Return Void))))"

definition atomic_compare_exchange_c :: "(nat \<Rightarrow> bool) \<Rightarrow> nat \<Rightarrow> addr \<Rightarrow> addr \<Rightarrow> addr \<Rightarrow> result code" where
  "atomic_compare_exchange_c lf sz ptr expected desired =
     (if lock_free_case lf sz then
        read_value expected sz (\<lambda>e. read_value desired sz (\<lambda>d.
          C11 ptr sz (\<lambda>bs. if bs = e then d else bs)
            (\<lambda>bs. if bs = e then Return (Value 1) else write_value expected bs (Return (Value 0)))))
      else
        let l = lock_for_pointer ptr
        in Lock l (memcmp ptr expected sz (\<lambda>equal.
             if equal then memcpy ptr desired sz (Unlock l (Return (Value 1)))
             else memcpy expected ptr sz (Unlock l (Return (Value 0))))))"

definition atomic_exchange_c :: "(nat \<Rightarrow> bool) \<Rightarrow> nat \<Rightarrow> addr \<Rightarrow> addr \<Rightarrow> addr \<Rightarrow> result code" where
  "atomic_exchange_c lf sz ptr val old =
     (if lock_free_case lf sz then
        read_value val sz (\<lambda>v. C11 ptr sz (\<lambda>_. v) (\<lambda>bs. write_value old bs (Return Void)))
      else
        let l = lock_for_pointer ptr
        in Lock l (memcpy old ptr sz (memcpy ptr val sz (Unlock l (Return Void)))))"

section \<open>Operations on objects of 1, 2, 4, 8 and 16 bytes\<close>

definition atomic_load_n :: "(nat \<Rightarrow> bool) \<Rightarrow> nat \<Rightarrow> addr \<Rightarrow> result code" where
  "atomic_load_n lf n src =
     (if is_lock_free lf n then C11 src n (\<lambda>bs. bs) (\<lambda>bs. Return (Value (decode bs)))
      else let l = lock_for_pointer src
           in Lock l (read_value src n (\<lambda>bs. Unlock l (Return (Value (decode bs))))))"

definition atomic_store_n :: "(nat \<Rightarrow> bool) \<Rightarrow> nat \<Rightarrow> addr \<Rightarrow> tu_int \<Rightarrow> result code" where
  "atomic_store_n lf n dest val =
     (if is_lock_free lf n then C11 dest n (\<lambda>_. encode n val) (\<lambda>_. Return Void)
      else let l = lock_for_pointer dest in Lock l (write_value dest (encode n val) (Unlock l (Return Void))))"

definition atomic_exchange_n :: "(nat \<Rightarrow> bool) \<Rightarrow> nat \<Rightarrow> addr \<Rightarrow> tu_int \<Rightarrow> result code" where
  "atomic_exchange_n lf n dest val =
     (if is_lock_free lf n then C11 dest n (\<lambda>_. encode n val) (\<lambda>bs. Return (Value (decode bs)))
      else let l = lock_for_pointer dest
           in Lock l (read_value dest n (\<lambda>tmp.
                write_value dest (encode n val) (Unlock l (Return (Value (decode tmp)))))))"

definition atomic_compare_exchange_n :: "(nat \<Rightarrow> bool) \<Rightarrow> nat \<Rightarrow> addr \<Rightarrow> addr \<Rightarrow> tu_int \<Rightarrow> result code" where
  "atomic_compare_exchange_n lf n ptr expected desired =
     (if is_lock_free lf n then
        read_value expected n (\<lambda>e.
          C11 ptr n (\<lambda>bs. if bs = e then encode n desired else bs)
            (\<lambda>bs. if bs = e then Return (Value 1) else write_value expected bs (Return (Value 0))))
      else
        let l = lock_for_pointer ptr
        in Lock l (read_value ptr n (\<lambda>p. read_value expected n (\<lambda>e.
             if decode p = decode e then write_value ptr (encode n desired) (Unlock l (Return (Value 1)))
             else read_value ptr n (\<lambda>p. write_value expected p (Unlock l (Return (Value 0))))))))"

text \<open>\<open>ATOMIC_RMW\<close> and its five operators.\<close>

definition atomic_rmw :: "(tu_int \<Rightarrow> tu_int \<Rightarrow> tu_int) \<Rightarrow> (nat \<Rightarrow> bool) \<Rightarrow> nat \<Rightarrow> addr \<Rightarrow> tu_int \<Rightarrow> result code" where
  "atomic_rmw opr lf n ptr val =
     (if is_lock_free lf n then
        C11 ptr n (\<lambda>bs. encode n (opr (decode bs) val)) (\<lambda>bs. Return (Value (decode bs)))
      else
        let l = lock_for_pointer ptr
        in Lock l (read_value ptr n (\<lambda>tmp.
             write_value ptr (encode n (opr (decode tmp) val)) (Unlock l (Return (Value (decode tmp)))))))"

definition atomic_fetch_add :: "(nat \<Rightarrow> bool) \<Rightarrow> nat \<Rightarrow> addr \<Rightarrow> tu_int \<Rightarrow> result code" where
  "atomic_fetch_add = atomic_rmw (+)"
definition atomic_fetch_sub :: "(nat \<Rightarrow> bool) \<Rightarrow> nat \<Rightarrow> addr \<Rightarrow> tu_int \<Rightarrow> result code" where
  "atomic_fetch_sub = atomic_rmw (-)"
definition atomic_fetch_and :: "(nat \<Rightarrow> bool) \<Rightarrow> nat \<Rightarrow> addr \<Rightarrow> tu_int \<Rightarrow> result code" where
  "atomic_fetch_and = atomic_rmw (AND)"
definition atomic_fetch_or :: "(nat \<Rightarrow> bool) \<Rightarrow> nat \<Rightarrow> addr \<Rightarrow> tu_int \<Rightarrow> result code" where
  "atomic_fetch_or = atomic_rmw (OR)"
definition atomic_fetch_xor :: "(nat \<Rightarrow> bool) \<Rightarrow> nat \<Rightarrow> addr \<Rightarrow> tu_int \<Rightarrow> result code" where
  "atomic_fetch_xor = atomic_rmw (XOR)"

section \<open>Requests\<close>

text \<open>A call of one of the operations, with its arguments; \<open>object\<close> is the memory that it accesses
  atomically and \<open>buffers\<close> the memory of the caller.\<close>

datatype rmw_op = Add | Sub | And | Or | Xor

datatype request =
    Load nat addr addr
  | Store nat addr addr
  | Exchange nat addr addr addr
  | Compare_Exchange nat addr addr addr
  | Load_n nat addr
  | Store_n nat addr tu_int
  | Exchange_n nat addr tu_int
  | Compare_Exchange_n nat addr addr tu_int
  | Fetch rmw_op nat addr tu_int

fun fetch :: "rmw_op \<Rightarrow> (nat \<Rightarrow> bool) \<Rightarrow> nat \<Rightarrow> addr \<Rightarrow> tu_int \<Rightarrow> result code" where
  "fetch Add = atomic_fetch_add"
| "fetch Sub = atomic_fetch_sub"
| "fetch And = atomic_fetch_and"
| "fetch Or = atomic_fetch_or"
| "fetch Xor = atomic_fetch_xor"

fun operation :: "(nat \<Rightarrow> bool) \<Rightarrow> request \<Rightarrow> result code" where
  "operation lf (Load sz src dest) = atomic_load_c lf sz src dest"
| "operation lf (Store sz dest src) = atomic_store_c lf sz dest src"
| "operation lf (Exchange sz ptr val old) = atomic_exchange_c lf sz ptr val old"
| "operation lf (Compare_Exchange sz ptr expected desired) = atomic_compare_exchange_c lf sz ptr expected desired"
| "operation lf (Load_n n src) = atomic_load_n lf n src"
| "operation lf (Store_n n dest val) = atomic_store_n lf n dest val"
| "operation lf (Exchange_n n dest val) = atomic_exchange_n lf n dest val"
| "operation lf (Compare_Exchange_n n ptr expected desired) = atomic_compare_exchange_n lf n ptr expected desired"
| "operation lf (Fetch opr n ptr val) = fetch opr lf n ptr val"

fun object :: "request \<Rightarrow> addr \<times> nat" where
  "object (Load sz src dest) = (src, sz)"
| "object (Store sz dest src) = (dest, sz)"
| "object (Exchange sz ptr val old) = (ptr, sz)"
| "object (Compare_Exchange sz ptr expected desired) = (ptr, sz)"
| "object (Load_n n src) = (src, n)"
| "object (Store_n n dest val) = (dest, n)"
| "object (Exchange_n n dest val) = (dest, n)"
| "object (Compare_Exchange_n n ptr expected desired) = (ptr, n)"
| "object (Fetch opr n ptr val) = (ptr, n)"

fun buffers :: "request \<Rightarrow> addr set" where
  "buffers (Load sz src dest) = region dest sz"
| "buffers (Store sz dest src) = region src sz"
| "buffers (Exchange sz ptr val old) = region val sz \<union> region old sz"
| "buffers (Compare_Exchange sz ptr expected desired) = region expected sz \<union> region desired sz"
| "buffers (Compare_Exchange_n n ptr expected desired) = region expected n"
| "buffers _ = {}"

fun any_size :: "request \<Rightarrow> bool" where
  "any_size (Load sz src dest) = True"
| "any_size (Store sz dest src) = True"
| "any_size (Exchange sz ptr val old) = True"
| "any_size (Compare_Exchange sz ptr expected desired) = True"
| "any_size _ = False"

definition object_region :: "request \<Rightarrow> addr set" where
  "object_region r = region (fst (object r)) (snd (object r))"

definition guard_of :: "(nat \<Rightarrow> bool) \<Rightarrow> request \<Rightarrow> nat option" where
  "guard_of lf r =
     (if (if any_size r then lock_free_case lf (snd (object r)) else is_lock_free lf (snd (object r))) then None
      else Some (lock_for_pointer (fst (object r))))"

text \<open>The threads of a system carry out one request each.\<close>

definition system :: "(nat \<Rightarrow> bool) \<Rightarrow> request list \<Rightarrow> nat \<Rightarrow> result code" where
  "system lf reqs t = (if t < length reqs then operation lf (reqs ! t) else Return Void)"

definition object_of :: "request list \<Rightarrow> nat \<Rightarrow> addr set" where
  "object_of reqs t = (if t < length reqs then object_region (reqs ! t) else {})"

definition buffers_of :: "request list \<Rightarrow> nat \<Rightarrow> addr set" where
  "buffers_of reqs t = (if t < length reqs then buffers (reqs ! t) else {})"

definition guards :: "(nat \<Rightarrow> bool) \<Rightarrow> request list \<Rightarrow> nat \<Rightarrow> nat option" where
  "guards lf reqs t = (if t < length reqs then guard_of lf (reqs ! t) else None)"

text \<open>The buffers of a request are its own, and objects overlap only under the same guard.\<close>

definition separated :: "(nat \<Rightarrow> bool) \<Rightarrow> request list \<Rightarrow> bool" where
  "separated lf reqs \<longleftrightarrow>
     (\<forall>t<length reqs. \<forall>u<length reqs. t \<noteq> u \<longrightarrow>
        buffers_of reqs t \<inter> (object_of reqs u \<union> buffers_of reqs u) = {} \<and>
        (object_of reqs t \<inter> object_of reqs u \<noteq> {} \<longrightarrow> guards lf reqs t = guards lf reqs u))"

section \<open>Every operation keeps the lock discipline\<close>

lemma inside_memcpy:
  "region d n \<subseteq> F \<Longrightarrow> region s n \<subseteq> F \<Longrightarrow> inside l F k \<Longrightarrow> inside l F (memcpy d s n k)"
  by (induction n arbitrary: d s) (auto simp: region_Suc)

lemma inside_memcmp:
  "region p n \<subseteq> F \<Longrightarrow> region q n \<subseteq> F \<Longrightarrow> (\<And>e. inside l F (k e)) \<Longrightarrow> inside l F (memcmp p q n k)"
  by (induction n arbitrary: p q) (auto simp: region_Suc)

lemma inside_read_value:
  "region p n \<subseteq> F \<Longrightarrow> (\<And>bs. length bs = n \<Longrightarrow> inside l F (k bs)) \<Longrightarrow> inside l F (read_value p n k)"
  by (induction n arbitrary: p k) (auto simp: region_Suc)

lemma inside_write_value:
  "region p (length bs) \<subseteq> F \<Longrightarrow> inside l F k \<Longrightarrow> inside l F (write_value p bs k)"
  by (induction bs arbitrary: p) (auto simp: region_Suc)

lemma before_read_value:
  "region p n \<subseteq> P \<Longrightarrow> (\<And>bs. length bs = n \<Longrightarrow> before g S P (k bs)) \<Longrightarrow> before g S P (read_value p n k)"
  by (induction n arbitrary: p k) (auto simp: region_Suc)

lemma after_write_value:
  "region p (length bs) \<subseteq> P \<Longrightarrow> after P k \<Longrightarrow> after P (write_value p bs k)"
  by (induction bs arbitrary: p) (auto simp: region_Suc)

lemmas inside_intros = inside_memcpy inside_memcmp inside_read_value inside_write_value

lemma rmw_shape:
  "g = (if is_lock_free lf n then None else Some (lock_for_pointer ptr)) \<Longrightarrow>
   before g (region ptr n) {} (atomic_rmw opr lf n ptr val)"
  by (auto simp: atomic_rmw_def Let_def finished_iff intro!: inside_intros)

lemma operation_shape: "before (guard_of lf r) (object_region r) (buffers r) (operation lf r)"
proof (cases r)
  case (Load n src dest)
  then show ?thesis
    by (auto simp: atomic_load_c_def guard_of_def object_region_def Let_def finished_iff
        intro!: inside_intros after_write_value)
next
  case (Store n dest src)
  then show ?thesis
    by (auto simp: atomic_store_c_def guard_of_def object_region_def Let_def finished_iff
        intro!: inside_intros before_read_value)
next
  case (Exchange n ptr val old)
  then show ?thesis
    by (auto simp: atomic_exchange_c_def guard_of_def object_region_def Let_def finished_iff
        intro!: inside_intros before_read_value after_write_value)
next
  case (Compare_Exchange n ptr expected desired)
  then show ?thesis
    by (auto simp: atomic_compare_exchange_c_def guard_of_def object_region_def Let_def finished_iff
        intro!: inside_intros before_read_value after_write_value)
next
  case (Compare_Exchange_n n ptr expected desired)
  then show ?thesis
    by (auto simp: atomic_compare_exchange_n_def guard_of_def object_region_def Let_def finished_iff
        intro!: inside_intros before_read_value after_write_value)
next
  case (Fetch opr n ptr val)
  then show ?thesis
    by (cases opr) (simp_all add: atomic_fetch_add_def atomic_fetch_sub_def atomic_fetch_and_def
        atomic_fetch_or_def atomic_fetch_xor_def guard_of_def object_region_def rmw_shape)
qed (auto simp: atomic_load_n_def atomic_store_n_def atomic_exchange_n_def guard_of_def object_region_def
      Let_def finished_iff intro!: inside_intros)

interpretation atomic: lock_discipline "system lf reqs" "guards lf reqs" "object_of reqs" "buffers_of reqs"
  for lf reqs
  by unfold_locales
    (use operation_shape in \<open>auto simp: system_def guards_def object_of_def buffers_of_def finished_iff\<close>)

lemma separated_pair:
  assumes "separated lf reqs" "t \<noteq> u"
  shows "buffers_of reqs t \<inter> (object_of reqs u \<union> buffers_of reqs u) = {}"
    and "object_of reqs t \<inter> object_of reqs u \<noteq> {} \<Longrightarrow> guards lf reqs t = guards lf reqs u"
proof -
  have "buffers_of reqs t \<inter> (object_of reqs u \<union> buffers_of reqs u) = {} \<and>
      (object_of reqs t \<inter> object_of reqs u \<noteq> {} \<longrightarrow> guards lf reqs t = guards lf reqs u)"
  proof (cases "t < length reqs \<and> u < length reqs")
    case True
    then show ?thesis using assms unfolding separated_def by blast
  next
    case False
    then show ?thesis by (auto simp: buffers_of_def object_of_def)
  qed
  then show "buffers_of reqs t \<inter> (object_of reqs u \<union> buffers_of reqs u) = {}"
    "object_of reqs t \<inter> object_of reqs u \<noteq> {} \<Longrightarrow> guards lf reqs t = guards lf reqs u" by blast+
qed

text \<open>The interpretation covers every system of separated requests; other lists stand for no request.\<close>

definition checked :: "(nat \<Rightarrow> bool) \<Rightarrow> request list \<Rightarrow> request list" where
  "checked lf reqs = (if separated lf reqs then reqs else [])"

lemma separated_checked: "separated lf (checked lf reqs)"
  by (simp add: checked_def separated_def)

interpretation separate_threads: guarded_threads "system lf (checked lf reqs)" "guards lf (checked lf reqs)"
    "object_of (checked lf reqs)" "buffers_of (checked lf reqs)"
  for lf reqs
  by unfold_locales (rule separated_pair [OF separated_checked]; assumption)+

section \<open>What an operation does alone\<close>

lemma run_memcpy:
  assumes "region dest n \<inter> region src n = {}"
  shows "run (memcpy dest src n k) m = run k (store_bytes m dest (load_bytes m src n))"
  using assms
proof (induction n arbitrary: dest src m)
  case (Suc n)
  have "load_bytes (m(dest := m src)) (src + 1) n = load_bytes m (src + 1) n"
    using Suc.prems by (intro load_bytes_cong) (auto simp: region_Suc)
  moreover have "region (dest + 1) n \<inter> region (src + 1) n = {}" using Suc.prems by (auto simp: region_Suc)
  ultimately show ?case using Suc.IH by (simp add: load_bytes_Suc del: fun_upd_apply)
qed simp

lemma run_memcmp: "run (memcmp p q n k) m = run (k (load_bytes m p n = load_bytes m q n)) m"
  by (induction n arbitrary: p q) (auto simp: load_bytes_Suc)

lemma run_read_value: "run (read_value p n k) m = run (k (load_bytes m p n)) m"
  by (induction n arbitrary: p k) (auto simp: load_bytes_Suc)

lemma run_write_value: "run (write_value p bs k) m = run k (store_bytes m p bs)"
  by (induction bs arbitrary: p m) auto

text \<open>The specification of each operation, on the memory as a whole.\<close>

fun apply_op :: "rmw_op \<Rightarrow> tu_int \<Rightarrow> tu_int \<Rightarrow> tu_int" where
  "apply_op Add a b = a + b"
| "apply_op Sub a b = a - b"
| "apply_op And a b = a AND b"
| "apply_op Or a b = a OR b"
| "apply_op Xor a b = a XOR b"

fun spec :: "request \<Rightarrow> memory \<Rightarrow> result \<times> memory" where
  "spec (Load n src dest) m = (Void, store_bytes m dest (load_bytes m src n))"
| "spec (Store n dest src) m = (Void, store_bytes m dest (load_bytes m src n))"
| "spec (Exchange n ptr val old) m =
     (Void, store_bytes (store_bytes m ptr (load_bytes m val n)) old (load_bytes m ptr n))"
| "spec (Compare_Exchange n ptr expected desired) m =
     (if load_bytes m ptr n = load_bytes m expected n
      then (Value 1, store_bytes m ptr (load_bytes m desired n))
      else (Value 0, store_bytes m expected (load_bytes m ptr n)))"
| "spec (Load_n n src) m = (Value (decode (load_bytes m src n)), m)"
| "spec (Store_n n dest val) m = (Void, store_bytes m dest (encode n val))"
| "spec (Exchange_n n dest val) m = (Value (decode (load_bytes m dest n)), store_bytes m dest (encode n val))"
| "spec (Compare_Exchange_n n ptr expected desired) m =
     (if load_bytes m ptr n = load_bytes m expected n
      then (Value 1, store_bytes m ptr (encode n desired))
      else (Value 0, store_bytes m expected (load_bytes m ptr n)))"
| "spec (Fetch opr n ptr val) m =
     (Value (decode (load_bytes m ptr n)),
      store_bytes m ptr (encode n (apply_op opr (decode (load_bytes m ptr n)) val)))"

text \<open>The memory regions of a request do not overlap, and the sized operations have at most 16 bytes.\<close>

definition well_formed :: "request \<Rightarrow> bool" where
  "well_formed r \<longleftrightarrow>
     object_region r \<inter> buffers r = {} \<and> (any_size r \<or> snd (object r) \<le> 16) \<and>
     (case r of Exchange n ptr val old \<Rightarrow> region val n \<inter> region old n = {} | _ \<Rightarrow> True)"

lemma run_rmw:
  "run (atomic_rmw f lf n ptr val) m =
     (Value (decode (load_bytes m ptr n)), store_bytes m ptr (encode n (f (decode (load_bytes m ptr n)) val)))"
  by (simp add: atomic_rmw_def Let_def run_read_value run_write_value)

lemma operation_spec:
  assumes "well_formed r"
  shows "run (operation lf r) m = spec r m"
proof (cases r)
  case (Load n src dest)
  then show ?thesis using assms
    by (simp add: atomic_load_c_def Let_def run_memcpy run_write_value well_formed_def object_region_def Int_commute)
next
  case (Store n dest src)
  then show ?thesis using assms
    by (simp add: atomic_store_c_def Let_def run_memcpy run_read_value well_formed_def object_region_def)
next
  case (Exchange n ptr val old)
  then have disjoint: "region ptr n \<inter> region val n = {}" "region ptr n \<inter> region old n = {}" "region val n \<inter> region old n = {}"
    using assms by (auto simp: well_formed_def object_region_def)
  have "run (operation lf r) m = (Void, store_bytes (store_bytes m old (load_bytes m ptr n)) ptr (load_bytes m val n))"
    if "\<not> lock_free_case lf n"
    using that disjoint Exchange
    by (simp add: atomic_exchange_c_def Let_def run_memcpy load_after_store Int_commute)
  then show ?thesis
    using disjoint Exchange store_store_commute [of old "load_bytes m ptr n" ptr "load_bytes m val n" m]
    by (cases "lock_free_case lf n")
      (simp_all add: atomic_exchange_c_def run_read_value run_write_value Int_commute)
next
  case (Compare_Exchange n ptr expected desired)
  then have "region ptr n \<inter> region expected n = {}" "region ptr n \<inter> region desired n = {}"
    using assms by (auto simp: well_formed_def object_region_def)
  then show ?thesis using Compare_Exchange
    by (simp add: atomic_compare_exchange_c_def Let_def run_memcpy run_memcmp run_read_value run_write_value Int_commute)
next
  case (Compare_Exchange_n n ptr expected desired)
  then have "n \<le> 16" using assms by (simp add: well_formed_def)
  then show ?thesis using Compare_Exchange_n
    by (simp add: atomic_compare_exchange_n_def Let_def run_read_value run_write_value decode_inject)
next
  case (Fetch opr n ptr val)
  then show ?thesis
    by (cases opr) (simp_all add: atomic_fetch_add_def atomic_fetch_sub_def atomic_fetch_and_def
        atomic_fetch_or_def atomic_fetch_xor_def run_rmw)
qed (simp_all add: atomic_load_n_def atomic_store_n_def atomic_exchange_n_def Let_def run_read_value run_write_value)

text \<open>Serving the requests \<open>ts\<close> one after the other by their specification.\<close>

fun serve :: "request list \<Rightarrow> nat list \<Rightarrow> memory \<Rightarrow> (nat \<Rightarrow> result option) \<times> memory" where
  "serve reqs [] m = (\<lambda>_. None, m)"
| "serve reqs (t # ts) m =
     (let (v, m') = spec (reqs ! t) m; (results, m'') = serve reqs ts m' in (results(t := Some v), m''))"

lemma one_by_one_serve:
  assumes "\<And>r. r \<in> set reqs \<Longrightarrow> well_formed r" "set ts \<subseteq> {..<length reqs}"
  shows "one_by_one (system lf reqs) ts m = serve reqs ts m"
  using assms(2)
  by (induction ts arbitrary: m) (simp_all add: system_def operation_spec assms(1) split: prod.splits)

lemma operation_not_finished: "\<not> finished (operation lf r)"
  using operation_shape before_not_finished by blast

lemma reachable_fold: "reachable prog m (fold micro_step ts (initial prog m))"
proof (induction ts rule: rev_induct)
  case (snoc t ts)
  then show ?case unfolding reachable_def by (auto intro: rtranclp.rtrancl_into_rtrancl step.micro)
qed (simp add: reachable_def)

section \<open>Properties\<close>

text \<open>C2. Every interleaving of atomic operations, lock-free or under the spin locks, that runs to completion has
  the results and the memory of serving the requests one after the other in some order, each by its
  specification, provided that the buffers of a request are its own and that objects only overlap under the
  same guard.\<close>

theorem atomic_linearizable:
  assumes "separated lf reqs" "\<forall>r\<in>set reqs. well_formed r"
    and "reachable (system lf reqs) m c" "\<forall>t. finished (threads c t)"
  shows "\<exists>ts. distinct ts \<and> set ts = {..<length reqs} \<and>
    (\<forall>t<length reqs. \<exists>v. threads c t = Return v \<and> fst (serve reqs ts m) t = Some v) \<and>
    mem c = snd (serve reqs ts m)"
proof -
  have reqs: "checked lf reqs = reqs" using assms(1) by (simp add: checked_def)
  have "{t. \<not> finished (system lf reqs t)} = {..<length reqs}"
    by (auto simp: system_def operation_not_finished finished_def [of "Return _"])
  then obtain ts where ts: "distinct ts" "set ts = {..<length reqs}"
    "\<forall>t\<in>set ts. \<exists>v. threads c t = Return v \<and> fst (one_by_one (system lf reqs) ts m) t = Some v"
    "mem c = snd (one_by_one (system lf reqs) ts m)"
    using separate_threads.linearizable [of lf reqs m c, unfolded reqs] assms(3,4) by auto
  then show ?thesis using one_by_one_serve [of reqs ts lf m] assms(2) by (intro exI [of _ ts]) auto
qed




text \<open>Two threads add 5 and 7 to the same byte under its lock; the second one first meets the taken lock.\<close>

definition two_adders :: "request list" where
  "two_adders = [Fetch Add 1 32 5, Fetch Add 1 32 7]"

definition adders_after :: "nat list \<Rightarrow> result config" where
  "adders_after ts = fold micro_step ts (initial (system (\<lambda>_. False) two_adders) (\<lambda>_. 0))"

lemmas adder_defs = adders_after_def two_adders_def initial_def system_def atomic_fetch_add_def atomic_rmw_def
  is_lock_free_def lock_for_pointer_def SPINLOCK_MASK_def SPINLOCK_COUNT_def Let_def micro_step_def

lemma adders_reachable: "reachable (system (\<lambda>_. False) two_adders) (\<lambda>_. 0) (adders_after ts)"
  unfolding adders_after_def by (rule reachable_fold)

lemma adders_separated: "separated lf two_adders" "\<forall>r\<in>set two_adders. well_formed r"
  by (auto simp: two_adders_def separated_def well_formed_def buffers_of_def object_region_def guards_def
      guard_of_def less_Suc_eq)

lemma adders_finished: "finished (threads (adders_after [0, 0, 1, 0, 0, 1, 1, 1, 1]) t)"
  by (simp add: adder_defs finished_def)

lemma adders_memory: "mem (adders_after [0, 0, 1, 0, 0, 1, 1, 1, 1]) 32 = 12"
  by (simp add: adder_defs)

theorem atomic_linearizable_witness:
  "\<exists>ts. distinct ts \<and> set ts = {0, 1} \<and>
     mem (adders_after [0, 0, 1, 0, 0, 1, 1, 1, 1]) = snd (serve two_adders ts (\<lambda>_. 0)) \<and>
     mem (adders_after [0, 0, 1, 0, 0, 1, 1, 1, 1]) 32 = 12"
proof -
  have "length two_adders = 2" by (simp add: two_adders_def)
  then have "{..<length two_adders} = {0, 1}" by auto
  then show ?thesis
    using atomic_linearizable [OF adders_separated adders_reachable allI [OF adders_finished]] adders_memory
    by metis
qed

text \<open>C14. Mutual exclusion: at most one thread is between \<open>lock\<close> and \<open>unlock\<close> of a lock, and the word of a
  lock is nonzero exactly while some thread is; this holds whatever the requests and however they overlap.\<close>

theorem lock_mutual_exclusion:
  assumes "reachable (system lf reqs) m c"
  shows "(\<forall>t u l. holding (threads c t) = Some l \<and> holding (threads c u) = Some l \<longrightarrow> t = u) \<and>
    (\<forall>l. locks c l \<noteq> 0 \<longleftrightarrow> (\<exists>t. holding (threads c t) = Some l))"
  using atomic.mutual_exclusion [OF assms] atomic.lock_taken_iff [OF assms] by blast

theorem lock_mutual_exclusion_witness:
  "locks (adders_after [0, 0, 1]) 2 \<noteq> 0 \<and>
   {u. holding (threads (adders_after [0, 0, 1]) u) = Some 2} = {0}"
proof -
  have "holding (threads (adders_after [0, 0, 1]) 0) = Some 2" by (simp add: adder_defs)
  then show ?thesis using lock_mutual_exclusion [OF adders_reachable [of "[0, 0, 1]"]] by blast
qed

text \<open>C15. No deadlock: as long as some thread has not returned, some thread can take a step that is not a failed
  attempt to lock.\<close>

theorem lock_progress:
  assumes "reachable (system lf reqs) m c" "\<not> finished (threads c t)"
  shows "\<exists>u. can_proceed c u"
  using assms by (rule atomic.no_deadlock)

theorem lock_progress_witness:
  "\<not> can_proceed (adders_after [0, 0, 1]) 1 \<and> (\<exists>u. can_proceed (adders_after [0, 0, 1]) u)"
proof -
  have "\<not> can_proceed (adders_after [0, 0, 1]) 1" "\<not> finished (threads (adders_after [0, 0, 1]) 1)"
    by (simp_all add: adder_defs can_proceed_def finished_def)
  then show ?thesis using lock_progress [OF adders_reachable, of "[0, 0, 1]" 1] by blast
qed

text \<open>C16. Run alone, the lock-free and the locked form of every operation have the result and the memory of its
  specification, when its buffers overlap neither the object nor each other.\<close>

theorem atomic_operation_correct:
  assumes "well_formed r"
  shows "run (operation lf r) m = spec r m \<and> run (operation (\<lambda>_. False) r) m = spec r m"
  by (simp add: operation_spec assms)

theorem atomic_operation_correct_witness:
  "run (operation (\<lambda>n. n \<le> 4) (Compare_Exchange_n 2 64 96 258)) (\<lambda>_. 0) =
     spec (Compare_Exchange_n 2 64 96 258) (\<lambda>_. 0) \<and>
   fst (spec (Compare_Exchange_n 2 64 96 258) (\<lambda>_. 0)) = Value 1 \<and>
   snd (spec (Compare_Exchange_n 2 64 96 258) (\<lambda>_. 0)) 64 = 2 \<and>
   snd (spec (Compare_Exchange_n 2 64 96 258) (\<lambda>_. 0)) 65 = 1"
proof -
  have "region p 2 = {p, p + 1}" for p by (simp add: region_Suc numeral_2_eq_2)
  then have "well_formed (Compare_Exchange_n 2 64 96 258)"
    by (simp add: well_formed_def object_region_def)
  from atomic_operation_correct [OF this, of "\<lambda>n. n \<le> 4" "\<lambda>_. 0"]
  have "run (operation (\<lambda>n. n \<le> 4) (Compare_Exchange_n 2 64 96 258)) (\<lambda>_. 0) =
    spec (Compare_Exchange_n 2 64 96 258) (\<lambda>_. 0)" by (rule conjunct1)
  moreover have "encode 2 w = [ucast w, ucast (shr w 8)]" for w by (simp add: numeral_2_eq_2)
  then have "encode 2 258 = [2, 1]" by simp
  then have spec: "spec (Compare_Exchange_n 2 64 96 258) (\<lambda>_. 0) = (Value 1, store_bytes (\<lambda>_. 0) 64 [2, 1])"
    by (simp add: load_bytes_def)
  have "fst (spec (Compare_Exchange_n 2 64 96 258) (\<lambda>_. 0)) = Value 1"
    "snd (spec (Compare_Exchange_n 2 64 96 258) (\<lambda>_. 0)) 64 = 2"
    "snd (spec (Compare_Exchange_n 2 64 96 258) (\<lambda>_. 0)) 65 = 1" unfolding spec by simp_all
  ultimately show ?thesis by (intro conjI)
qed

text \<open>The lock of a pointer is one of the \<open>SPINLOCK_COUNT\<close> locks, and only depends on the 16-byte block
  the pointer is in.\<close>

theorem lock_for_pointer_block:
  "lock_for_pointer p < unat SPINLOCK_COUNT \<and> lock_for_pointer p = lock_for_pointer (p AND NOT 15)"
proof -
  have "SPINLOCK_MASK = mask 10" by (simp add: SPINLOCK_MASK_def SPINLOCK_COUNT_def mask_eq_exp_minus_1)
  moreover have "unat (w AND mask 10) < 2 ^ 10" for w :: addr by (simp only: unat_and_mask_low) simp
  moreover have "unat SPINLOCK_COUNT = 2 ^ 10" by (simp add: SPINLOCK_COUNT_def)
  ultimately have bound: "lock_for_pointer p < unat SPINLOCK_COUNT"
    by (simp only: lock_for_pointer_def Let_def)
  have "sar (p AND NOT (mask 4)) 4 = sar p 4"
    by (intro bit_word_eqI) (auto simp: bit_signed_drop_bit_iff bit_and_iff bit_not_iff bit_mask_iff)
  moreover have "mask 4 = (15 :: addr)" by (simp add: mask_eq_exp_minus_1)
  ultimately have "sar (p AND NOT 15) 4 = sar p 4" by (simp only:)
  then show ?thesis using bound unfolding lock_for_pointer_def Let_def by (simp only: simp_thms)
qed


end
