(* ===== verification/Heap.thy ===== *)
theory Heap
  imports Bytes
begin

text \<open>
  The C heap that the emulated thread-local storage uses: byte memory, the blocks that \<open>malloc\<close> and
  \<open>realloc\<close> returned and \<open>free\<close> did not take back, and the static objects of the program.  The addresses
  of new blocks are a parameter, the list \<open>candidates\<close>: an allocation takes the next one when the block fits
  there beside the others and fails with the null pointer otherwise, so every allocator that follows the C
  standard is a choice of the list.  An access outside blocks and static objects, and a \<open>free\<close> of anything
  but a block, is undefined behaviour.  New memory holds arbitrary bytes, those that were there before.
\<close>

type_synonym uintptr = "64 word"

record heap =
  mem :: memory
  blocks :: "(addr \<times> nat) list"
  statics :: "(addr \<times> nat) list"
  candidates :: "addr list"

type_synonym ('z, 'a) action = "'z heap_scheme \<Rightarrow> failure + 'a \<times> 'z heap_scheme"

section \<open>Sequencing\<close>

definition return_value :: "'a \<Rightarrow> ('z, 'a) action" where
  "return_value x s = Inr (x, s)"

definition and_then :: "('z, 'a) action \<Rightarrow> ('a \<Rightarrow> ('z, 'b) action) \<Rightarrow> ('z, 'b) action" where
  "and_then f g s = (case f s of Inl e \<Rightarrow> Inl e | Inr (x, s') \<Rightarrow> g x s')"

definition fail_with :: "failure \<Rightarrow> ('z, 'a) action" where
  "fail_with e s = Inl e"

lemma and_then_Inr [simp]: "f s = Inr (x, s') \<Longrightarrow> and_then f g s = g x s'"
  and and_then_Inl [simp]: "f s = Inl e \<Longrightarrow> and_then f g s = Inl e"
  by (simp_all add: and_then_def)

lemma and_then_cases [consumes 1]:
  assumes "and_then f g s = Inr (y, s'')"
  obtains x s' where "f s = Inr (x, s')" "g x s' = Inr (y, s'')"
  using assms by (auto simp: and_then_def split: sum.splits prod.splits)

section \<open>Blocks\<close>

definition apart :: "addr \<times> nat \<Rightarrow> addr \<times> nat \<Rightarrow> bool" where
  "apart a b \<longleftrightarrow> unat (fst a) + snd a \<le> unat (fst b) \<or> unat (fst b) + snd b \<le> unat (fst a)"

definition fits :: "(addr \<times> nat) list \<Rightarrow> addr \<Rightarrow> nat \<Rightarrow> bool" where
  "fits used p n \<longleftrightarrow> p \<noteq> 0 \<and> unat p + n < 2 ^ 64 \<and> (\<forall>b \<in> set used. fst b \<noteq> p \<and> apart (p, n) b)"

definition within :: "addr \<Rightarrow> nat \<Rightarrow> addr \<times> nat \<Rightarrow> bool" where
  "within p n b \<longleftrightarrow> unat (fst b) \<le> unat p \<and> unat p + n \<le> unat (fst b) + snd b"

definition malloc :: "uintptr \<Rightarrow> ('z, addr) action" where
  "malloc n s =
     (case candidates s of [] \<Rightarrow> Inr (0, s)
      | p # ps \<Rightarrow>
          if fits (blocks s @ statics s) p (unat n) then Inr (p, s\<lparr>blocks := (p, unat n) # blocks s, candidates := ps\<rparr>)
          else Inr (0, s\<lparr>candidates := ps\<rparr>))"

definition free :: "addr \<Rightarrow> ('z, unit) action" where
  "free p s =
     (if p = 0 then Inr ((), s)
      else if map_of (blocks s) p = None then Inl Undefined
      else Inr ((), s\<lparr>blocks := filter (\<lambda>b. fst b \<noteq> p) (blocks s)\<rparr>))"

definition realloc :: "addr \<Rightarrow> uintptr \<Rightarrow> ('z, addr) action" where
  "realloc p n s =
     (case map_of (blocks s) p of None \<Rightarrow> Inl Undefined
      | Some old \<Rightarrow>
          let others = filter (\<lambda>b. fst b \<noteq> p) (blocks s) in
          case candidates s of [] \<Rightarrow> Inr (0, s)
          | q # qs \<Rightarrow>
              if fits (others @ statics s) q (unat n) then
                Inr (q, s\<lparr>blocks := (q, unat n) # others, candidates := qs,
                         mem := store_bytes (mem s) q (load_bytes (mem s) p (min old (unat n)))\<rparr>)
              else Inr (0, s\<lparr>candidates := qs\<rparr>))"

section \<open>Accesses\<close>

definition load_word :: "memory \<Rightarrow> addr \<Rightarrow> uintptr" where
  "load_word m p = ucast (decode (load_bytes m p 8))"

definition store_word :: "memory \<Rightarrow> addr \<Rightarrow> uintptr \<Rightarrow> memory" where
  "store_word m p w = store_bytes m p (encode 8 (ucast w))"

definition readable :: "'z heap_scheme \<Rightarrow> addr \<Rightarrow> nat \<Rightarrow> bool" where
  "readable s p n \<longleftrightarrow> list_ex (within p n) (blocks s @ statics s)"

definition writable :: "'z heap_scheme \<Rightarrow> addr \<Rightarrow> nat \<Rightarrow> bool" where
  "writable s p n \<longleftrightarrow> list_ex (within p n) (blocks s)"

definition read_word :: "addr \<Rightarrow> ('z, uintptr) action" where
  "read_word p s = (if readable s p 8 then Inr (load_word (mem s) p, s) else Inl Undefined)"

definition write_word :: "addr \<Rightarrow> uintptr \<Rightarrow> ('z, unit) action" where
  "write_word p w s = (if writable s p 8 then Inr ((), s\<lparr>mem := store_word (mem s) p w\<rparr>) else Inl Undefined)"

definition memset :: "addr \<Rightarrow> byte \<Rightarrow> uintptr \<Rightarrow> ('z, unit) action" where
  "memset p b n s =
     (if writable s p (unat n) then Inr ((), s\<lparr>mem := store_bytes (mem s) p (replicate (unat n) b)\<rparr>)
      else Inl Undefined)"

definition memcpy :: "addr \<Rightarrow> addr \<Rightarrow> uintptr \<Rightarrow> ('z, unit) action" where
  "memcpy dest src n s =
     (if writable s dest (unat n) \<and> readable s src (unat n) \<and> apart (dest, unat n) (src, unat n) then
        Inr ((), s\<lparr>mem := store_bytes (mem s) dest (load_bytes (mem s) src (unat n))\<rparr>)
      else Inl Undefined)"

section \<open>Memory laws\<close>

lemma unat_plus_of_nat: "unat p + n < 2 ^ 64 \<Longrightarrow> unat (p + of_nat n) = unat p + n" for p :: addr
  by (simp add: unat_plus_mod unsigned_of_nat take_bit_nat_eq_self)

lemma region_iff:
  assumes "unat p + n \<le> 2 ^ 64"
  shows "a \<in> region p n \<longleftrightarrow> unat p \<le> unat a \<and> unat a < unat p + n"
proof
  assume "a \<in> region p n"
  then obtain i where i: "i < n" "a = p + of_nat i" by (auto simp: region_def)
  then have "unat a = unat p + i" using assms by (simp add: unat_plus_of_nat)
  then show "unat p \<le> unat a \<and> unat a < unat p + n" using i by simp
next
  assume a: "unat p \<le> unat a \<and> unat a < unat p + n"
  then have "a = p + of_nat (unat a - unat p)"
    using unsigned_less [of a, where ?'a = nat] by (simp add: word_unat_eq_iff unat_plus_of_nat)
  then show "a \<in> region p n" using a unfolding region_def by (intro image_eqI [of _ _ "unat a - unat p"]) auto
qed

lemma apart_regions:
  assumes "apart (p, n) (q, k)" "unat p + n \<le> 2 ^ 64" "unat q + k \<le> 2 ^ 64"
  shows "region p n \<inter> region q k = {}"
  using assms by (auto simp: region_iff apart_def)

lemma within_region:
  assumes "within p n b" "unat (fst b) + snd b \<le> 2 ^ 64"
  shows "region p n \<subseteq> region (fst b) (snd b)"
  using assms by (auto simp: region_iff within_def)

lemma within_apart:
  assumes "within p n b" "within q k c" "apart b c"
  shows "apart (p, n) (q, k)"
  using assms by (auto simp: within_def apart_def)

lemma apart_commute: "apart a b \<longleftrightarrow> apart b a"
  by (auto simp: apart_def)

lemma store_bytes_nth:
  assumes "i < length bs" "length bs \<le> 2 ^ 64"
  shows "store_bytes m p bs (p + of_nat i) = bs ! i"
  using assms
proof (induction bs arbitrary: m p i)
  case (Cons b bs)
  show ?case
  proof (cases i)
    case 0
    have "p \<notin> region (p + 1) (length bs)"
    proof
      assume "p \<in> region (p + 1) (length bs)"
      then obtain j where j: "j < length bs" "p = p + 1 + of_nat j" by (auto simp: region_def)
      then have "(of_nat (Suc j) :: addr) = 0" by simp
      then have "2 ^ 64 dvd Suc j" by (simp only: word_of_nat_eq_0_iff) simp
      then show False using j(1) Cons.prems(2) by (auto dest: dvd_imp_le)
    qed
    then show ?thesis using 0 by (simp add: store_bytes_outside)
  next
    case (Suc j)
    then have "store_bytes (m(p := b)) (p + 1) bs (p + 1 + of_nat j) = bs ! j"
      using Cons.prems by (intro Cons.IH) auto
    then show ?thesis using Suc by (simp add: ac_simps)
  qed
qed simp

lemma load_store_part:
  assumes "k + n \<le> length bs" "length bs \<le> 2 ^ 64"
  shows "load_bytes (store_bytes m q bs) (q + of_nat k) n = take n (drop k bs)"
proof (rule nth_equalityI)
  fix i assume "i < length (load_bytes (store_bytes m q bs) (q + of_nat k) n)"
  then have "i < n" by simp
  then show "load_bytes (store_bytes m q bs) (q + of_nat k) n ! i = take n (drop k bs) ! i"
    using assms store_bytes_nth [of "k + i" bs m q] by (simp add: load_bytes_def ac_simps)
qed (use assms in simp)

lemma load_store_same: "length bs \<le> 2 ^ 64 \<Longrightarrow> load_bytes (store_bytes m q bs) q (length bs) = bs"
  using load_store_part [of 0 "length bs" bs m q] by simp

lemma load_bytes_part: "k + n \<le> N \<Longrightarrow> take n (drop k (load_bytes m p N)) = load_bytes m (p + of_nat k) n"
  by (rule nth_equalityI) (simp_all add: load_bytes_def ac_simps)

lemma load_word_cong: "(\<And>a. a \<in> region p 8 \<Longrightarrow> m a = m' a) \<Longrightarrow> load_word m p = load_word m' p"
  unfolding load_word_def by (simp only: load_bytes_cong [of p 8 m m'])

lemma load_word_store_bytes: "region p 8 \<inter> region q (length bs) = {} \<Longrightarrow> load_word (store_bytes m q bs) p = load_word m p"
  unfolding load_word_def by (simp only: load_after_store)

lemma load_store_word [simp]: "load_word (store_word m p w) p = w"
proof -
  have "load_bytes (store_word m p w) p 8 = encode 8 (ucast w)"
    unfolding store_word_def using load_store_same [of "encode 8 (ucast w)" m p] by simp
  then have "load_word (store_word m p w) p = ucast (take_bit 64 (ucast w :: tu_int))"
    by (simp add: load_word_def decode_encode)
  also have "\<dots> = w" by (rule bit_eqI) (auto simp: bit_ucast_iff bit_take_bit_iff dest: bit_imp_le_length)
  finally show ?thesis .
qed

lemma encode_decode: "length bs \<le> 16 \<Longrightarrow> encode (length bs) (decode bs) = bs"
proof -
  assume len: "length bs \<le> 16"
  have "take_bit (8 * length bs) (decode bs) = decode bs"
    by (rule bit_eqI) (auto simp: bit_take_bit_iff bit_decode)
  then show ?thesis using len decode_inject [of "encode (length bs) (decode bs)" bs] by (simp add: decode_encode)
qed

lemma store_load_word [simp]: "store_word m p (load_word m p) = m"
proof -
  have "ucast (ucast (decode (load_bytes m p 8)) :: uintptr) = decode (load_bytes m p 8)"
    by (rule bit_eqI) (auto simp: bit_ucast_iff bit_decode)
  then show ?thesis
    using encode_decode [of "load_bytes m p 8"] by (simp add: store_word_def load_word_def)
qed

lemma store_store_word [simp]: "store_word (store_word m p v) p w = store_word m p w"
  unfolding store_word_def
proof
  fix a show "store_bytes (store_bytes m p (encode 8 (ucast v))) p (encode 8 (ucast w)) a = store_bytes m p (encode 8 (ucast w)) a"
    by (cases "a \<in> region p 8") (simp_all add: store_bytes_outside store_bytes_inside [of a p _ m "store_bytes m p (encode 8 (ucast v))"])
qed

lemma store_word_outside: "a \<notin> region p 8 \<Longrightarrow> store_word m p w a = m a"
  by (simp add: store_word_def store_bytes_outside)

lemma load_word_zeros:
  assumes "k + 8 \<le> n" "n \<le> 2 ^ 64"
  shows "load_word (store_bytes m q (replicate n 0)) (q + of_nat k) = 0"
proof -
  have "load_bytes (store_bytes m q (replicate n 0)) (q + of_nat k) 8 = replicate 8 0"
    using assms load_store_part [of k 8 "replicate n 0" m q] by simp
  then show ?thesis by (simp add: load_word_def eval_nat_numeral)
qed

lemma load_word_copy:
  assumes "k + 8 \<le> n" "n \<le> 2 ^ 64"
  shows "load_word (store_bytes m q (load_bytes m p n)) (q + of_nat k) = load_word m (p + of_nat k)"
  using assms load_store_part [of k 8 "load_bytes m p n" m q]
  by (simp add: load_word_def load_bytes_part)

section \<open>Well-formed heaps\<close>

text \<open>Blocks and static objects are not null, do not wrap around the address space and do not overlap.\<close>

definition heap_ok :: "'z heap_scheme \<Rightarrow> bool" where
  "heap_ok s \<longleftrightarrow>
     sorted_wrt (\<lambda>a b. fst a \<noteq> fst b \<and> apart a b) (blocks s @ statics s) \<and>
     (\<forall>b \<in> set (blocks s @ statics s). fst b \<noteq> 0 \<and> unat (fst b) + snd b < 2 ^ 64)"

lemma sorted_wrt_pair: "sorted_wrt P xs \<Longrightarrow> x \<in> set xs \<Longrightarrow> y \<in> set xs \<Longrightarrow> x \<noteq> y \<Longrightarrow> P x y \<or> P y x"
  by (induction xs) auto

lemma heap_okD:
  assumes "heap_ok s" "b \<in> set (blocks s @ statics s)"
  shows "fst b \<noteq> 0" "unat (fst b) + snd b < 2 ^ 64"
  using assms by (auto simp: heap_ok_def)

lemma heap_ok_apart:
  assumes "heap_ok s" "b \<in> set (blocks s @ statics s)" "c \<in> set (blocks s @ statics s)" "b \<noteq> c"
  shows "fst b \<noteq> fst c" "apart b c"
proof -
  have "sorted_wrt (\<lambda>a b. fst a \<noteq> fst b \<and> apart a b) (blocks s @ statics s)"
    using assms(1) by (simp only: heap_ok_def)
  from sorted_wrt_pair [OF this assms(2-4)] show "fst b \<noteq> fst c" "apart b c"
    using apart_commute by auto
qed

lemma heap_ok_regions:
  assumes "heap_ok s" "(p, n) \<in> set (blocks s @ statics s)" "(q, k) \<in> set (blocks s @ statics s)" "p \<noteq> q"
  shows "region p n \<inter> region q k = {}"
  using heap_ok_apart(2) [OF assms(1-3)] heap_okD(2) [OF assms(1,2)] heap_okD(2) [OF assms(1,3)] assms(4)
  by (intro apart_regions) auto

lemma heap_ok_static: "heap_ok s \<Longrightarrow> (p, n) \<in> set (blocks s) \<Longrightarrow> (q, k) \<in> set (statics s) \<Longrightarrow> p \<noteq> q"
  by (fastforce simp: heap_ok_def sorted_wrt_append)

lemma heap_ok_size:
  assumes "heap_ok s" "(p, n) \<in> set (blocks s)" "(p, k) \<in> set (blocks s)"
  shows "n = k"
  using heap_ok_apart(1) [OF assms(1), of "(p, n)" "(p, k)"] assms(2,3) by auto

lemma heap_ok_map_of:
  assumes "heap_ok s" "(p, n) \<in> set (blocks s)"
  shows "map_of (blocks s) p = Some n"
proof -
  obtain k where k: "map_of (blocks s) p = Some k" using weak_map_of_SomeI [OF assms(2)] by blast
  then show ?thesis using heap_ok_size [OF assms] map_of_SomeD by metis
qed

lemma fitsD:
  assumes "fits used q n" "b \<in> set used" "unat (fst b) + snd b \<le> 2 ^ 64"
  shows "region q n \<inter> region (fst b) (snd b) = {}"
  using assms apart_regions [of q n "fst b" "snd b"] by (auto simp: fits_def)

lemma heap_ok_update [simp]:
  "heap_ok (s\<lparr>mem := m\<rparr>) = heap_ok s" "heap_ok (s\<lparr>candidates := ps\<rparr>) = heap_ok s"
  by (simp_all add: heap_ok_def)

lemma heap_ok_alloc:
  assumes "heap_ok s" "fits (blocks s @ statics s) q n"
  shows "heap_ok (s\<lparr>blocks := (q, n) # blocks s\<rparr>)"
  using assms by (fastforce simp: heap_ok_def fits_def)

lemma heap_ok_filter: "heap_ok s \<Longrightarrow> heap_ok (s\<lparr>blocks := filter P (blocks s)\<rparr>)"
  by (auto simp: heap_ok_def sorted_wrt_append sorted_wrt_filter)

section \<open>Partial correctness\<close>

text \<open>\<open>meets f s Q\<close>: run from \<open>s\<close>, the action \<open>f\<close> does nothing undefined, and \<open>Q\<close> holds of its result and
  final state unless it aborts.\<close>

definition meets :: "('z, 'a) action \<Rightarrow> 'z heap_scheme \<Rightarrow> ('a \<Rightarrow> 'z heap_scheme \<Rightarrow> bool) \<Rightarrow> bool" where
  "meets f s Q \<longleftrightarrow> (case f s of Inl e \<Rightarrow> e = Aborted | Inr (x, s') \<Rightarrow> Q x s')"

named_theorems meets_intro \<open>rules for sequences of actions\<close>

lemma meets_and_then [meets_intro]: "meets f s (\<lambda>x s'. meets (g x) s' Q) \<Longrightarrow> meets (and_then f g) s Q"
  by (auto simp: meets_def and_then_def split: sum.splits)

lemma meets_return_value [meets_intro]: "Q x s \<Longrightarrow> meets (return_value x) s Q"
  by (simp add: meets_def return_value_def)

lemma meets_abort [meets_intro]: "meets (fail_with Aborted) s Q"
  by (simp add: meets_def fail_with_def)

lemma meets_and_then_iff: "meets (and_then f g) s Q \<longleftrightarrow> meets f s (\<lambda>x s'. meets (g x) s' Q)"
  by (auto simp: meets_def and_then_def split: sum.splits)

lemma meets_return_value_iff: "meets (return_value x) s Q \<longleftrightarrow> Q x s"
  by (simp add: meets_def return_value_def)

lemmas meets_iff = meets_and_then_iff meets_return_value_iff

lemma meets_mono: "meets f s P \<Longrightarrow> (\<And>x s'. P x s' \<Longrightarrow> Q x s') \<Longrightarrow> meets f s Q"
  by (auto simp: meets_def split: sum.splits)

lemma meets_Inr: "meets f s Q \<Longrightarrow> f s = Inr (x, s') \<Longrightarrow> Q x s'"
  by (simp add: meets_def)

lemma meets_no_Undefined: "meets f s Q \<Longrightarrow> f s \<noteq> Inl Undefined"
  by (auto simp: meets_def)

lemma meets_malloc:
  assumes "\<And>ps. Q 0 (s\<lparr>candidates := ps\<rparr>)"
    and "\<And>q ps. fits (blocks s @ statics s) q (unat n) \<Longrightarrow> Q q (s\<lparr>blocks := (q, unat n) # blocks s, candidates := ps\<rparr>)"
  shows "meets (malloc n) s Q"
  using assms assms(1) [of "candidates s"] by (auto simp: meets_def malloc_def split: list.splits)

lemma meets_realloc:
  assumes "heap_ok s" "(p, old) \<in> set (blocks s)"
    and "\<And>ps. Q 0 (s\<lparr>candidates := ps\<rparr>)"
    and "\<And>q ps others. others = filter (\<lambda>b. fst b \<noteq> p) (blocks s) \<Longrightarrow> fits (others @ statics s) q (unat n) \<Longrightarrow>
      Q q (s\<lparr>blocks := (q, unat n) # others, candidates := ps,
            mem := store_bytes (mem s) q (load_bytes (mem s) p (min old (unat n)))\<rparr>)"
  shows "meets (realloc p n) s Q"
  using assms(3,4) assms(3) [of "candidates s"]
  by (auto simp: meets_def realloc_def heap_ok_map_of [OF assms(1,2)] Let_def split: list.splits)

lemma meets_read_word: "readable s p 8 \<Longrightarrow> Q (load_word (mem s) p) s \<Longrightarrow> meets (read_word p) s Q"
  by (simp add: meets_def read_word_def)

lemma meets_write_word: "writable s p 8 \<Longrightarrow> Q () (s\<lparr>mem := store_word (mem s) p w\<rparr>) \<Longrightarrow> meets (write_word p w) s Q"
  by (simp add: meets_def write_word_def)

lemma meets_memset:
  "writable s p (unat n) \<Longrightarrow> Q () (s\<lparr>mem := store_bytes (mem s) p (replicate (unat n) b)\<rparr>) \<Longrightarrow> meets (memset p b n) s Q"
  by (simp add: meets_def memset_def)

lemma meets_memcpy:
  "writable s p (unat n) \<Longrightarrow> readable s q (unat n) \<Longrightarrow> apart (p, unat n) (q, unat n) \<Longrightarrow>
   Q () (s\<lparr>mem := store_bytes (mem s) p (load_bytes (mem s) q (unat n))\<rparr>) \<Longrightarrow> meets (memcpy p q n) s Q"
  by (simp add: meets_def memcpy_def)

lemma writable_block: "(b, n) \<in> set (blocks s) \<Longrightarrow> within p k (b, n) \<Longrightarrow> writable s p k"
  by (auto simp: writable_def list_ex_iff)

lemma writable_readable: "writable s p n \<Longrightarrow> readable s p n"
  by (auto simp: writable_def readable_def list_ex_iff)

lemma readable_block: "(b, n) \<in> set (blocks s @ statics s) \<Longrightarrow> within p k (b, n) \<Longrightarrow> readable s p k"
  by (auto simp: readable_def list_ex_iff)

text \<open>Memory outside a stored range is kept.\<close>

definition agree :: "memory \<Rightarrow> memory \<Rightarrow> addr \<Rightarrow> nat \<Rightarrow> bool" where
  "agree m m' p n \<longleftrightarrow> (\<forall>a \<in> region p n. m' a = m a)"

lemma agree_refl [simp]: "agree m m p n" by (simp add: agree_def)

lemma agree_trans: "agree m m' p n \<Longrightarrow> agree m' m'' p n \<Longrightarrow> agree m m'' p n" by (simp add: agree_def)

lemma agree_store_bytes: "region p n \<inter> region q (length bs) = {} \<Longrightarrow> agree m (store_bytes m q bs) p n"
  unfolding agree_def by (intro ballI store_bytes_outside) blast

lemma agree_store_word: "region p n \<inter> region q 8 = {} \<Longrightarrow> agree m (store_word m q w) p n"
  unfolding agree_def by (intro ballI store_word_outside) blast

lemma agree_within:
  "agree m m' b n \<Longrightarrow> within p k (b, n) \<Longrightarrow> unat b + n \<le> 2 ^ 64 \<Longrightarrow> agree m m' p k"
  using within_region [of p k "(b, n)"] by (auto simp: agree_def)

lemma agree_load_bytes: "agree m m' p n \<Longrightarrow> load_bytes m' p n = load_bytes m p n"
  by (rule load_bytes_cong) (simp add: agree_def)

lemma agree_load_word: "agree m m' p 8 \<Longrightarrow> load_word m' p = load_word m p"
  by (rule load_word_cong) (simp add: agree_def)

end
