(* ===== verification/Emutls.thy ===== *)
theory Emutls
  imports Heap
begin

text \<open>
  \<open>emutls.c\<close>, the variant for POSIX threads and \<open>malloc\<close>: emulated thread-local storage.  Every
  thread-local variable has a control object; the first access of any thread gives it an index, and every
  thread keeps an array with the addresses of its copies of the variables, created when they are first used.
  Pointers have 64 bits.  This theory holds the state and the operations; one call is one step of its
  thread, and the race for an index is the subject of theory \<open>Emutls_Index\<close>.
\<close>

section \<open>State\<close>

text \<open>\<open>object_index\<close> is the field \<open>object.index\<close>.\<close>

record control =
  obj_size :: uintptr
  obj_align :: uintptr
  object_index :: uintptr
  obj_value :: addr

text \<open>The state: the heap, the value of \<open>emutls_pthread_key\<close> in each thread, the static variables of the
  file and the control objects.  \<open>key_create_result\<close> is what \<open>pthread_key_create\<close> returns, and
  \<open>EMUTLS_SKIP_DESTRUCTOR_ROUNDS\<close> is a constant of the build, 1 on Bionic and 0 elsewhere.  The fields of an
  \<open>emutls_address_array\<close> are words in the heap.\<close>

record tls = heap +
  specific :: "nat \<Rightarrow> addr"
  emutls_key_created :: bool
  init_once_done :: bool
  key_create_result :: int
  EMUTLS_SKIP_DESTRUCTOR_ROUNDS :: uintptr
  emutls_num_object :: uintptr
  controls :: "control list"

type_synonym 'a tls_action = "tls \<Rightarrow> failure + 'a \<times> tls"

definition skip_destructor_rounds_at :: "addr \<Rightarrow> addr" where "skip_destructor_rounds_at array = array"
definition size_at :: "addr \<Rightarrow> addr" where "size_at array = array + 8"
definition data_at :: "addr \<Rightarrow> uintptr \<Rightarrow> addr" where "data_at array i = array + 16 + 8 * i"

section \<open>The platform layer\<close>

definition EXTRA_ALIGN_PTR_BYTES :: "uintptr \<Rightarrow> uintptr" where
  "EXTRA_ALIGN_PTR_BYTES align = align - 1 + 8"

definition emutls_memalign_alloc :: "uintptr \<Rightarrow> uintptr \<Rightarrow> addr tls_action" where
  "emutls_memalign_alloc align sz =
     and_then (malloc (EXTRA_ALIGN_PTR_BYTES align + sz)) (\<lambda>obj.
     if obj = 0 then fail_with Aborted
     else
       let base = (obj + EXTRA_ALIGN_PTR_BYTES align) AND NOT (align - 1)
       in and_then (write_word (base - 8) obj) (\<lambda>_. return_value base))"

definition emutls_memalign_free :: "addr \<Rightarrow> unit tls_action" where
  "emutls_memalign_free base = and_then (read_word (base - 8)) free"

text \<open>The use of a key that does not exist is undefined.  The code ignores the result of \<open>pthread_setspecific\<close>, and
  here the call always succeeds: the error that POSIX allows it, \<open>ENOMEM\<close>, is not represented.  With it the array
  would be lost, and the variables of the thread would start again from their initial values.\<close>

definition emutls_setspecific :: "nat \<Rightarrow> addr \<Rightarrow> unit tls_action" where
  "emutls_setspecific t v s =
     (if emutls_key_created s then Inr ((), s\<lparr>specific := (specific s)(t := v)\<rparr>) else Inl Undefined)"

definition emutls_getspecific :: "nat \<Rightarrow> addr tls_action" where
  "emutls_getspecific t s = (if emutls_key_created s then Inr (specific s t, s) else Inl Undefined)"

text \<open>\<open>emutls_shutdown\<close>: the loop over the array, whose size is read again in each round.\<close>

function shutdown_loop :: "addr \<Rightarrow> uintptr \<Rightarrow> unit tls_action" where
  "shutdown_loop array i s =
     (case read_word (size_at array) s of Inl e \<Rightarrow> Inl e
      | Inr (sz, s) \<Rightarrow>
          if i < sz then
            case read_word (data_at array i) s of Inl e \<Rightarrow> Inl e
            | Inr (d, s) \<Rightarrow>
                (case (if d \<noteq> 0 then emutls_memalign_free d s else Inr ((), s)) of Inl e \<Rightarrow> Inl e
                 | Inr (_, s) \<Rightarrow> shutdown_loop array (i + 1) s)
          else Inr ((), s))"
  by pat_completeness auto

termination
proof (relation "measure (\<lambda>(array, i, s). 2 ^ 64 - unat i)")
  fix i sz :: uintptr
  assume "i < sz"
  then have "unat (i + 1) = unat i + 1"
    using unat_plus_of_nat [of i 1] unsigned_less [of sz, where ?'a = nat] by (simp add: word_less_nat_alt)
  then show "((array, i + 1, s'), array, i, s) \<in> measure (\<lambda>(array, i, s). 2 ^ 64 - unat i)" for array s s'
    using unsigned_less [of i, where ?'a = nat] by simp
qed simp

declare shutdown_loop.simps [simp del]

definition emutls_shutdown :: "addr \<Rightarrow> unit tls_action" where
  "emutls_shutdown array = (if array \<noteq> 0 then shutdown_loop array 0 else return_value ())"

definition emutls_key_destructor :: "nat \<Rightarrow> addr \<Rightarrow> unit tls_action" where
  "emutls_key_destructor t array =
     and_then (read_word (skip_destructor_rounds_at array)) (\<lambda>rounds.
     if rounds > 0 then
       and_then (write_word (skip_destructor_rounds_at array) (rounds - 1)) (\<lambda>_. emutls_setspecific t array)
     else and_then (emutls_shutdown array) (\<lambda>_. free array))"

definition emutls_init :: "unit tls_action" where
  "emutls_init s = (if key_create_result s \<noteq> 0 then Inl Aborted else Inr ((), s\<lparr>emutls_key_created := True\<rparr>))"

definition emutls_init_once :: "unit tls_action" where
  "emutls_init_once s = (if init_once_done s then Inr ((), s) else emutls_init (s\<lparr>init_once_done := True\<rparr>))"

definition emutls_unregister_key :: "unit tls_action" where
  "emutls_unregister_key s = Inr ((), if emutls_key_created s then s\<lparr>emutls_key_created := False\<rparr> else s)"

section \<open>Variables and their addresses\<close>

definition emutls_allocate_object :: "nat \<Rightarrow> addr tls_action" where
  "emutls_allocate_object c s =
     (let control = controls s ! c;
          sz = obj_size control;
          align = obj_align control;
          align = (if align < 8 then 8 else align)
      in if align AND (align - 1) \<noteq> 0 then Inl Aborted
         else
           and_then (emutls_memalign_alloc align sz) (\<lambda>base.
           and_then (if obj_value control \<noteq> 0 then memcpy base (obj_value control) sz else memset base 0 sz) (\<lambda>_.
           return_value base)) s)"

definition set_index :: "nat \<Rightarrow> uintptr \<Rightarrow> tls \<Rightarrow> tls" where
  "set_index c index s = s\<lparr>controls := (controls s)[c := (controls s ! c)\<lparr>object_index := index\<rparr>]\<rparr>"

text \<open>The mutex is free between the calls, so locking it has no effect here.\<close>

definition emutls_get_index :: "nat \<Rightarrow> uintptr tls_action" where
  "emutls_get_index c s =
     (let index = object_index (controls s ! c) in
      if index = 0 then
        and_then emutls_init_once (\<lambda>_ s.
          let index = object_index (controls s ! c) in
          if index = 0 then
            let index = emutls_num_object s + 1
            in Inr (index, set_index c index (s\<lparr>emutls_num_object := index\<rparr>))
          else Inr (index, s)) s
      else Inr (index, s))"

definition emutls_check_array_set_size :: "nat \<Rightarrow> addr \<Rightarrow> uintptr \<Rightarrow> unit tls_action" where
  "emutls_check_array_set_size t array sz =
     (if array = 0 then fail_with Aborted
      else and_then (write_word (size_at array) sz) (\<lambda>_. emutls_setspecific t array))"

definition emutls_new_data_array_size :: "uintptr \<Rightarrow> uintptr" where
  "emutls_new_data_array_size index =
     (let header_words = 16 div 8 in ((index + header_words + 15) AND NOT 15) - header_words)"

definition emutls_asize :: "uintptr \<Rightarrow> uintptr" where
  "emutls_asize N = N * 8 + 16"

definition emutls_get_address_array :: "nat \<Rightarrow> uintptr \<Rightarrow> addr tls_action" where
  "emutls_get_address_array t index =
     and_then (emutls_getspecific t) (\<lambda>array.
     if array = 0 then
       let new_size = emutls_new_data_array_size index in
       and_then (malloc (emutls_asize new_size)) (\<lambda>array.
       and_then
         (if array \<noteq> 0 then
            and_then (memset (data_at array 0) 0 (new_size * 8)) (\<lambda>_ s.
            write_word (skip_destructor_rounds_at array) (EMUTLS_SKIP_DESTRUCTOR_ROUNDS s) s)
          else return_value ()) (\<lambda>_.
       and_then (emutls_check_array_set_size t array new_size) (\<lambda>_. return_value array)))
     else
       and_then (read_word (size_at array)) (\<lambda>orig_size.
       if index > orig_size then
         let new_size = emutls_new_data_array_size index in
         and_then (realloc array (emutls_asize new_size)) (\<lambda>array.
         and_then
           (if array \<noteq> 0 then memset (data_at array orig_size) 0 ((new_size - orig_size) * 8) else return_value ()) (\<lambda>_.
         and_then (emutls_check_array_set_size t array new_size) (\<lambda>_. return_value array)))
       else return_value array))"

definition emutls_get_address :: "nat \<Rightarrow> nat \<Rightarrow> addr tls_action" where
  "emutls_get_address t c =
     and_then (emutls_get_index c) (\<lambda>index.
     and_then (emutls_get_address_array t index) (\<lambda>array.
     let index = index - 1 in
     and_then (read_word (data_at array index)) (\<lambda>d.
     and_then
       (if d = 0 then and_then (emutls_allocate_object c) (\<lambda>base. write_word (data_at array index) base)
        else return_value ()) (\<lambda>_.
     read_word (data_at array index)))))"

text \<open>The end of a thread: as long as the key has a value in the thread, POSIX resets it and calls the
  destructor with it, at most \<open>PTHREAD_DESTRUCTOR_ITERATIONS\<close> times.\<close>

primrec thread_exit :: "nat \<Rightarrow> nat \<Rightarrow> unit tls_action" where
  "thread_exit 0 t s = Inr ((), s)"
| "thread_exit (Suc rounds) t s =
     (if specific s t = 0 then Inr ((), s)
      else and_then (emutls_key_destructor t (specific s t)) (\<lambda>_. thread_exit rounds t) (s\<lparr>specific := (specific s)(t := 0)\<rparr>))"

end
