(* ===== verification/Emutls_Inv.thy ===== *)
theory Emutls_Inv
  imports Emutls
begin

text \<open>
  What holds of the state of \<open>emutls.c\<close> between calls: every thread with an array owns the block of the array and
  one block for each variable it has used, the blocks of the heap are exactly these, and the indices of the
  control objects in use are distinct numbers up to \<open>emutls_num_object\<close>.
\<close>

section \<open>Addresses of objects\<close>

definition align_of :: "control \<Rightarrow> uintptr" where
  "align_of c = (if obj_align c < 8 then 8 else obj_align c)"

definition block_bytes :: "control \<Rightarrow> uintptr" where
  "block_bytes c = EXTRA_ALIGN_PTR_BYTES (align_of c) + obj_size c"

definition aligned_base :: "control \<Rightarrow> addr \<Rightarrow> addr" where
  "aligned_base c obj = (obj + EXTRA_ALIGN_PTR_BYTES (align_of c)) AND NOT (align_of c - 1)"

text \<open>What the compiler promises of a control object: its size leaves room for the bookkeeping, and an
  initial value is a static object of that size.\<close>

definition control_ok :: "(addr \<times> nat) list \<Rightarrow> control \<Rightarrow> bool" where
  "control_ok st c \<longleftrightarrow>
     unat (align_of c) + 7 + unat (obj_size c) < 2 ^ 64 \<and>
     (obj_value c \<noteq> 0 \<longrightarrow> (obj_value c, unat (obj_size c)) \<in> set st)"

lemma single_bit_word:
  fixes w :: "64 word"
  assumes "w AND (w - 1) = 0" "w \<noteq> 0"
  obtains k where "k < 64" "w = 2 ^ k"
proof -
  obtain k where k: "2 ^ k \<le> unat w" "unat w < 2 ^ (k + 1)"
    using ex_power_ivl1 [of 2 "unat w"] assms(2) by (auto simp: word_neq_0_conv word_less_nat_alt)
  have "unat w < 2 ^ 64" using unsigned_less [of w, where ?'a = nat] by simp
  then have "(2::nat) ^ k < 2 ^ 64" using k(1) by linarith
  then have k64: "k < 64" by (simp only: power_strict_increasing_iff)
  have top: "bit v k" if "2 ^ k \<le> unat v" "unat v < 2 ^ (k + 1)" for v :: "64 word"
  proof -
    have "unat v div 2 ^ k = 1" using that by (intro div_nat_eqI) simp_all
    then have "bit (unat v) k" by (simp add: bit_iff_odd)
    then show ?thesis by (simp add: bit_unsigned_iff)
  qed
  have "unat w = 2 ^ k"
  proof (rule ccontr)
    assume "unat w \<noteq> 2 ^ k"
    moreover have "unat (w - 1) = unat w - 1" using assms(2) by (simp add: unat_minus_one)
    ultimately have "bit (w - 1) k" using k by (intro top) simp_all
    then have "bit (w AND (w - 1)) k" using top [OF k] by (simp add: bit_and_iff)
    then show False using assms(1) by simp
  qed
  then have "w = 2 ^ k" using k64 by (simp add: word_unat_eq_iff unat_exp_word)
  then show thesis using that k64 by blast
qed

lemma align_of_neq_0 [simp]: "align_of c \<noteq> 0"
  by (auto simp: align_of_def)

lemma align_of_ge: "8 \<le> unat (align_of c)"
  by (auto simp: align_of_def word_less_nat_alt)

lemma unat_extra: "unat (align_of c) + 7 < 2 ^ 64 \<Longrightarrow> unat (EXTRA_ALIGN_PTR_BYTES (align_of c)) = unat (align_of c) + 7"
  using align_of_ge [of c] unat_plus_of_nat [of "align_of c" 7]
  by (simp add: EXTRA_ALIGN_PTR_BYTES_def add.commute)

lemma unat_block_bytes:
  "control_ok st c \<Longrightarrow> unat (block_bytes c) = unat (align_of c) + 7 + unat (obj_size c)"
  by (simp add: block_bytes_def unat_extra unat_plus_mod control_ok_def)

lemma unat_and_not_mask:
  fixes w :: "'a::len word"
  assumes "k < LENGTH('a)"
  shows "unat (w AND NOT (2 ^ k - 1)) = unat w div 2 ^ k * 2 ^ k"
proof -
  have "w AND NOT (mask k) = shl (shr w k) k"
    by (intro bit_word_eqI) (auto simp: bit_and_iff bit_not_iff bit_mask_iff bit_push_bit_iff bit_drop_bit_eq)
  moreover have "unat w div 2 ^ k * 2 ^ k < 2 ^ LENGTH('a)"
    using unsigned_less [of w, where ?'a = nat] by (rule order.strict_trans1 [rotated]) simp
  ultimately show ?thesis by (simp add: mask_eq_exp_minus_1 [symmetric] unat_shl_small unat_shr)
qed

text \<open>The object lies inside its block, behind the pointer to the block, and is aligned.\<close>

lemma aligned_base_bounds:
  assumes ok: "control_ok st c" and align: "align_of c AND (align_of c - 1) = 0"
    and fit: "unat b + unat (block_bytes c) < 2 ^ 64"
  shows "unat (align_of c) dvd unat (aligned_base c b)"
    and "unat b + 8 \<le> unat (aligned_base c b)"
    and "unat (aligned_base c b) + unat (obj_size c) \<le> unat b + unat (block_bytes c)"
    and "aligned_base c b \<noteq> 0"
proof -
  obtain k where k: "k < 64" "align_of c = 2 ^ k" using single_bit_word [OF align] by auto
  then have A: "unat (align_of c) = 2 ^ k" by (simp add: unat_exp_word)
  define x where "x = unat b + 2 ^ k + 7"
  have "unat (align_of c) + 7 < 2 ^ 64" using ok by (simp add: control_ok_def)
  moreover have "x < 2 ^ 64" using fit A by (simp add: x_def unat_block_bytes [OF ok])
  ultimately have "unat (b + EXTRA_ALIGN_PTR_BYTES (align_of c)) = x"
    unfolding unat_plus_mod by (simp only: unat_extra) (simp add: A x_def)
  then have base: "unat (aligned_base c b) = x div 2 ^ k * 2 ^ k"
    unfolding aligned_base_def k(2) using k(1) by (simp add: unat_and_not_mask)
  show "unat (align_of c) dvd unat (aligned_base c b)" by (simp add: base A)
  have "x mod 2 ^ k < 2 ^ k" by simp
  moreover have "x = x div 2 ^ k * 2 ^ k + x mod 2 ^ k" by (rule div_mult_mod_eq [symmetric])
  ultimately have "x < x div 2 ^ k * 2 ^ k + 2 ^ k" "x div 2 ^ k * 2 ^ k \<le> x" by linarith+
  then show "unat b + 8 \<le> unat (aligned_base c b)"
    "unat (aligned_base c b) + unat (obj_size c) \<le> unat b + unat (block_bytes c)"
    using base x_def unat_block_bytes [OF ok] A by linarith+
  then show "aligned_base c b \<noteq> 0" by auto
qed

section \<open>The array of a thread\<close>

definition array_len :: "memory \<Rightarrow> addr \<Rightarrow> nat" where
  "array_len m p = unat (load_word m (size_at p))"

definition slot :: "memory \<Rightarrow> addr \<Rightarrow> nat \<Rightarrow> addr" where
  "slot m p i = (if p \<noteq> 0 \<and> i < array_len m p then load_word m (data_at p (of_nat i)) else 0)"

text \<open>The blocks that a thread owns, numbered: that of its array and those of its objects.\<close>

definition owned :: "memory \<Rightarrow> addr \<Rightarrow> nat \<Rightarrow> addr" where
  "owned m p j = (case j of 0 \<Rightarrow> p | Suc i \<Rightarrow> if slot m p i = 0 then 0 else load_word m (slot m p i - 8))"

definition object_ok :: "(addr \<times> nat) list \<Rightarrow> memory \<Rightarrow> control \<Rightarrow> addr \<Rightarrow> bool" where
  "object_ok bs m c d \<longleftrightarrow>
     align_of c AND (align_of c - 1) = 0 \<and>
     (load_word m (d - 8), unat (block_bytes c)) \<in> set bs \<and> d = aligned_base c (load_word m (d - 8))"

definition slots_ok :: "control list \<Rightarrow> (addr \<times> nat) list \<Rightarrow> memory \<Rightarrow> addr \<Rightarrow> bool" where
  "slots_ok cs bs m p \<longleftrightarrow>
     (\<forall>i. slot m p i \<noteq> 0 \<longrightarrow>
        (\<exists>c < length cs. unat (object_index (cs ! c)) = Suc i \<and> object_ok bs m (cs ! c) (slot m p i)))"

definition array_ok :: "(addr \<times> nat) list \<Rightarrow> memory \<Rightarrow> addr \<Rightarrow> bool" where
  "array_ok bs m p \<longleftrightarrow> p \<noteq> 0 \<longrightarrow> (p, 16 + 8 * array_len m p) \<in> set bs"

section \<open>The invariant\<close>

definition indices_ok :: "control list \<Rightarrow> uintptr \<Rightarrow> bool" where
  "indices_ok cs num \<longleftrightarrow>
     length cs < 2 ^ 59 \<and>
     unat num = card {c. c < length cs \<and> object_index (cs ! c) \<noteq> 0} \<and>
     (\<forall>c < length cs. object_index (cs ! c) \<le> num) \<and>
     inj_on (\<lambda>c. object_index (cs ! c)) {c. c < length cs \<and> object_index (cs ! c) \<noteq> 0}"

definition owner :: "tls \<Rightarrow> nat \<times> nat \<Rightarrow> addr" where
  "owner s = (\<lambda>(t, j). owned (mem s) (specific s t) j)"

text \<open>The function names each element of the set exactly once, apart from zeros.\<close>

definition names :: "('x \<Rightarrow> 'a::zero) \<Rightarrow> 'a set \<Rightarrow> bool" where
  "names f B \<longleftrightarrow> bij_betw f {x. f x \<noteq> 0} B"

definition tls_ok :: "tls \<Rightarrow> bool" where
  "tls_ok s \<longleftrightarrow>
     heap_ok s \<and> indices_ok (controls s) (emutls_num_object s) \<and> list_all (control_ok (statics s)) (controls s) \<and>
     ((\<exists>c < length (controls s). object_index (controls s ! c) \<noteq> 0) \<longrightarrow> emutls_key_created s) \<and>
     (init_once_done s \<longrightarrow> emutls_key_created s) \<and>
     (\<forall>t. specific s t \<noteq> 0 \<longrightarrow>
        emutls_key_created s \<and> load_word (mem s) (skip_destructor_rounds_at (specific s t)) = EMUTLS_SKIP_DESTRUCTOR_ROUNDS s) \<and>
     (\<forall>t. array_ok (blocks s) (mem s) (specific s t) \<and> slots_ok (controls s) (blocks s) (mem s) (specific s t)) \<and>
     names (owner s) (fst ` set (blocks s))"

section \<open>Names\<close>

lemma names_insert:
  assumes f: "names f B" and x: "f x = 0" and q: "q \<noteq> 0" "q \<notin> B"
  shows "names (f(x := q)) (insert q B)"
proof -
  have "{y. (f(x := q)) y \<noteq> 0} = insert x {y. f y \<noteq> 0}" using q by auto
  moreover have "bij_betw (f(x := q)) {y. f y \<noteq> 0} B"
  proof -
    have "bij_betw (f(x := q)) {y. f y \<noteq> 0} B \<longleftrightarrow> bij_betw f {y. f y \<noteq> 0} B"
      by (rule bij_betw_cong) (use x in auto)
    then show ?thesis using f by (simp add: names_def)
  qed
  ultimately show ?thesis
    using notIn_Un_bij_betw [of x "{y. f y \<noteq> 0}" "f(x := q)" B] x q by (simp add: names_def)
qed

lemma names_remove:
  assumes f: "names f B"
  shows "names (\<lambda>y. if y \<in> X then 0 else f y) (B - f ` {y \<in> X. f y \<noteq> 0})"
proof -
  have inj: "inj_on f {y. f y \<noteq> 0}" and im: "f ` {y. f y \<noteq> 0} = B" using f by (auto simp: names_def bij_betw_def)
  have diff: "{y. y \<notin> X \<and> f y \<noteq> 0} = {y. f y \<noteq> 0} - {y \<in> X. f y \<noteq> 0}" by auto
  have img: "f ` {y. y \<notin> X \<and> f y \<noteq> 0} = B - f ` {y \<in> X. f y \<noteq> 0}"
    unfolding diff im [symmetric] by (rule inj_on_image_set_diff [OF inj]) auto
  have "{y. (if y \<in> X then 0 else f y) \<noteq> 0} = {y. y \<notin> X \<and> f y \<noteq> 0}" by auto
  moreover have "bij_betw f {y. y \<notin> X \<and> f y \<noteq> 0} (B - f ` {y \<in> X. f y \<noteq> 0})"
    unfolding bij_betw_def by (intro conjI img inj_on_subset [OF inj]) blast
  moreover have "bij_betw (\<lambda>y. if y \<in> X then 0 else f y) {y. y \<notin> X \<and> f y \<noteq> 0} C \<longleftrightarrow>
      bij_betw f {y. y \<notin> X \<and> f y \<noteq> 0} C" for C
    by (rule bij_betw_cong) auto
  ultimately show ?thesis unfolding names_def by simp
qed

lemma names_inj: "names f B \<Longrightarrow> f x = f y \<Longrightarrow> f x \<noteq> 0 \<Longrightarrow> x = y"
  by (auto simp: names_def bij_betw_def inj_on_def)

lemma names_mem: "names f B \<Longrightarrow> f x \<noteq> 0 \<Longrightarrow> f x \<in> B"
  by (auto simp: names_def bij_betw_def)

section \<open>Projections of the invariant\<close>

lemma tls_okD:
  assumes "tls_ok s"
  shows "heap_ok s" "indices_ok (controls s) (emutls_num_object s)"
    and "array_ok (blocks s) (mem s) (specific s t)" "slots_ok (controls s) (blocks s) (mem s) (specific s t)"
    and "names (owner s) (fst ` set (blocks s))"
    and "c < length (controls s) \<Longrightarrow> control_ok (statics s) (controls s ! c)"
    and "c < length (controls s) \<Longrightarrow> object_index (controls s ! c) \<noteq> 0 \<Longrightarrow> emutls_key_created s"
    and "specific s t \<noteq> 0 \<Longrightarrow> emutls_key_created s"
    and "init_once_done s \<Longrightarrow> emutls_key_created s"
    and "specific s t \<noteq> 0 \<Longrightarrow> load_word (mem s) (skip_destructor_rounds_at (specific s t)) = EMUTLS_SKIP_DESTRUCTOR_ROUNDS s"
  using assms by (auto simp: tls_ok_def list_all_length)

text \<open>What a slot in use says.\<close>

lemma slot_object:
  assumes ok: "tls_ok s" and d: "slot (mem s) (specific s t) i \<noteq> 0"
  obtains c b n where "c < length (controls s)" "unat (object_index (controls s ! c)) = Suc i"
    "object_ok (blocks s) (mem s) (controls s ! c) (slot (mem s) (specific s t) i)"
    "b = load_word (mem s) (slot (mem s) (specific s t) i - 8)" "n = unat (block_bytes (controls s ! c))"
    "(b, n) \<in> set (blocks s)" "slot (mem s) (specific s t) i = aligned_base (controls s ! c) b"
    "within (slot (mem s) (specific s t) i) (unat (obj_size (controls s ! c))) (b, n)"
    "within (slot (mem s) (specific s t) i - 8) 8 (b, n)"
    "unat (align_of (controls s ! c)) dvd unat (slot (mem s) (specific s t) i)"
proof -
  define d where "d = slot (mem s) (specific s t) i"
  obtain c where c: "c < length (controls s)" "unat (object_index (controls s ! c)) = Suc i"
    and obj: "object_ok (blocks s) (mem s) (controls s ! c) d"
    using tls_okD(4) [OF ok, of t] d by (auto simp: slots_ok_def d_def)
  define b n where "b = load_word (mem s) (d - 8)" and "n = unat (block_bytes (controls s ! c))"
  have b: "(b, n) \<in> set (blocks s)" "d = aligned_base (controls s ! c) b"
    and align: "align_of (controls s ! c) AND (align_of (controls s ! c) - 1) = 0"
    using obj by (auto simp: object_ok_def b_def n_def)
  have "unat b + n < 2 ^ 64" using heap_okD(2) [OF tls_okD(1) [OF ok], of "(b, n)"] b(1) by simp
  then have bounds: "unat (align_of (controls s ! c)) dvd unat d" "unat b + 8 \<le> unat d"
    "unat d + unat (obj_size (controls s ! c)) \<le> unat b + n"
    using aligned_base_bounds [OF tls_okD(6) [OF ok c(1)] align, of b] by (auto simp: b(2) n_def)
  then have "within d (unat (obj_size (controls s ! c))) (b, n)" by (simp add: within_def)
  moreover have "unat (d - 8) = unat d - 8"
    using bounds(2) by (subst unat_sub) (auto simp: word_le_nat_alt)
  then have "within (d - 8) 8 (b, n)" using bounds by (simp add: within_def)
  ultimately show thesis
    by (intro that [of c b n, folded d_def] c obj b b_def n_def bounds(1))
qed

lemma owner_0: "owner s (t, 0) = specific s t"
  by (simp add: owner_def owned_def)

lemma owner_Suc: "owner s (t, Suc i) = (if slot (mem s) (specific s t) i = 0 then 0 else load_word (mem s) (slot (mem s) (specific s t) i - 8))"
  by (simp add: owner_def owned_def)

lemma owner_Suc_eq_0: "tls_ok s \<Longrightarrow> owner s (t, Suc i) = 0 \<longleftrightarrow> slot (mem s) (specific s t) i = 0"
proof
  assume "tls_ok s" "owner s (t, Suc i) = 0"
  then show "slot (mem s) (specific s t) i = 0"
    using heap_okD(1) [OF tls_okD(1), of s] by (metis (no_types, lifting) Un_iff fst_conv owner_Suc set_append slot_object)
qed (simp add: owner_Suc)

lemma slot_null [simp]: "slot m 0 i = 0" by (simp add: slot_def)

end
