(* ===== verification/Emutls_Ops.thy ===== *)
theory Emutls_Ops
  imports Emutls_Inv
begin

text \<open>
  Every operation of \<open>emutls.c\<close> keeps the invariant and the values of all variables, and none does anything
  undefined: the steps of \<open>__emutls_get_address\<close>, a write by the program to one of its variables, and the end
  of a thread.
\<close>

section \<open>The values of the variables\<close>

text \<open>The address of a thread's copy of a variable, null as long as there is none, and its bytes; a copy that
  does not exist yet has the initial value.\<close>

definition variable_at :: "tls \<Rightarrow> nat \<Rightarrow> nat \<Rightarrow> addr" where
  "variable_at s t c =
     (let index = object_index (controls s ! c)
      in if index = 0 then 0 else slot (mem s) (specific s t) (unat index - 1))"

definition initial_value :: "tls \<Rightarrow> nat \<Rightarrow> byte list" where
  "initial_value s c =
     (let control = controls s ! c
      in if obj_value control = 0 then replicate (unat (obj_size control)) 0
         else load_bytes (mem s) (obj_value control) (unat (obj_size control)))"

definition tls_value :: "tls \<Rightarrow> nat \<Rightarrow> nat \<Rightarrow> byte list" where
  "tls_value s t c =
     (if variable_at s t c = 0 then initial_value s c
      else load_bytes (mem s) (variable_at s t c) (unat (obj_size (controls s ! c))))"

definition keeps_values :: "tls \<Rightarrow> tls \<Rightarrow> bool" where
  "keeps_values s s' \<longleftrightarrow>
     length (controls s') = length (controls s) \<and>
     EMUTLS_SKIP_DESTRUCTOR_ROUNDS s' = EMUTLS_SKIP_DESTRUCTOR_ROUNDS s \<and>
     (\<forall>t. \<forall>c < length (controls s). tls_value s' t c = tls_value s t c \<and> initial_value s' c = initial_value s c \<and>
        obj_size (controls s' ! c) = obj_size (controls s ! c) \<and>
        (variable_at s t c \<noteq> 0 \<longrightarrow> variable_at s' t c = variable_at s t c))"

lemma keeps_values_refl [simp]: "keeps_values s s" by (simp add: keeps_values_def)

lemma keeps_valuesD:
  assumes "keeps_values s s'"
  shows "length (controls s') = length (controls s)" "EMUTLS_SKIP_DESTRUCTOR_ROUNDS s' = EMUTLS_SKIP_DESTRUCTOR_ROUNDS s"
    and "c < length (controls s) \<Longrightarrow> tls_value s' t c = tls_value s t c"
    and "c < length (controls s) \<Longrightarrow> initial_value s' c = initial_value s c"
    and "c < length (controls s) \<Longrightarrow> obj_size (controls s' ! c) = obj_size (controls s ! c)"
    and "c < length (controls s) \<Longrightarrow> variable_at s t c \<noteq> 0 \<Longrightarrow> variable_at s' t c = variable_at s t c"
  using assms by (auto simp: keeps_values_def)

lemma keeps_values_trans: "keeps_values s s' \<Longrightarrow> keeps_values s' s'' \<Longrightarrow> keeps_values s s''"
  by (auto simp: keeps_values_def)

section \<open>Indices\<close>

lemma indices_ok_bound:
  assumes "indices_ok cs num"
  shows "unat num \<le> length cs" "c < length cs \<Longrightarrow> unat (object_index (cs ! c)) \<le> length cs"
proof -
  have "card {c. c < length cs \<and> object_index (cs ! c) \<noteq> 0} \<le> card {..<length cs}"
    by (rule card_mono) auto
  then show "unat num \<le> length cs" using assms by (simp add: indices_ok_def)
  then show "unat (object_index (cs ! c)) \<le> length cs" if "c < length cs"
    using assms that by (fastforce simp: indices_ok_def word_le_nat_alt)
qed

lemma indices_ok_next:
  assumes ok: "indices_ok cs num" and c: "c < length cs" "object_index (cs ! c) = 0"
  shows "indices_ok (cs[c := (cs ! c)\<lparr>object_index := num + 1\<rparr>]) (num + 1)"
    and "unat (num + 1) = unat num + 1"
proof -
  define used where "used = {c. c < length cs \<and> object_index (cs ! c) \<noteq> 0}"
  define cs' where "cs' = cs[c := (cs ! c)\<lparr>object_index := num + 1\<rparr>]"
  have "used \<subset> {..<length cs}" using c by (auto simp: used_def)
  then have "card used < card {..<length cs}" by (intro psubset_card_mono) auto
  then have room: "unat num < length cs" "length cs < 2 ^ 59" using ok by (simp_all add: indices_ok_def used_def)
  then show num1: "unat (num + 1) = unat num + 1" using unat_plus_of_nat [of num 1] by simp
  then have "num + 1 \<noteq> 0" "\<And>i. i \<le> num \<Longrightarrow> i \<le> num + 1 \<and> i \<noteq> num + 1" by (auto simp: word_le_nat_alt)
  then have used': "{d. d < length cs' \<and> object_index (cs' ! d) \<noteq> 0} = insert c used"
    using c by (auto simp: cs'_def used_def nth_list_update)
  have le: "object_index (cs ! d) \<le> num" if "d < length cs" for d using ok that by (simp add: indices_ok_def)
  have inj: "inj_on (\<lambda>d. object_index (cs ! d)) used" using ok by (simp add: indices_ok_def used_def)
  have "inj_on (\<lambda>d. object_index (cs' ! d)) (insert c used)"
  proof (rule inj_onI)
    fix x y assume xy: "x \<in> insert c used" "y \<in> insert c used" "object_index (cs' ! x) = object_index (cs' ! y)"
    have "object_index (cs' ! z) = (if z = c then num + 1 else object_index (cs ! z))" if "z \<in> insert c used" for z
      using that c by (auto simp: cs'_def used_def nth_list_update)
    then show "x = y"
      using xy le \<open>\<And>i. i \<le> num \<Longrightarrow> i \<le> num + 1 \<and> i \<noteq> num + 1\<close> inj
      by (auto simp: used_def inj_on_def split: if_splits)
  qed
  moreover have "card (insert c used) = unat num + 1"
    using ok c by (subst card_insert_disjoint) (auto simp: indices_ok_def used_def)
  moreover have "object_index (cs' ! d) \<le> num + 1" if "d < length cs'" for d
    using that le [of d] \<open>\<And>i. i \<le> num \<Longrightarrow> i \<le> num + 1 \<and> i \<noteq> num + 1\<close> c by (auto simp: cs'_def nth_list_update)
  ultimately show "indices_ok (cs[c := (cs ! c)\<lparr>object_index := num + 1\<rparr>]) (num + 1)"
    using used' num1 room by (simp add: indices_ok_def flip: cs'_def) (simp add: cs'_def)
qed

lemma slot_index_le:
  assumes "tls_ok s" "slot (mem s) (specific s t) i \<noteq> 0"
  shows "Suc i \<le> unat (emutls_num_object s)"
proof -
  obtain c where "c < length (controls s)" "unat (object_index (controls s ! c)) = Suc i"
    using slot_object [OF assms] by metis
  then show ?thesis using tls_okD(2) [OF assms(1)] by (fastforce simp: indices_ok_def word_le_nat_alt)
qed

text \<open>A control that has no index gets the next one.\<close>

lemma set_index_ok:
  assumes ok: "tls_ok s" and c: "c < length (controls s)" "object_index (controls s ! c) = 0" and key: "emutls_key_created s"
  defines "num \<equiv> emutls_num_object s + 1"
  defines "s' \<equiv> set_index c num (s\<lparr>emutls_num_object := num\<rparr>)"
  shows "tls_ok s'" "keeps_values s s'"
proof -
  have num: "unat num = unat (emutls_num_object s) + 1"
    unfolding num_def by (rule indices_ok_next(2) [OF tls_okD(2) [OF ok] c])
  have sel: "mem s' = mem s" "blocks s' = blocks s" "statics s' = statics s" "specific s' = specific s"
      "controls s' = (controls s)[c := (controls s ! c)\<lparr>object_index := num\<rparr>]" "emutls_num_object s' = num"
      "emutls_key_created s' = True" "init_once_done s' = init_once_done s"
      "EMUTLS_SKIP_DESTRUCTOR_ROUNDS s' = EMUTLS_SKIP_DESTRUCTOR_ROUNDS s"
    using key by (simp_all add: s'_def set_index_def)
  have field: "obj_size (controls s' ! d) = obj_size (controls s ! d)" "obj_value (controls s' ! d) = obj_value (controls s ! d)"
      "obj_align (controls s' ! d) = obj_align (controls s ! d)" for d
    using c by (auto simp: sel nth_list_update)
  have "slots_ok (controls s') (blocks s') (mem s') (specific s' t)" for t
    unfolding slots_ok_def
  proof (intro allI impI)
    fix i assume "slot (mem s') (specific s' t) i \<noteq> 0"
    then obtain d where "d < length (controls s)" "unat (object_index (controls s ! d)) = Suc i"
        "object_ok (blocks s) (mem s) (controls s ! d) (slot (mem s) (specific s t) i)"
      using tls_okD(4) [OF ok, of t] by (auto simp: slots_ok_def sel)
    moreover have "d \<noteq> c" using calculation c(2) by auto
    ultimately show "\<exists>d < length (controls s'). unat (object_index (controls s' ! d)) = Suc i \<and>
        object_ok (blocks s') (mem s') (controls s' ! d) (slot (mem s') (specific s' t) i)"
      by (intro exI [of _ d]) (simp add: sel)
  qed
  moreover have "control_ok (statics s') (controls s' ! d)" if "d < length (controls s')" for d
  proof -
    have "align_of (controls s' ! d) = align_of (controls s ! d)" by (simp add: align_of_def field)
    then show ?thesis
      using tls_okD(6) [OF ok, of d] that by (simp only: control_ok_def field) (simp add: sel)
  qed
  moreover have "heap_ok s'" using tls_okD(1) [OF ok] by (simp add: heap_ok_def sel)
  moreover have "owner s' = owner s" by (simp add: owner_def sel)
  ultimately show "tls_ok s'"
    using ok indices_ok_next(1) [OF tls_okD(2) [OF ok] c] by (simp add: tls_ok_def list_all_length sel num_def)
  have "slot (mem s) (specific s t) (unat num - 1) = 0" for t
    using slot_index_le [OF ok, of t "unat num - 1"] num by fastforce
  then have "variable_at s' t d = variable_at s t d" if "d < length (controls s)" for t d
    using that c by (cases "d = c") (simp_all add: variable_at_def Let_def sel)
  then show "keeps_values s s'"
    by (simp add: keeps_values_def tls_value_def initial_value_def field Let_def) (simp add: sel)
qed

lemma get_index_ok:
  assumes ok: "tls_ok s" and c: "c < length (controls s)"
  shows "meets (emutls_get_index c) s (\<lambda>i s'. tls_ok s' \<and> keeps_values s s' \<and> i \<noteq> 0 \<and>
     object_index (controls s' ! c) = i \<and> emutls_key_created s')"
proof (cases "object_index (controls s ! c) = 0")
  case True
  define s1 where "s1 = s\<lparr>init_once_done := True, emutls_key_created := True\<rparr>"
  have ok1: "tls_ok s1" "object_index (controls s1 ! c) = 0" "c < length (controls s1)" "emutls_key_created s1"
    using ok c True by (auto simp: s1_def tls_ok_def heap_ok_def owner_def)
  have "emutls_init_once s = Inr ((), s1) \<or> emutls_init_once s = Inl Aborted"
    using tls_okD(9) [OF ok] by (auto simp: emutls_init_once_def emutls_init_def s1_def)
  moreover have "keeps_values s s1"
    by (simp add: s1_def keeps_values_def tls_value_def initial_value_def variable_at_def Let_def)
  moreover have "emutls_num_object s1 + 1 \<noteq> 0"
    using indices_ok_next(2) [OF tls_okD(2) [OF ok1(1)] ok1(3,2)] by (metis add_is_0 one_neq_zero unsigned_0)
  ultimately show ?thesis
    using True ok1 set_index_ok [OF ok1(1,3,2,4)]
    by (auto simp: meets_def emutls_get_index_def set_index_def and_then_def Let_def intro: keeps_values_trans)
next
  case False
  then show ?thesis
    using ok c tls_okD(7) [OF ok c] by (simp add: meets_def emutls_get_index_def)
qed

section \<open>Frames\<close>

text \<open>A memory that agrees on the array of a thread has the same slots.\<close>

lemma size_at_within: "unat p + 16 \<le> 2 ^ 64 \<Longrightarrow> 16 \<le> n \<Longrightarrow> within (size_at p) 8 (p, n)"
  using unat_plus_of_nat [of p 8] by (simp add: within_def size_at_def)

lemma unat_data_at:
  "unat p + 16 + 8 * i < 2 ^ 64 \<Longrightarrow> unat (data_at p (of_nat i)) = unat p + 16 + 8 * i"
  using unat_plus_of_nat [of p "16 + 8 * i"] by (simp add: data_at_def ac_simps)

lemma data_at_within:
  "unat p + n < 2 ^ 64 \<Longrightarrow> 16 + 8 * i + 8 \<le> n \<Longrightarrow> within (data_at p (of_nat i)) 8 (p, n)"
  by (simp add: within_def unat_data_at)

lemma array_transfer:
  assumes p: "p \<noteq> 0" "unat p + (16 + 8 * array_len m p) < 2 ^ 64" and agree: "agree m m' p (16 + 8 * array_len m p)"
  shows "array_len m' p = array_len m p" "slot m' p = slot m p"
    and "load_word m' (skip_destructor_rounds_at p) = load_word m (skip_destructor_rounds_at p)"
proof -
  have "within (skip_destructor_rounds_at p) 8 (p, 16 + 8 * array_len m p)" by (simp add: within_def skip_destructor_rounds_at_def)
  then show "load_word m' (skip_destructor_rounds_at p) = load_word m (skip_destructor_rounds_at p)"
    using p by (intro agree_load_word agree_within [OF agree]) auto
  have "within (size_at p) 8 (p, 16 + 8 * array_len m p)" using p by (intro size_at_within) auto
  then have "load_word m' (size_at p) = load_word m (size_at p)"
    using agree p by (intro agree_load_word agree_within [OF agree]) auto
  then show len: "array_len m' p = array_len m p" by (simp add: array_len_def)
  have "load_word m' (data_at p (of_nat i)) = load_word m (data_at p (of_nat i))" if "i < array_len m p" for i
    using that p by (intro agree_load_word agree_within [OF agree] data_at_within) auto
  then show "slot m' p = slot m p" by (auto simp: slot_def len)
qed

text \<open>An object whose block is kept is kept.\<close>

lemma object_transfer:
  fixes s t i
  defines "d \<equiv> slot (mem s) (specific s t) i"
  assumes ok: "tls_ok s" and d0: "d \<noteq> 0" and c: "c < length (controls s)" "unat (object_index (controls s ! c)) = Suc i"
    and keep: "\<And>b n. owner s (t, Suc i) = b \<Longrightarrow> (b, n) \<in> set (blocks s) \<Longrightarrow> (b, n) \<in> set bs' \<and> agree (mem s) m' b n"
  shows "load_word m' (d - 8) = load_word (mem s) (d - 8)" "object_ok bs' m' (controls s ! c) d"
    and "load_bytes m' d (unat (obj_size (controls s ! c))) = load_bytes (mem s) d (unat (obj_size (controls s ! c)))"
proof -
  obtain c' b n where o: "c' < length (controls s)" "unat (object_index (controls s ! c')) = Suc i"
    "object_ok (blocks s) (mem s) (controls s ! c') d"
    "b = load_word (mem s) (d - 8)" "n = unat (block_bytes (controls s ! c'))" "(b, n) \<in> set (blocks s)"
    "within d (unat (obj_size (controls s ! c'))) (b, n)" "within (d - 8) 8 (b, n)"
    using slot_object [OF ok d0 [unfolded d_def]] unfolding d_def by metis
  have "object_index (controls s ! c) = object_index (controls s ! c')" using c(2) o(2) by (simp add: word_unat_eq_iff)
  moreover have "object_index (controls s ! c) \<noteq> 0" using c(2) by auto
  ultimately have c': "c' = c"
    using tls_okD(2) [OF ok] c(1) o(1) by (auto simp: indices_ok_def inj_on_def)
  have "owner s (t, Suc i) = b" using d0 o(4) by (simp add: owner_Suc d_def)
  then have b: "(b, n) \<in> set bs'" "agree (mem s) m' b n" using keep o(6) by auto
  have wrap: "unat b + n \<le> 2 ^ 64" using heap_okD(2) [OF tls_okD(1) [OF ok], of "(b, n)"] o(6) by simp
  show w: "load_word m' (d - 8) = load_word (mem s) (d - 8)"
    by (rule agree_load_word, rule agree_within [OF b(2) o(8) wrap])
  show "object_ok bs' m' (controls s ! c) d" using o(3-5) b(1) by (simp add: object_ok_def w c')
  show "load_bytes m' d (unat (obj_size (controls s ! c))) = load_bytes (mem s) d (unat (obj_size (controls s ! c)))"
    by (rule agree_load_bytes, rule agree_within [OF b(2) o(7) [unfolded c'] wrap])
qed

lemma slot_control:
  assumes "tls_ok s" "slot (mem s) (specific s t) i \<noteq> 0"
  shows "\<exists>c < length (controls s). unat (object_index (controls s ! c)) = Suc i"
  using slot_object [OF assms] by metis

text \<open>A thread whose slots stay and whose objects keep their blocks keeps its objects.\<close>

lemma objects_transfer:
  assumes ok: "tls_ok s" and slots: "slot m' p' = slot (mem s) (specific s t)"
    and keep: "\<And>i b n. owner s (t, Suc i) = b \<Longrightarrow> (b, n) \<in> set (blocks s) \<Longrightarrow> (b, n) \<in> set bs' \<and> agree (mem s) m' b n"
  shows "slots_ok (controls s) bs' m' p'" "owned m' p' (Suc i) = owner s (t, Suc i)"
    and "c < length (controls s) \<Longrightarrow> unat (object_index (controls s ! c)) = Suc i \<Longrightarrow> slot (mem s) (specific s t) i \<noteq> 0 \<Longrightarrow>
      load_bytes m' (slot (mem s) (specific s t) i) (unat (obj_size (controls s ! c))) =
      load_bytes (mem s) (slot (mem s) (specific s t) i) (unat (obj_size (controls s ! c)))"
proof -
  have object: "object_ok bs' m' (controls s ! c) (slot (mem s) (specific s t) i)"
      "load_word m' (slot (mem s) (specific s t) i - 8) = load_word (mem s) (slot (mem s) (specific s t) i - 8)"
      "load_bytes m' (slot (mem s) (specific s t) i) (unat (obj_size (controls s ! c))) =
       load_bytes (mem s) (slot (mem s) (specific s t) i) (unat (obj_size (controls s ! c)))"
    if "slot (mem s) (specific s t) i \<noteq> 0" "c < length (controls s)" "unat (object_index (controls s ! c)) = Suc i" for i c
    using object_transfer [OF ok that, of bs' m'] keep [of i] by blast+
  show "slots_ok (controls s) bs' m' p'"
    unfolding slots_ok_def slots using object(1) slot_control [OF ok] by blast
  have "load_word m' (slot (mem s) (specific s t) i - 8) = load_word (mem s) (slot (mem s) (specific s t) i - 8)"
    if "slot (mem s) (specific s t) i \<noteq> 0"
    using object(2) [OF that] slot_control [OF ok that] by blast
  then show "owned m' p' (Suc i) = owner s (t, Suc i)" by (simp add: owned_def owner_Suc slots)
  show "load_bytes m' (slot (mem s) (specific s t) i) (unat (obj_size (controls s ! c))) =
      load_bytes (mem s) (slot (mem s) (specific s t) i) (unat (obj_size (controls s ! c)))"
    if "c < length (controls s)" "unat (object_index (controls s ! c)) = Suc i" "slot (mem s) (specific s t) i \<noteq> 0"
    using object(3) [OF that(3,1,2)] .
qed

text \<open>What is left to show of an operation that changes the memory, the blocks and the key's value only.\<close>

lemma tls_ok_update:
  assumes "tls_ok s" "emutls_key_created s"
    and "s' = s\<lparr>mem := m', blocks := bs', candidates := ps, specific := sp\<rparr>"
    and "heap_ok s'" "names (owner s') (fst ` set bs')"
    and "\<And>t. array_ok bs' m' (sp t)" "\<And>t. slots_ok (controls s) bs' m' (sp t)"
    and "\<And>t. sp t \<noteq> 0 \<Longrightarrow> load_word m' (skip_destructor_rounds_at (sp t)) = EMUTLS_SKIP_DESTRUCTOR_ROUNDS s"
  shows "tls_ok s'"
  using assms by (simp add: tls_ok_def)

lemma keeps_valuesI:
  assumes ok: "tls_ok s" and s': "s' = s\<lparr>mem := m', blocks := bs', candidates := ps, specific := sp\<rparr>"
    and statics: "\<And>b n. (b, n) \<in> set (statics s) \<Longrightarrow> agree (mem s) m' b n"
    and old: "\<And>t i. slot (mem s) (specific s t) i \<noteq> 0 \<Longrightarrow> slot m' (sp t) i = slot (mem s) (specific s t) i"
    and contents: "\<And>t i c. c < length (controls s) \<Longrightarrow> unat (object_index (controls s ! c)) = Suc i \<Longrightarrow>
      slot (mem s) (specific s t) i \<noteq> 0 \<Longrightarrow>
      load_bytes m' (slot (mem s) (specific s t) i) (unat (obj_size (controls s ! c))) =
      load_bytes (mem s) (slot (mem s) (specific s t) i) (unat (obj_size (controls s ! c)))"
    and new: "\<And>t i c. c < length (controls s) \<Longrightarrow> unat (object_index (controls s ! c)) = Suc i \<Longrightarrow>
      slot (mem s) (specific s t) i = 0 \<Longrightarrow> slot m' (sp t) i \<noteq> 0 \<Longrightarrow>
      load_bytes m' (slot m' (sp t) i) (unat (obj_size (controls s ! c))) = initial_value s c"
  shows "keeps_values s s'"
  unfolding keeps_values_def
proof (intro conjI allI impI)
  fix t c assume c: "c < length (controls s)"
  have init: "initial_value s' c = initial_value s c"
    using tls_okD(6) [OF ok c] statics
    by (auto simp: initial_value_def s' control_ok_def Let_def intro!: agree_load_bytes)
  then show "initial_value s' c = initial_value s c" .
  define i where "i = unat (object_index (controls s ! c)) - 1"
  have at: "variable_at s t c = (if object_index (controls s ! c) = 0 then 0 else slot (mem s) (specific s t) i)"
    "variable_at s' t c = (if object_index (controls s ! c) = 0 then 0 else slot m' (sp t) i)"
    by (simp_all add: variable_at_def s' i_def Let_def)
  have i: "unat (object_index (controls s ! c)) = Suc i" if "object_index (controls s ! c) \<noteq> 0"
    using that by (simp add: i_def unat_gt_0)
  show "tls_value s' t c = tls_value s t c"
    using old [of t i] contents [OF c i] new [OF c i] init at by (auto simp: tls_value_def s')
  show "variable_at s t c \<noteq> 0 \<Longrightarrow> variable_at s' t c = variable_at s t c"
    using old [of t i] at by (auto split: if_splits)
qed (simp_all add: s')

lemma names_replace:
  assumes "names f B" "q \<noteq> 0" "q \<notin> B - {f x}" "0 \<notin> B"
  shows "names (f(x := q)) (insert q (B - {f x}))"
proof -
  have "B - f ` {y \<in> {x}. f y \<noteq> 0} = B - {f x}" using assms(4) by auto
  then have "names (\<lambda>y. if y \<in> {x} then 0 else f y) (B - {f x})" using names_remove [OF assms(1), of "{x}"] by simp
  from names_insert [OF this, of x q] assms(2,3)
  have "names ((\<lambda>y. if y \<in> {x} then 0 else f y)(x := q)) (insert q (B - {f x}))" by simp
  moreover have "(\<lambda>y. if y \<in> {x} then 0 else f y)(x := q) = f(x := q)" by auto
  ultimately show ?thesis by simp
qed

lemma blocks_not_null: "heap_ok s \<Longrightarrow> 0 \<notin> fst ` set (blocks s)"
  using heap_okD(1) by fastforce

section \<open>A new array for a thread\<close>

lemma new_array_ok:
  assumes ok: "tls_ok s" and key: "emutls_key_created s"
    and s': "s' = s\<lparr>mem := m', blocks := (q, 16 + 8 * N) # others, candidates := ps, specific := (specific s)(t := q)\<rparr>"
    and others: "others = filter (\<lambda>b. fst b \<noteq> specific s t) (blocks s)"
    and q: "fits (others @ statics s) q (16 + 8 * N)"
    and agree: "\<And>b n. (b, n) \<in> set (others @ statics s) \<Longrightarrow> agree (mem s) m' b n"
    and len: "array_len m' q = N" and slots: "slot m' q = slot (mem s) (specific s t)"
    and header: "load_word m' (skip_destructor_rounds_at q) = EMUTLS_SKIP_DESTRUCTOR_ROUNDS s"
  shows "tls_ok s'" "keeps_values s s'"
proof -
  have q0: "q \<noteq> 0" and new: "q \<notin> fst ` set others" using q by (auto simp: fits_def)
  define s0 where "s0 = s\<lparr>blocks := others\<rparr>"
  have "heap_ok s0" unfolding s0_def others by (rule heap_ok_filter [OF tls_okD(1) [OF ok]])
  then have "heap_ok (s0\<lparr>blocks := (q, 16 + 8 * N) # blocks s0\<rparr>)"
    using q by (intro heap_ok_alloc) (simp_all add: s0_def)
  then have heap: "heap_ok s'" by (simp add: s' s0_def heap_ok_def)
  have keep: "(b, n) \<in> set ((q, 16 + 8 * N) # others) \<and> agree (mem s) m' b n"
    if "owner s x = b" "x \<noteq> (t, 0)" "(b, n) \<in> set (blocks s)" for x b n
  proof -
    have "b \<noteq> 0" using heap_okD(1) [OF tls_okD(1) [OF ok], of "(b, n)"] that by simp
    then have "b \<noteq> specific s t" using names_inj [OF tls_okD(5) [OF ok], of x "(t, 0)"] that by (auto simp: owner_0)
    then show ?thesis using that agree by (auto simp: others)
  qed
  have tr: "slot m' (specific s' t') = slot (mem s) (specific s t')" for t'
  proof (cases "t' = t \<or> specific s t' = 0")
    case False
    then have "(specific s t', 16 + 8 * array_len (mem s) (specific s t')) \<in> set (blocks s)"
      using tls_okD(3) [OF ok, of t'] by (auto simp: array_ok_def)
    moreover have "agree (mem s) m' (specific s t') (16 + 8 * array_len (mem s) (specific s t'))"
      using keep [of "(t', 0)"] False calculation by (auto simp: owner_0)
    ultimately show ?thesis
      using False array_transfer(2) [of "specific s t'" "mem s" m']
        heap_okD(2) [OF tls_okD(1) [OF ok], of "(specific s t', 16 + 8 * array_len (mem s) (specific s t'))"]
      by (auto simp: s')
  qed (auto simp: s' slots)
  have objs: "owner s (t', Suc i) = b \<Longrightarrow> (b, n) \<in> set (blocks s) \<Longrightarrow>
      (b, n) \<in> set ((q, 16 + 8 * N) # others) \<and> agree (mem s) m' b n" for t' i b n
    using keep [of "(t', Suc i)" b n] by auto
  note transfer = objects_transfer [OF ok tr objs]
  have "array_ok ((q, 16 + 8 * N) # others) m' (specific s' t') \<and>
      (specific s' t' \<noteq> 0 \<longrightarrow> load_word m' (skip_destructor_rounds_at (specific s' t')) = EMUTLS_SKIP_DESTRUCTOR_ROUNDS s)" for t'
  proof (cases "t' = t \<or> specific s t' = 0")
    case False
    then have p: "(specific s t', 16 + 8 * array_len (mem s) (specific s t')) \<in> set (blocks s)"
      using tls_okD(3) [OF ok, of t'] by (auto simp: array_ok_def)
    moreover have k: "(specific s t', 16 + 8 * array_len (mem s) (specific s t')) \<in> set ((q, 16 + 8 * N) # others)"
        "agree (mem s) m' (specific s t') (16 + 8 * array_len (mem s) (specific s t'))"
      using keep [OF owner_0 _ p] False by simp_all
    ultimately have "array_len m' (specific s t') = array_len (mem s) (specific s t')"
        "load_word m' (skip_destructor_rounds_at (specific s t')) = load_word (mem s) (skip_destructor_rounds_at (specific s t'))"
      using False array_transfer(1,3) [of "specific s t'" "mem s" m']
        heap_okD(2) [OF tls_okD(1) [OF ok], of "(specific s t', 16 + 8 * array_len (mem s) (specific s t'))"]
      by auto
    then show ?thesis using k False tls_okD(10) [OF ok, of t'] by (auto simp: array_ok_def s')
  qed (auto simp: s' array_ok_def len header)
  moreover have "owner s' = (owner s)((t, 0) := q)"
  proof
    fix x show "owner s' x = ((owner s)((t, 0) := q)) x"
      using transfer(2) by (cases x; cases "snd x") (auto simp: owner_def owned_def s' split: nat.splits)
  qed
  moreover have "fst ` set ((q, 16 + 8 * N) # others) = insert q (fst ` set (blocks s) - {owner s (t, 0)})"
    by (auto simp: others owner_0)
  then have "names ((owner s)((t, 0) := q)) (fst ` set ((q, 16 + 8 * N) # others))"
    using names_replace [OF tls_okD(5) [OF ok] q0, of "(t, 0)"] blocks_not_null [OF tls_okD(1) [OF ok]] new
    by (auto simp: others owner_0)
  ultimately show "tls_ok s'"
    using transfer(1) by (intro tls_ok_update [OF ok key s' heap]) (simp_all add: s')
  show "keeps_values s s'"
    using agree transfer(3) tr by (intro keeps_valuesI [OF ok s']) (auto simp: s')
qed

lemma new_data_array_size:
  assumes "unat index + 17 < 2 ^ 64"
  shows "unat (emutls_new_data_array_size index) = (unat index + 17) div 16 * 16 - 2"
    and "unat index \<le> unat (emutls_new_data_array_size index)"
    and "unat (emutls_new_data_array_size index) < unat index + 16"
    and "16 dvd unat (emutls_new_data_array_size index) + 2"
proof -
  define x where "x = unat index"
  have "unat (index + 2 + 15) = x + 17"
    using assms unat_plus_of_nat [of index 17] by (simp add: x_def add.assoc)
  then have r: "unat ((index + 2 + 15) AND NOT 15) = (x + 17) div 16 * 16"
    using unat_and_not_mask [of 4 "index + 2 + 15"] by simp
  have q: "16 \<le> (x + 17) div 16 * 16" "x + 2 \<le> (x + 17) div 16 * 16" "(x + 17) div 16 * 16 \<le> x + 17"
    by presburger+
  then have "(2::uintptr) \<le> (index + 2 + 15) AND NOT 15" using r by (simp add: word_le_nat_alt)
  then have "unat (((index + 2 + 15) AND NOT 15) - 2) = (x + 17) div 16 * 16 - 2" by (simp only: unat_minus_le r) simp
  then show eq: "unat (emutls_new_data_array_size index) = (unat index + 17) div 16 * 16 - 2"
    by (simp add: emutls_new_data_array_size_def x_def)
  show "unat index \<le> unat (emutls_new_data_array_size index)"
    "unat (emutls_new_data_array_size index) < unat index + 16"
    unfolding eq x_def [symmetric] using q by auto
  have "(x + 17) div 16 * 16 - 2 + 2 = (x + 17) div 16 * 16" using q(1) by simp
  then show "16 dvd unat (emutls_new_data_array_size index) + 2"
    unfolding eq x_def [symmetric] by (simp only: dvd_triv_right)
qed

lemma unat_asize: "unat N < 2 ^ 60 \<Longrightarrow> unat (emutls_asize N) = 16 + 8 * unat N"
  by (simp add: emutls_asize_def unat_plus_mod unat_times_mod)

lemma load_word_other:
  "unat p + 8 \<le> 2 ^ 64 \<Longrightarrow> unat q + 8 \<le> 2 ^ 64 \<Longrightarrow> apart (p, 8) (q, 8) \<Longrightarrow> load_word (store_word m q w) p = load_word m p"
  unfolding store_word_def by (rule load_word_store_bytes) (simp add: apart_regions)

text \<open>The words of a block \<open>q\<close> that the header and a range of zeros were written to.\<close>

lemma header_words:
  assumes "unat q + (16 + 8 * N) < 2 ^ 64" "i < N"
  shows "load_word (store_word m (size_at q) w) (data_at q (of_nat i)) = load_word m (data_at q (of_nat i))"
    and "load_word (store_word m (skip_destructor_rounds_at q) w) (data_at q (of_nat i)) = load_word m (data_at q (of_nat i))"
  using assms unat_data_at [of q i] unat_plus_of_nat [of q 8]
  by (auto intro!: load_word_other simp: size_at_def skip_destructor_rounds_at_def apart_def)

lemma header_apart:
  assumes "unat q + (16 + 8 * N) < 2 ^ 64"
  shows "load_word (store_word m (size_at q) w) (skip_destructor_rounds_at q) = load_word m (skip_destructor_rounds_at q)"
    and "load_word (store_word m (skip_destructor_rounds_at q) w) (size_at q) = load_word m (size_at q)"
  using assms unat_plus_of_nat [of q 8]
  by (auto intro!: load_word_other simp: size_at_def skip_destructor_rounds_at_def apart_def)

lemma data_words_zero:
  assumes "unat q + (16 + 8 * N) < 2 ^ 64" "i < N" "M \<le> i"
  shows "load_word (store_bytes m (data_at q (of_nat M)) (replicate (8 * (N - M)) 0)) (data_at q (of_nat i)) = 0"
proof -
  have "data_at q (of_nat i) = data_at q (of_nat M) + of_nat (8 * (i - M))"
    using assms(3) by (simp add: data_at_def of_nat_diff algebra_simps)
  then show ?thesis
    using assms by (simp only:) (intro load_word_zeros, auto)
qed

lemma data_words_kept:
  assumes "unat q + (16 + 8 * N) < 2 ^ 64" "i < M" "M \<le> N"
  shows "load_word (store_bytes m (data_at q (of_nat M)) (replicate (8 * (N - M)) 0)) (data_at q (of_nat i)) =
    load_word m (data_at q (of_nat i))"
  using assms unat_data_at [of q i] unat_data_at [of q M]
  by (intro load_word_store_bytes apart_regions) (auto simp: apart_def)

lemma agree_block:
  assumes q: "fits used q (16 + 8 * N)" and b: "(b, n) \<in> set used" "unat b + n \<le> 2 ^ 64"
    and p: "within p k (q, 16 + 8 * N)"
  shows "region b n \<inter> region p k = {}"
  using fitsD [OF q b(1)] b(2) within_region [OF p] q by (fastforce simp: fits_def)

lemma header_within:
  assumes "unat q + (16 + 8 * N) < 2 ^ 64"
  shows "within (size_at q) 8 (q, 16 + 8 * N)" "within (skip_destructor_rounds_at q) 8 (q, 16 + 8 * N)"
    and "M \<le> N \<Longrightarrow> within (data_at q (of_nat M)) (8 * (N - M)) (q, 16 + 8 * N)"
  using assms unat_data_at [of q M] unat_plus_of_nat [of q 8]
  by (auto simp: within_def size_at_def skip_destructor_rounds_at_def)

lemma meets_setspecific:
  "emutls_key_created s \<Longrightarrow> Q () (s\<lparr>specific := (specific s)(t := v)\<rparr>) \<Longrightarrow> meets (emutls_setspecific t v) s Q"
  by (simp add: meets_def emutls_setspecific_def)

lemma meets_getspecific:
  "emutls_key_created s \<Longrightarrow> Q (specific s t) s \<Longrightarrow> meets (emutls_getspecific t) s Q"
  by (simp add: meets_def emutls_getspecific_def)

lemma meets_check_array_set_size:
  assumes "array \<noteq> 0 \<Longrightarrow> writable s (size_at array) 8" "emutls_key_created s"
    and "array \<noteq> 0 \<Longrightarrow> Q () (s\<lparr>mem := store_word (mem s) (size_at array) sz, specific := (specific s)(t := array)\<rparr>)"
  shows "meets (emutls_check_array_set_size t array sz) s Q"
  using assms unfolding emutls_check_array_set_size_def
  by (auto intro!: meets_intro meets_write_word meets_setspecific)

lemma meets_write_value:
  assumes "writable s p 8" "Q () (s\<lparr>mem := store_word (mem s) p (w s)\<rparr>)"
  shows "meets (\<lambda>s. write_word p (w s) s) s Q"
  using assms by (simp add: meets_def write_word_def)

lemma writable_mem [simp]: "writable (s\<lparr>mem := m\<rparr>) p n = writable s p n"
  by (simp add: writable_def)

text \<open>What a call leaves behind that provides an array of at least \<open>N\<close> slots.\<close>

definition provides :: "tls \<Rightarrow> nat \<Rightarrow> nat \<Rightarrow> addr \<Rightarrow> tls \<Rightarrow> bool" where
  "provides s t N array s' \<longleftrightarrow>
     tls_ok s' \<and> keeps_values s s' \<and> controls s' = controls s \<and> emutls_key_created s' \<and> specific s' t = array \<and> array \<noteq> 0 \<and>
     N \<le> array_len (mem s') array"

text \<open>The first array of a thread.\<close>

lemma fresh_array_ok:
  fixes sz :: uintptr
  assumes ok: "tls_ok s" and key: "emutls_key_created s" and null: "specific s t = 0" and sz: "unat sz < 2 ^ 60"
  shows "meets (malloc (emutls_asize sz)) s (\<lambda>array s1.
     meets (if array \<noteq> 0 then
              and_then (memset (data_at array 0) 0 (sz * 8)) (\<lambda>_ s.
              write_word (skip_destructor_rounds_at array) (EMUTLS_SKIP_DESTRUCTOR_ROUNDS s) s)
            else return_value ()) s1 (\<lambda>_ s2.
     meets (emutls_check_array_set_size t array sz) s2 (\<lambda>_ s3. provides s t (unat sz) array s3)))"
proof (rule meets_malloc)
  fix q ps
  assume "fits (blocks s @ statics s) q (unat (emutls_asize sz))"
  then have q: "fits (blocks s @ statics s) q (16 + 8 * unat sz)" by (simp add: unat_asize [OF sz])
  define N where "N = unat sz"
  define rounds where "rounds = EMUTLS_SKIP_DESTRUCTOR_ROUNDS s"
  have wrap: "unat q + (16 + 8 * N) < 2 ^ 64" and q0: "q \<noteq> 0" using q by (simp_all add: fits_def N_def)
  have sz8: "unat (sz * 8) = 8 * N" using sz by (simp add: unat_times_mod N_def)
  note inside = header_within [OF wrap]
  define s1 where "s1 = s\<lparr>blocks := (q, unat (emutls_asize sz)) # blocks s, candidates := ps\<rparr>"
  have block: "(q, 16 + 8 * N) \<in> set (blocks s1)" by (simp add: s1_def N_def unat_asize [OF sz])
  define m1 where "m1 = store_bytes (mem s) (data_at q 0) (replicate (8 * N) 0)"
  define m2 where "m2 = store_word m1 (skip_destructor_rounds_at q) rounds"
  define m3 where "m3 = store_word m2 (size_at q) sz"
  have len: "array_len m3 q = N" by (simp add: array_len_def m3_def N_def)
  have slots: "slot m3 q = slot (mem s) (specific s t)"
  proof
    fix i
    have "load_word m3 (data_at q (of_nat i)) = 0" if "i < N"
      using data_words_zero [OF wrap that, of 0 "mem s"] by (simp add: m3_def m2_def m1_def header_words [OF wrap that])
    then show "slot m3 q i = slot (mem s) (specific s t) i" by (simp add: null slot_def len)
  qed
  have agree: "agree (mem s) m3 b n" if "(b, n) \<in> set (blocks s @ statics s)" for b n
  proof -
    have "unat b + n \<le> 2 ^ 64" using heap_okD(2) [OF tls_okD(1) [OF ok] that] by simp
    note apart = agree_block [OF q that this, folded N_def]
    have "agree (mem s) m1 b n"
      unfolding m1_def using apart [OF inside(3) [of 0]] by (intro agree_store_bytes) simp
    moreover have "agree m1 m2 b n" unfolding m2_def by (intro agree_store_word apart inside)
    moreover have "agree m2 m3 b n" unfolding m3_def by (intro agree_store_word apart inside)
    ultimately show ?thesis using agree_trans by blast
  qed
  have "load_word m3 (skip_destructor_rounds_at q) = load_word m2 (skip_destructor_rounds_at q)"
    unfolding m3_def using wrap by (rule header_apart)
  then have header: "load_word m3 (skip_destructor_rounds_at q) = EMUTLS_SKIP_DESTRUCTOR_ROUNDS s"
    by (simp add: m2_def rounds_def)
  have others: "blocks s = filter (\<lambda>b. fst b \<noteq> specific s t) (blocks s)"
    using heap_okD(1) [OF tls_okD(1) [OF ok]] by (auto simp: null filter_id_conv)
  define s' where "s' = s\<lparr>mem := m3, blocks := (q, 16 + 8 * N) # blocks s, candidates := ps, specific := (specific s)(t := q)\<rparr>"
  have "tls_ok s'" "keeps_values s s'"
    by (rule new_array_ok [OF ok key s'_def others q [folded N_def] agree len slots header]; simp)+
  then have "provides s t N q s'" by (simp add: provides_def s'_def q0 len key)
  moreover have "s' = s1\<lparr>mem := m3, specific := (specific s)(t := q)\<rparr>"
    by (simp add: s'_def s1_def N_def unat_asize [OF sz])
  ultimately have post: "provides s t (unat sz) q (s1\<lparr>mem := m3, specific := (specific s)(t := q)\<rparr>)" by (simp add: N_def)
  have w: "writable s1 (size_at q) 8" "writable s1 (skip_destructor_rounds_at q) 8" "writable s1 (data_at q 0) (unat (sz * 8))"
    using writable_block [OF block inside(1)] writable_block [OF block inside(2)] writable_block [OF block inside(3) [of 0]]
    by (simp_all add: sz8)
  have "meets (and_then (memset (data_at q 0) 0 (sz * 8)) (\<lambda>_ s.
              write_word (skip_destructor_rounds_at q) (EMUTLS_SKIP_DESTRUCTOR_ROUNDS s) s)) s1 (\<lambda>_ s2.
     meets (emutls_check_array_set_size t q sz) s2 (\<lambda>_ s3. provides s t (unat sz) q s3))"
    using w post key
    by (intro meets_and_then meets_memset meets_write_value)
      (simp_all add: sz8 s1_def m1_def m2_def m3_def rounds_def meets_check_array_set_size)
  then show "meets (if q \<noteq> 0 then
              and_then (memset (data_at q 0) 0 (sz * 8)) (\<lambda>_ s.
              write_word (skip_destructor_rounds_at q) (EMUTLS_SKIP_DESTRUCTOR_ROUNDS s) s)
            else return_value ()) (s\<lparr>blocks := (q, unat (emutls_asize sz)) # blocks s, candidates := ps\<rparr>) (\<lambda>_ s2.
     meets (emutls_check_array_set_size t q sz) s2 (\<lambda>_ s3. provides s t (unat sz) q s3))"
    using q0 by (simp add: s1_def)
qed (simp add: meets_def return_value_def emutls_check_array_set_size_def fail_with_def)

text \<open>A larger array: \<open>realloc\<close> copies the old slots, and the new ones are cleared.\<close>

lemma larger_array_ok:
  fixes sz orig_size :: uintptr
  assumes ok: "tls_ok s" and key: "emutls_key_created s" and p: "specific s t \<noteq> 0" and sz: "unat sz < 2 ^ 60"
    and orig: "orig_size = load_word (mem s) (size_at (specific s t))" "orig_size \<le> sz"
  shows "meets (realloc (specific s t) (emutls_asize sz)) s (\<lambda>array s1.
     meets (if array \<noteq> 0 then memset (data_at array orig_size) 0 ((sz - orig_size) * 8) else return_value ()) s1 (\<lambda>_ s2.
     meets (emutls_check_array_set_size t array sz) s2 (\<lambda>_ s3. provides s t (unat sz) array s3)))"
proof -
  define p where "p = specific s t"
  define M where "M = array_len (mem s) p"
  have M: "M = unat orig_size" by (simp add: M_def array_len_def orig p_def)
  have old: "(p, 16 + 8 * M) \<in> set (blocks s)" using tls_okD(3) [OF ok, of t] p by (simp add: array_ok_def M_def p_def)
  define N where "N = unat sz"
  have MN: "M \<le> N" using orig(2) by (simp add: M N_def word_le_nat_alt)
  have rest: "unat ((sz - orig_size) * 8) = 8 * (N - M)"
    using sz by (subst unat_times_mod, simp only: unat_minus_le [OF orig(2)]) (simp add: N_def M)
  have data: "data_at q orig_size = data_at q (of_nat M)" for q by (simp add: M)
  have amount: "unat (emutls_asize sz) = 16 + 8 * N" "min (16 + 8 * M) (16 + 8 * N) = 16 + 8 * M"
    using MN by (simp_all add: unat_asize [OF sz] N_def)
  show ?thesis unfolding p_def [symmetric]
  proof (rule meets_realloc [OF tls_okD(1) [OF ok] old], goal_cases)
    case 1
    show ?case by (simp add: meets_def return_value_def emutls_check_array_set_size_def fail_with_def)
  next
    case (2 q ps others)
    then have q: "fits (others @ statics s) q (16 + 8 * N)" by (simp add: amount)
    have wrap: "unat q + (16 + 8 * N) < 2 ^ 64" and q0: "q \<noteq> 0" using q by (simp_all add: fits_def N_def)
    note inside = header_within [OF wrap]
    define m1 where "m1 = store_bytes (mem s) q (load_bytes (mem s) p (16 + 8 * M))"
    define m2 where "m2 = store_bytes m1 (data_at q (of_nat M)) (replicate (8 * (N - M)) 0)"
    define m3 where "m3 = store_word m2 (size_at q) sz"
    define s1 where "s1 = s\<lparr>blocks := (q, 16 + 8 * N) # others, candidates := ps, mem := m1\<rparr>"
    have len: "array_len m3 q = N" by (simp add: array_len_def m3_def N_def)
    have slots: "slot m3 q = slot (mem s) (specific s t)"
    proof
      fix i
      have "load_word m3 (data_at q (of_nat i)) = load_word m2 (data_at q (of_nat i))" if "i < N"
        by (simp add: m3_def header_words [OF wrap that])
      moreover have "load_word m2 (data_at q (of_nat i)) = 0" if "i < N" "M \<le> i"
        unfolding m2_def by (rule data_words_zero [OF wrap that])
      moreover have "load_word m2 (data_at q (of_nat i)) = load_word (mem s) (data_at p (of_nat i))" if "i < M"
      proof -
        have "16 + 8 * M \<le> 2 ^ 64" using wrap MN by linarith
        then have "load_word m1 (q + of_nat (16 + 8 * i)) = load_word (mem s) (p + of_nat (16 + 8 * i))"
          unfolding m1_def using that by (intro load_word_copy) auto
        then show ?thesis unfolding m2_def data_words_kept [OF wrap that MN] by (simp add: data_at_def ac_simps)
      qed
      ultimately show "slot m3 q i = slot (mem s) (specific s t) i"
        using MN q0 p by (auto simp: slot_def len p_def [symmetric] M_def [symmetric] not_less)
    qed
    have agree: "agree (mem s) m3 b n" if b: "(b, n) \<in> set (others @ statics s)" for b n
    proof -
      have "(b, n) \<in> set (blocks s @ statics s)" using b 2 by auto
      then have "unat b + n \<le> 2 ^ 64" using heap_okD(2) [OF tls_okD(1) [OF ok], of "(b, n)"] by simp
      note apart = agree_block [OF q b this]
      have "within q (16 + 8 * M) (q, 16 + 8 * N)" using MN by (simp add: within_def)
      then have "agree (mem s) m1 b n" unfolding m1_def using apart by (intro agree_store_bytes) simp
      moreover have "agree m1 m2 b n" unfolding m2_def using apart [OF inside(3) [OF MN]] by (intro agree_store_bytes) simp
      moreover have "agree m2 m3 b n" unfolding m3_def by (intro agree_store_word apart inside)
      ultimately show ?thesis using agree_trans by blast
    qed
    have "load_word m3 (skip_destructor_rounds_at q) = load_word m2 (skip_destructor_rounds_at q)"
      unfolding m3_def using wrap by (rule header_apart)
    also have "\<dots> = load_word m1 (skip_destructor_rounds_at q)"
      unfolding m2_def using wrap MN unat_data_at [of q M]
      by (intro load_word_store_bytes apart_regions) (auto simp: apart_def skip_destructor_rounds_at_def)
    also have "\<dots> = load_word (mem s) (skip_destructor_rounds_at p)"
    proof -
      have "16 + 8 * M \<le> 2 ^ 64" using wrap MN by linarith
      then show ?thesis
        using load_word_copy [of 0 "16 + 8 * M" "mem s" q p] by (simp add: m1_def skip_destructor_rounds_at_def)
    qed
    finally have header: "load_word m3 (skip_destructor_rounds_at q) = EMUTLS_SKIP_DESTRUCTOR_ROUNDS s"
      using tls_okD(10) [OF ok, of t] p by (simp add: p_def)
    have others: "others = filter (\<lambda>b. fst b \<noteq> specific s t) (blocks s)" using 2 by (simp add: p_def)
    define s' where "s' = s\<lparr>mem := m3, blocks := (q, 16 + 8 * N) # others, candidates := ps, specific := (specific s)(t := q)\<rparr>"
    have "tls_ok s'" "keeps_values s s'"
      by (rule new_array_ok [OF ok key s'_def others q agree len slots header]; simp)+
    then have "provides s t N q s'" by (simp add: provides_def s'_def q0 len key)
    moreover have "s' = s1\<lparr>mem := m3, specific := (specific s)(t := q)\<rparr>" by (simp add: s'_def s1_def)
    ultimately have post: "provides s t (unat sz) q (s1\<lparr>mem := m3, specific := (specific s)(t := q)\<rparr>)" by (simp add: N_def)
    have block: "(q, 16 + 8 * N) \<in> set (blocks s1)" by (simp add: s1_def)
    have w: "writable s1 (size_at q) 8" "writable s1 (data_at q (of_nat M)) (unat ((sz - orig_size) * 8))"
      using writable_block [OF block inside(1)] writable_block [OF block inside(3) [OF MN]] by (simp_all only: rest)
    have "meets (memset (data_at q (of_nat M)) 0 ((sz - orig_size) * 8)) s1 (\<lambda>_ s2.
        meets (emutls_check_array_set_size t q sz) s2 (\<lambda>_ s3. provides s t (unat sz) q s3))"
      using w post key
      by (intro meets_memset meets_check_array_set_size) (simp_all only: rest writable_mem heap.simps tls.simps heap.surjective, simp_all add: s1_def m2_def m3_def)
    then show ?case using q0 by (simp add: s1_def m1_def amount data)
  qed
qed

end
