(* ===== verification/Emutls_Calls.thy ===== *)
theory Emutls_Calls
  imports Emutls_Ops
begin

text \<open>
  Whole calls of \<open>emutls.c\<close>: the address of a variable, a write by the program, and the end of a thread, which
  frees everything that the thread owns.
\<close>

section \<open>The address of a variable\<close>

lemma providesD:
  assumes "provides s t N array s'"
  shows "tls_ok s'" "keeps_values s s'" "controls s' = controls s" "emutls_key_created s'" "specific s' t = array"
    "array \<noteq> 0" "N \<le> array_len (mem s') array"
  using assms by (auto simp: provides_def)

lemma provides_mono: "provides s t N array s' \<Longrightarrow> M \<le> N \<Longrightarrow> provides s t M array s'"
  by (auto simp: provides_def)

lemma get_address_array_ok:
  assumes ok: "tls_ok s" and key: "emutls_key_created s" and index: "unat index \<le> 2 ^ 59"
  shows "meets (emutls_get_address_array t index) s (provides s t (unat index))"
proof -
  define sz where "sz = emutls_new_data_array_size index"
  have sz: "unat index \<le> unat sz" "unat sz < 2 ^ 60"
    using new_data_array_size [of index] index by (simp_all add: sz_def)
  have mono: "meets f s' (provides s t (unat sz)) \<Longrightarrow> meets f s' (provides s t (unat index))" for f s'
    using meets_mono provides_mono sz(1) by metis
  show ?thesis
  proof (cases "specific s t = 0")
    case True
    have "meets (malloc (emutls_asize sz)) s (\<lambda>array s1.
       meets (if array \<noteq> 0 then
                and_then (memset (data_at array 0) 0 (sz * 8)) (\<lambda>_ s.
                write_word (skip_destructor_rounds_at array) (EMUTLS_SKIP_DESTRUCTOR_ROUNDS s) s)
              else return_value ()) s1 (\<lambda>_ s2.
       meets (emutls_check_array_set_size t array sz) s2 (\<lambda>_ s3. provides s t (unat index) array s3)))"
      using fresh_array_ok [OF ok key True sz(2)] by (rule meets_mono, elim meets_mono provides_mono) (rule sz)
    then show ?thesis
      unfolding emutls_get_address_array_def Let_def sz_def [symmetric] meets_iff
      by (intro meets_getspecific [OF key]) (simp only: True simp_thms if_True meets_iff)
  next
    case False
    define orig_size where "orig_size = load_word (mem s) (size_at (specific s t))"
    have block: "(specific s t, 16 + 8 * array_len (mem s) (specific s t)) \<in> set (blocks s)"
      using tls_okD(3) [OF ok, of t] False by (simp add: array_ok_def)
    have "within (size_at (specific s t)) 8 (specific s t, 16 + 8 * array_len (mem s) (specific s t))"
      using heap_okD(2) [OF tls_okD(1) [OF ok], of "(specific s t, 16 + 8 * array_len (mem s) (specific s t))"] block
      by (intro header_within) simp
    then have readable: "readable s (size_at (specific s t)) 8" using block by (intro readable_block) auto
    have "meets (if index > orig_size then
         and_then (realloc (specific s t) (emutls_asize sz)) (\<lambda>array.
         and_then
           (if array \<noteq> 0 then memset (data_at array orig_size) 0 ((sz - orig_size) * 8) else return_value ()) (\<lambda>_.
         and_then (emutls_check_array_set_size t array sz) (\<lambda>_. return_value array)))
       else return_value (specific s t)) s (provides s t (unat index))"
    proof (cases "index > orig_size")
      case True
      then have "orig_size \<le> sz" using sz(1) by (simp add: word_le_nat_alt word_less_nat_alt)
      then have "meets (realloc (specific s t) (emutls_asize sz)) s (\<lambda>array s1.
         meets (if array \<noteq> 0 then memset (data_at array orig_size) 0 ((sz - orig_size) * 8) else return_value ()) s1 (\<lambda>_ s2.
         meets (emutls_check_array_set_size t array sz) s2 (\<lambda>_ s3. provides s t (unat index) array s3)))"
        by (rule meets_mono [OF larger_array_ok [OF ok key False sz(2) orig_size_def]], elim meets_mono provides_mono) (rule sz)
      then show ?thesis using True by (simp only: if_True meets_iff)
    next
      case le: False
      then have "provides s t (unat index) (specific s t) s"
        using ok key False by (simp add: provides_def array_len_def orig_size_def not_less word_le_nat_alt)
      then show ?thesis using le by (simp add: meets_iff)
    qed
    then show ?thesis
      unfolding emutls_get_address_array_def Let_def sz_def [symmetric]
      by (intro meets_and_then meets_getspecific [OF key]) (simp only: False simp_thms if_False meets_iff meets_read_word [OF readable] orig_size_def)
  qed
qed

text \<open>A new object: a block of its own, aligned, with a pointer to the block in front and the initial value.\<close>

definition new_object :: "tls \<Rightarrow> nat \<Rightarrow> addr \<Rightarrow> tls \<Rightarrow> bool" where
  "new_object s c base s' \<longleftrightarrow>
     (\<exists>b m ps. s' = s\<lparr>mem := m, blocks := (b, unat (block_bytes (controls s ! c))) # blocks s, candidates := ps\<rparr> \<and>
        fits (blocks s @ statics s) b (unat (block_bytes (controls s ! c))) \<and>
        align_of (controls s ! c) AND (align_of (controls s ! c) - 1) = 0 \<and> base = aligned_base (controls s ! c) b \<and>
        load_word m (base - 8) = b \<and> load_bytes m base (unat (obj_size (controls s ! c))) = initial_value s c \<and>
        (\<forall>(q, k) \<in> set (blocks s @ statics s). agree (mem s) m q k))"

lemma emutls_allocate_object_eq:
  "emutls_allocate_object c s =
     (if align_of (controls s ! c) AND (align_of (controls s ! c) - 1) = 0 then
        and_then (emutls_memalign_alloc (align_of (controls s ! c)) (obj_size (controls s ! c))) (\<lambda>base.
        and_then (if obj_value (controls s ! c) \<noteq> 0 then memcpy base (obj_value (controls s ! c)) (obj_size (controls s ! c))
                  else memset base 0 (obj_size (controls s ! c))) (\<lambda>_.
        return_value base)) s
      else Inl Aborted)"
  by (simp only: emutls_allocate_object_def align_of_def Let_def if_not_P split: if_split) simp

lemma allocate_object_ok:
  assumes ok: "tls_ok s" and c: "c < length (controls s)"
  shows "meets (emutls_allocate_object c) s (new_object s c)"
proof (cases "align_of (controls s ! c) AND (align_of (controls s ! c) - 1) = 0")
  case True
  define C where "C = controls s ! c"
  define n where "n = unat (block_bytes C)"
  define sz where "sz = unat (obj_size C)"
  note C = tls_okD(6) [OF ok c, folded C_def]
  have "meets (malloc (block_bytes C)) s (\<lambda>b s1. meets
      (if b = 0 then fail_with Aborted else and_then (write_word (aligned_base C b - 8) b) (\<lambda>_. return_value (aligned_base C b))) s1
      (\<lambda>base s2. meets (if obj_value C \<noteq> 0 then memcpy base (obj_value C) (obj_size C) else memset base 0 (obj_size C)) s2
      (\<lambda>_ s3. new_object s c base s3)))"
  proof (rule meets_malloc)
    fix b ps
    assume fits: "fits (blocks s @ statics s) b (unat (block_bytes C))"
    define s1 where "s1 = s\<lparr>blocks := (b, unat (block_bytes C)) # blocks s, candidates := ps\<rparr>"
    have b0: "b \<noteq> 0" and wrap: "unat b + n < 2 ^ 64" using fits by (simp_all add: fits_def n_def)
    define base where "base = aligned_base C b"
    note bounds = aligned_base_bounds [OF C True [folded C_def] wrap [unfolded n_def], folded n_def base_def sz_def]
    have "unat (base - 8) = unat base - 8" using bounds(2) by (subst unat_sub) (auto simp: word_le_nat_alt)
    then have inside: "within (base - 8) 8 (b, n)" "within base sz (b, n)" "apart (base - 8, 8) (base, sz)"
      using bounds by (simp_all add: within_def apart_def)
    have block: "(b, n) \<in> set (blocks s1)" by (simp add: s1_def n_def)
    define m1 where "m1 = store_word (mem s) (base - 8) b"
    define bs where "bs = (if obj_value C = 0 then replicate sz 0 else load_bytes m1 (obj_value C) sz)"
    define m2 where "m2 = store_bytes m1 base bs"
    have len: "length bs = sz" by (simp add: bs_def)
    have sep: "region q k \<inter> region p j = {}" if "(q, k) \<in> set (blocks s @ statics s)" "within p j (b, n)" for q k p j
    proof -
      have "unat q + k < 2 ^ 64" using heap_okD(2) [OF tls_okD(1) [OF ok] that(1)] by simp
      then show ?thesis using fitsD [OF fits that(1)] within_region [OF that(2)] wrap by (fastforce simp: n_def)
    qed
    have agree1: "agree (mem s) m1 q k" if "(q, k) \<in> set (blocks s @ statics s)" for q k
      unfolding m1_def by (rule agree_store_word, rule sep [OF that inside(1)])
    have agree2: "agree (mem s) m2 q k" if "(q, k) \<in> set (blocks s @ statics s)" for q k
      using agree1 [OF that] agree_store_bytes [of q k base bs m1] sep [OF that inside(2)]
      by (auto simp: m2_def len intro: agree_trans)
    have static: "(obj_value C, sz) \<in> set (statics s)" if "obj_value C \<noteq> 0"
      using C that by (simp add: control_ok_def sz_def)
    have bs: "bs = initial_value s c"
      using agree_load_bytes [OF agree1, of "obj_value C" sz] static
      by (auto simp: bs_def initial_value_def Let_def C_def sz_def)
    have "sz \<le> 2 ^ 64" using bounds(3) wrap by linarith
    then have contents: "load_bytes m2 base sz = bs" unfolding m2_def using load_store_same [of bs m1 base] len by simp
    have "load_word m2 (base - 8) = load_word m1 (base - 8)"
      unfolding m2_def using inside(3) bounds wrap len \<open>unat (base - 8) = unat base - 8\<close>
      by (intro load_word_store_bytes apart_regions) simp_all
    then have link: "load_word m2 (base - 8) = b" by (simp add: m1_def)
    have "new_object s c base (s1\<lparr>mem := m2\<rparr>)"
      unfolding new_object_def
      by (intro exI [of _ b] exI [of _ m2] exI [of _ ps])
        (use fits True agree2 link contents bs in \<open>auto simp: s1_def C_def sz_def base_def\<close>)
    moreover have w: "writable s1 (base - 8) 8" "writable s1 base sz"
      using inside by (auto intro: writable_block [OF block])
    moreover have "readable (s1\<lparr>mem := m1\<rparr>) (obj_value C) sz" "apart (base, sz) (obj_value C, sz)" if "obj_value C \<noteq> 0"
    proof -
      show "readable (s1\<lparr>mem := m1\<rparr>) (obj_value C) sz"
        using static [OF that] by (auto intro!: readable_block [of "obj_value C" sz] simp: s1_def within_def)
      have "apart (b, n) (obj_value C, sz)" using fits static [OF that] by (auto simp: fits_def n_def)
      then show "apart (base, sz) (obj_value C, sz)"
        using inside(2) by (rule within_apart [rotated 2]) (simp add: within_def)
    qed
    ultimately have "meets (and_then (write_word (base - 8) b) (\<lambda>_. return_value base)) s1 (\<lambda>base s2.
        meets (if obj_value C \<noteq> 0 then memcpy base (obj_value C) (obj_size C) else memset base 0 (obj_size C)) s2
        (\<lambda>_ s3. new_object s c base s3))"
      unfolding meets_iff
      by (intro meets_write_word)
        (auto intro!: meets_memcpy meets_memset simp: m1_def m2_def bs_def sz_def s1_def)
    then show "meets
      (if b = 0 then fail_with Aborted else and_then (write_word (aligned_base C b - 8) b) (\<lambda>_. return_value (aligned_base C b)))
      (s\<lparr>blocks := (b, unat (block_bytes C)) # blocks s, candidates := ps\<rparr>)
      (\<lambda>base s2. meets (if obj_value C \<noteq> 0 then memcpy base (obj_value C) (obj_size C) else memset base 0 (obj_size C)) s2
      (\<lambda>_ s3. new_object s c base s3))"
      using b0 by (simp add: base_def s1_def)
  qed (simp add: meets_abort)
  then have "meets (and_then (emutls_memalign_alloc (align_of C) (obj_size C)) (\<lambda>base.
      and_then (if obj_value C \<noteq> 0 then memcpy base (obj_value C) (obj_size C) else memset base 0 (obj_size C)) (\<lambda>_.
      return_value base))) s (new_object s c)"
    unfolding emutls_memalign_alloc_def meets_iff block_bytes_def aligned_base_def Let_def .
  then show ?thesis
    using True by (simp only: meets_def emutls_allocate_object_eq if_True simp_thms C_def)
next
  case False
  then show ?thesis by (simp add: emutls_allocate_object_eq meets_def)
qed

text \<open>The slot of a thread takes the address of the new object.\<close>

lemma store_object_ok:
  assumes ok: "tls_ok s" and key: "emutls_key_created s" and c: "c < length (controls s)"
    and index: "unat (object_index (controls s ! c)) = Suc i"
    and p: "specific s t = p" "p \<noteq> 0" "i < array_len (mem s) p" and empty: "slot (mem s) p i = 0"
    and new: "new_object s c base s1"
  defines "s2 \<equiv> s1\<lparr>mem := store_word (mem s1) (data_at p (of_nat i)) base\<rparr>"
  shows "writable s1 (data_at p (of_nat i)) 8" "tls_ok s2" "keeps_values s s2" "variable_at s2 t c = base"
proof -
  define n where "n = unat (block_bytes (controls s ! c))"
  define N where "N = array_len (mem s) p"
  obtain b m ps where s1: "s1 = s\<lparr>mem := m, blocks := (b, n) # blocks s, candidates := ps\<rparr>"
    and fits: "fits (blocks s @ statics s) b n"
    and align: "align_of (controls s ! c) AND (align_of (controls s ! c) - 1) = 0" and base: "base = aligned_base (controls s ! c) b"
    and link: "load_word m (base - 8) = b" and init: "load_bytes m base (unat (obj_size (controls s ! c))) = initial_value s c"
    and agree: "\<And>q k. (q, k) \<in> set (blocks s @ statics s) \<Longrightarrow> agree (mem s) m q k"
    using new unfolding new_object_def n_def by fastforce
  define m' where "m' = store_word m (data_at p (of_nat i)) base"
  have b0: "b \<noteq> 0" and wrap: "unat b + n < 2 ^ 64" using fits by (simp_all add: fits_def)
  note bounds = aligned_base_bounds [OF tls_okD(6) [OF ok c] align wrap [unfolded n_def], folded n_def base]
  have block: "(p, 16 + 8 * N) \<in> set (blocks s)" using tls_okD(3) [OF ok, of t] p by (simp add: array_ok_def N_def)
  then have pwrap: "unat p + (16 + 8 * N) < 2 ^ 64" using heap_okD(2) [OF tls_okD(1) [OF ok], of "(p, 16 + 8 * N)"] by simp
  have word: "within (data_at p (of_nat i)) 8 (p, 16 + 8 * N)" using p(3) pwrap by (intro data_at_within) (auto simp: N_def)
  then show "writable s1 (data_at p (of_nat i)) 8" using block by (intro writable_block [of p "16 + 8 * N"]) (auto simp: s1)
  have sub: "region (data_at p (of_nat i)) 8 \<subseteq> region p (16 + 8 * N)" using within_region [OF word] pwrap by simp
  have agree': "agree (mem s) m' q k" if "(q, k) \<in> set (blocks s @ statics s)" "q \<noteq> p" for q k
  proof -
    have "region q k \<inter> region p (16 + 8 * N) = {}"
      using heap_ok_regions [OF tls_okD(1) [OF ok] that(1)] block that(2) by simp
    then have "agree m m' q k" unfolding m'_def using sub by (intro agree_store_word) blast
    then show ?thesis using agree [OF that(1)] agree_trans by blast
  qed
  have agree_b: "agree m m' b n"
  proof -
    have "region b n \<inter> region p (16 + 8 * N) = {}" using fitsD [OF fits, of "(p, 16 + 8 * N)"] block pwrap by simp
    then show ?thesis unfolding m'_def using sub by (intro agree_store_word) blast
  qed
  have inside: "within (base - 8) 8 (b, n)" "within base (unat (obj_size (controls s ! c))) (b, n)"
  proof -
    have "unat (base - 8) = unat base - 8" using bounds(2) by (subst unat_sub) (auto simp: word_le_nat_alt)
    then show "within (base - 8) 8 (b, n)" "within base (unat (obj_size (controls s ! c))) (b, n)"
      using bounds by (simp_all add: within_def)
  qed
  have link': "load_word m' (base - 8) = b"
    using agree_load_word [OF agree_within [OF agree_b inside(1)]] wrap link by simp
  have init': "load_bytes m' base (unat (obj_size (controls s ! c))) = initial_value s c"
    using agree_load_bytes [OF agree_within [OF agree_b inside(2)]] wrap init by simp
  have old: "load_word m w = load_word (mem s) w" if "within w 8 (p, 16 + 8 * N)" for w
    using agree_load_word [OF agree_within [OF agree that]] block pwrap by simp
  have "load_word m' (size_at p) = load_word m (size_at p)"
    unfolding m'_def using pwrap p(3) unat_data_at [of p i] unat_plus_of_nat [of p 8]
    by (intro load_word_other) (auto simp: size_at_def apart_def N_def)
  then have len: "array_len m' p = N" using old [OF header_within(1) [OF pwrap]] by (simp add: array_len_def N_def)
  have "load_word m' (data_at p (of_nat j)) = (if j = i then base else load_word (mem s) (data_at p (of_nat j)))" if "j < N" for j
  proof (cases "j = i")
    case False
    then have "load_word m' (data_at p (of_nat j)) = load_word m (data_at p (of_nat j))"
      unfolding m'_def using pwrap p(3) that unat_data_at [of p i] unat_data_at [of p j]
      by (intro load_word_other) (auto simp: apart_def N_def)
    then show ?thesis using old [OF data_at_within [OF pwrap]] that False by simp
  qed (simp add: m'_def)
  then have slot_p: "slot m' p = (slot (mem s) p)(i := base)"
    using p(2,3) by (auto simp: slot_def len N_def)
  have other: "specific s t' = 0 \<or> specific s t' \<noteq> p \<and> array_len m' (specific s t') = array_len (mem s) (specific s t') \<and>
      slot m' (specific s t') = slot (mem s) (specific s t') \<and> array_ok ((b, n) # blocks s) m' (specific s t') \<and>
      load_word m' (skip_destructor_rounds_at (specific s t')) = EMUTLS_SKIP_DESTRUCTOR_ROUNDS s" if "t' \<noteq> t" for t'
  proof (cases "specific s t' = 0")
    case False
    have ne: "specific s t' \<noteq> p"
      using names_inj [OF tls_okD(5) [OF ok], of "(t', 0)" "(t, 0)"] False that p(1) by (auto simp: owner_0)
    have bl: "(specific s t', 16 + 8 * array_len (mem s) (specific s t')) \<in> set (blocks s)"
      using tls_okD(3) [OF ok, of t'] False by (auto simp: array_ok_def)
    then have "unat (specific s t') + (16 + 8 * array_len (mem s) (specific s t')) < 2 ^ 64"
      using heap_okD(2) [OF tls_okD(1) [OF ok], of "(specific s t', 16 + 8 * array_len (mem s) (specific s t'))"] by simp
    from array_transfer [OF False this agree'] show ?thesis
      using bl ne tls_okD(10) [OF ok False] by (auto simp: array_ok_def)
  qed simp
  have slots: "slot m' (specific s t') j = (if t' = t \<and> j = i then base else slot (mem s) (specific s t') j)" for t' j
    using other [of t'] slot_p p(1) by (cases "t' = t") auto
  have kept: "(q, k) \<in> set ((b, n) # blocks s) \<and> agree (mem s) m' q k" if "owner s (t', Suc j) = q" "(q, k) \<in> set (blocks s)" for t' j q k
  proof -
    have "q \<noteq> 0" using heap_okD(1) [OF tls_okD(1) [OF ok], of "(q, k)"] that(2) by simp
    then have "q \<noteq> p" using names_inj [OF tls_okD(5) [OF ok], of "(t', Suc j)" "(t, 0)"] that(1) p(1) by (auto simp: owner_0)
    then show ?thesis using agree' that(2) by simp
  qed
  have object: "load_word m' (slot (mem s) (specific s t') j - 8) = load_word (mem s) (slot (mem s) (specific s t') j - 8)"
      "object_ok ((b, n) # blocks s) m' (controls s ! d) (slot (mem s) (specific s t') j)"
      "load_bytes m' (slot (mem s) (specific s t') j) (unat (obj_size (controls s ! d))) =
       load_bytes (mem s) (slot (mem s) (specific s t') j) (unat (obj_size (controls s ! d)))"
    if "slot (mem s) (specific s t') j \<noteq> 0" "d < length (controls s)" "unat (object_index (controls s ! d)) = Suc j" for t' j d
    using object_transfer [OF ok that, of "(b, n) # blocks s" m'] kept [of t' j] by blast+
  have s2: "s2 = s\<lparr>mem := m', blocks := (b, n) # blocks s, candidates := ps, specific := specific s\<rparr>"
    by (simp add: s2_def s1 m'_def)
  have "heap_ok (s\<lparr>blocks := (b, n) # blocks s\<rparr>)" using heap_ok_alloc [OF tls_okD(1) [OF ok] fits] .
  then have heap: "heap_ok s2" by (simp add: s2 heap_ok_def)
  have "array_ok ((b, n) # blocks s) m' (specific s t')" for t'
    using other [of t'] block p(1) by (cases "t' = t") (auto simp: array_ok_def len)
  moreover have "load_word m' (skip_destructor_rounds_at (specific s t')) = EMUTLS_SKIP_DESTRUCTOR_ROUNDS s" if "specific s t' \<noteq> 0" for t'
  proof (cases "t' = t")
    case True
    have "load_word m' (skip_destructor_rounds_at p) = load_word m (skip_destructor_rounds_at p)"
      unfolding m'_def using pwrap p(3) unat_data_at [of p i]
      by (intro load_word_other) (auto simp: skip_destructor_rounds_at_def apart_def N_def)
    then show ?thesis using old [OF header_within(2) [OF pwrap]] tls_okD(10) [OF ok, of t] p(1,2) True by simp
  next
    case False
    then show ?thesis using other [of t'] that by simp
  qed
  moreover have "slots_ok (controls s) ((b, n) # blocks s) m' (specific s t')" for t'
    unfolding slots_ok_def
  proof (intro allI impI)
    fix j assume j: "slot m' (specific s t') j \<noteq> 0"
    show "\<exists>d < length (controls s). unat (object_index (controls s ! d)) = Suc j \<and>
        object_ok ((b, n) # blocks s) m' (controls s ! d) (slot m' (specific s t') j)"
    proof (cases "t' = t \<and> j = i")
      case True
      then show ?thesis
        using c index link' align base by (intro exI [of _ c]) (simp add: slots object_ok_def n_def)
    next
      case False
      then have same: "slot m' (specific s t') j = slot (mem s) (specific s t') j" by (auto simp: slots)
      show ?thesis unfolding same using slot_control [OF ok j [unfolded same]] object(2) [OF j [unfolded same]] by blast
    qed
  qed
  moreover have "owner s2 = (owner s)((t, Suc i) := b)"
  proof
    fix x :: "nat \<times> nat"
    obtain t' j where x: "x = (t', j)" by (cases x)
    show "owner s2 x = ((owner s)((t, Suc i) := b)) x"
      using object(1) [of t' "j - 1"] slot_control [OF ok, of t' "j - 1"] link' bounds(4)
      by (auto simp: x owner_def owned_def s2 slots split: nat.splits)
  qed
  moreover have "names ((owner s)((t, Suc i) := b)) (fst ` set ((b, n) # blocks s))"
  proof -
    have "owner s (t, Suc i) = 0" using empty p(1) by (simp add: owner_Suc)
    moreover have "b \<notin> fst ` set (blocks s)" using fits by (auto simp: fits_def)
    ultimately show ?thesis using names_insert [OF tls_okD(5) [OF ok] _ b0] by simp
  qed
  ultimately show "tls_ok s2" by (intro tls_ok_update [OF ok key s2 heap]) simp_all
  show "keeps_values s s2"
  proof (rule keeps_valuesI [OF ok s2])
    fix t' j d
    assume d: "d < length (controls s)" "unat (object_index (controls s ! d)) = Suc j"
      and zero: "slot (mem s) (specific s t') j = 0" "slot m' (specific s t') j \<noteq> 0"
    then have tj: "t' = t" "j = i" by (auto simp: slots split: if_splits)
    then have "object_index (controls s ! d) = object_index (controls s ! c)" using d(2) index by (simp add: word_unat_eq_iff)
    moreover have "object_index (controls s ! d) \<noteq> 0" using d(2) by auto
    ultimately have "d = c" using tls_okD(2) [OF ok] c d(1) by (auto simp: indices_ok_def inj_on_def)
    then show "load_bytes m' (slot m' (specific s t') j) (unat (obj_size (controls s ! d))) = initial_value s d"
      using init' tj by (simp add: slots)
  next
    fix t' j assume "slot (mem s) (specific s t') j \<noteq> 0"
    then show "slot m' (specific s t') j = slot (mem s) (specific s t') j" using empty p(1) by (auto simp: slots)
  next
    fix q k assume st: "(q, k) \<in> set (statics s)"
    have "p \<noteq> q"
      by (rule heap_ok_static [OF tls_okD(1) [OF ok] block st])
    then show "agree (mem s) m' q k" using agree' st by simp
  qed (rule object(3))
  show "variable_at s2 t c = base"
    using index by (auto simp: variable_at_def s2 Let_def slots)
qed

lemma data_at_index: "unat index = Suc i \<Longrightarrow> data_at p (index - 1) = data_at p (of_nat i)"
proof -
  assume "unat index = Suc i"
  moreover have "of_nat (unat index) = index" by simp
  ultimately have "index = 1 + of_nat i" by (metis of_nat_Suc)
  then have "index - 1 = of_nat i" by simp
  then show ?thesis by simp
qed

lemma slot_readable:
  assumes ok: "tls_ok s" and p: "specific s t = p" "p \<noteq> 0" "i < array_len (mem s) p"
  shows "readable s (data_at p (of_nat i)) 8"
proof -
  have block: "(p, 16 + 8 * array_len (mem s) p) \<in> set (blocks s)" using tls_okD(3) [OF ok, of t] p by (simp add: array_ok_def)
  then have "unat p + (16 + 8 * array_len (mem s) p) < 2 ^ 64"
    using heap_okD(2) [OF tls_okD(1) [OF ok], of "(p, 16 + 8 * array_len (mem s) p)"] by simp
  then have "within (data_at p (of_nat i)) 8 (p, 16 + 8 * array_len (mem s) p)" using p(3) by (intro data_at_within) auto
  then show ?thesis using block by (intro readable_block) auto
qed

text \<open>The slot of the variable is read, filled if it is empty, and read again.\<close>

lemma variable_slot_ok:
  assumes ok: "tls_ok s" and key: "emutls_key_created s" and c: "c < length (controls s)"
    and index: "unat (object_index (controls s ! c)) = Suc i"
    and p: "specific s t = p" "p \<noteq> 0" "i < array_len (mem s) p"
  shows "meets (and_then (read_word (data_at p (of_nat i))) (\<lambda>d.
     and_then
       (if d = 0 then and_then (emutls_allocate_object c) (\<lambda>base. write_word (data_at p (of_nat i)) base)
        else return_value ()) (\<lambda>_.
     read_word (data_at p (of_nat i))))) s
     (\<lambda>d s'. tls_ok s' \<and> keeps_values s s' \<and> d \<noteq> 0 \<and> variable_at s' t c = d \<and> controls s' = controls s)"
proof -
  have d: "load_word (mem s) (data_at p (of_nat i)) = slot (mem s) p i" using p by (simp add: slot_def)
  have at: "variable_at s t c = slot (mem s) p i"
    using index p(1) by (auto simp: variable_at_def Let_def)
  have fill: "meets (emutls_allocate_object c) s (\<lambda>base s1. meets (write_word (data_at p (of_nat i)) base) s1 (\<lambda>_ s2.
      meets (read_word (data_at p (of_nat i))) s2
        (\<lambda>d s'. tls_ok s' \<and> keeps_values s s' \<and> d \<noteq> 0 \<and> variable_at s' t c = d \<and> controls s' = controls s)))"
    if empty: "slot (mem s) p i = 0"
  proof (rule meets_mono [OF allocate_object_ok [OF ok c]])
    fix base s1 assume new: "new_object s c base s1"
    define s2 where "s2 = s1\<lparr>mem := store_word (mem s1) (data_at p (of_nat i)) base\<rparr>"
    note s2 = store_object_ok [OF ok key c index p empty new, folded s2_def]
    have base: "base \<noteq> 0"
      using new aligned_base_bounds(4) [OF tls_okD(6) [OF ok c]] by (auto simp: new_object_def fits_def)
    have "readable s2 (data_at p (of_nat i)) 8"
      using writable_readable [OF s2(1)] by (simp add: s2_def readable_def)
    moreover have "controls s2 = controls s" using new by (auto simp: new_object_def s2_def)
    moreover have "load_word (mem s2) (data_at p (of_nat i)) = base" by (simp add: s2_def)
    ultimately show "meets (write_word (data_at p (of_nat i)) base) s1 (\<lambda>_ s2. meets (read_word (data_at p (of_nat i))) s2
        (\<lambda>d s'. tls_ok s' \<and> keeps_values s s' \<and> d \<noteq> 0 \<and> variable_at s' t c = d \<and> controls s' = controls s))"
      using s2 base by (intro meets_write_word) (auto simp: s2_def [symmetric] intro!: meets_read_word)
  qed
  have "meets (read_word (data_at p (of_nat i))) s
      (\<lambda>d s'. tls_ok s' \<and> keeps_values s s' \<and> d \<noteq> 0 \<and> variable_at s' t c = d \<and> controls s' = controls s)"
    if "slot (mem s) p i \<noteq> 0"
    using that ok d at by (intro meets_read_word slot_readable [OF ok p]) auto
  with fill show ?thesis
    unfolding meets_iff by (intro meets_read_word slot_readable [OF ok p]) (simp add: d meets_iff)
qed

lemma get_address_ok:
  assumes ok: "tls_ok s" and c: "c < length (controls s)"
  shows "meets (emutls_get_address t c) s (\<lambda>p s'. tls_ok s' \<and> keeps_values s s' \<and> p \<noteq> 0 \<and> variable_at s' t c = p)"
  unfolding emutls_get_address_def meets_and_then_iff
proof (rule meets_mono [OF get_index_ok [OF ok c]])
  fix index s1
  assume "tls_ok s1 \<and> keeps_values s s1 \<and> index \<noteq> 0 \<and> object_index (controls s1 ! c) = index \<and> emutls_key_created s1"
  then have s1: "tls_ok s1" "keeps_values s s1" "index \<noteq> 0" "object_index (controls s1 ! c) = index" "emutls_key_created s1"
    and c1: "c < length (controls s1)" using c by (auto simp: keeps_values_def)
  obtain i where i: "unat index = Suc i" using s1(3) unat_gt_0 [of index] gr0_implies_Suc by metis
  have "unat index \<le> 2 ^ 59"
    using indices_ok_bound(2) [OF tls_okD(2) [OF s1(1)] c1] tls_okD(2) [OF s1(1)] s1(4) by (simp add: indices_ok_def)
  then show "meets (emutls_get_address_array t index) s1 (\<lambda>array s'. meets
      (let index = index - 1 in and_then (read_word (data_at array index)) (\<lambda>d. and_then
        (if d = 0 then and_then (emutls_allocate_object c) (write_word (data_at array index)) else return_value ())
        (\<lambda>_. read_word (data_at array index)))) s'
      (\<lambda>p s'. tls_ok s' \<and> keeps_values s s' \<and> p \<noteq> 0 \<and> variable_at s' t c = p))"
  proof (rule meets_mono [OF get_address_array_ok [OF s1(1,5)]], goal_cases)
    case (1 array s2)
    note s2 = providesD [OF 1]
    have "c < length (controls s2)" "unat (object_index (controls s2 ! c)) = Suc i" using c1 i s1(4) s2(3) by auto
    moreover have "i < array_len (mem s2) array" using s2(7) i by simp
    ultimately show ?case
      unfolding Let_def data_at_index [OF i]
      by (intro meets_mono [OF variable_slot_ok [OF s2(1,4) _ _ s2(5,6)]]) (auto intro: keeps_values_trans [OF keeps_values_trans [OF s1(2) s2(2)]])
  qed
qed

end
