(* ===== verification/Emutls_Exit.thy ===== *)
theory Emutls_Exit
  imports Emutls_Calls
begin

text \<open>
  A write of the program to one of its variables, and the end of a thread: the key destructor frees the objects
  and the array of the thread, after the rounds that it is told to skip, and leaves the other threads alone.
\<close>

section \<open>The block of a variable\<close>

lemma variable_block:
  assumes ok: "tls_ok s" and d: "variable_at s t c \<noteq> 0" and c: "c < length (controls s)"
  obtains b n where "(b, n) \<in> set (blocks s)" "owner s (t, unat (object_index (controls s ! c))) = b" "b \<noteq> 0"
    "within (variable_at s t c) (unat (obj_size (controls s ! c))) (b, n)" "within (variable_at s t c - 8) 8 (b, n)"
    "unat (variable_at s t c - 8) = unat (variable_at s t c) - 8" "8 \<le> unat (variable_at s t c)"
    "unat (align_of (controls s ! c)) dvd unat (variable_at s t c)"
    "variable_at s t c = slot (mem s) (specific s t) (unat (object_index (controls s ! c)) - 1)"
    "unat (object_index (controls s ! c)) = Suc (unat (object_index (controls s ! c)) - 1)"
proof -
  define i where "i = unat (object_index (controls s ! c)) - 1"
  have "object_index (controls s ! c) \<noteq> 0" using d by (auto simp: variable_at_def)
  then have i: "unat (object_index (controls s ! c)) = Suc i" using unat_gt_0 [of "object_index (controls s ! c)"] by (simp add: i_def)
  then have at: "variable_at s t c = slot (mem s) (specific s t) i" by (auto simp: variable_at_def Let_def i_def)
  obtain c' b n where o: "c' < length (controls s)" "unat (object_index (controls s ! c')) = Suc i"
    "b = load_word (mem s) (variable_at s t c - 8)" "n = unat (block_bytes (controls s ! c'))" "(b, n) \<in> set (blocks s)"
    "object_ok (blocks s) (mem s) (controls s ! c') (variable_at s t c)"
    "variable_at s t c = aligned_base (controls s ! c') b"
    "within (variable_at s t c) (unat (obj_size (controls s ! c'))) (b, n)" "within (variable_at s t c - 8) 8 (b, n)"
    "unat (align_of (controls s ! c')) dvd unat (variable_at s t c)"
    using slot_object [OF ok, of t i] d at by metis
  have "object_index (controls s ! c) = object_index (controls s ! c')" using i o(2) by (simp add: word_unat_eq_iff)
  moreover have "object_index (controls s ! c) \<noteq> 0" using i by auto
  ultimately have c': "c' = c" using tls_okD(2) [OF ok] c o(1) by (auto simp: indices_ok_def inj_on_def)
  have b: "b \<noteq> 0" "unat b + n < 2 ^ 64" using heap_okD [OF tls_okD(1) [OF ok], of "(b, n)"] o(5) by simp_all
  have "align_of (controls s ! c) AND (align_of (controls s ! c) - 1) = 0" using o(6) by (simp add: object_ok_def c')
  from aligned_base_bounds(2) [OF tls_okD(6) [OF ok c] this, of b] have ge: "8 \<le> unat (variable_at s t c)"
    using o(4,7) b(2) by (simp add: c')
  then have "unat (variable_at s t c - 8) = unat (variable_at s t c) - 8" by (subst unat_sub) (auto simp: word_le_nat_alt)
  moreover have "owner s (t, unat (object_index (controls s ! c))) = b" using d o(3) by (simp add: owner_Suc i at)
  ultimately show thesis
    using that [of b n] o(5,8-10) b(1) i at ge by (simp add: c')
qed

text \<open>Different copies lie in different blocks.\<close>

lemma variables_apart:
  assumes ok: "tls_ok s" and c: "c < length (controls s)" "c' < length (controls s)"
    and d: "variable_at s t c \<noteq> 0" "variable_at s t' c' \<noteq> 0" and ne: "(t, c) \<noteq> (t', c')"
  shows "owner s (t, unat (object_index (controls s ! c))) \<noteq> owner s (t', unat (object_index (controls s ! c')))"
proof
  assume eq: "owner s (t, unat (object_index (controls s ! c))) = owner s (t', unat (object_index (controls s ! c')))"
  moreover have "owner s (t, unat (object_index (controls s ! c))) \<noteq> 0" using variable_block [OF ok d(1) c(1)] by metis
  ultimately have "t = t'" "unat (object_index (controls s ! c)) = unat (object_index (controls s ! c'))"
    using names_inj [OF tls_okD(5) [OF ok]] by auto
  moreover have "object_index (controls s ! c) \<noteq> 0" using d(1) by (auto simp: variable_at_def)
  ultimately show False
    using ne tls_okD(2) [OF ok] c by (auto simp: indices_ok_def inj_on_def word_unat_eq_iff)
qed

section \<open>Writes\<close>

definition overwrite :: "nat \<Rightarrow> byte list \<Rightarrow> byte list \<Rightarrow> byte list" where
  "overwrite i bs v = take i v @ bs @ drop (i + length bs) v"

lemma load_bytes_overwrite:
  assumes "i + length bs \<le> n" "unat d + n \<le> 2 ^ 64"
  shows "load_bytes (store_bytes m (d + of_nat i) bs) d n = overwrite i bs (load_bytes m d n)"
proof (rule nth_equalityI)
  show "length (load_bytes (store_bytes m (d + of_nat i) bs) d n) = length (overwrite i bs (load_bytes m d n))"
    using assms by (simp add: overwrite_def)
next
  fix j assume "j < length (load_bytes (store_bytes m (d + of_nat i) bs) d n)"
  then have j: "j < n" by simp
  have left: "load_bytes (store_bytes m (d + of_nat i) bs) d n ! j = store_bytes m (d + of_nat i) bs (d + of_nat j)"
    using j by (simp add: load_bytes_def)
  show "load_bytes (store_bytes m (d + of_nat i) bs) d n ! j = overwrite i bs (load_bytes m d n) ! j"
  proof (cases "i \<le> j \<and> j < i + length bs")
    case True
    then have "d + of_nat j = d + of_nat i + of_nat (j - i)" by (simp add: of_nat_diff)
    moreover have "length bs \<le> 2 ^ 64" using assms by linarith
    ultimately have "store_bytes m (d + of_nat i) bs (d + of_nat j) = bs ! (j - i)"
      using store_bytes_nth [of "j - i" bs m "d + of_nat i"] True by (simp add: less_diff_conv2)
    then show ?thesis using True left assms j by (auto simp: overwrite_def nth_append)
  next
    case False
    have "d + of_nat j \<notin> region (d + of_nat i) (length bs)"
    proof (cases "bs = []")
      case nonempty: False
      then have "unat (d + of_nat i) = unat d + i" "unat (d + of_nat j) = unat d + j"
        using assms j by (intro unat_plus_of_nat; cases bs; simp)+
      then show ?thesis using False assms region_iff [of "d + of_nat i" "length bs"] by auto
    qed simp
    then have "store_bytes m (d + of_nat i) bs (d + of_nat j) = m (d + of_nat j)" by (rule store_bytes_outside)
    then show ?thesis using False left assms j by (auto simp: overwrite_def nth_append load_bytes_def)
  qed
qed

lemma write_ok:
  fixes s t c i bs
  defines "d \<equiv> variable_at s t c"
  defines "s' \<equiv> s\<lparr>mem := store_bytes (mem s) (d + of_nat i) bs\<rparr>"
  assumes ok: "tls_ok s" and c: "c < length (controls s)" and d: "d \<noteq> 0" and fit: "i + length bs \<le> unat (obj_size (controls s ! c))"
  shows "tls_ok s'" "tls_value s' t c = overwrite i bs (tls_value s t c)"
    and "c' < length (controls s) \<Longrightarrow> (t', c') \<noteq> (t, c) \<Longrightarrow> tls_value s' t' c' = tls_value s t' c'"
    and "c' < length (controls s) \<Longrightarrow> variable_at s' t' c' = variable_at s t' c'"
    and "c' < length (controls s) \<Longrightarrow> initial_value s' c' = initial_value s c'"
proof -
  define m' where "m' = store_bytes (mem s) (d + of_nat i) bs"
  define index where "index = unat (object_index (controls s ! c))"
  obtain b n where b: "(b, n) \<in> set (blocks s)" "owner s (t, index) = b" "b \<noteq> 0"
    "within d (unat (obj_size (controls s ! c))) (b, n)" "within (d - 8) 8 (b, n)" "unat (d - 8) = unat d - 8" "8 \<le> unat d"
    "d = slot (mem s) (specific s t) (index - 1)" "index = Suc (index - 1)"
    using variable_block [OF ok d [unfolded d_def] c] unfolding d_def index_def by metis
  have wrap: "unat b + n < 2 ^ 64" using heap_okD(2) [OF tls_okD(1) [OF ok], of "(b, n)"] b(1) by simp
  have fits: "unat d + unat (obj_size (controls s ! c)) < 2 ^ 64" using b(4) wrap by (simp add: within_def)
  have sub: "region (d + of_nat i) (length bs) \<subseteq> region b n" "region (d - 8) 8 \<inter> region (d + of_nat i) (length bs) = {}"
  proof -
    have "unat (d + of_nat i) = unat d + i" using fit fits by (intro unat_plus_of_nat) simp
    then have "within (d + of_nat i) (length bs) (b, n)" "apart (d - 8, 8) (d + of_nat i, length bs)"
        "unat (d + of_nat i) + length bs \<le> 2 ^ 64"
      using b(4,6,7) fit fits by (auto simp: within_def apart_def)
    moreover have "unat (d - 8) + 8 \<le> 2 ^ 64" using b(6,7) unsigned_less [of d, where ?'a = nat] by simp
    ultimately show "region (d + of_nat i) (length bs) \<subseteq> region b n" "region (d - 8) 8 \<inter> region (d + of_nat i) (length bs) = {}"
      using within_region [of "d + of_nat i" "length bs" "(b, n)"] wrap by (simp_all add: apart_regions)
  qed
  have agree: "agree (mem s) m' q k" if "(q, k) \<in> set (blocks s @ statics s)" "q \<noteq> b" for q k
  proof -
    have "region q k \<inter> region b n = {}" using heap_ok_regions [OF tls_okD(1) [OF ok] that(1)] b(1) that(2) by simp
    then show ?thesis unfolding m'_def using sub(1) by (intro agree_store_bytes) blast
  qed
  have arrays: "array_len m' (specific s t') = array_len (mem s) (specific s t') \<and> slot m' (specific s t') = slot (mem s) (specific s t') \<and>
      load_word m' (skip_destructor_rounds_at (specific s t')) = load_word (mem s) (skip_destructor_rounds_at (specific s t'))"
    if p: "specific s t' \<noteq> 0" for t'
  proof -
    have bl: "(specific s t', 16 + 8 * array_len (mem s) (specific s t')) \<in> set (blocks s)"
      using tls_okD(3) [OF ok, of t'] p by (simp add: array_ok_def)
    moreover have "specific s t' \<noteq> b"
      using names_inj [OF tls_okD(5) [OF ok], of "(t', 0)" "(t, index)"] p b(2,3,9) by (auto simp: owner_0)
    moreover have "unat (specific s t') + (16 + 8 * array_len (mem s) (specific s t')) < 2 ^ 64"
      using heap_okD(2) [OF tls_okD(1) [OF ok], of "(specific s t', 16 + 8 * array_len (mem s) (specific s t'))"] bl by simp
    ultimately show ?thesis using array_transfer [OF p _ agree] by simp
  qed
  then have slots: "slot m' (specific s t') = slot (mem s) (specific s t')" for t'
    by (cases "specific s t' = 0") auto
  have other: "load_word m' (slot (mem s) (specific s t') j - 8) = load_word (mem s) (slot (mem s) (specific s t') j - 8) \<and>
      load_bytes m' (slot (mem s) (specific s t') j) (unat (obj_size (controls s ! c'))) =
      load_bytes (mem s) (slot (mem s) (specific s t') j) (unat (obj_size (controls s ! c')))"
    if "slot (mem s) (specific s t') j \<noteq> 0" "(t', Suc j) \<noteq> (t, index)" "c' < length (controls s)"
      "unat (object_index (controls s ! c')) = Suc j" for t' j c'
  proof -
    have "owner s (t', Suc j) \<noteq> b"
      using names_inj [OF tls_okD(5) [OF ok], of "(t', Suc j)" "(t, index)"] b(2,3) that(2) by auto
    then show ?thesis
      using object_transfer(1,3) [OF ok that(1,3,4), of "blocks s" m'] agree by fastforce
  qed
  have link: "load_word m' (slot (mem s) (specific s t') j - 8) = load_word (mem s) (slot (mem s) (specific s t') j - 8)"
    if "slot (mem s) (specific s t') j \<noteq> 0" for t' j
  proof (cases "(t', Suc j) = (t, index)")
    case True
    then have "slot (mem s) (specific s t') j = d" using b(8) by auto
    then show ?thesis unfolding m'_def using sub(2) by (simp add: load_word_store_bytes)
  next
    case False
    then show ?thesis using other that slot_control [OF ok that] by blast
  qed
  have s': "s' = s\<lparr>mem := m', blocks := blocks s, candidates := candidates s, specific := specific s\<rparr>"
    by (simp add: s'_def m'_def)
  show "tls_ok s'"
  proof (cases "emutls_key_created s")
    case True
    show ?thesis
    proof (rule tls_ok_update [OF ok True s'])
      show "heap_ok s'" using tls_okD(1) [OF ok] by (simp add: heap_ok_def s')
      have "owner s' = owner s" by (auto simp: owner_def owned_def s' slots link split: nat.splits)
      then show "names (owner s') (fst ` set (blocks s))" using tls_okD(5) [OF ok] by simp
      show "array_ok (blocks s) m' (specific s t')" for t'
        using tls_okD(3) [OF ok, of t'] arrays by (auto simp: array_ok_def)
      show "slots_ok (controls s) (blocks s) m' (specific s t')" for t'
        using tls_okD(4) [OF ok, of t'] link by (auto simp: slots_ok_def object_ok_def slots)
      show "load_word m' (skip_destructor_rounds_at (specific s t')) = EMUTLS_SKIP_DESTRUCTOR_ROUNDS s" if "specific s t' \<noteq> 0" for t'
        using tls_okD(10) [OF ok that] arrays [OF that] by simp
    qed
  next
    case False
    then have "specific s t = 0" using tls_okD(8) [OF ok] by blast
    then show ?thesis using b(8) d by simp
  qed
  show at: "variable_at s' t' c' = variable_at s t' c'" for t' c' by (simp add: variable_at_def s' slots Let_def)
  show init: "initial_value s' c' = initial_value s c'" if "c' < length (controls s)" for c'
  proof (cases "obj_value (controls s ! c') = 0")
    case False
    then have st: "(obj_value (controls s ! c'), unat (obj_size (controls s ! c'))) \<in> set (statics s)"
      using tls_okD(6) [OF ok that] by (simp add: control_ok_def)
    then have "agree (mem s) m' (obj_value (controls s ! c')) (unat (obj_size (controls s ! c')))"
      using agree heap_ok_static [OF tls_okD(1) [OF ok] b(1) st] by simp
    then show ?thesis by (simp add: initial_value_def s' Let_def agree_load_bytes)
  qed (simp add: initial_value_def s' Let_def)
  show "tls_value s' t c = overwrite i bs (tls_value s t c)"
    using d load_bytes_overwrite [OF fit, of d "mem s"] fits
    by (simp add: tls_value_def at d_def [symmetric]) (simp add: s' m'_def)
  show "tls_value s' t' c' = tls_value s t' c'" if c': "c' < length (controls s)" "(t', c') \<noteq> (t, c)"
  proof (cases "variable_at s t' c' = 0")
    case True
    then show ?thesis using init [OF c'(1)] by (simp add: tls_value_def at)
  next
    case False
    obtain j where j: "unat (object_index (controls s ! c')) = Suc j" "variable_at s t' c' = slot (mem s) (specific s t') j"
      using variable_block [OF ok False c'(1)] by metis
    have "(t', Suc j) \<noteq> (t, index)"
    proof
      assume "(t', Suc j) = (t, index)"
      then have "t' = t" "object_index (controls s ! c') = object_index (controls s ! c)"
        using j(1) by (auto simp: index_def word_unat_eq_iff)
      moreover have "object_index (controls s ! c') \<noteq> 0" using j(1) by auto
      ultimately show False using c' c tls_okD(2) [OF ok] by (auto simp: indices_ok_def inj_on_def)
    qed
    then have "load_bytes m' (variable_at s t' c') (unat (obj_size (controls s ! c'))) =
        load_bytes (mem s) (variable_at s t' c') (unat (obj_size (controls s ! c')))"
      using other [of t' j c'] c'(1) j False by simp
    then show ?thesis using False by (simp add: tls_value_def at) (simp add: s')
  qed
qed

section \<open>The end of a thread\<close>

lemma filter_blocks_id:
  "s\<lparr>blocks := filter (\<lambda>b. fst b \<notin> {}) (blocks s)\<rparr> = s" for s :: "'z heap_scheme"
  by simp

lemma read_word_ok: "readable s p 8 \<Longrightarrow> read_word p s = Inr (load_word (mem s) p, s)"
  by (simp add: read_word_def)

lemma free_ok: "(p, n) \<in> set (blocks s) \<Longrightarrow> p \<noteq> 0 \<Longrightarrow> free p s = Inr ((), s\<lparr>blocks := filter (\<lambda>b. fst b \<noteq> p) (blocks s)\<rparr>)"
  using weak_map_of_SomeI [of p n "blocks s"] by (auto simp: free_def)

text \<open>The loop frees the blocks of the objects from slot \<open>i\<close> on, each once.\<close>

definition tail_blocks :: "memory \<Rightarrow> addr \<Rightarrow> nat \<Rightarrow> addr set" where
  "tail_blocks m p i = (\<lambda>j. owned m p (Suc j)) ` {i..} - {0}"

lemma tail_blocks_step:
  "tail_blocks m p i = (if owned m p (Suc i) = 0 then {} else {owned m p (Suc i)}) \<union> tail_blocks m p (Suc i)"
proof -
  have "{i..} = insert i {Suc i..}" by auto
  then show ?thesis by (auto simp: tail_blocks_def)
qed

lemma tail_blocks_end: "array_len m p \<le> i \<Longrightarrow> tail_blocks m p i = {}"
  by (auto simp: tail_blocks_def owned_def slot_def)

lemma shutdown_loop_ok:
  fixes s :: tls and m :: memory and p :: addr
  defines "N \<equiv> array_len m p"
  assumes p: "p \<noteq> 0" "unat p + (16 + 8 * N) < 2 ^ 64"
  shows "mem s = m \<Longrightarrow> (p, 16 + 8 * N) \<in> set (blocks s) \<Longrightarrow> i \<le> N \<Longrightarrow>
    (\<And>j. i \<le> j \<Longrightarrow> slot m p j \<noteq> 0 \<Longrightarrow> \<exists>n. (owned m p (Suc j), n) \<in> set (blocks s) \<and>
      within (slot m p j - 8) 8 (owned m p (Suc j), n) \<and> owned m p (Suc j) \<noteq> 0 \<and> owned m p (Suc j) \<noteq> p) \<Longrightarrow>
    (\<And>j k. i \<le> j \<Longrightarrow> j < k \<Longrightarrow> owned m p (Suc j) \<noteq> 0 \<Longrightarrow> owned m p (Suc j) \<noteq> owned m p (Suc k)) \<Longrightarrow>
    shutdown_loop p (of_nat i) s = Inr ((), s\<lparr>blocks := filter (\<lambda>b. fst b \<notin> tail_blocks m p i) (blocks s)\<rparr>)"
proof (induction "N - i" arbitrary: i s)
  case 0
  have "readable s (size_at p) 8" using header_within(1) [OF p(2)] 0(3) by (intro readable_block) auto
  moreover have "\<not> of_nat i < load_word m (size_at p)"
  proof -
    have "N = unat (load_word m (size_at p))" by (simp add: N_def array_len_def)
    then show ?thesis using 0(1,4) by simp
  qed
  ultimately show ?case
    using 0(1,2,4) tail_blocks_end [of m p i] by (subst shutdown_loop.simps) (simp add: read_word_ok N_def)
next
  case (Suc k)
  then have iN: "i < N" by simp
  have N: "unat (load_word m (size_at p)) = N" by (simp add: N_def array_len_def)
  have "N < 2 ^ 64" using p(2) by simp
  then have less: "of_nat i < load_word m (size_at p)"
    using iN N by (simp add: word_less_nat_alt unsigned_of_nat take_bit_nat_eq_self)
  have size: "readable s (size_at p) 8" and data: "readable s (data_at p (of_nat i)) 8"
    using header_within(1) [OF p(2)] data_at_within [OF p(2), of i] iN Suc.prems(2) by (auto intro: readable_block)
  have word: "load_word m (data_at p (of_nat i)) = slot m p i" using iN p(1) by (simp add: slot_def N_def)
  define s1 where "s1 = (if slot m p i = 0 then s else s\<lparr>blocks := filter (\<lambda>b. fst b \<noteq> owned m p (Suc i)) (blocks s)\<rparr>)"
  have freed: "(if slot m p i \<noteq> 0 then emutls_memalign_free (slot m p i) s else Inr ((), s)) = Inr ((), s1)"
  proof (cases "slot m p i = 0")
    case False
    then obtain n where n: "(owned m p (Suc i), n) \<in> set (blocks s)" "within (slot m p i - 8) 8 (owned m p (Suc i), n)"
        "owned m p (Suc i) \<noteq> 0"
      using Suc.prems(4) [of i] by auto
    then have "readable s (slot m p i - 8) 8" by (intro readable_block) auto
    then show ?thesis
      using False n free_ok [OF n(1,3)] Suc.prems(1)
      by (simp add: emutls_memalign_free_def and_then_def read_word_ok s1_def owned_def)
  qed (simp add: s1_def)
  have own0: "owned m p (Suc i) = 0" if "slot m p i = 0" using that by (simp add: owned_def)
  have own: "owned m p (Suc i) \<noteq> 0 \<and> owned m p (Suc i) \<noteq> p" if "slot m p i \<noteq> 0" using Suc.prems(4) [of i] that by auto
  have "shutdown_loop p (of_nat (Suc i)) s1 = Inr ((), s1\<lparr>blocks := filter (\<lambda>b. fst b \<notin> tail_blocks m p (Suc i)) (blocks s1)\<rparr>)"
  proof (rule Suc.hyps(1))
    show "k = N - Suc i" "Suc i \<le> N" using Suc.hyps(2) iN by auto
    show "mem s1 = m" using Suc.prems(1) by (simp add: s1_def)
    show "(p, 16 + 8 * N) \<in> set (blocks s1)" using Suc.prems(2) own by (auto simp: s1_def)
    show "\<exists>n. (owned m p (Suc j), n) \<in> set (blocks s1) \<and> within (slot m p j - 8) 8 (owned m p (Suc j), n) \<and>
        owned m p (Suc j) \<noteq> 0 \<and> owned m p (Suc j) \<noteq> p" if "Suc i \<le> j" "slot m p j \<noteq> 0" for j
      using Suc.prems(4) [of j] Suc.prems(5) [of i j] that own by (auto simp: s1_def)
    show "owned m p (Suc j) \<noteq> owned m p (Suc k)" if "Suc i \<le> j" "j < k" "owned m p (Suc j) \<noteq> 0" for j k
      using Suc.prems(5) [of j k] that by simp
  qed
  moreover have "s1\<lparr>blocks := filter (\<lambda>b. fst b \<notin> tail_blocks m p (Suc i)) (blocks s1)\<rparr> =
      s\<lparr>blocks := filter (\<lambda>b. fst b \<notin> tail_blocks m p i) (blocks s)\<rparr>"
    using own0 own by (auto simp: s1_def tail_blocks_step [of m p i] intro!: arg_cong [of _ _ "\<lambda>bs. s\<lparr>blocks := bs\<rparr>"] filter_cong)
  ultimately show ?case
    using Suc.prems(1) freed less
    by (subst shutdown_loop.simps) (simp add: read_word_ok [OF size] read_word_ok [OF data] word add.commute)
qed

text \<open>A thread has left: its blocks are free and its key has no value.\<close>

definition exited :: "tls \<Rightarrow> nat \<Rightarrow> tls" where
  "exited s t = s\<lparr>mem := store_word (mem s) (specific s t) 0, specific := (specific s)(t := 0),
     blocks := filter (\<lambda>b. fst b \<notin> owner s ` ({t} \<times> UNIV)) (blocks s)\<rparr>"

text \<open>The header of the array is the only memory that the destructor writes.\<close>

lemma header_write:
  fixes w :: uintptr
  assumes ok: "tls_ok s" and p: "specific s t = p" "p \<noteq> 0"
  defines "m \<equiv> store_word (mem s) p w"
  shows "slot m p = slot (mem s) p" "array_len m p = array_len (mem s) p" "owned m p (Suc i) = owner s (t, Suc i)"
    and "(b, n) \<in> set (blocks s @ statics s) \<Longrightarrow> b \<noteq> p \<Longrightarrow> agree (mem s) m b n"
proof -
  define N where "N = array_len (mem s) p"
  have block: "(p, 16 + 8 * N) \<in> set (blocks s)" using tls_okD(3) [OF ok, of t] p by (simp add: array_ok_def N_def)
  then have wrap: "unat p + (16 + 8 * N) < 2 ^ 64" using heap_okD(2) [OF tls_okD(1) [OF ok], of "(p, 16 + 8 * N)"] by simp
  have at: "skip_destructor_rounds_at p = p" by (simp add: skip_destructor_rounds_at_def)
  show len: "array_len m p = array_len (mem s) p"
    using header_apart(2) [OF wrap, of "mem s" w] by (simp add: array_len_def m_def at)
  show slot: "slot m p = slot (mem s) p"
    using header_words(2) [OF wrap, of _ "mem s" w] len by (auto simp: slot_def m_def at N_def)
  show agree: "agree (mem s) m b n" if b: "(b, n) \<in> set (blocks s @ statics s)" "b \<noteq> p" for b n
  proof -
    have "region p 8 \<subseteq> region p (16 + 8 * N)" using within_region [OF header_within(2) [OF wrap]] wrap by (simp add: at)
    moreover have "region b n \<inter> region p (16 + 8 * N) = {}"
      using heap_ok_regions [OF tls_okD(1) [OF ok] b(1)] block b(2) by simp
    ultimately show ?thesis unfolding m_def by (intro agree_store_word) blast
  qed
  show "owned m p (Suc i) = owner s (t, Suc i)"
  proof -
    have "(b, n) \<in> set (blocks s) \<and> agree (mem s) m b n" if "owner s (t, Suc j) = b" "(b, n) \<in> set (blocks s)" for j b n
    proof -
      have "b \<noteq> 0" using heap_okD(1) [OF tls_okD(1) [OF ok], of "(b, n)"] that(2) by simp
      then have "b \<noteq> p" using names_inj [OF tls_okD(5) [OF ok], of "(t, Suc j)" "(t, 0)"] that(1) p(1) by (auto simp: owner_0)
      then show ?thesis using agree that(2) by simp
    qed
    then show ?thesis using objects_transfer(2) [OF ok, of m p t "blocks s" i] slot p(1) by blast
  qed
qed

lemma shutdown_ok:
  fixes w :: uintptr
  assumes ok: "tls_ok s" and p: "specific s t = p" "p \<noteq> 0"
  defines "s1 \<equiv> s\<lparr>mem := store_word (mem s) p w, specific := (specific s)(t := 0)\<rparr>"
  shows "and_then (emutls_shutdown p) (\<lambda>_. free p) s1 =
    Inr ((), s1\<lparr>blocks := filter (\<lambda>b. fst b \<notin> owner s ` ({t} \<times> UNIV)) (blocks s)\<rparr>)"
proof -
  define m where "m = mem s1"
  note header = header_write [OF ok p, of w]
  have m: "m = store_word (mem s) p w" by (simp add: m_def s1_def)
  define N where "N = array_len m p"
  have block: "(p, 16 + 8 * N) \<in> set (blocks s)"
    using tls_okD(3) [OF ok, of t] p header(2) by (simp add: array_ok_def N_def m)
  then have wrap: "unat p + (16 + 8 * N) < 2 ^ 64" using heap_okD(2) [OF tls_okD(1) [OF ok], of "(p, 16 + 8 * N)"] by simp
  have own: "owned m p (Suc j) = owner s (t, Suc j)" for j by (simp add: m header(3))
  have inj: "owner s (t, Suc j) \<noteq> owner s x" if "owner s (t, Suc j) \<noteq> 0" "x \<noteq> (t, Suc j)" for j x
    using names_inj [OF tls_okD(5) [OF ok], of "(t, Suc j)" x] that by blast
  have "shutdown_loop p (of_nat 0) s1 = Inr ((), s1\<lparr>blocks := filter (\<lambda>b. fst b \<notin> tail_blocks m p 0) (blocks s1)\<rparr>)"
  proof (rule shutdown_loop_ok [OF p(2) wrap [unfolded N_def]])
    show "\<exists>n. (owned m p (Suc j), n) \<in> set (blocks s1) \<and> within (slot m p j - 8) 8 (owned m p (Suc j), n) \<and>
        owned m p (Suc j) \<noteq> 0 \<and> owned m p (Suc j) \<noteq> p" if "slot m p j \<noteq> 0" for j
    proof -
      have d: "slot (mem s) (specific s t) j \<noteq> 0" "slot m p j = slot (mem s) (specific s t) j"
        using that header(1) p(1) by (simp_all add: m)
      obtain b n where b: "b = load_word (mem s) (slot (mem s) (specific s t) j - 8)" "(b, n) \<in> set (blocks s)"
          "within (slot (mem s) (specific s t) j - 8) 8 (b, n)"
        using slot_object [OF ok d(1)] by metis
      have "owner s (t, Suc j) = b" using b(1) d(1) by (simp add: owner_Suc)
      moreover have "b \<noteq> 0" using heap_okD(1) [OF tls_okD(1) [OF ok], of "(b, n)"] b(2) by simp
      moreover have "b \<noteq> p" using inj [of j "(t, 0)"] calculation p(1) by (simp add: owner_0)
      ultimately show ?thesis using b d by (auto simp: own s1_def)
    qed
  qed (use block inj own in \<open>auto simp: m_def N_def s1_def\<close>)
  then have loop: "emutls_shutdown p s1 = Inr ((), s1\<lparr>blocks := filter (\<lambda>b. fst b \<notin> tail_blocks m p 0) (blocks s)\<rparr>)"
    using p(2) by (simp add: emutls_shutdown_def s1_def)
  have all: "owner s ` ({t} \<times> UNIV) = insert p (tail_blocks m p 0) \<union> ({0} \<inter> owner s ` ({t} \<times> UNIV))"
  proof -
    have "{t} \<times> (UNIV :: nat set) = insert (t, 0) ((\<lambda>j. (t, Suc j)) ` {0..})"
      by (auto simp: image_iff) (metis not0_implies_Suc)
    then show ?thesis using p by (auto simp: tail_blocks_def own owner_0)
  qed
  have "owner s (t, Suc j) \<noteq> p" for j
    using inj [of j "(t, 0)"] p by (cases "owner s (t, Suc j) = 0") (simp_all add: owner_0)
  then have "p \<notin> tail_blocks m p 0" by (auto simp: tail_blocks_def own)
  then have "(p, 16 + 8 * N) \<in> set (filter (\<lambda>b. fst b \<notin> tail_blocks m p 0) (blocks s))" using block by simp
  then have "free p (s1\<lparr>blocks := filter (\<lambda>b. fst b \<notin> tail_blocks m p 0) (blocks s)\<rparr>) =
      Inr ((), s1\<lparr>blocks := filter (\<lambda>b. fst b \<noteq> p) (filter (\<lambda>b. fst b \<notin> tail_blocks m p 0) (blocks s))\<rparr>)"
    using free_ok [of p "16 + 8 * N" "s1\<lparr>blocks := filter (\<lambda>b. fst b \<notin> tail_blocks m p 0) (blocks s)\<rparr>"] p(2) by simp
  moreover have "filter (\<lambda>b. fst b \<noteq> p) (filter (\<lambda>b. fst b \<notin> tail_blocks m p 0) (blocks s)) =
      filter (\<lambda>b. fst b \<notin> owner s ` ({t} \<times> UNIV)) (blocks s)"
    using heap_okD(1) [OF tls_okD(1) [OF ok]] unfolding filter_filter
    by (intro filter_cong refl) (subst all, auto)
  ultimately show ?thesis by (simp add: loop)
qed

lemma exit_rounds:
  assumes ok: "tls_ok s" and p: "specific s t = p" "p \<noteq> 0"
  shows "unat k < rounds \<Longrightarrow> thread_exit rounds t (s\<lparr>mem := store_word (mem s) p k\<rparr>) = Inr ((), exited s t)"
proof (induction rounds arbitrary: k)
  case (Suc rounds)
  define s1 where "s1 = s\<lparr>mem := store_word (mem s) p k, specific := (specific s)(t := 0)\<rparr>"
  have key: "emutls_key_created s" using tls_okD(8) [OF ok, of t] p by simp
  have block: "(p, 16 + 8 * array_len (mem s) p) \<in> set (blocks s)" using tls_okD(3) [OF ok, of t] p by (simp add: array_ok_def)
  then have "within p 8 (p, 16 + 8 * array_len (mem s) p)" by (simp add: within_def)
  then have w: "writable s1 p 8" using block by (intro writable_block) (auto simp: s1_def)
  then have "read_word (skip_destructor_rounds_at p) s1 = Inr (k, s1)"
    using writable_readable [OF w] by (simp add: read_word_ok skip_destructor_rounds_at_def) (simp add: s1_def)
  then have step: "emutls_key_destructor t p s1 =
      (if k > 0 then and_then (write_word p (k - 1)) (\<lambda>_. emutls_setspecific t p) s1
       else and_then (emutls_shutdown p) (\<lambda>_. free p) s1)"
    by (simp add: emutls_key_destructor_def skip_destructor_rounds_at_def)
  show ?case
  proof (cases "k > 0")
    case True
    then have "unat (k - 1) = unat k - 1" by (intro unat_minus_one) auto
    moreover have "0 < unat k" using True by (simp add: word_less_nat_alt)
    ultimately have "unat (k - 1) < rounds" using Suc.prems by simp
    from Suc.IH [OF this] show ?thesis
      using True step w p key by (simp add: write_word_def emutls_setspecific_def s1_def fun_upd_idem and_then_def)
  next
    case False
    then have k: "k = 0" by (simp add: word_gt_0)
    have "thread_exit rounds t (exited s t) = Inr ((), exited s t)" by (cases rounds) (simp_all add: exited_def)
    moreover have "and_then (emutls_shutdown p) (\<lambda>_. free p) s1 = Inr ((), exited s t)"
      unfolding s1_def using shutdown_ok [OF ok p, of k] p(1) k by (simp add: exited_def)
    ultimately show ?thesis
      using False step p by (simp add: s1_def and_then_def)
  qed
qed simp

text \<open>After the thread has left, the invariant holds, its variables are gone and the others are as before.\<close>

lemma exited_ok:
  assumes ok: "tls_ok s" and p: "specific s t \<noteq> 0"
  shows "tls_ok (exited s t)"
    and "c < length (controls s) \<Longrightarrow> initial_value (exited s t) c = initial_value s c"
    and "variable_at (exited s t) t' c = (if t' = t then 0 else variable_at s t' c)"
    and "c < length (controls s) \<Longrightarrow> tls_value (exited s t) t' c = (if t' = t then initial_value s c else tls_value s t' c)"
proof -
  define m' where "m' = store_word (mem s) (specific s t) 0"
  define X where "X = {t} \<times> (UNIV :: nat set)"
  define bs' where "bs' = filter (\<lambda>b. fst b \<notin> owner s ` X) (blocks s)"
  have s': "exited s t = s\<lparr>mem := m', blocks := bs', candidates := candidates s, specific := (specific s)(t := 0)\<rparr>"
    by (simp add: exited_def m'_def bs'_def X_def)
  have agree: "agree (mem s) m' b n" if "(b, n) \<in> set (blocks s @ statics s)" "b \<noteq> specific s t" for b n
    unfolding m'_def using header_write(4) [OF ok refl p that] .
  have kept: "(b, n) \<in> set bs' \<and> agree (mem s) m' b n" if "owner s (t', j) = b" "(b, n) \<in> set (blocks s)" "t' \<noteq> t" for t' j b n
  proof -
    have "b \<noteq> 0" using heap_okD(1) [OF tls_okD(1) [OF ok], of "(b, n)"] that(2) by simp
    then have "owner s (t, i) \<noteq> b" for i
      using names_inj [OF tls_okD(5) [OF ok], of "(t', j)" "(t, i)"] that(1,3) by auto
    moreover from this [of 0] have "b \<noteq> specific s t" by (simp add: owner_0)
    ultimately show ?thesis using that(2) agree by (auto simp: bs'_def X_def)
  qed
  have array: "array_ok bs' m' (specific s t') \<and> slot m' (specific s t') = slot (mem s) (specific s t') \<and>
      load_word m' (skip_destructor_rounds_at (specific s t')) = EMUTLS_SKIP_DESTRUCTOR_ROUNDS s"
    if "specific s t' \<noteq> 0" "t' \<noteq> t" for t'
  proof -
    have b: "(specific s t', 16 + 8 * array_len (mem s) (specific s t')) \<in> set (blocks s)"
      using tls_okD(3) [OF ok, of t'] that by (simp add: array_ok_def)
    then have wrap: "unat (specific s t') + (16 + 8 * array_len (mem s) (specific s t')) < 2 ^ 64"
      using heap_okD(2) [OF tls_okD(1) [OF ok], of "(specific s t', 16 + 8 * array_len (mem s) (specific s t'))"] by simp
    have k: "agree (mem s) m' (specific s t') (16 + 8 * array_len (mem s) (specific s t'))"
      "(specific s t', 16 + 8 * array_len (mem s) (specific s t')) \<in> set bs'"
      using kept [OF owner_0 b that(2)] by simp_all
    note same = array_transfer [OF that(1) wrap k(1)]
    show ?thesis unfolding array_ok_def same tls_okD(10) [OF ok that(1)] using k(2) by blast
  qed
  have slots: "slot m' (((specific s)(t := 0)) t') = (if t' = t then \<lambda>i. 0 else slot (mem s) (specific s t'))" for t'
    using array [of t'] by (cases "specific s t' = 0") (auto simp: slot_def)
  have objs: "slots_ok (controls s) bs' m' (specific s t')" "owned m' (specific s t') (Suc i) = owner s (t', Suc i)"
    and contents: "d < length (controls s) \<Longrightarrow> unat (object_index (controls s ! d)) = Suc i \<Longrightarrow> slot (mem s) (specific s t') i \<noteq> 0 \<Longrightarrow>
      load_bytes m' (slot (mem s) (specific s t') i) (unat (obj_size (controls s ! d))) =
      load_bytes (mem s) (slot (mem s) (specific s t') i) (unat (obj_size (controls s ! d)))"
    if "t' \<noteq> t" for t' i d
  proof -
    have same: "slot m' (specific s t') = slot (mem s) (specific s t')" using slots [of t'] that by simp
    have keep: "owner s (t', Suc i) = b \<Longrightarrow> (b, n) \<in> set (blocks s) \<Longrightarrow> (b, n) \<in> set bs' \<and> agree (mem s) m' b n" for i b n
      using kept that by simp
    show "slots_ok (controls s) bs' m' (specific s t')"
      by (rule objects_transfer(1) [OF ok same]) (rule keep)
    show "owned m' (specific s t') (Suc i) = owner s (t', Suc i)"
      by (rule objects_transfer(2) [OF ok same]) (rule keep)
    show "load_bytes m' (slot (mem s) (specific s t') i) (unat (obj_size (controls s ! d))) =
        load_bytes (mem s) (slot (mem s) (specific s t') i) (unat (obj_size (controls s ! d)))"
      if "d < length (controls s)" "unat (object_index (controls s ! d)) = Suc i" "slot (mem s) (specific s t') i \<noteq> 0"
      by (rule objects_transfer(3) [OF ok same _ that]) (rule keep)
  qed
  have key: "emutls_key_created s" using tls_okD(8) [OF ok p] .
  show "tls_ok (exited s t)"
  proof (rule tls_ok_update [OF ok key s'])
    show "heap_ok (exited s t)" using heap_ok_filter [OF tls_okD(1) [OF ok]] by (simp add: s' bs'_def heap_ok_def)
    have "owner (exited s t) x = (if x \<in> X then 0 else owner s x)" for x
    proof (cases x)
      case (Pair t' j)
      then show ?thesis
        using objs(2) [of t' "j - 1"] by (cases j) (auto simp: owner_def owned_def s' X_def slot_def)
    qed
    then have "owner (exited s t) = (\<lambda>x. if x \<in> X then 0 else owner s x)" by (rule ext)
    moreover have "fst ` set bs' = fst ` set (blocks s) - owner s ` {x \<in> X. owner s x \<noteq> 0}"
      using blocks_not_null [OF tls_okD(1) [OF ok]] by (force simp: bs'_def)
    ultimately show "names (owner (exited s t)) (fst ` set bs')"
      using names_remove [OF tls_okD(5) [OF ok], of X] by simp
    show "array_ok bs' m' (((specific s)(t := 0)) t')" for t'
      using array [of t'] by (cases "t' = t"; cases "specific s t' = 0") (auto simp: array_ok_def)
    show "slots_ok (controls s) bs' m' (((specific s)(t := 0)) t')" for t'
      using objs(1) [of t'] by (cases "t' = t") (auto simp: slots_ok_def)
    show "load_word m' (skip_destructor_rounds_at (((specific s)(t := 0)) t')) = EMUTLS_SKIP_DESTRUCTOR_ROUNDS s"
      if "((specific s)(t := 0)) t' \<noteq> 0" for t'
      using array [of t'] that by (auto split: if_splits)
  qed
  show init: "initial_value (exited s t) c = initial_value s c" if "c < length (controls s)" for c
  proof (cases "obj_value (controls s ! c) = 0")
    case False
    then have st: "(obj_value (controls s ! c), unat (obj_size (controls s ! c))) \<in> set (statics s)"
      using tls_okD(6) [OF ok that] by (simp add: control_ok_def)
    moreover have "(specific s t, 16 + 8 * array_len (mem s) (specific s t)) \<in> set (blocks s)"
      using tls_okD(3) [OF ok, of t] p by (simp add: array_ok_def)
    ultimately have "agree (mem s) m' (obj_value (controls s ! c)) (unat (obj_size (controls s ! c)))"
      using agree heap_ok_static [OF tls_okD(1) [OF ok] _ st] by (metis UnCI set_append)
    then show ?thesis by (simp add: initial_value_def s' Let_def agree_load_bytes)
  qed (simp add: initial_value_def s' Let_def)
  show at: "variable_at (exited s t) t' c = (if t' = t then 0 else variable_at s t' c)" for t' c
    using slots [of t'] by (auto simp: variable_at_def s' Let_def)
  show "tls_value (exited s t) t' c = (if t' = t then initial_value s c else tls_value s t' c)" if c: "c < length (controls s)"
  proof (cases "t' = t \<or> variable_at s t' c = 0")
    case True
    then show ?thesis using init [OF c] by (auto simp: tls_value_def at)
  next
    case False
    obtain i where "unat (object_index (controls s ! c)) = Suc i" "variable_at s t' c = slot (mem s) (specific s t') i"
      using variable_block [OF ok _ c] False by metis
    then have "load_bytes m' (variable_at s t' c) (unat (obj_size (controls s ! c))) =
        load_bytes (mem s) (variable_at s t' c) (unat (obj_size (controls s ! c)))"
      using contents [of t' c i] c False by simp
    then show ?thesis using False by (simp add: tls_value_def at) (simp add: s')
  qed
qed

lemma thread_exit_ok:
  assumes ok: "tls_ok s" and rounds: "unat (EMUTLS_SKIP_DESTRUCTOR_ROUNDS s) < rounds"
  shows "thread_exit rounds t s = Inr ((), if specific s t = 0 then s else exited s t)"
proof (cases "specific s t = 0")
  case True
  then show ?thesis by (cases rounds) simp_all
next
  case False
  have "store_word (mem s) (specific s t) (EMUTLS_SKIP_DESTRUCTOR_ROUNDS s) = mem s"
    using tls_okD(10) [OF ok False] store_load_word [of "mem s" "specific s t"] by (simp add: skip_destructor_rounds_at_def)
  then show ?thesis using exit_rounds [OF ok refl False rounds] False by simp
qed

end
