(* ===== verification/Emutls_Spec.thy ===== *)
theory Emutls_Spec
  imports Emutls_Exit
begin

text \<open>
  What \<open>emutls.c\<close> promises: every thread has its own copy of every variable, which starts with the initial
  value and changes by the writes of the thread alone.  The program is a sequence of events: calls of
  \<open>__emutls_get_address\<close>, writes to variables whose address it got, and ends of threads.
\<close>

section \<open>Events\<close>

datatype tls_event =
    Access nat nat addr
  | Assign nat nat nat "byte list"
  | Leave nat

text \<open>The number of rounds that POSIX grants the destructors of a thread.\<close>

definition PTHREAD_DESTRUCTOR_ITERATIONS :: nat where "PTHREAD_DESTRUCTOR_ITERATIONS = 4"

inductive tls_step :: "tls \<Rightarrow> tls_event \<Rightarrow> tls \<Rightarrow> bool" where
  access: "c < length (controls s) \<Longrightarrow> emutls_get_address t c s = Inr (p, s') \<Longrightarrow> tls_step s (Access t c p) s'"
| assign: "c < length (controls s) \<Longrightarrow> variable_at s t c \<noteq> 0 \<Longrightarrow> i + length bs \<le> unat (obj_size (controls s ! c)) \<Longrightarrow>
    tls_step s (Assign t c i bs) (s\<lparr>mem := store_bytes (mem s) (variable_at s t c + of_nat i) bs\<rparr>)"
| leave: "thread_exit PTHREAD_DESTRUCTOR_ITERATIONS t s = Inr ((), s') \<Longrightarrow> tls_step s (Leave t) s'"

inductive_cases tls_stepE: "tls_step s e s'"
inductive_simps tls_step_access: "tls_step s (Access t c p) s'"
inductive_simps tls_step_assign: "tls_step s (Assign t c i bs) s'"
inductive_simps tls_step_leave: "tls_step s (Leave t) s'"

inductive steps :: "('s \<Rightarrow> 'e \<Rightarrow> 's \<Rightarrow> bool) \<Rightarrow> 's \<Rightarrow> 'e list \<Rightarrow> 's \<Rightarrow> bool" for step where
  steps_nil: "steps step s [] s"
| steps_snoc: "steps step s es s' \<Longrightarrow> step s' e s'' \<Longrightarrow> steps step s (es @ [e]) s''"

text \<open>The state in which a program starts, with the control objects that the compiler made.\<close>

definition tls_initial :: "tls \<Rightarrow> bool" where
  "tls_initial s \<longleftrightarrow>
     blocks s = [] \<and> (\<forall>t. specific s t = 0) \<and> \<not> emutls_key_created s \<and> \<not> init_once_done s \<and> emutls_num_object s = 0 \<and>
     heap_ok s \<and> EMUTLS_SKIP_DESTRUCTOR_ROUNDS s \<le> 1 \<and> length (controls s) < 2 ^ 59 \<and>
     list_all (\<lambda>c. object_index c = 0 \<and> control_ok (statics s) c) (controls s)"

definition tls_reachable :: "tls \<Rightarrow> bool" where
  "tls_reachable s \<longleftrightarrow> (\<exists>s0 es. tls_initial s0 \<and> steps tls_step s0 es s)"

section \<open>The store of the variables\<close>

text \<open>The effect of an event on the values of the variables, by thread and variable.\<close>

primrec effect :: "(nat \<Rightarrow> byte list) \<Rightarrow> tls_event \<Rightarrow> (nat \<Rightarrow> nat \<Rightarrow> byte list) \<Rightarrow> nat \<Rightarrow> nat \<Rightarrow> byte list" where
  "effect init (Access t c p) v = v"
| "effect init (Assign t c i bs) v = v(t := (v t)(c := overwrite i bs (v t c)))"
| "effect init (Leave t) v = v(t := init)"

primrec touches :: "nat \<Rightarrow> nat \<Rightarrow> tls_event \<Rightarrow> bool" where
  "touches t c (Access t' c' p) \<longleftrightarrow> False"
| "touches t c (Assign t' c' i bs) \<longleftrightarrow> t' = t \<and> c' = c"
| "touches t c (Leave t') \<longleftrightarrow> t' = t"

lemma effect_elsewhere: "\<not> touches t c e \<Longrightarrow> effect init e v t c = v t c"
  by (cases e) auto

lemma effect_local: "v t c = w t c \<Longrightarrow> init c = init' c \<Longrightarrow> effect init e v t c = effect init' e w t c"
  by (cases e) auto

text \<open>The contract of a component that gives every thread its own copy of the variables.\<close>

locale thread_variables =
  fixes step :: "'s \<Rightarrow> tls_event \<Rightarrow> 's \<Rightarrow> bool"
    and good :: "'s \<Rightarrow> bool"
    and declared :: "'s \<Rightarrow> nat \<Rightarrow> bool"
    and initial :: "'s \<Rightarrow> nat \<Rightarrow> byte list"
    and content :: "'s \<Rightarrow> nat \<Rightarrow> nat \<Rightarrow> byte list"
  assumes step_good: "good s \<Longrightarrow> step s e s' \<Longrightarrow> good s'"
    and step_declared: "good s \<Longrightarrow> step s e s' \<Longrightarrow> declared s' c = declared s c"
    and step_initial: "good s \<Longrightarrow> step s e s' \<Longrightarrow> declared s c \<Longrightarrow> initial s' c = initial s c"
    and step_content: "good s \<Longrightarrow> step s e s' \<Longrightarrow> declared s c \<Longrightarrow> content s' t c = effect (initial s) e (content s) t c"
begin

lemma steps_good: "steps step s es s' \<Longrightarrow> good s \<Longrightarrow> good s' \<and> (\<forall>c. declared s' c = declared s c)"
  by (induction rule: steps.induct) (auto intro: step_good simp: step_declared)

lemma steps_initial: "steps step s es s' \<Longrightarrow> good s \<Longrightarrow> declared s c \<Longrightarrow> initial s' c = initial s c"
proof (induction rule: steps.induct)
  case (steps_snoc s es s' e s'')
  then show ?case using steps_good [OF steps_snoc.hyps(1)] step_initial [of s' e s'' c] by simp
qed simp

lemma steps_content:
  "steps step s es s' \<Longrightarrow> good s \<Longrightarrow> declared s c \<Longrightarrow> content s' t c = fold (effect (initial s)) es (content s) t c"
proof (induction rule: steps.induct)
  case (steps_snoc s es s' e s'')
  have s': "good s'" "declared s' c" using steps_good [OF steps_snoc.hyps(1)] steps_snoc.prems by auto
  have "content s'' t c = effect (initial s') e (content s') t c" by (rule step_content [OF s'(1) steps_snoc.hyps(2) s'(2)])
  also have "\<dots> = effect (initial s) e (fold (effect (initial s)) es (content s)) t c"
    using steps_initial [OF steps_snoc.hyps(1)] steps_snoc by (intro effect_local) auto
  finally show ?case by simp
qed simp

lemma steps_isolated:
  "steps step s es s' \<Longrightarrow> good s \<Longrightarrow> declared s c \<Longrightarrow> list_all (\<lambda>e. \<not> touches t c e) es \<Longrightarrow> content s' t c = content s t c"
proof (induction rule: steps.induct)
  case (steps_snoc s es s' e s'')
  then have "good s'" "declared s' c" using steps_good [OF steps_snoc.hyps(1)] by auto
  then show ?case using step_content [of s' e s'' c t] steps_snoc by (simp add: effect_elsewhere)
qed simp

end

text \<open>The steps of \<open>emutls.c\<close> keep the contract.\<close>

definition tls_good :: "tls \<Rightarrow> bool" where
  "tls_good s \<longleftrightarrow> tls_ok s \<and> EMUTLS_SKIP_DESTRUCTOR_ROUNDS s \<le> 1"

lemma tls_good_exit:
  assumes "tls_good s"
  shows "thread_exit PTHREAD_DESTRUCTOR_ITERATIONS t s = Inr ((), if specific s t = 0 then s else exited s t)"
  using assms by (intro thread_exit_ok) (auto simp: tls_good_def word_le_nat_alt PTHREAD_DESTRUCTOR_ITERATIONS_def)

lemma no_array_no_value: "specific s t = 0 \<Longrightarrow> tls_value s t c = initial_value s c"
  by (auto simp: tls_value_def variable_at_def Let_def)

lemma step_get_address:
  assumes "tls_good s" "c < length (controls s)" "emutls_get_address t c s = Inr (p, s')"
  shows "tls_good s' \<and> keeps_values s s' \<and> p \<noteq> 0 \<and> variable_at s' t c = p"
proof -
  have "tls_ok s" using assms(1) by (simp add: tls_good_def)
  from meets_Inr [OF get_address_ok [OF this assms(2)] assms(3)] show ?thesis
    using assms(1) keeps_valuesD(2) [of s s'] by (simp add: tls_good_def)
qed

interpretation emutls: thread_variables tls_step tls_good "\<lambda>s c. c < length (controls s)" initial_value tls_value
proof (unfold_locales, goal_cases)
  case (1 s e s')
  have ok: "tls_ok s" using 1(1) by (simp add: tls_good_def)
  from 1(2) show ?case
  proof cases
    case (access c t p)
    then show ?thesis using step_get_address [OF 1(1)] by simp
  next
    case (assign c t i bs)
    then show ?thesis using 1(1) write_ok(1) [OF ok] by (simp add: tls_good_def)
  next
    case (leave t)
    show ?thesis
    proof (cases "specific s t = 0")
      case True
      then show ?thesis using leave 1(1) tls_good_exit [OF 1(1), of t] by simp
    next
      case False
      then have "s' = exited s t" using leave tls_good_exit [OF 1(1), of t] by simp
      then show ?thesis using 1(1) exited_ok(1) [OF ok False] by (simp add: tls_good_def) (simp add: exited_def)
    qed
  qed
next
  case (2 s e s' c)
  from 2(2) show ?case
  proof cases
    case (access c t p)
    then show ?thesis using step_get_address [OF 2(1) access(2,3)] keeps_valuesD(1) [of s s'] by simp
  next
    case (leave t)
    then show ?thesis using tls_good_exit [OF 2(1), of t] by (auto simp: exited_def split: if_splits)
  qed simp
next
  case (3 s e s' c)
  from 3(2) show ?case
  proof cases
    case (access c' t p)
    then show ?thesis using step_get_address [OF 3(1) access(2,3)] 3(3) keeps_valuesD(4) [of s s'] by simp
  next
    case (assign c' t i bs)
    then show ?thesis using 3 write_ok(5) by (auto simp: tls_good_def)
  next
    case (leave t)
    then show ?thesis using 3 tls_good_exit [OF 3(1), of t] exited_ok(2) by (auto simp: tls_good_def split: if_splits)
  qed
next
  case (4 s e s' c t)
  from 4(2) show ?case
  proof cases
    case (access c' t' p)
    then show ?thesis using step_get_address [OF 4(1) access(2,3)] 4(3) keeps_valuesD(3) [of s s'] by simp
  next
    case (assign c' t' i bs)
    then show ?thesis using 4 write_ok(2,3) by (auto simp: tls_good_def)
  next
    case (leave t')
    then show ?thesis
      using 4 tls_good_exit [OF 4(1), of t'] exited_ok(4) no_array_no_value by (auto simp: tls_good_def split: if_splits)
  qed
qed

section \<open>Reachable states\<close>

lemma tls_initial_good: "tls_initial s \<Longrightarrow> tls_good s"
proof -
  assume init: "tls_initial s"
  have zero: "object_index (controls s ! c) = 0" if "c < length (controls s)" for c
    using init that by (simp add: tls_initial_def list_all_length)
  have "owner s x = 0" for x
    using init by (cases x; cases "snd x") (auto simp: tls_initial_def owner_0 owner_Suc slot_def)
  then have "names (owner s) (fst ` set (blocks s))"
    using init by (simp add: names_def tls_initial_def bij_betw_def)
  moreover have "indices_ok (controls s) (emutls_num_object s)"
    using init zero by (auto simp: indices_ok_def tls_initial_def inj_on_def)
  ultimately show "tls_good s"
    using init zero by (auto simp: tls_good_def tls_ok_def tls_initial_def array_ok_def slots_ok_def slot_def list_all_length)
qed

lemma tls_reachable_good: "tls_reachable s \<Longrightarrow> tls_good s"
  using emutls.steps_good tls_initial_good by (auto simp: tls_reachable_def)

lemma tls_reachable_step: "tls_reachable s \<Longrightarrow> tls_step s e s' \<Longrightarrow> tls_reachable s'"
  unfolding tls_reachable_def by (blast intro: steps_snoc)

section \<open>An example\<close>

text \<open>A variable of four bytes, aligned to 16, whose initial value lies at 0x500.\<close>

definition example_state :: tls where
  "example_state = \<lparr>mem = (\<lambda>_. 0), blocks = [], statics = [(0x500, 4)], candidates = [0x1000, 0x2000],
     specific = (\<lambda>_. 0), emutls_key_created = False, init_once_done = False, key_create_result = 0,
     EMUTLS_SKIP_DESTRUCTOR_ROUNDS = 0, emutls_num_object = 0,
     controls = [\<lparr>obj_size = 4, obj_align = 16, object_index = 0, obj_value = 0x500\<rparr>]\<rparr>"

definition example_indexed :: tls where
  "example_indexed = example_state\<lparr>emutls_num_object := 1, emutls_key_created := True, init_once_done := True,
     controls := [\<lparr>obj_size = 4, obj_align = 16, object_index = 1, obj_value = 0x500\<rparr>]\<rparr>"

lemma example_initial: "tls_initial example_state" "0 < length (controls example_state)"
  by (simp_all add: tls_initial_def example_state_def heap_ok_def control_ok_def align_of_def)

lemma example_value: "tls_value example_state 0 0 = [0, 0, 0, 0]"
  by (simp add: tls_value_def variable_at_def initial_value_def example_state_def load_bytes_def upt_rec)

lemma example_index: "emutls_get_index 0 example_state = Inr (1, example_indexed)"
  by (simp add: emutls_get_index_def example_state_def example_indexed_def emutls_init_once_def emutls_init_def
      set_index_def and_then_def)

lemma example_array: "\<exists>m. emutls_get_address_array 0 1 example_indexed =
    Inr (0x1000, example_indexed\<lparr>blocks := [(0x1000, 128)], candidates := [0x2000], mem := m, specific := (\<lambda>_. 0)(0 := 0x1000)\<rparr>) \<and>
    load_word m 0x1010 = 0"
proof -
  have "emutls_new_data_array_size 1 = 14" by (simp add: emutls_new_data_array_size_def)
  moreover have "load_word (store_word (store_word (store_bytes (\<lambda>_. 0) (0x1000 + 16) (replicate 112 0)) 0x1000 0) (0x1000 + 8) 14)
      (0x1000 + 16) = 0"
    using header_words [where q = "0x1000" and N = 14 and i = 0]
      data_words_zero [where q = "0x1000" and N = 14 and i = 0 and M = 0 and m = "\<lambda>_. 0"]
    by (simp add: size_at_def data_at_def skip_destructor_rounds_at_def)
  ultimately show ?thesis
    by (simp add: emutls_get_address_array_def emutls_getspecific_def example_indexed_def example_state_def and_then_def
        emutls_asize_def malloc_def fits_def apart_def memset_def writable_def within_def data_at_def
        skip_destructor_rounds_at_def write_word_def emutls_check_array_set_size_def size_at_def emutls_setspecific_def return_value_def)
qed

lemma example_access: "\<exists>s. emutls_get_address 0 0 example_state = Inr (0x2010, s)"
proof -
  obtain m where m: "emutls_get_address_array 0 1 example_indexed =
      Inr (0x1000, example_indexed\<lparr>blocks := [(0x1000, 128)], candidates := [0x2000], mem := m, specific := (\<lambda>_. 0)(0 := 0x1000)\<rparr>)"
    "load_word m 0x1010 = 0" using example_array by blast
  show ?thesis
    unfolding emutls_get_address_def and_then_def example_index sum.case prod.case m(1) Let_def
    by (simp add: m(2) and_then_def read_word_def readable_def within_def data_at_def
        emutls_allocate_object_eq align_of_def emutls_memalign_alloc_def malloc_def EXTRA_ALIGN_PTR_BYTES_def fits_def apart_def
        write_word_def writable_def memcpy_def return_value_def example_indexed_def example_state_def)
qed

text \<open>The variable is used and one of its bytes written.\<close>

lemma example_size: "unat (obj_size (controls example_state ! 0)) = 4"
  by (simp add: example_state_def)

lemma example_run:
  "\<exists>s. steps tls_step example_state [Access 0 0 0x2010, Assign 0 0 1 [7]] s \<and> variable_at s 0 0 = 0x2010 \<and> 0 < length (controls s)"
proof -
  note good = tls_initial_good [OF example_initial(1)]
  obtain s where s: "emutls_get_address 0 0 example_state = Inr (0x2010, s)" using example_access by blast
  note kept = step_get_address [OF good example_initial(2) s]
  then have ok: "tls_ok s" by (simp add: tls_good_def)
  have len: "0 < length (controls s)" and size: "unat (obj_size (controls s ! 0)) = 4"
    using kept keeps_valuesD(1) [of example_state s] keeps_valuesD(5) [of example_state s 0] example_initial(2) example_size
    by simp_all
  have "steps tls_step example_state ([] @ [Access 0 0 0x2010]) s"
    by (rule steps_snoc [of tls_step example_state "[]" example_state], rule steps_nil, rule tls_step.access [OF example_initial(2) s])
  moreover have "tls_step s (Assign 0 0 1 [7]) (s\<lparr>mem := store_bytes (mem s) (variable_at s 0 0 + of_nat 1) [7]\<rparr>)"
    using kept len size by (intro tls_step.assign) simp_all
  moreover have "variable_at (s\<lparr>mem := store_bytes (mem s) (variable_at s 0 0 + of_nat 1) [7]\<rparr>) 0 0 = variable_at s 0 0"
    using kept len size ok by (intro write_ok(4)) simp_all
  ultimately show ?thesis
    using kept len steps_snoc by fastforce
qed

section \<open>Properties\<close>

text \<open>C9. In every reachable state the invariant holds: the blocks of the heap do not overlap and are exactly
  the arrays and objects of the threads, slots hold aligned addresses inside their blocks, and indices are
  distinct.  No call and no end of a thread does anything undefined from there: no access outside a block, no
  double or wrong \<open>free\<close>, no use of a key that does not exist.\<close>

theorem emutls_invariant:
  assumes "tls_reachable s"
  shows "tls_ok s \<and> thread_exit PTHREAD_DESTRUCTOR_ITERATIONS t s \<noteq> Inl Undefined \<and>
    (\<forall>c < length (controls s). emutls_get_address t c s \<noteq> Inl Undefined)"
proof -
  have good: "tls_good s" by (rule tls_reachable_good [OF assms])
  then have ok: "tls_ok s" by (simp add: tls_good_def)
  then show ?thesis
    using tls_good_exit [OF good, of t] meets_no_Undefined [OF get_address_ok [OF ok]] by auto
qed

lemma example_reachable:
  "\<exists>s. tls_reachable s \<and> steps tls_step example_state [Access 0 0 0x2010, Assign 0 0 1 [7]] s \<and>
     variable_at s 0 0 = 0x2010 \<and> 0 < length (controls s)"
  using example_run example_initial(1) unfolding tls_reachable_def by blast

theorem emutls_invariant_witness:
  "\<exists>s. variable_at s 0 0 = 0x2010 \<and> tls_ok s \<and> emutls_get_address 1 0 s \<noteq> Inl Undefined"
proof -
  obtain s where s: "tls_reachable s" "variable_at s 0 0 = 0x2010" "0 < length (controls s)"
    using example_reachable by blast
  then show ?thesis using emutls_invariant [OF s(1), of 1] by blast
qed

text \<open>C11. \<open>__emutls_get_address\<close> aborts or returns the address of the calling thread's own copy of the variable:
  aligned as the control asks, inside a block of the heap, apart from every other copy, and holding the value of
  the variable, the initial one on first use.  It moves no copy and changes no value, of any thread.\<close>

theorem emutls_address_correct:
  assumes "tls_reachable s" and c: "c < length (controls s)"
  shows "case emutls_get_address t c s of Inl e \<Rightarrow> e = Aborted
    | Inr (p, s') \<Rightarrow>
        p \<noteq> 0 \<and> unat (align_of (controls s' ! c)) dvd unat p \<and>
        (\<exists>b \<in> set (blocks s'). within p (unat (obj_size (controls s' ! c))) b) \<and>
        load_bytes (mem s') p (unat (obj_size (controls s' ! c))) = tls_value s t c \<and>
        (\<forall>t' c'. c' < length (controls s) \<longrightarrow>
           tls_value s' t' c' = tls_value s t' c' \<and>
           (variable_at s t' c' \<noteq> 0 \<longrightarrow> variable_at s' t' c' = variable_at s t' c') \<and>
           (variable_at s' t' c' \<noteq> 0 \<and> (t', c') \<noteq> (t, c) \<longrightarrow>
              apart (p, unat (obj_size (controls s' ! c))) (variable_at s' t' c', unat (obj_size (controls s' ! c')))))"
proof (cases "emutls_get_address t c s")
  case (Inl e)
  then show ?thesis using get_address_ok [of s c t] tls_reachable_good [OF assms(1)] c by (simp add: meets_def tls_good_def)
next
  case (Inr r)
  obtain p s' where r: "r = (p, s')" by (cases r)
  note step = step_get_address [OF tls_reachable_good [OF assms(1)] c Inr [unfolded r]]
  then have ok: "tls_ok s'" and keep: "keeps_values s s'" and p: "p \<noteq> 0" "variable_at s' t c = p" by (auto simp: tls_good_def)
  have c': "c < length (controls s')" using c keeps_valuesD(1) [OF keep] by simp
  obtain b n where b: "(b, n) \<in> set (blocks s')" "owner s' (t, unat (object_index (controls s' ! c))) = b"
    "within p (unat (obj_size (controls s' ! c))) (b, n)" "unat (align_of (controls s' ! c)) dvd unat p"
    using variable_block [OF ok _ c', of t] p by metis
  have "apart (p, unat (obj_size (controls s' ! c))) (variable_at s' t' d, unat (obj_size (controls s' ! d)))"
    if d: "d < length (controls s)" "variable_at s' t' d \<noteq> 0" "(t', d) \<noteq> (t, c)" for t' d
  proof -
    have d': "d < length (controls s')" using d(1) keeps_valuesD(1) [OF keep] by simp
    obtain q k where q: "(q, k) \<in> set (blocks s')" "owner s' (t', unat (object_index (controls s' ! d))) = q"
      "within (variable_at s' t' d) (unat (obj_size (controls s' ! d))) (q, k)"
      using variable_block [OF ok d(2) d'] by metis
    have "b \<noteq> q" using variables_apart [OF ok c' d', of t t'] d(2,3) p b(2) q(2) by auto
    then have "apart (b, n) (q, k)" using heap_ok_apart(2) [OF tls_okD(1) [OF ok], of "(b, n)" "(q, k)"] b(1) q(1) by auto
    then show ?thesis by (rule within_apart [OF b(3) q(3)])
  qed
  moreover have "load_bytes (mem s') p (unat (obj_size (controls s' ! c))) = tls_value s t c"
    using keeps_valuesD(3) [OF keep c, of t] p by (simp add: tls_value_def)
  ultimately show ?thesis
    using p b keeps_valuesD(3,6) [OF keep] by (auto simp: Inr r)
qed

theorem emutls_address_correct_witness:
  "\<exists>s. emutls_get_address 0 0 example_state = Inr (0x2010, s) \<and> load_bytes (mem s) 0x2010 4 = [0, 0, 0, 0]"
proof -
  have reach: "tls_reachable example_state"
    unfolding tls_reachable_def by (intro exI conjI) (rule example_initial(1), rule steps_nil)
  obtain s where s: "emutls_get_address 0 0 example_state = Inr (0x2010, s)" using example_access by blast
  have "keeps_values example_state s"
    using step_get_address [OF tls_initial_good [OF example_initial(1)] example_initial(2) s] by blast
  from keeps_valuesD(5) [OF this example_initial(2)] have "unat (obj_size (controls s ! 0)) = 4" by (simp only: example_size)
  moreover have "load_bytes (mem s) 0x2010 (unat (obj_size (controls s ! 0))) = tls_value example_state 0 0"
    using emutls_address_correct [OF reach example_initial(2), of 0] unfolding s sum.case prod.case by blast
  ultimately show ?thesis using s example_value by auto
qed

text \<open>C1. Emulated thread-local storage implements per-thread variables: after any sequence of calls, writes
  and ends of threads, the value of each variable in each thread is the one that the events give it, starting
  from the initial values, with a write changing one variable of one thread and the end of a thread resetting
  the variables of that thread.\<close>

theorem emutls_refines:
  assumes "tls_initial s" "steps tls_step s es s'" "c < length (controls s)"
  shows "tls_value s' t c = fold (effect (initial_value s)) es (\<lambda>t. initial_value s) t c"
proof -
  have "specific s t' = 0" for t' using assms(1) by (simp add: tls_initial_def)
  then have "tls_value s = (\<lambda>t. initial_value s)" by (intro ext no_array_no_value)
  then show ?thesis using emutls.steps_content [OF assms(2) tls_initial_good [OF assms(1)] assms(3)] by simp
qed

theorem emutls_refines_witness:
  "\<exists>s. steps tls_step example_state [Access 0 0 0x2010, Assign 0 0 1 [7]] s \<and> tls_value s 0 0 = [0, 7, 0, 0] \<and> tls_value s 1 0 = [0, 0, 0, 0]"
proof -
  obtain s where s: "steps tls_step example_state [Access 0 0 0x2010, Assign 0 0 1 [7]] s" using example_run by blast
  have init: "initial_value example_state 0 = [0, 0, 0, 0]"
    by (simp add: initial_value_def example_state_def load_bytes_def upt_rec)
  have "tls_value s 0 0 = [0, 7, 0, 0]" "tls_value s 1 0 = [0, 0, 0, 0]"
    using emutls_refines [OF example_initial(1) s example_initial(2), of 0]
      emutls_refines [OF example_initial(1) s example_initial(2), of 1]
    by (simp_all add: init overwrite_def)
  then show ?thesis using s by blast
qed

text \<open>C10. A thread can end: the rounds of the destructor and the loop over the array terminate within the rounds
  that POSIX grants, also where the first is skipped.  Exactly the blocks of the thread are freed, and none is
  left once the last thread has ended.\<close>

theorem emutls_exit_terminates:
  assumes "tls_reachable s"
  shows "\<exists>s'. thread_exit PTHREAD_DESTRUCTOR_ITERATIONS t s = Inr ((), s') \<and> specific s' t = 0 \<and>
    blocks s' = filter (\<lambda>b. fst b \<notin> range (\<lambda>j. owner s (t, j))) (blocks s) \<and>
    ((\<forall>t'. t' \<noteq> t \<longrightarrow> specific s t' = 0) \<longrightarrow> blocks s' = [])"
proof -
  define s' where "s' = (if specific s t = 0 then s else exited s t)"
  have good: "tls_good s" by (rule tls_reachable_good [OF assms])
  then have ok: "tls_ok s" by (simp add: tls_good_def)
  have zero: "owner s (t', j) = 0" if "specific s t' = 0" for t' j
    using that by (cases j) (simp_all add: owner_0 owner_Suc)
  have null: "0 \<notin> fst ` set (blocks s)" by (rule blocks_not_null [OF tls_okD(1) [OF ok]])
  have "filter (\<lambda>b. fst b \<notin> range (\<lambda>j. owner s (t, j))) (blocks s) = blocks s" if "specific s t = 0"
    using null zero [OF that] by (auto simp: filter_id_conv image_iff)
  moreover have "owner s ` ({t} \<times> UNIV) = range (\<lambda>j. owner s (t, j))" by auto
  ultimately have bs: "blocks s' = filter (\<lambda>b. fst b \<notin> range (\<lambda>j. owner s (t, j))) (blocks s)"
    by (simp add: s'_def exited_def)
  have "blocks s' = []" if alone: "\<And>t'. t' \<noteq> t \<Longrightarrow> specific s t' = 0"
  proof -
    have "fst b \<in> range (\<lambda>j. owner s (t, j))" if "b \<in> set (blocks s)" for b
    proof -
      have "\<exists>x. owner s x \<noteq> 0 \<and> fst b = owner s x"
      proof -
        have "fst b \<in> fst ` set (blocks s)" using that by simp
        also have "fst ` set (blocks s) = owner s ` {x. owner s x \<noteq> 0}"
          using tls_okD(5) [OF ok] unfolding names_def by (rule bij_betw_imp_surj_on [symmetric])
        finally show ?thesis by blast
      qed
      then obtain x where x: "owner s x \<noteq> 0" "fst b = owner s x" by blast
      then have "fst x = t" using zero [of "fst x" "snd x"] alone [of "fst x"] by fastforce
      then show ?thesis using x(2) by (metis prod.collapse rangeI)
    qed
    then show ?thesis by (simp add: bs filter_empty_conv)
  qed
  moreover have "specific s' t = 0" by (simp add: s'_def exited_def)
  ultimately show ?thesis using tls_good_exit [OF good, of t] bs s'_def by auto
qed

theorem emutls_exit_terminates_witness:
  "\<exists>s s'. variable_at s 0 0 = 0x2010 \<and> thread_exit PTHREAD_DESTRUCTOR_ITERATIONS 0 s = Inr ((), s') \<and> specific s' 0 = 0"
proof -
  obtain s where s: "tls_reachable s" "variable_at s 0 0 = 0x2010" using example_reachable by blast
  then show ?thesis using emutls_exit_terminates [OF s(1), of 0] by blast
qed

text \<open>The array of a thread grows to a size that holds the index, by less than 16 slots more, and whose block
  with the header of two words is a multiple of 16 words.\<close>

theorem emutls_array_growth:
  assumes "unat index + 17 < 2 ^ 64"
  shows "unat index \<le> unat (emutls_new_data_array_size index) \<and> unat (emutls_new_data_array_size index) < unat index + 16 \<and>
    16 dvd unat (emutls_new_data_array_size index) + 2"
  using new_data_array_size [OF assms] by blast

theorem emutls_array_growth_witness: "16 dvd unat (emutls_new_data_array_size 15) + 2 \<and> unat (emutls_new_data_array_size 15) = 30"
  using emutls_array_growth [of 15] by (simp add: emutls_new_data_array_size_def)

end
