(* ===== verification/Emutls_Index.thy ===== *)
theory Emutls_Index
  imports Emutls_Spec
begin

text \<open>
  The race for an index: \<open>emutls_get_index\<close> run by any number of threads, interleaved at its accesses to shared
  state.  The index of a control is read without the mutex first and again under it.  The calls of \<open>emutls_init_once\<close>
  and of the mutex are single steps, as POSIX promises of \<open>pthread_once\<close> and of mutexes, and the accesses are
  sequentially consistent; \<open>++emutls_num_object\<close> and the store of the index are two steps.
\<close>

section \<open>Threads\<close>

text \<open>Where a thread is, with the control it works for and the local variable \<open>index\<close>.\<close>

datatype place =
    Idle
  | Loading nat
  | Missing nat
  | Ready nat
  | Locked nat
  | Counting nat
  | Storing nat uintptr
  | Unlocking nat uintptr
  | Returned nat uintptr

record race =
  shared :: tls
  emutls_mutex :: "nat option"
  place :: "nat \<Rightarrow> place"

definition move :: "race \<Rightarrow> nat \<Rightarrow> place \<Rightarrow> race" where
  "move r t p = r\<lparr>place := (place r)(t := p)\<rparr>"

abbreviation index_of :: "race \<Rightarrow> nat \<Rightarrow> uintptr" where
  "index_of r c \<equiv> object_index (controls (shared r) ! c)"

inductive index_step :: "race \<Rightarrow> nat \<Rightarrow> race \<Rightarrow> bool" where
  call: "place r t = Idle \<or> place r t = Returned d i \<Longrightarrow> c < length (controls (shared r)) \<Longrightarrow> index_step r t (move r t (Loading c))"
| load: "place r t = Loading c \<Longrightarrow>
    index_step r t (move r t (if index_of r c = 0 then Missing c else Returned c (index_of r c)))"
| init_once: "place r t = Missing c \<Longrightarrow> emutls_init_once (shared r) = Inr ((), s) \<Longrightarrow>
    index_step r t (move (r\<lparr>shared := s\<rparr>) t (Ready c))"
| lock: "place r t = Ready c \<Longrightarrow> emutls_mutex r = None \<Longrightarrow> index_step r t (move (r\<lparr>emutls_mutex := Some t\<rparr>) t (Locked c))"
| load_again: "place r t = Locked c \<Longrightarrow>
    index_step r t (move r t (if index_of r c = 0 then Counting c else Unlocking c (index_of r c)))"
| count: "place r t = Counting c \<Longrightarrow> num = emutls_num_object (shared r) + 1 \<Longrightarrow>
    index_step r t (move (r\<lparr>shared := (shared r)\<lparr>emutls_num_object := num\<rparr>\<rparr>) t (Storing c num))"
| store: "place r t = Storing c i \<Longrightarrow> index_step r t (move (r\<lparr>shared := set_index c i (shared r)\<rparr>) t (Unlocking c i))"
| unlock: "place r t = Unlocking c i \<Longrightarrow> index_step r t (move (r\<lparr>emutls_mutex := None\<rparr>) t (Returned c i))"

inductive_cases index_stepE: "index_step r t r'"

definition race_initial :: "race \<Rightarrow> bool" where
  "race_initial r \<longleftrightarrow> tls_ok (shared r) \<and> emutls_mutex r = None \<and> (\<forall>t. place r t = Idle)"

inductive race_reachable :: "race \<Rightarrow> bool" where
  race_start: "race_initial r \<Longrightarrow> race_reachable r"
| race_step: "race_reachable r \<Longrightarrow> index_step r t r' \<Longrightarrow> race_reachable r'"

section \<open>The invariant\<close>

primrec in_section :: "place \<Rightarrow> bool" where
  "in_section Idle = False"
| "in_section (Loading c) = False"
| "in_section (Missing c) = False"
| "in_section (Ready c) = False"
| "in_section (Locked c) = True"
| "in_section (Counting c) = True"
| "in_section (Storing c i) = True"
| "in_section (Unlocking c i) = True"
| "in_section (Returned c i) = False"

primrec place_ok :: "tls \<Rightarrow> place \<Rightarrow> bool" where
  "place_ok s Idle \<longleftrightarrow> True"
| "place_ok s (Loading c) \<longleftrightarrow> c < length (controls s)"
| "place_ok s (Missing c) \<longleftrightarrow> c < length (controls s)"
| "place_ok s (Ready c) \<longleftrightarrow> c < length (controls s) \<and> init_once_done s"
| "place_ok s (Locked c) \<longleftrightarrow> c < length (controls s) \<and> init_once_done s"
| "place_ok s (Counting c) \<longleftrightarrow> c < length (controls s) \<and> init_once_done s \<and> object_index (controls s ! c) = 0"
| "place_ok s (Storing c i) \<longleftrightarrow>
     c < length (controls s) \<and> init_once_done s \<and> object_index (controls s ! c) = 0 \<and> i = emutls_num_object s"
| "place_ok s (Unlocking c i) \<longleftrightarrow> c < length (controls s) \<and> i \<noteq> 0 \<and> object_index (controls s ! c) = i"
| "place_ok s (Returned c i) \<longleftrightarrow> c < length (controls s) \<and> i \<noteq> 0 \<and> object_index (controls s ! c) = i"

text \<open>The state as the sequential function sees it: a thread that has counted but not stored has done nothing.\<close>

definition counted :: "race \<Rightarrow> bool" where
  "counted r \<longleftrightarrow> (case emutls_mutex r of None \<Rightarrow> False | Some t \<Rightarrow> (case place r t of Storing c i \<Rightarrow> True | _ \<Rightarrow> False))"

definition settled :: "race \<Rightarrow> tls" where
  "settled r = (if counted r then (shared r)\<lparr>emutls_num_object := emutls_num_object (shared r) - 1\<rparr> else shared r)"

definition race_ok :: "race \<Rightarrow> bool" where
  "race_ok r \<longleftrightarrow> tls_ok (settled r) \<and> (\<forall>t. in_section (place r t) \<longleftrightarrow> emutls_mutex r = Some t) \<and>
     (\<forall>t. place_ok (shared r) (place r t))"

lemma settled_simps [simp]:
  "controls (settled r) = controls (shared r)" "init_once_done (settled r) = init_once_done (shared r)"
  "emutls_key_created (settled r) = emutls_key_created (shared r)"
  by (simp_all add: settled_def)

lemma race_okD:
  assumes "race_ok r"
  shows "tls_ok (settled r)" "in_section (place r t) \<longleftrightarrow> emutls_mutex r = Some t" "place_ok (shared r) (place r t)"
  using assms by (auto simp: race_ok_def)

text \<open>Steps of one thread keep what the others know.\<close>

definition extends :: "tls \<Rightarrow> tls \<Rightarrow> bool" where
  "extends s s' \<longleftrightarrow> length (controls s') = length (controls s) \<and> (init_once_done s \<longrightarrow> init_once_done s') \<and>
     (\<forall>c. object_index (controls s ! c) \<noteq> 0 \<longrightarrow> object_index (controls s' ! c) = object_index (controls s ! c))"

lemma place_ok_extends: "extends s s' \<Longrightarrow> \<not> in_section p \<Longrightarrow> place_ok s p \<Longrightarrow> place_ok s' p"
  by (cases p) (auto simp: extends_def)

lemma race_ok_move:
  assumes ok: "race_ok r" and r': "shared r' = s" "emutls_mutex r' = m" "place r' = (place r)(t := p)"
    and new: "tls_ok (settled r')" "extends (shared r) s" "place_ok s p"
    and mutex: "in_section p \<longleftrightarrow> m = Some t" "m = emutls_mutex r \<or> in_section p \<and> emutls_mutex r = None \<or> in_section (place r t) \<and> m = None"
    and others: "\<And>u. u \<noteq> t \<Longrightarrow> in_section (place r u) \<Longrightarrow> place_ok s (place r u)"
  shows "race_ok r'"
  unfolding race_ok_def
proof (intro conjI allI new(1))
  fix u
  show "in_section (place r' u) \<longleftrightarrow> emutls_mutex r' = Some u"
    using mutex race_okD(2) [OF ok] by (auto simp: r')
  show "place_ok (shared r') (place r' u)"
  proof (cases "u = t")
    case False
    then show ?thesis
      using place_ok_extends [OF new(2)] race_okD(3) [OF ok, of u] others [OF False]
      by (cases "in_section (place r u)") (auto simp: r' move_def)
  qed (use new(3) in \<open>simp add: r'\<close>)
qed

lemma extends_refl [simp]: "extends s s" by (simp add: extends_def)

lemma init_once_result:
  assumes "init_once_done s \<Longrightarrow> emutls_key_created s" "emutls_init_once s = Inr ((), s')"
  shows "s' = s\<lparr>init_once_done := True, emutls_key_created := True\<rparr>"
  using assms by (auto simp: emutls_init_once_def emutls_init_def split: if_splits)

lemma tls_ok_init: "tls_ok s \<Longrightarrow> tls_ok (s\<lparr>init_once_done := True, emutls_key_created := True\<rparr>)"
  by (auto simp: tls_ok_def heap_ok_def owner_def)

text \<open>A thread outside the section does not change whether another has counted.\<close>

lemma counted_outside:
  assumes "race_ok r" "\<not> in_section (place r t)"
  shows "counted (move (r\<lparr>shared := s\<rparr>) t p) = counted r"
  using race_okD(2) [OF assms(1), of t] assms(2) by (auto simp: counted_def move_def split: option.splits)

lemma counted_inside:
  assumes "race_ok r" "in_section (place r t)"
  shows "counted r \<longleftrightarrow> (\<exists>c i. place r t = Storing c i)"
  using race_okD(2) [OF assms(1), of t] assms(2) by (auto simp: counted_def split: place.splits)

lemma only_one_inside: "race_ok r \<Longrightarrow> in_section (place r t) \<Longrightarrow> u \<noteq> t \<Longrightarrow> \<not> in_section (place r u)"
  using race_okD(2) by fastforce

lemma step_outside_ok:
  assumes ok: "race_ok r" and out: "\<not> in_section (place r t)" "\<not> in_section p" and p: "place_ok (shared r) p"
  shows "race_ok (move r t p)"
proof -
  have "counted (move r t p) = counted r" using counted_outside [OF ok out(1), of "shared r" p] by simp
  then have "settled (move r t p) = settled r" by (simp add: settled_def move_def)
  then show ?thesis
    using race_okD(1) [OF ok] p out race_okD(2) [OF ok, of t] race_okD(3) [OF ok]
    by (intro race_ok_move [OF ok, of "move r t p" "shared r" "emutls_mutex r" t p]) (auto simp: move_def)
qed

lemma race_ok_step:
  assumes "index_step r t r'" and ok: "race_ok r"
  shows "race_ok r'"
  using assms(1)
proof cases
  case (call d i c)
  then show ?thesis using step_outside_ok [OF ok, of t "Loading c"] by auto
next
  case (load c)
  then show ?thesis
    using step_outside_ok [OF ok, of t "if index_of r c = 0 then Missing c else Returned c (index_of r c)"]
      race_okD(3) [OF ok, of t] by auto
next
  case (init_once c s)
  have "init_once_done (shared r) \<Longrightarrow> emutls_key_created (shared r)" using tls_okD(9) [OF race_okD(1) [OF ok]] by simp
  from init_once_result [OF this init_once(3)]
  have s: "s = (shared r)\<lparr>init_once_done := True, emutls_key_created := True\<rparr>" .
  have out: "\<not> in_section (place r t)" using init_once(2) by simp
  have "settled r' = (settled r)\<lparr>init_once_done := True, emutls_key_created := True\<rparr>"
    using counted_outside [OF ok out, of s "Ready c"] by (simp add: settled_def init_once(1) s) (simp add: move_def)
  then have "tls_ok (settled r')" using tls_ok_init [OF race_okD(1) [OF ok]] by simp
  moreover have "place_ok s (Ready c)" using race_okD(3) [OF ok, of t] init_once(2) by (simp add: s)
  moreover have "extends (shared r) s" by (simp add: extends_def s)
  moreover have "place_ok s (place r u)" for u
    using race_okD(3) [OF ok, of u] by (cases "place r u") (auto simp: s)
  moreover have "emutls_mutex r \<noteq> Some t" using race_okD(2) [OF ok, of t] out by simp
  ultimately show ?thesis
    by (intro race_ok_move [OF ok, of r' "s" "emutls_mutex r" t "Ready c"]) (simp_all add: init_once(1) move_def)
next
  case (lock c)
  have "\<not> in_section (place r u)" for u using race_okD(2) [OF ok, of u] lock(3) by simp
  moreover have "settled r' = settled r" using lock(2,3) by (simp add: settled_def counted_def lock(1) move_def)
  ultimately show ?thesis
    using race_okD(1) [OF ok] race_okD(3) [OF ok, of t] lock(2,3)
    by (intro race_ok_move [OF ok, of r' "shared r" "Some t" t "Locked c"]) (auto simp: lock(1) move_def)
next
  case (load_again c)
  have inside: "in_section (place r t)" using load_again(2) by simp
  then have mutex: "emutls_mutex r = Some t" using race_okD(2) [OF ok] by simp
  have "settled r' = settled r"
    using mutex load_again(2) by (simp add: settled_def counted_def load_again(1) move_def)
  then show ?thesis
    using race_okD(1) [OF ok] race_okD(3) [OF ok, of t] load_again(2) mutex only_one_inside [OF ok inside]
    by (intro race_ok_move [OF ok, of r' "shared r" "emutls_mutex r" t "if index_of r c = 0 then Counting c else Unlocking c (index_of r c)"]) (auto simp: load_again(1) move_def)
next
  case (count c num)
  have inside: "in_section (place r t)" using count(2) by simp
  then have mutex: "emutls_mutex r = Some t" using race_okD(2) [OF ok] by simp
  have "settled r' = settled r"
    using mutex count(2,3) by (simp add: settled_def counted_def count(1) move_def)
  moreover have "extends (shared r) ((shared r)\<lparr>emutls_num_object := num\<rparr>)" by (simp add: extends_def)
  ultimately show ?thesis
    using race_okD(1) [OF ok] race_okD(3) [OF ok, of t] count(2,3) mutex only_one_inside [OF ok inside]
    by (intro race_ok_move [OF ok, of r' "(shared r)\<lparr>emutls_num_object := num\<rparr>" "emutls_mutex r" t "Storing c num"]) (auto simp: count(1) move_def)
next
  case (store c i)
  have inside: "in_section (place r t)" using store(2) by simp
  then have mutex: "emutls_mutex r = Some t" using race_okD(2) [OF ok] by simp
  have at: "c < length (controls (shared r))" "init_once_done (shared r)" "index_of r c = 0" "i = emutls_num_object (shared r)"
    using race_okD(3) [OF ok, of t] store(2) by simp_all
  define s0 where "s0 = settled r"
  have s0: "shared r = s0\<lparr>emutls_num_object := emutls_num_object s0 + 1\<rparr>"
    using mutex store(2) by (simp add: s0_def settled_def counted_def)
  have ok0: "tls_ok s0" using race_okD(1) [OF ok] by (simp add: s0_def)
  have c0: "c < length (controls s0)" "object_index (controls s0 ! c) = 0" using at by (simp_all add: s0_def)
  have key: "emutls_key_created s0" using tls_okD(9) [OF ok0] at(2) by (simp add: s0_def)
  have i: "i = emutls_num_object s0 + 1" using at(4) s0 by (metis tls.select_convs(6) tls.surjective tls.update_convs(6))
  have new: "tls_ok (set_index c i (shared r))" using set_index_ok(1) [OF ok0 c0 key] by (simp add: i flip: s0)
  have "settled r' = set_index c i (shared r)" using mutex by (simp add: settled_def counted_def store(1) move_def)
  moreover have "i \<noteq> 0" unfolding i using indices_ok_next(2) [OF tls_okD(2) [OF ok0] c0] by (metis add_is_0 one_neq_zero unsigned_0)
  moreover have "extends (shared r) (set_index c i (shared r))"
    using at by (auto simp: extends_def set_index_def nth_list_update)
  ultimately show ?thesis
    using new at mutex only_one_inside [OF ok inside] inside
    by (intro race_ok_move [OF ok, of r' "set_index c i (shared r)" "emutls_mutex r" t "Unlocking c i"]) (auto simp: store(1) move_def set_index_def)
next
  case (unlock c i)
  have inside: "in_section (place r t)" using unlock(2) by simp
  then have mutex: "emutls_mutex r = Some t" using race_okD(2) [OF ok] by simp
  have "settled r' = settled r"
    using mutex unlock(2) by (simp add: settled_def counted_def unlock(1) move_def)
  then show ?thesis
    using race_okD(1) [OF ok] race_okD(3) [OF ok, of t] unlock(2) inside only_one_inside [OF ok inside]
    by (intro race_ok_move [OF ok, of r' "shared r" "None" t "Returned c i"]) (auto simp: unlock(1) move_def)
qed

lemma race_reachable_ok: "race_reachable r \<Longrightarrow> race_ok r"
proof (induction rule: race_reachable.induct)
  case (race_start r)
  then show ?case by (simp add: race_ok_def race_initial_def settled_def counted_def)
next
  case (race_step r t r')
  then show ?case using race_ok_step by blast
qed

section \<open>Two threads\<close>

text \<open>Two threads that ask for the index of the same control, with both first reads before the first lock.\<close>

definition race_at :: "tls \<Rightarrow> nat option \<Rightarrow> place \<Rightarrow> place \<Rightarrow> race" where
  "race_at s m p q = \<lparr>shared = s, emutls_mutex = m, place = (\<lambda>t. if t = 0 then p else if t = 1 then q else Idle)\<rparr>"

lemma race_at_simps [simp]:
  "shared (race_at s m p q) = s" "emutls_mutex (race_at s m p q) = m"
  "place (race_at s m p q) 0 = p" "place (race_at s m p q) (Suc 0) = q"
  "(race_at s m p q)\<lparr>shared := s'\<rparr> = race_at s' m p q" "(race_at s m p q)\<lparr>emutls_mutex := m'\<rparr> = race_at s m' p q"
  "move (race_at s m p q) 0 p' = race_at s m p' q" "move (race_at s m p q) (Suc 0) q' = race_at s m p q'"
  by (auto simp: race_at_def move_def)

definition example_counted :: tls where
  "example_counted = example_state\<lparr>emutls_num_object := 1, emutls_key_created := True, init_once_done := True\<rparr>"

definition example_ready :: tls where
  "example_ready = example_state\<lparr>emutls_key_created := True, init_once_done := True\<rparr>"

lemmas example_defs = example_counted_def example_ready_def example_indexed_def example_state_def

lemma example_race:
  "race_reachable (race_at example_indexed None (Returned 0 1) (Returned 0 1))"
  "race_reachable (race_at example_counted (Some 0) (Storing 0 1) (Ready 0))"
proof -
  have facts: "object_index (controls example_state ! 0) = 0" "object_index (controls example_ready ! 0) = 0"
    "object_index (controls example_indexed ! 0) = 1" "emutls_init_once example_state = Inr ((), example_ready)"
    "emutls_init_once example_ready = Inr ((), example_ready)" "emutls_num_object example_ready = 0"
    "example_ready\<lparr>emutls_num_object := 1\<rparr> = example_counted" "set_index 0 1 example_counted = example_indexed"
    "controls example_state \<noteq> []"
    by (simp_all add: example_defs emutls_init_once_def emutls_init_def set_index_def)
  have "race_initial (race_at example_state None Idle Idle)"
    using tls_initial_good [OF example_initial(1)] by (simp add: race_initial_def tls_good_def) (simp add: race_at_def)
  then have r0: "race_reachable (race_at example_state None Idle Idle)" by (rule race_start)
  have r1: "race_reachable (race_at example_state None (Loading 0) Idle)"
    using race_step [OF r0 index_step.call [where r = "race_at example_state None Idle Idle" and t = 0 and c = 0 and d = 0 and i = 0]] by (simp add: facts)
  have r2: "race_reachable (race_at example_state None (Loading 0) (Loading 0))"
    using race_step [OF r1 index_step.call [where r = "race_at example_state None (Loading 0) Idle" and t = 1 and c = 0 and d = 0 and i = 0]] by (simp add: facts)
  have r3: "race_reachable (race_at example_state None (Missing 0) (Loading 0))"
    using race_step [OF r2 index_step.load [where r = "race_at example_state None (Loading 0) (Loading 0)" and t = 0 and c = 0]] by (simp add: facts)
  have r4: "race_reachable (race_at example_state None (Missing 0) (Missing 0))"
    using race_step [OF r3 index_step.load [where r = "race_at example_state None (Missing 0) (Loading 0)" and t = 1 and c = 0]] by (simp add: facts)
  have r5: "race_reachable (race_at example_ready None (Ready 0) (Missing 0))"
    using race_step [OF r4 index_step.init_once [where r = "race_at example_state None (Missing 0) (Missing 0)" and t = 0 and c = 0 and s = example_ready]] by (simp add: facts)
  have r6: "race_reachable (race_at example_ready None (Ready 0) (Ready 0))"
    using race_step [OF r5 index_step.init_once [where r = "race_at example_ready None (Ready 0) (Missing 0)" and t = 1 and c = 0 and s = example_ready]] by (simp add: facts)
  have r7: "race_reachable (race_at example_ready (Some 0) (Locked 0) (Ready 0))"
    using race_step [OF r6 index_step.lock [where r = "race_at example_ready None (Ready 0) (Ready 0)" and t = 0 and c = 0]] by (simp add: facts)
  have r8: "race_reachable (race_at example_ready (Some 0) (Counting 0) (Ready 0))"
    using race_step [OF r7 index_step.load_again [where r = "race_at example_ready (Some 0) (Locked 0) (Ready 0)" and t = 0 and c = 0]] by (simp add: facts)
  have r9: "race_reachable (race_at example_counted (Some 0) (Storing 0 1) (Ready 0))"
    using race_step [OF r8 index_step.count [where r = "race_at example_ready (Some 0) (Counting 0) (Ready 0)" and t = 0 and c = 0 and num = 1]] by (simp add: facts)
  have r10: "race_reachable (race_at example_indexed (Some 0) (Unlocking 0 1) (Ready 0))"
    using race_step [OF r9 index_step.store [where r = "race_at example_counted (Some 0) (Storing 0 1) (Ready 0)" and t = 0 and c = 0 and i = 1]] by (simp add: facts)
  have r11: "race_reachable (race_at example_indexed None (Returned 0 1) (Ready 0))"
    using race_step [OF r10 index_step.unlock [where r = "race_at example_indexed (Some 0) (Unlocking 0 1) (Ready 0)" and t = 0 and c = 0 and i = 1]] by (simp add: facts)
  have r12: "race_reachable (race_at example_indexed (Some 1) (Returned 0 1) (Locked 0))"
    using race_step [OF r11 index_step.lock [where r = "race_at example_indexed None (Returned 0 1) (Ready 0)" and t = 1 and c = 0]] by (simp add: facts)
  have r13: "race_reachable (race_at example_indexed (Some 1) (Returned 0 1) (Unlocking 0 1))"
    using race_step [OF r12 index_step.load_again [where r = "race_at example_indexed (Some 1) (Returned 0 1) (Locked 0)" and t = 1 and c = 0]] by (simp add: facts)
  have r14: "race_reachable (race_at example_indexed None (Returned 0 1) (Returned 0 1))"
    using race_step [OF r13 index_step.unlock [where r = "race_at example_indexed (Some 1) (Returned 0 1) (Unlocking 0 1)" and t = 1 and c = 0 and i = 1]] by (simp add: facts)
  show "race_reachable (race_at example_indexed None (Returned 0 1) (Returned 0 1))" by (rule r14)
  show "race_reachable (race_at example_counted (Some 0) (Storing 0 1) (Ready 0))" by (rule r9)
qed

section \<open>Properties\<close>

lemma get_index_present: "object_index (controls s ! c) \<noteq> 0 \<Longrightarrow> emutls_get_index c s = Inr (object_index (controls s ! c), s)"
  by (simp add: emutls_get_index_def)

lemma get_index_next:
  "object_index (controls s ! c) = 0 \<Longrightarrow> init_once_done s \<Longrightarrow>
   emutls_get_index c s = Inr (emutls_num_object s + 1, set_index c (emutls_num_object s + 1) (s\<lparr>emutls_num_object := emutls_num_object s + 1\<rparr>))"
  by (simp add: emutls_get_index_def emutls_init_once_def and_then_def Let_def)

text \<open>C13. However threads interleave in \<open>emutls_get_index\<close>, at most one is inside the section that the mutex
  guards, a returned index is not zero and not above the number of controls, two threads have the same index
  exactly when they asked for the same control, and a later call returns it again.\<close>

theorem index_race_safe:
  assumes "race_reachable r"
  shows "(in_section (place r t) \<and> in_section (place r u) \<longrightarrow> t = u) \<and>
    (place r t = Returned c i \<and> place r u = Returned d j \<longrightarrow>
       i \<noteq> 0 \<and> unat i \<le> length (controls (shared r)) \<and> (i = j \<longleftrightarrow> c = d) \<and> emutls_get_index c (settled r) = Inr (i, settled r))"
proof (intro conjI impI; (elim conjE)?)
  have ok: "race_ok r" by (rule race_reachable_ok [OF assms])
  show "t = u" if "in_section (place r t)" "in_section (place r u)" using that race_okD(2) [OF ok] by simp
  assume returned: "place r t = Returned c i" "place r u = Returned d j"
  then have c: "c < length (controls (shared r))" "i \<noteq> 0" "index_of r c = i"
    and d: "d < length (controls (shared r))" "j \<noteq> 0" "index_of r d = j"
    using race_okD(3) [OF ok, of t] race_okD(3) [OF ok, of u] by simp_all
  note indices = tls_okD(2) [OF race_okD(1) [OF ok]]
  show "i \<noteq> 0" by (rule c(2))
  show "unat i \<le> length (controls (shared r))" using indices_ok_bound(2) [OF indices, of c] c by simp
  show "i = j \<longleftrightarrow> c = d" using indices c d by (auto simp: indices_ok_def inj_on_def)
  show "emutls_get_index c (settled r) = Inr (i, settled r)" using get_index_present [of "settled r" c] c by simp
qed

text \<open>C12. The interleaved routine implements the sequential one: every step of a thread leaves the settled state
  as it is, runs \<open>emutls_init_once\<close>, or is a whole call of \<open>emutls_get_index\<close> whose result the thread then
  returns; and a thread that returns at once returns what the call returns.\<close>

theorem index_race_refines:
  assumes "race_reachable r" "index_step r t r'"
  shows "settled r' = settled r \<and> (\<forall>c i. place r' t = Returned c i \<longrightarrow> emutls_get_index c (settled r) = Inr (i, settled r')) \<or>
    (\<exists>c. place r' t = Ready c \<and> emutls_init_once (settled r) = Inr ((), settled r')) \<or>
    (\<exists>c i. place r' t = Unlocking c i \<and> emutls_get_index c (settled r) = Inr (i, settled r'))"
proof -
  have ok: "race_ok r" and ok': "race_ok r'" using assms race_reachable_ok race_step by blast+
  have returned: "emutls_get_index c (settled r') = Inr (i, settled r')" if "place r' t = Returned c i" for c i
    using race_okD(3) [OF ok', of t] that get_index_present [of "settled r'" c] by simp
  from assms(2) show ?thesis
  proof cases
    case (store c i)
    then have mutex: "emutls_mutex r = Some t" using race_okD(2) [OF ok, of t] by simp
    define s0 where "s0 = settled r"
    have s0: "shared r = s0\<lparr>emutls_num_object := emutls_num_object s0 + 1\<rparr>"
      using mutex store(2) by (simp add: s0_def settled_def counted_def)
    have at: "init_once_done s0" "object_index (controls s0 ! c) = 0" "i = emutls_num_object (shared r)"
      using race_okD(3) [OF ok, of t] store(2) by (simp_all add: s0_def)
    have "i = emutls_num_object s0 + 1" using at(3) s0 by (metis tls.select_convs(6) tls.surjective tls.update_convs(6))
    then have "emutls_get_index c s0 = Inr (i, set_index c i (shared r))" using get_index_next [OF at(2,1)] s0 by simp
    moreover have "settled r' = set_index c i (shared r)" using mutex by (simp add: settled_def counted_def store(1) move_def)
    ultimately show ?thesis by (simp add: store(1) move_def s0_def)
  next
    case (init_once c s)
    then have out: "\<not> in_section (place r t)" by simp
    have "init_once_done (shared r) \<Longrightarrow> emutls_key_created (shared r)" using tls_okD(9) [OF race_okD(1) [OF ok]] by simp
    from init_once_result [OF this init_once(3)]
    have s: "s = (shared r)\<lparr>init_once_done := True, emutls_key_created := True\<rparr>" .
    have "settled r' = (settled r)\<lparr>init_once_done := True, emutls_key_created := True\<rparr>"
      using counted_outside [OF ok out, of s "Ready c"] by (simp add: settled_def init_once(1) s) (simp add: move_def)
    moreover have "emutls_init_once (settled r) = Inr ((), (settled r)\<lparr>init_once_done := True, emutls_key_created := True\<rparr>)"
      using init_once(3) race_okD(1) [OF ok] tls_okD(9)
      by (auto simp: emutls_init_once_def emutls_init_def settled_def split: if_splits)
    ultimately show ?thesis by (simp add: init_once(1) move_def)
  next
    case (call d i c)
    then have "settled r' = settled r"
      using counted_outside [OF ok, of t "shared r" "Loading c"] by (auto simp: settled_def) (auto simp: move_def)
    then show ?thesis using returned by (simp add: call(1) move_def)
  next
    case (load c)
    then have "settled r' = settled r"
      using counted_outside [OF ok, of t "shared r" "if index_of r c = 0 then Missing c else Returned c (index_of r c)"]
      by (auto simp: settled_def) (auto simp: move_def)
    then show ?thesis using returned by auto
  next
    case (lock c)
    then have "settled r' = settled r" by (simp add: settled_def counted_def move_def)
    then show ?thesis using returned by auto
  next
    case (load_again c)
    then have mutex: "emutls_mutex r = Some t" using race_okD(2) [OF ok, of t] by simp
    then have "settled r' = settled r" using load_again(2) by (simp add: settled_def counted_def load_again(1) move_def)
    then show ?thesis using returned by auto
  next
    case (count c num)
    then have mutex: "emutls_mutex r = Some t" using race_okD(2) [OF ok, of t] by simp
    then have "settled r' = settled r" using count(2,3) by (simp add: settled_def counted_def count(1) move_def)
    then show ?thesis using returned by auto
  next
    case (unlock c i)
    then have mutex: "emutls_mutex r = Some t" using race_okD(2) [OF ok, of t] by simp
    then have "settled r' = settled r" using unlock(2) by (simp add: settled_def counted_def unlock(1) move_def)
    then show ?thesis using returned by auto
  qed
qed

text \<open>No thread waits for ever for another: while one is on its way, some thread can go on.\<close>

lemma index_race_progress:
  assumes "race_reachable r" "key_create_result (shared r) = 0"
    and "place r t \<noteq> Idle" "\<And>c i. place r t \<noteq> Returned c i"
  shows "\<exists>u r'. index_step r u r' \<and> place r u \<noteq> Idle \<and> (\<forall>c i. place r u \<noteq> Returned c i)"
proof -
  have ok: "race_ok r" by (rule race_reachable_ok [OF assms(1)])
  have moves: "\<exists>r'. index_step r u r'" if "place r u \<noteq> Idle" "\<And>c i. place r u \<noteq> Returned c i"
    "emutls_mutex r = None \<or> (\<forall>c. place r u \<noteq> Ready c)" for u
  proof -
    have "\<exists>s. emutls_init_once (shared r) = Inr ((), s)" using assms(2) by (simp add: emutls_init_once_def emutls_init_def)
    then show ?thesis using that by (cases "place r u") (blast intro: index_step.intros)+
  qed
  show ?thesis
  proof (cases "emutls_mutex r")
    case None
    then show ?thesis using moves [of t] assms(3,4) by blast
  next
    case (Some u)
    then have "in_section (place r u)" using race_okD(2) [OF ok, of u] by simp
    then have "place r u \<noteq> Idle" "\<And>c i. place r u \<noteq> Returned c i" "\<And>c. place r u \<noteq> Ready c" by auto
    then show ?thesis using moves [of u] by blast
  qed
qed

theorem index_race_safe_witness:
  "race_reachable (race_at example_indexed None (Returned 0 1) (Returned 0 1)) \<and>
   emutls_get_index 0 (settled (race_at example_indexed None (Returned 0 1) (Returned 0 1))) =
     Inr (1, settled (race_at example_indexed None (Returned 0 1) (Returned 0 1)))"
  using index_race_safe [OF example_race(1), of 0 1 0 1 0 1] example_race(1) by simp

theorem index_race_refines_witness:
  "emutls_get_index 0 (settled (race_at example_counted (Some 0) (Storing 0 1) (Ready 0))) =
     Inr (1, settled (race_at example_indexed (Some 0) (Unlocking 0 1) (Ready 0)))"
proof -
  have "set_index 0 1 example_counted = example_indexed" by (simp add: example_defs set_index_def)
  then have step: "index_step (race_at example_counted (Some 0) (Storing 0 1) (Ready 0)) 0 (race_at example_indexed (Some 0) (Unlocking 0 1) (Ready 0))"
    using index_step.store [where r = "race_at example_counted (Some 0) (Storing 0 1) (Ready 0)" and t = 0 and c = 0 and i = 1] by simp
  have "controls example_counted \<noteq> controls example_indexed" by (simp add: example_defs)
  then have "settled (race_at example_indexed (Some 0) (Unlocking 0 1) (Ready 0)) \<noteq>
      settled (race_at example_counted (Some 0) (Storing 0 1) (Ready 0))"
    by (metis settled_simps(1) race_at_simps(1))
  then show ?thesis using index_race_refines [OF example_race(2) step] by auto
qed

end
