(* ===== verification/Cpu_Model.thy ===== *)
theory Cpu_Model
  imports Prelude
begin

text \<open>
  \<open>cpu_model.c\<close>: the processor model behind \<open>__builtin_cpu_is\<close> and \<open>__builtin_cpu_supports\<close>.  The answers of
  the instructions \<open>cpuid\<close> and \<open>xgetbv\<close> are a parameter, the record \<open>processor\<close>; the tables of models and the
  computation of the features are the code's.  The invariant: what is recorded stays within the
  enumerations, a subtype belongs to its type, and each feature is reported exactly under its condition.
\<close>

section \<open>Enumerations\<close>

datatype vendor =
    VENDOR_INTEL | VENDOR_AMD | VENDOR_OTHER

primrec vendor_number :: "vendor \<Rightarrow> c_unsigned" where
  "vendor_number VENDOR_INTEL = 1"
| "vendor_number VENDOR_AMD = 2"
| "vendor_number VENDOR_OTHER = 3"

definition VENDOR_MAX :: c_unsigned where "VENDOR_MAX = 4"

datatype processor_type =
    INTEL_BONNELL | INTEL_CORE2 | INTEL_COREI7 | AMDFAM10H | AMDFAM15H | INTEL_SILVERMONT
  | INTEL_KNL | AMD_BTVER1 | AMD_BTVER2 | AMDFAM17H | INTEL_KNM | INTEL_GOLDMONT
  | INTEL_GOLDMONT_PLUS | INTEL_TREMONT

primrec type_number :: "processor_type \<Rightarrow> c_unsigned" where
  "type_number INTEL_BONNELL = 1"
| "type_number INTEL_CORE2 = 2"
| "type_number INTEL_COREI7 = 3"
| "type_number AMDFAM10H = 4"
| "type_number AMDFAM15H = 5"
| "type_number INTEL_SILVERMONT = 6"
| "type_number INTEL_KNL = 7"
| "type_number AMD_BTVER1 = 8"
| "type_number AMD_BTVER2 = 9"
| "type_number AMDFAM17H = 10"
| "type_number INTEL_KNM = 11"
| "type_number INTEL_GOLDMONT = 12"
| "type_number INTEL_GOLDMONT_PLUS = 13"
| "type_number INTEL_TREMONT = 14"

definition CPU_TYPE_MAX :: c_unsigned where "CPU_TYPE_MAX = 15"

datatype processor_subtype =
    INTEL_COREI7_NEHALEM | INTEL_COREI7_WESTMERE | INTEL_COREI7_SANDYBRIDGE | AMDFAM10H_BARCELONA
  | AMDFAM10H_SHANGHAI | AMDFAM10H_ISTANBUL | AMDFAM15H_BDVER1 | AMDFAM15H_BDVER2
  | AMDFAM15H_BDVER3 | AMDFAM15H_BDVER4 | AMDFAM17H_ZNVER1 | INTEL_COREI7_IVYBRIDGE
  | INTEL_COREI7_HASWELL | INTEL_COREI7_BROADWELL | INTEL_COREI7_SKYLAKE
  | INTEL_COREI7_SKYLAKE_AVX512 | INTEL_COREI7_CANNONLAKE | INTEL_COREI7_ICELAKE_CLIENT
  | INTEL_COREI7_ICELAKE_SERVER | AMDFAM17H_ZNVER2 | INTEL_COREI7_CASCADELAKE

primrec subtype_number :: "processor_subtype \<Rightarrow> c_unsigned" where
  "subtype_number INTEL_COREI7_NEHALEM = 1"
| "subtype_number INTEL_COREI7_WESTMERE = 2"
| "subtype_number INTEL_COREI7_SANDYBRIDGE = 3"
| "subtype_number AMDFAM10H_BARCELONA = 4"
| "subtype_number AMDFAM10H_SHANGHAI = 5"
| "subtype_number AMDFAM10H_ISTANBUL = 6"
| "subtype_number AMDFAM15H_BDVER1 = 7"
| "subtype_number AMDFAM15H_BDVER2 = 8"
| "subtype_number AMDFAM15H_BDVER3 = 9"
| "subtype_number AMDFAM15H_BDVER4 = 10"
| "subtype_number AMDFAM17H_ZNVER1 = 11"
| "subtype_number INTEL_COREI7_IVYBRIDGE = 12"
| "subtype_number INTEL_COREI7_HASWELL = 13"
| "subtype_number INTEL_COREI7_BROADWELL = 14"
| "subtype_number INTEL_COREI7_SKYLAKE = 15"
| "subtype_number INTEL_COREI7_SKYLAKE_AVX512 = 16"
| "subtype_number INTEL_COREI7_CANNONLAKE = 17"
| "subtype_number INTEL_COREI7_ICELAKE_CLIENT = 18"
| "subtype_number INTEL_COREI7_ICELAKE_SERVER = 19"
| "subtype_number AMDFAM17H_ZNVER2 = 20"
| "subtype_number INTEL_COREI7_CASCADELAKE = 21"

definition CPU_SUBTYPE_MAX :: c_unsigned where "CPU_SUBTYPE_MAX = 22"

datatype feature =
    FEATURE_CMOV | FEATURE_MMX | FEATURE_POPCNT | FEATURE_SSE | FEATURE_SSE2 | FEATURE_SSE3
  | FEATURE_SSSE3 | FEATURE_SSE4_1 | FEATURE_SSE4_2 | FEATURE_AVX | FEATURE_AVX2
  | FEATURE_SSE4_A | FEATURE_FMA4 | FEATURE_XOP | FEATURE_FMA | FEATURE_AVX512F | FEATURE_BMI
  | FEATURE_BMI2 | FEATURE_AES | FEATURE_PCLMUL | FEATURE_AVX512VL | FEATURE_AVX512BW
  | FEATURE_AVX512DQ | FEATURE_AVX512CD | FEATURE_AVX512ER | FEATURE_AVX512PF
  | FEATURE_AVX512VBMI | FEATURE_AVX512IFMA | FEATURE_AVX5124VNNIW | FEATURE_AVX5124FMAPS
  | FEATURE_AVX512VPOPCNTDQ | FEATURE_AVX512VBMI2 | FEATURE_GFNI | FEATURE_VPCLMULQDQ
  | FEATURE_AVX512VNNI | FEATURE_AVX512BITALG | FEATURE_AVX512BF16

primrec feature_number :: "feature \<Rightarrow> nat" where
  "feature_number FEATURE_CMOV = 0"
| "feature_number FEATURE_MMX = 1"
| "feature_number FEATURE_POPCNT = 2"
| "feature_number FEATURE_SSE = 3"
| "feature_number FEATURE_SSE2 = 4"
| "feature_number FEATURE_SSE3 = 5"
| "feature_number FEATURE_SSSE3 = 6"
| "feature_number FEATURE_SSE4_1 = 7"
| "feature_number FEATURE_SSE4_2 = 8"
| "feature_number FEATURE_AVX = 9"
| "feature_number FEATURE_AVX2 = 10"
| "feature_number FEATURE_SSE4_A = 11"
| "feature_number FEATURE_FMA4 = 12"
| "feature_number FEATURE_XOP = 13"
| "feature_number FEATURE_FMA = 14"
| "feature_number FEATURE_AVX512F = 15"
| "feature_number FEATURE_BMI = 16"
| "feature_number FEATURE_BMI2 = 17"
| "feature_number FEATURE_AES = 18"
| "feature_number FEATURE_PCLMUL = 19"
| "feature_number FEATURE_AVX512VL = 20"
| "feature_number FEATURE_AVX512BW = 21"
| "feature_number FEATURE_AVX512DQ = 22"
| "feature_number FEATURE_AVX512CD = 23"
| "feature_number FEATURE_AVX512ER = 24"
| "feature_number FEATURE_AVX512PF = 25"
| "feature_number FEATURE_AVX512VBMI = 26"
| "feature_number FEATURE_AVX512IFMA = 27"
| "feature_number FEATURE_AVX5124VNNIW = 28"
| "feature_number FEATURE_AVX5124FMAPS = 29"
| "feature_number FEATURE_AVX512VPOPCNTDQ = 30"
| "feature_number FEATURE_AVX512VBMI2 = 31"
| "feature_number FEATURE_GFNI = 32"
| "feature_number FEATURE_VPCLMULQDQ = 33"
| "feature_number FEATURE_AVX512VNNI = 34"
| "feature_number FEATURE_AVX512BITALG = 35"
| "feature_number FEATURE_AVX512BF16 = 36"

definition SIG_INTEL :: c_unsigned where "SIG_INTEL = 0x756e6547"
definition SIG_AMD :: c_unsigned where "SIG_AMD = 0x68747541"

section \<open>The processor\<close>

text \<open>The registers \<open>EAX\<close>, \<open>EBX\<close>, \<open>ECX\<close>, \<open>EDX\<close> after \<open>cpuid\<close>, and the control register \<open>XCR0\<close>.\<close>

record registers =
  EAX :: c_unsigned
  EBX :: c_unsigned
  ECX :: c_unsigned
  EDX :: c_unsigned

record processor =
  has_cpuid :: bool
  cpuid :: "c_unsigned \<Rightarrow> registers"
  cpuid_sub :: "c_unsigned \<Rightarrow> c_unsigned \<Rightarrow> registers"
  XCR0_low :: c_unsigned

text \<open>The wrappers report an error on other compilers only; the flag is kept as the code tests it.\<close>

definition isCpuIdSupported :: "processor \<Rightarrow> bool" where
  "isCpuIdSupported cpu = has_cpuid cpu"

definition getX86CpuIDAndInfo :: "processor \<Rightarrow> c_unsigned \<Rightarrow> bool \<times> registers" where
  "getX86CpuIDAndInfo cpu leaf = (False, cpuid cpu leaf)"

definition getX86CpuIDAndInfoEx :: "processor \<Rightarrow> c_unsigned \<Rightarrow> c_unsigned \<Rightarrow> bool \<times> registers" where
  "getX86CpuIDAndInfoEx cpu leaf subleaf = (False, cpuid_sub cpu leaf subleaf)"

definition getX86XCR0 :: "processor \<Rightarrow> bool \<times> c_unsigned" where
  "getX86XCR0 cpu = (False, XCR0_low cpu)"

section \<open>Family, model, type and subtype\<close>

definition detectX86FamilyModel :: "c_unsigned \<Rightarrow> c_unsigned \<times> c_unsigned" where
  "detectX86FamilyModel eax =
     (let Family = shr eax 8 AND 0xf;
          Model = shr eax 4 AND 0xf
      in if Family = 6 \<or> Family = 0xf then
           (if Family = 0xf then Family + (shr eax 20 AND 0xff) else Family,
            Model + shl (shr eax 16 AND 0xf) 4)
         else (Family, Model))"

text \<open>The type and subtype of before the call stay where the switch assigns none.\<close>

definition getIntelProcessorTypeAndSubtype ::
  "c_unsigned \<Rightarrow> c_unsigned \<Rightarrow> c_unsigned \<Rightarrow> c_unsigned \<Rightarrow> c_unsigned \<Rightarrow> c_unsigned \<times> c_unsigned \<Rightarrow> c_unsigned \<times> c_unsigned" where
  "getIntelProcessorTypeAndSubtype Family Model Brand_id Features Features2 ts =
     (let (Type, Subtype) = ts in
      if Brand_id \<noteq> 0 then (Type, Subtype)
      else if Family = 6 then
        if Model = 0x0f \<or> Model = 0x16 \<or> Model = 0x17 \<or> Model = 0x1d then
           (type_number INTEL_CORE2, Subtype)
        else if Model = 0x1a \<or> Model = 0x1e \<or> Model = 0x1f \<or> Model = 0x2e then
           (type_number INTEL_COREI7, subtype_number INTEL_COREI7_NEHALEM)
        else if Model = 0x25 \<or> Model = 0x2c \<or> Model = 0x2f then
           (type_number INTEL_COREI7, subtype_number INTEL_COREI7_WESTMERE)
        else if Model = 0x2a \<or> Model = 0x2d then
           (type_number INTEL_COREI7, subtype_number INTEL_COREI7_SANDYBRIDGE)
        else if Model = 0x3a \<or> Model = 0x3e then
           (type_number INTEL_COREI7, subtype_number INTEL_COREI7_IVYBRIDGE)
        else if Model = 0x3c \<or> Model = 0x3f \<or> Model = 0x45 \<or> Model = 0x46 then
           (type_number INTEL_COREI7, subtype_number INTEL_COREI7_HASWELL)
        else if Model = 0x3d \<or> Model = 0x47 \<or> Model = 0x4f \<or> Model = 0x56 then
           (type_number INTEL_COREI7, subtype_number INTEL_COREI7_BROADWELL)
        else if Model = 0x4e \<or> Model = 0x5e \<or> Model = 0x8e \<or> Model = 0x9e then
           (type_number INTEL_COREI7, subtype_number INTEL_COREI7_SKYLAKE)
        else if Model = 0x55 then
           (type_number INTEL_COREI7, subtype_number
               (if Features2 AND shl 1 (feature_number FEATURE_AVX512VNNI - 32) \<noteq> 0 then INTEL_COREI7_CASCADELAKE
                else INTEL_COREI7_SKYLAKE_AVX512))
        else if Model = 0x66 then
           (type_number INTEL_COREI7, subtype_number INTEL_COREI7_CANNONLAKE)
        else if Model = 0x7d \<or> Model = 0x7e then
           (type_number INTEL_COREI7, subtype_number INTEL_COREI7_ICELAKE_CLIENT)
        else if Model = 0x6a \<or> Model = 0x6c then
           (type_number INTEL_COREI7, subtype_number INTEL_COREI7_ICELAKE_SERVER)
        else if Model = 0x1c \<or> Model = 0x26 \<or> Model = 0x27 \<or> Model = 0x35 \<or> Model = 0x36 then
           (type_number INTEL_BONNELL, Subtype)
        else if Model = 0x37 \<or> Model = 0x4a \<or> Model = 0x4d \<or> Model = 0x5a \<or> Model = 0x5d \<or> Model = 0x4c then
           (type_number INTEL_SILVERMONT, Subtype)
        else if Model = 0x5c \<or> Model = 0x5f then
           (type_number INTEL_GOLDMONT, Subtype)
        else if Model = 0x7a then
           (type_number INTEL_GOLDMONT_PLUS, Subtype)
        else if Model = 0x86 then
           (type_number INTEL_TREMONT, Subtype)
        else if Model = 0x57 then
           (type_number INTEL_KNL, Subtype)
        else if Model = 0x85 then
           (type_number INTEL_KNM, Subtype)
        else (Type, Subtype)
      else (Type, Subtype))"

definition getAMDProcessorTypeAndSubtype ::
  "c_unsigned \<Rightarrow> c_unsigned \<Rightarrow> c_unsigned \<Rightarrow> c_unsigned \<Rightarrow> c_unsigned \<times> c_unsigned \<Rightarrow> c_unsigned \<times> c_unsigned" where
  "getAMDProcessorTypeAndSubtype Family Model Features Features2 ts =
     (let (Type, Subtype) = ts in
      if Family = 16 then
        (type_number AMDFAM10H,
         if Model = 2 then subtype_number AMDFAM10H_BARCELONA
         else if Model = 4 then subtype_number AMDFAM10H_SHANGHAI
         else if Model = 8 then subtype_number AMDFAM10H_ISTANBUL
         else Subtype)
      else if Family = 20 then (type_number AMD_BTVER1, Subtype)
      else if Family = 21 then
        (type_number AMDFAM15H,
         if Model \<ge> 0x60 \<and> Model \<le> 0x7f then subtype_number AMDFAM15H_BDVER4
         else if Model \<ge> 0x30 \<and> Model \<le> 0x3f then subtype_number AMDFAM15H_BDVER3
         else if Model \<ge> 0x10 \<and> Model \<le> 0x1f \<or> Model = 0x02 then subtype_number AMDFAM15H_BDVER2
         else if Model \<le> 0x0f then subtype_number AMDFAM15H_BDVER1
         else Subtype)
      else if Family = 22 then (type_number AMD_BTVER2, Subtype)
      else if Family = 23 then
        (type_number AMDFAM17H,
         if Model \<ge> 0x30 \<and> Model \<le> 0x3f \<or> Model = 0x71 then subtype_number AMDFAM17H_ZNVER2
         else if Model \<le> 0x0f then subtype_number AMDFAM17H_ZNVER1
         else Subtype)
      else (Type, Subtype))"

section \<open>Features\<close>

type_synonym feature_words = "c_unsigned \<times> c_unsigned"

definition setFeature :: "feature \<Rightarrow> feature_words \<Rightarrow> feature_words" where
  "setFeature f fs =
     (let (Features, Features2) = fs; F = feature_number f in
      if F < 32 then (Features OR shl 1 (F mod 32), Features2)
      else if F < 64 then (Features, Features2 OR shl 1 ((F - 32) mod 32))
      else (Features, Features2))"

text \<open>\<open>if (condition) setFeature(F)\<close>, and the test \<open>(reg >> n) & 1\<close>.\<close>

definition setFeature_if :: "bool \<Rightarrow> feature \<Rightarrow> feature_words \<Rightarrow> feature_words" where
  "setFeature_if c f fs = (if c then setFeature f fs else fs)"

definition reg_bit :: "c_unsigned \<Rightarrow> nat \<Rightarrow> bool" where
  "reg_bit reg n \<longleftrightarrow> shr reg n AND 1 \<noteq> 0"

definition getAvailableFeatures :: "processor \<Rightarrow> c_unsigned \<Rightarrow> c_unsigned \<Rightarrow> c_unsigned \<Rightarrow> feature_words" where
  "getAvailableFeatures cpu ecx edx MaxLeaf =
     (let fs = (0, 0);
          fs = setFeature_if (reg_bit edx 15) FEATURE_CMOV fs;
          fs = setFeature_if (reg_bit edx 23) FEATURE_MMX fs;
          fs = setFeature_if (reg_bit edx 25) FEATURE_SSE fs;
          fs = setFeature_if (reg_bit edx 26) FEATURE_SSE2 fs;
          fs = setFeature_if (reg_bit ecx 0) FEATURE_SSE3 fs;
          fs = setFeature_if (reg_bit ecx 1) FEATURE_PCLMUL fs;
          fs = setFeature_if (reg_bit ecx 9) FEATURE_SSSE3 fs;
          fs = setFeature_if (reg_bit ecx 12) FEATURE_FMA fs;
          fs = setFeature_if (reg_bit ecx 19) FEATURE_SSE4_1 fs;
          fs = setFeature_if (reg_bit ecx 20) FEATURE_SSE4_2 fs;
          fs = setFeature_if (reg_bit ecx 23) FEATURE_POPCNT fs;
          fs = setFeature_if (reg_bit ecx 25) FEATURE_AES fs;
          AVXBits = shl 1 27 OR shl 1 28;
          (noXCR0, eax) = getX86XCR0 cpu;
          HasAVX = (ecx AND AVXBits = AVXBits \<and> \<not> noXCR0 \<and> eax AND 0x6 = 0x6);
          HasAVX512Save = (HasAVX \<and> eax AND 0xe0 = 0xe0);
          fs = setFeature_if HasAVX FEATURE_AVX fs;
          (noLeaf7, regs) = getX86CpuIDAndInfoEx cpu 0x7 0x0;
          ebx = EBX regs; ecx = ECX regs; edx = EDX regs;
          HasLeaf7 = (MaxLeaf \<ge> 0x7 \<and> \<not> noLeaf7);
          fs = setFeature_if (HasLeaf7 \<and> reg_bit ebx 3) FEATURE_BMI fs;
          fs = setFeature_if (HasLeaf7 \<and> reg_bit ebx 5 \<and> HasAVX) FEATURE_AVX2 fs;
          fs = setFeature_if (HasLeaf7 \<and> reg_bit ebx 8) FEATURE_BMI2 fs;
          fs = setFeature_if (HasLeaf7 \<and> reg_bit ebx 16 \<and> HasAVX512Save) FEATURE_AVX512F fs;
          fs = setFeature_if (HasLeaf7 \<and> reg_bit ebx 17 \<and> HasAVX512Save) FEATURE_AVX512DQ fs;
          fs = setFeature_if (HasLeaf7 \<and> reg_bit ebx 21 \<and> HasAVX512Save) FEATURE_AVX512IFMA fs;
          fs = setFeature_if (HasLeaf7 \<and> reg_bit ebx 26 \<and> HasAVX512Save) FEATURE_AVX512PF fs;
          fs = setFeature_if (HasLeaf7 \<and> reg_bit ebx 27 \<and> HasAVX512Save) FEATURE_AVX512ER fs;
          fs = setFeature_if (HasLeaf7 \<and> reg_bit ebx 28 \<and> HasAVX512Save) FEATURE_AVX512CD fs;
          fs = setFeature_if (HasLeaf7 \<and> reg_bit ebx 30 \<and> HasAVX512Save) FEATURE_AVX512BW fs;
          fs = setFeature_if (HasLeaf7 \<and> reg_bit ebx 31 \<and> HasAVX512Save) FEATURE_AVX512VL fs;
          fs = setFeature_if (HasLeaf7 \<and> reg_bit ecx 1 \<and> HasAVX512Save) FEATURE_AVX512VBMI fs;
          fs = setFeature_if (HasLeaf7 \<and> reg_bit ecx 6 \<and> HasAVX512Save) FEATURE_AVX512VBMI2 fs;
          fs = setFeature_if (HasLeaf7 \<and> reg_bit ecx 8) FEATURE_GFNI fs;
          fs = setFeature_if (HasLeaf7 \<and> reg_bit ecx 10 \<and> HasAVX) FEATURE_VPCLMULQDQ fs;
          fs = setFeature_if (HasLeaf7 \<and> reg_bit ecx 11 \<and> HasAVX512Save) FEATURE_AVX512VNNI fs;
          fs = setFeature_if (HasLeaf7 \<and> reg_bit ecx 12 \<and> HasAVX512Save) FEATURE_AVX512BITALG fs;
          fs = setFeature_if (HasLeaf7 \<and> reg_bit ecx 14 \<and> HasAVX512Save) FEATURE_AVX512VPOPCNTDQ fs;
          fs = setFeature_if (HasLeaf7 \<and> reg_bit edx 2 \<and> HasAVX512Save) FEATURE_AVX5124VNNIW fs;
          fs = setFeature_if (HasLeaf7 \<and> reg_bit edx 3 \<and> HasAVX512Save) FEATURE_AVX5124FMAPS fs;
          (noLeaf7, regs) = getX86CpuIDAndInfoEx cpu 0x7 0x1;
          eax = EAX regs;
          HasLeaf7Subleaf1 = (MaxLeaf \<ge> 0x7 \<and> \<not> noLeaf7);
          fs = setFeature_if (HasLeaf7Subleaf1 \<and> reg_bit eax 5 \<and> HasAVX512Save) FEATURE_AVX512BF16 fs;
          MaxExtLevel = EAX (snd (getX86CpuIDAndInfo cpu 0x80000000));
          (noExt, regs) = getX86CpuIDAndInfo cpu 0x80000001;
          ecx = ECX regs;
          HasExtLeaf1 = (MaxExtLevel \<ge> 0x80000001 \<and> \<not> noExt);
          fs = setFeature_if (HasExtLeaf1 \<and> reg_bit ecx 6) FEATURE_SSE4_A fs;
          fs = setFeature_if (HasExtLeaf1 \<and> reg_bit ecx 11) FEATURE_XOP fs;
          fs = setFeature_if (HasExtLeaf1 \<and> reg_bit ecx 16) FEATURE_FMA4 fs
      in fs)"

section \<open>The constructor\<close>

record processor_model =
  cpu_vendor :: c_unsigned
  cpu_type :: c_unsigned
  cpu_subtype :: c_unsigned
  cpu_features :: c_unsigned
  cpu_features2 :: c_unsigned

definition initial_model :: processor_model where
  "initial_model = \<lparr>cpu_vendor = 0, cpu_type = 0, cpu_subtype = 0, cpu_features = 0, cpu_features2 = 0\<rparr>"

text \<open>The result of the function is 0 or -1; the asserts at the end are the theorem \<open>cpu_model_in_range\<close>.\<close>

definition cpu_indicator_init :: "processor \<Rightarrow> processor_model \<Rightarrow> int \<times> processor_model" where
  "cpu_indicator_init cpu m =
     (if cpu_vendor m \<noteq> 0 then (0, m)
      else if \<not> isCpuIdSupported cpu then (- 1, m)
      else
        let (none, regs) = getX86CpuIDAndInfo cpu 0;
            MaxLeaf = EAX regs; Vendor = EBX regs
        in if none \<or> MaxLeaf < 1 then (- 1, m\<lparr>cpu_vendor := vendor_number VENDOR_OTHER\<rparr>)
           else
             let regs = snd (getX86CpuIDAndInfo cpu 1);
                 (Family, Model) = detectX86FamilyModel (EAX regs);
                 Brand_id = EBX regs AND 0xff;
                 (Features, Features2) = getAvailableFeatures cpu (ECX regs) (EDX regs) MaxLeaf;
                 m = m\<lparr>cpu_features := Features, cpu_features2 := Features2\<rparr>
             in if Vendor = SIG_INTEL then
                  let (Type, Subtype) = getIntelProcessorTypeAndSubtype Family Model Brand_id Features Features2
                        (cpu_type m, cpu_subtype m)
                  in (0, m\<lparr>cpu_type := Type, cpu_subtype := Subtype, cpu_vendor := vendor_number VENDOR_INTEL\<rparr>)
                else if Vendor = SIG_AMD then
                  let (Type, Subtype) = getAMDProcessorTypeAndSubtype Family Model Features Features2
                        (cpu_type m, cpu_subtype m)
                  in (0, m\<lparr>cpu_type := Type, cpu_subtype := Subtype, cpu_vendor := vendor_number VENDOR_AMD\<rparr>)
                else (0, m\<lparr>cpu_vendor := vendor_number VENDOR_OTHER\<rparr>))"

section \<open>The specification of the features\<close>

text \<open>The operating system saves the AVX registers, and the AVX-512 registers, on a context switch.\<close>

definition saves_avx :: "processor \<Rightarrow> c_unsigned \<Rightarrow> bool" where
  "saves_avx cpu ecx \<longleftrightarrow> bit ecx 27 \<and> bit ecx 28 \<and> bit (XCR0_low cpu) 1 \<and> bit (XCR0_low cpu) 2"

definition saves_avx512 :: "processor \<Rightarrow> c_unsigned \<Rightarrow> bool" where
  "saves_avx512 cpu ecx \<longleftrightarrow>
     saves_avx cpu ecx \<and> bit (XCR0_low cpu) 5 \<and> bit (XCR0_low cpu) 6 \<and> bit (XCR0_low cpu) 7"

text \<open>Where \<open>cpuid\<close> reports a feature, by the manuals of Intel and AMD: a bit of a register of leaf 1, of leaf 7 with
  subleaf 0 or 1, or of the extended leaf 0x80000001.  A leaf counts when it is not above the highest one.\<close>

datatype source =
    Leaf1_ECX nat | Leaf1_EDX nat | Leaf7_EBX nat | Leaf7_ECX nat | Leaf7_EDX nat | Leaf7_1_EAX nat | Extended_ECX nat

primrec feature_source :: "feature \<Rightarrow> source" where
  "feature_source FEATURE_CMOV = Leaf1_EDX 15"
| "feature_source FEATURE_MMX = Leaf1_EDX 23"
| "feature_source FEATURE_POPCNT = Leaf1_ECX 23"
| "feature_source FEATURE_SSE = Leaf1_EDX 25"
| "feature_source FEATURE_SSE2 = Leaf1_EDX 26"
| "feature_source FEATURE_SSE3 = Leaf1_ECX 0"
| "feature_source FEATURE_SSSE3 = Leaf1_ECX 9"
| "feature_source FEATURE_SSE4_1 = Leaf1_ECX 19"
| "feature_source FEATURE_SSE4_2 = Leaf1_ECX 20"
| "feature_source FEATURE_AVX = Leaf1_ECX 28"
| "feature_source FEATURE_AVX2 = Leaf7_EBX 5"
| "feature_source FEATURE_SSE4_A = Extended_ECX 6"
| "feature_source FEATURE_FMA4 = Extended_ECX 16"
| "feature_source FEATURE_XOP = Extended_ECX 11"
| "feature_source FEATURE_FMA = Leaf1_ECX 12"
| "feature_source FEATURE_AVX512F = Leaf7_EBX 16"
| "feature_source FEATURE_BMI = Leaf7_EBX 3"
| "feature_source FEATURE_BMI2 = Leaf7_EBX 8"
| "feature_source FEATURE_AES = Leaf1_ECX 25"
| "feature_source FEATURE_PCLMUL = Leaf1_ECX 1"
| "feature_source FEATURE_AVX512VL = Leaf7_EBX 31"
| "feature_source FEATURE_AVX512BW = Leaf7_EBX 30"
| "feature_source FEATURE_AVX512DQ = Leaf7_EBX 17"
| "feature_source FEATURE_AVX512CD = Leaf7_EBX 28"
| "feature_source FEATURE_AVX512ER = Leaf7_EBX 27"
| "feature_source FEATURE_AVX512PF = Leaf7_EBX 26"
| "feature_source FEATURE_AVX512VBMI = Leaf7_ECX 1"
| "feature_source FEATURE_AVX512IFMA = Leaf7_EBX 21"
| "feature_source FEATURE_AVX5124VNNIW = Leaf7_EDX 2"
| "feature_source FEATURE_AVX5124FMAPS = Leaf7_EDX 3"
| "feature_source FEATURE_AVX512VPOPCNTDQ = Leaf7_ECX 14"
| "feature_source FEATURE_AVX512VBMI2 = Leaf7_ECX 6"
| "feature_source FEATURE_GFNI = Leaf7_ECX 8"
| "feature_source FEATURE_VPCLMULQDQ = Leaf7_ECX 10"
| "feature_source FEATURE_AVX512VNNI = Leaf7_ECX 11"
| "feature_source FEATURE_AVX512BITALG = Leaf7_ECX 12"
| "feature_source FEATURE_AVX512BF16 = Leaf7_1_EAX 5"

primrec source_set :: "processor \<Rightarrow> c_unsigned \<Rightarrow> c_unsigned \<Rightarrow> c_unsigned \<Rightarrow> source \<Rightarrow> bool" where
  "source_set cpu ecx edx MaxLeaf (Leaf1_ECX n) = bit ecx n"
| "source_set cpu ecx edx MaxLeaf (Leaf1_EDX n) = bit edx n"
| "source_set cpu ecx edx MaxLeaf (Leaf7_EBX n) = (7 \<le> MaxLeaf \<and> bit (EBX (cpuid_sub cpu 7 0)) n)"
| "source_set cpu ecx edx MaxLeaf (Leaf7_ECX n) = (7 \<le> MaxLeaf \<and> bit (ECX (cpuid_sub cpu 7 0)) n)"
| "source_set cpu ecx edx MaxLeaf (Leaf7_EDX n) = (7 \<le> MaxLeaf \<and> bit (EDX (cpuid_sub cpu 7 0)) n)"
| "source_set cpu ecx edx MaxLeaf (Leaf7_1_EAX n) = (7 \<le> MaxLeaf \<and> bit (EAX (cpuid_sub cpu 7 1)) n)"
| "source_set cpu ecx edx MaxLeaf (Extended_ECX n) =
     (0x80000001 \<le> EAX (cpuid cpu 0x80000000) \<and> bit (ECX (cpuid cpu 0x80000001)) n)"

text \<open>The widest registers that the instructions of a feature use.  Those of AVX and of AVX-512 may only be used when
  the processor has AVX and the operating system saves them, which a program finds in \<open>XCR0\<close>.\<close>

datatype registers_used = Xmm | Ymm | Zmm

fun feature_registers :: "feature \<Rightarrow> registers_used" where
  "feature_registers FEATURE_AVX = Ymm"
| "feature_registers FEATURE_AVX2 = Ymm"
| "feature_registers FEATURE_FMA4 = Ymm"
| "feature_registers FEATURE_XOP = Ymm"
| "feature_registers FEATURE_FMA = Ymm"
| "feature_registers FEATURE_VPCLMULQDQ = Ymm"
| "feature_registers FEATURE_AVX512F = Zmm"
| "feature_registers FEATURE_AVX512VL = Zmm"
| "feature_registers FEATURE_AVX512BW = Zmm"
| "feature_registers FEATURE_AVX512DQ = Zmm"
| "feature_registers FEATURE_AVX512CD = Zmm"
| "feature_registers FEATURE_AVX512ER = Zmm"
| "feature_registers FEATURE_AVX512PF = Zmm"
| "feature_registers FEATURE_AVX512VBMI = Zmm"
| "feature_registers FEATURE_AVX512IFMA = Zmm"
| "feature_registers FEATURE_AVX5124VNNIW = Zmm"
| "feature_registers FEATURE_AVX5124FMAPS = Zmm"
| "feature_registers FEATURE_AVX512VPOPCNTDQ = Zmm"
| "feature_registers FEATURE_AVX512VBMI2 = Zmm"
| "feature_registers FEATURE_AVX512VNNI = Zmm"
| "feature_registers FEATURE_AVX512BITALG = Zmm"
| "feature_registers FEATURE_AVX512BF16 = Zmm"
| "feature_registers _ = Xmm"

primrec registers_usable :: "processor \<Rightarrow> c_unsigned \<Rightarrow> registers_used \<Rightarrow> bool" where
  "registers_usable cpu ecx Xmm = True"
| "registers_usable cpu ecx Ymm = saves_avx cpu ecx"
| "registers_usable cpu ecx Zmm = saves_avx512 cpu ecx"

text \<open>The features for which the code leaves out the test of the operating system.\<close>

definition untested :: "feature set" where
  "untested = {FEATURE_FMA, FEATURE_FMA4, FEATURE_XOP}"

definition has_feature :: "feature_words \<Rightarrow> feature \<Rightarrow> bool" where
  "has_feature fs f \<longleftrightarrow>
     (let n = feature_number f in if n < 32 then bit (fst fs) n else bit (snd fs) (n - 32))"

text \<open>The type of each subtype and the vendor of each type.\<close>

fun type_of :: "processor_subtype \<Rightarrow> processor_type" where
  "type_of AMDFAM10H_BARCELONA = AMDFAM10H"
| "type_of AMDFAM10H_SHANGHAI = AMDFAM10H"
| "type_of AMDFAM10H_ISTANBUL = AMDFAM10H"
| "type_of AMDFAM15H_BDVER1 = AMDFAM15H"
| "type_of AMDFAM15H_BDVER2 = AMDFAM15H"
| "type_of AMDFAM15H_BDVER3 = AMDFAM15H"
| "type_of AMDFAM15H_BDVER4 = AMDFAM15H"
| "type_of AMDFAM17H_ZNVER1 = AMDFAM17H"
| "type_of AMDFAM17H_ZNVER2 = AMDFAM17H"
| "type_of _ = INTEL_COREI7"

fun vendor_of :: "processor_type \<Rightarrow> vendor" where
  "vendor_of AMDFAM10H = VENDOR_AMD"
| "vendor_of AMDFAM15H = VENDOR_AMD"
| "vendor_of AMD_BTVER1 = VENDOR_AMD"
| "vendor_of AMD_BTVER2 = VENDOR_AMD"
| "vendor_of AMDFAM17H = VENDOR_AMD"
| "vendor_of _ = VENDOR_INTEL"

section \<open>Features are set under their condition\<close>

lemma reg_bit_iff: "reg_bit w n \<longleftrightarrow> bit w n"
proof -
  have "shr w n AND 1 = (if bit w n then 1 else 0)"
    by (rule bit_word_eqI) (auto simp: bit_and_iff bit_drop_bit_eq bit_1_iff intro!: gr0I)
  then show ?thesis by (simp add: reg_bit_def)
qed

lemma has_feature_set [simp]: "has_feature (setFeature_if c g fs) f \<longleftrightarrow> c \<and> f = g \<or> has_feature fs f"
proof -
  have inj: "feature_number f = feature_number g \<longleftrightarrow> f = g" by (cases f; cases g) simp_all
  have bound: "feature_number g < 64" "feature_number f < 64" by (cases g, simp_all) (cases f, simp_all)
  show ?thesis
    using bound inj
    by (auto simp: setFeature_if_def setFeature_def has_feature_def Let_def bit_or_iff bit_exp_iff
        split: prod.splits)
qed

lemma has_feature_none [simp]: "\<not> has_feature (0, 0) f"
  by (simp add: has_feature_def Let_def)

text \<open>Testing a mask of several bits.\<close>

lemma mask_test:
  fixes w m :: "'a::len word"
  assumes "\<And>n. bit m n \<longleftrightarrow> n \<in> B"
  shows "w AND m = m \<longleftrightarrow> (\<forall>n\<in>B. bit w n)"
  using assms by (auto simp: bit_eq_iff bit_and_iff dest: bit_imp_le_length)

lemma avx_masks:
  "bit (shl 1 27 OR shl 1 28 :: c_unsigned) n \<longleftrightarrow> n \<in> {27, 28}"
  "bit (0x6 :: c_unsigned) n \<longleftrightarrow> n \<in> {1, 2}"
  "bit (0xe0 :: c_unsigned) n \<longleftrightarrow> n \<in> {5, 6, 7}"
proof -
  have masks: "(0x6 :: c_unsigned) = shl 1 1 OR shl 1 2" "(0xe0 :: c_unsigned) = shl 1 5 OR (shl 1 6 OR shl 1 7)"
    by simp_all
  show "bit (0x6 :: c_unsigned) n \<longleftrightarrow> n \<in> {1, 2}"
    unfolding masks(1) bit_or_iff bit_push_bit_iff bit_1_iff by auto
  show "bit (0xe0 :: c_unsigned) n \<longleftrightarrow> n \<in> {5, 6, 7}"
    unfolding masks(2) bit_or_iff bit_push_bit_iff bit_1_iff by auto
  show "bit (shl 1 27 OR shl 1 28 :: c_unsigned) n \<longleftrightarrow> n \<in> {27, 28}"
    unfolding bit_or_iff bit_push_bit_iff bit_1_iff by auto
qed

lemma saves_tests:
  "saves_avx cpu ecx \<longleftrightarrow>
     ecx AND (shl 1 27 OR shl 1 28) = shl 1 27 OR shl 1 28 \<and> \<not> fst (getX86XCR0 cpu) \<and> snd (getX86XCR0 cpu) AND 0x6 = 0x6"
  "saves_avx512 cpu ecx \<longleftrightarrow> saves_avx cpu ecx \<and> snd (getX86XCR0 cpu) AND 0xe0 = 0xe0"
  unfolding mask_test [OF avx_masks(1)] mask_test [OF avx_masks(2)] mask_test [OF avx_masks(3)]
  by (auto simp: saves_avx_def saves_avx512_def getX86XCR0_def)

text \<open>C39. The two feature words have the bit of a feature exactly when \<open>cpuid\<close> reports it in the bit that the
  manuals define and, if it uses the registers of AVX or AVX-512, the operating system saves them; no entry
  of the table overwrites another.  \<open>FMA\<close>, \<open>FMA4\<close> and \<open>XOP\<close> use the registers of AVX, but are reported without the
  test of the operating system.\<close>

theorem features_reported:
  "has_feature (getAvailableFeatures cpu ecx edx MaxLeaf) f \<longleftrightarrow>
     source_set cpu ecx edx MaxLeaf (feature_source f) \<and>
     (f \<in> untested \<or> registers_usable cpu ecx (feature_registers f))"
proof -
  have "saves_avx cpu ecx \<Longrightarrow> bit ecx 28" by (simp add: saves_avx_def)
  then show ?thesis
    unfolding getAvailableFeatures_def Let_def case_prod_unfold untested_def saves_tests(1)
    by (cases f) (auto simp: reg_bit_iff getX86CpuIDAndInfoEx_def getX86CpuIDAndInfo_def
        saves_tests)
qed

section \<open>The recorded model\<close>

lemma type_range: "0 < type_number t \<and> type_number t < CPU_TYPE_MAX"
  by (cases t) (simp_all add: CPU_TYPE_MAX_def)

lemma subtype_range: "0 < subtype_number s \<and> subtype_number s < CPU_SUBTYPE_MAX"
  by (cases s) (simp_all add: CPU_SUBTYPE_MAX_def)

text \<open>What a type and subtype may be for a vendor.\<close>

definition fits :: "vendor \<Rightarrow> c_unsigned \<times> c_unsigned \<Rightarrow> bool" where
  "fits v ts \<longleftrightarrow>
     (fst ts = 0 \<or> (\<exists>t. fst ts = type_number t \<and> vendor_of t = v)) \<and>
     (snd ts = 0 \<or> (\<exists>s. snd ts = subtype_number s \<and> fst ts = type_number (type_of s)))"

lemma fits_intros:
  "fits v (0, 0)"
  "vendor_of t = v \<Longrightarrow> fits v (type_number t, 0)"
  "vendor_of t = v \<Longrightarrow> type_of s = t \<Longrightarrow> fits v (type_number t, subtype_number s)"
  by (auto simp: fits_def)

lemma fits_if: "fits v x \<Longrightarrow> fits v y \<Longrightarrow> fits v (if c then x else y)"
  by simp

lemma Intel_fits: "fits VENDOR_INTEL (getIntelProcessorTypeAndSubtype F M B f1 f2 (0, 0))"
  unfolding getIntelProcessorTypeAndSubtype_def Let_def prod.case
  by (intro fits_if) (auto intro!: fits_intros simp del: type_number.simps subtype_number.simps)

lemma AMD_fits: "fits VENDOR_AMD (getAMDProcessorTypeAndSubtype F M f1 f2 (0, 0))"
  unfolding getAMDProcessorTypeAndSubtype_def Let_def prod.case
  by (auto intro!: fits_intros split: if_split simp del: type_number.simps subtype_number.simps)

lemma fits_vendor: "fits v ts \<Longrightarrow> \<exists>w. vendor_number v = vendor_number w \<and> fits w ts"
  by blast

lemma fits_range: "fits v ts \<Longrightarrow> fst ts < CPU_TYPE_MAX \<and> snd ts < CPU_SUBTYPE_MAX"
  using type_range subtype_range by (auto simp: fits_def CPU_TYPE_MAX_def CPU_SUBTYPE_MAX_def)

text \<open>C40. The constructor records a vendor if the processor can identify itself, and none otherwise; the type is
  one of that vendor or 0, the subtype is one of that type or 0, all three are below the limits that the code
  asserts, and a second call changes nothing.\<close>

theorem cpu_model_in_range:
  "let m = snd (cpu_indicator_init cpu initial_model) in
   (if has_cpuid cpu
    then \<exists>v. cpu_vendor m = vendor_number v \<and> cpu_vendor m < VENDOR_MAX \<and> fits v (cpu_type m, cpu_subtype m) \<and>
      cpu_indicator_init cpu2 m = (0, m)
    else m = initial_model) \<and>
   cpu_type m < CPU_TYPE_MAX \<and> cpu_subtype m < CPU_SUBTYPE_MAX"
proof -
  define m where "m = snd (cpu_indicator_init cpu initial_model)"
  have numbers: "vendor_number v \<noteq> 0" "vendor_number v < VENDOR_MAX" for v
    by (cases v, simp_all add: VENDOR_MAX_def)+
  show ?thesis
  proof (cases "has_cpuid cpu")
    case True
    have "\<exists>v. cpu_vendor m = vendor_number v \<and> fits v (cpu_type m, cpu_subtype m)"
      using True
      unfolding m_def cpu_indicator_init_def isCpuIdSupported_def getX86CpuIDAndInfo_def initial_model_def
        Let_def case_prod_unfold
      by (simp del: vendor_number.simps)
        (auto simp del: vendor_number.simps intro!: fits_vendor Intel_fits AMD_fits fits_intros(1))
    then obtain v where v: "cpu_vendor m = vendor_number v" "fits v (cpu_type m, cpu_subtype m)" by blast
    then have "cpu_indicator_init cpu2 m = (0, m)" using numbers(1) by (simp add: cpu_indicator_init_def)
    then show ?thesis using True v numbers(2) fits_range [OF v(2)] unfolding Let_def m_def [symmetric] by auto
  next
    case False
    then have "m = initial_model" by (simp add: m_def cpu_indicator_init_def isCpuIdSupported_def initial_model_def)
    then show ?thesis using False fits_range [OF fits_intros(1)]
      unfolding Let_def m_def [symmetric] by (simp add: initial_model_def)
  qed
qed

text \<open>The missing test shows: a processor with \<open>XCR0\<close> clear reports \<open>FMA\<close> and not \<open>AVX\<close>.\<close>

theorem fma_reported_without_avx:
  "let cpu = \<lparr>has_cpuid = True, cpuid = \<lambda>_. \<lparr>EAX = 1, EBX = 0, ECX = 0x18001000, EDX = 0\<rparr>,
       cpuid_sub = \<lambda>_ _. \<lparr>EAX = 0, EBX = 0, ECX = 0, EDX = 0\<rparr>, XCR0_low = 0\<rparr>;
     fs = getAvailableFeatures cpu 0x18001000 0 1
   in has_feature fs FEATURE_FMA \<and> \<not> has_feature fs FEATURE_AVX"
proof -
  have "bit (0x18001000 :: c_unsigned) 12" by simp
  then show ?thesis
    unfolding Let_def getAvailableFeatures_def case_prod_unfold
    by (simp add: reg_bit_iff getX86XCR0_def getX86CpuIDAndInfoEx_def getX86CpuIDAndInfo_def)
qed


end
