(* ===== verification/Personality.thy ===== *)
theory Personality
  imports Bytes
begin

text \<open>
  \<open>gcc_personality_v0.c\<close>: the personality routine of C frames.  It parses the language-specific data of a
  frame (the LSDA: a header and a table of call sites) and lets the unwinder enter the landing pad of the call
  site that contains the program counter.  The LSDA is memory; the context of the unwinder is a record.
  A value that a signed shift of the code cannot hold is the outcome \<open>Undefined\<close>, an encoding the code does
  not support is \<open>Aborted\<close>.
\<close>

section \<open>Reading encoded values\<close>

definition DW_EH_PE_omit :: byte where "DW_EH_PE_omit = 0xff"
definition DW_EH_PE_absptr :: byte where "DW_EH_PE_absptr = 0x00"
definition DW_EH_PE_uleb128 :: byte where "DW_EH_PE_uleb128 = 0x01"
definition DW_EH_PE_udata2 :: byte where "DW_EH_PE_udata2 = 0x02"
definition DW_EH_PE_udata4 :: byte where "DW_EH_PE_udata4 = 0x03"
definition DW_EH_PE_udata8 :: byte where "DW_EH_PE_udata8 = 0x04"
definition DW_EH_PE_sdata2 :: byte where "DW_EH_PE_sdata2 = 0x0A"
definition DW_EH_PE_sdata4 :: byte where "DW_EH_PE_sdata4 = 0x0B"
definition DW_EH_PE_sdata8 :: byte where "DW_EH_PE_sdata8 = 0x0C"
definition DW_EH_PE_pcrel :: byte where "DW_EH_PE_pcrel = 0x10"
definition DW_EH_PE_indirect :: byte where "DW_EH_PE_indirect = 0x80"

text \<open>The shift \<open>(byte & 0x7f) << shift\<close> is one of the 32-bit type \<open>int\<close>: it is defined while the value stays
  below \<open>2 ^ 31\<close>.\<close>

function readULEB128_loop :: "memory \<Rightarrow> addr \<Rightarrow> addr \<Rightarrow> nat \<Rightarrow> failure + addr \<times> addr" where
  "readULEB128_loop m p result shift =
     (let byte = m p;
          p = p + 1;
          digit = unat (byte AND 0x7f)
      in if shift \<ge> 32 \<or> digit * 2 ^ shift \<ge> 2 ^ 31 then Inl Undefined
         else
           let result = result OR shl (of_nat digit) shift
           in if byte AND 0x80 \<noteq> 0 then readULEB128_loop m p result (shift + 7) else Inr (result, p))"
  by pat_completeness auto
termination
  by (relation "measure (\<lambda>(m, p, result, shift). 39 - shift)") auto

declare readULEB128_loop.simps [simp del]

definition readULEB128 :: "memory \<Rightarrow> addr \<Rightarrow> failure + addr \<times> addr" where
  "readULEB128 m data = readULEB128_loop m data 0 0"

text \<open>An unsigned and a signed integer of \<open>n\<close> bytes, widened to a pointer.\<close>

definition read_unsigned :: "memory \<Rightarrow> addr \<Rightarrow> nat \<Rightarrow> addr" where
  "read_unsigned m p n = ucast (decode (load_bytes m p n))"

definition read_signed :: "memory \<Rightarrow> addr \<Rightarrow> nat \<Rightarrow> addr" where
  "read_signed m p n = word_of_int (signed_take_bit (8 * n - 1) (uint (decode (load_bytes m p n))))"

definition read_encoded_value :: "memory \<Rightarrow> addr \<Rightarrow> byte \<Rightarrow> failure + addr \<times> addr" where
  "read_encoded_value m p encoding =
     (let format = encoding AND 0x0F in
      if format = DW_EH_PE_absptr then Inr (read_unsigned m p 8, p + 8)
      else if format = DW_EH_PE_uleb128 then readULEB128 m p
      else if format = DW_EH_PE_udata2 then Inr (read_unsigned m p 2, p + 2)
      else if format = DW_EH_PE_udata4 then Inr (read_unsigned m p 4, p + 4)
      else if format = DW_EH_PE_udata8 then Inr (read_unsigned m p 8, p + 8)
      else if format = DW_EH_PE_sdata2 then Inr (read_signed m p 2, p + 2)
      else if format = DW_EH_PE_sdata4 then Inr (read_signed m p 4, p + 4)
      else if format = DW_EH_PE_sdata8 then Inr (read_signed m p 8, p + 8)
      else Inl Aborted)"

definition readEncodedPointer :: "memory \<Rightarrow> addr \<Rightarrow> byte \<Rightarrow> failure + addr \<times> addr" where
  "readEncodedPointer m data encoding =
     (if encoding = DW_EH_PE_omit then Inr (0, data)
      else
        case read_encoded_value m data encoding of
          Inl e \<Rightarrow> Inl e
        | Inr (result, p) \<Rightarrow>
            let relative = encoding AND 0x70 in
            if relative = DW_EH_PE_absptr \<or> relative = DW_EH_PE_pcrel then
              let result = (if relative = DW_EH_PE_pcrel then result + data else result);
                  result = (if encoding AND DW_EH_PE_indirect \<noteq> 0 then read_unsigned m result 8 else result)
              in Inr (result, p)
            else Inl Aborted)"

section \<open>The personality routine\<close>

text \<open>What the routine uses of \<open>_Unwind_Context\<close>: the data and start of the function, the instruction pointer,
  and the two registers that pass arguments to a landing pad.\<close>

record unwind_context =
  lsda :: addr
  region_start :: addr
  ip :: addr
  gr0 :: addr
  gr1 :: addr

datatype reason = URC_CONTINUE_UNWIND | URC_INSTALL_CONTEXT

definition UA_SEARCH_PHASE :: c_unsigned where "UA_SEARCH_PHASE = 1"

text \<open>One iteration reads an entry of the table: start, length, landing pad and the unused action.\<close>

definition read_call_site :: "memory \<Rightarrow> byte \<Rightarrow> addr \<Rightarrow> failure + (addr \<times> addr \<times> addr) \<times> addr" where
  "read_call_site m encoding p =
     (case readEncodedPointer m p encoding of
        Inl e \<Rightarrow> Inl e
      | Inr (start, p) \<Rightarrow>
     (case readEncodedPointer m p encoding of
        Inl e \<Rightarrow> Inl e
      | Inr (len, p) \<Rightarrow>
     (case readEncodedPointer m p encoding of
        Inl e \<Rightarrow> Inl e
      | Inr (landingPad, p) \<Rightarrow>
     (case readULEB128 m p of
        Inl e \<Rightarrow> Inl e
      | Inr (action, p) \<Rightarrow> Inr ((start, len, landingPad), p)))))"

text \<open>The walk returns the landing pad, or \<open>None\<close> at the end of the table.  A pointer that passes the end of
  the address space is undefined.\<close>

function walk_call_sites :: "memory \<Rightarrow> byte \<Rightarrow> addr \<Rightarrow> addr \<Rightarrow> addr \<Rightarrow> failure + addr option" where
  "walk_call_sites m encoding pcOffset table_end p =
     (if p < table_end then
        case read_call_site m encoding p of
          Inl e \<Rightarrow> Inl e
        | Inr ((start, len, landingPad), p') \<Rightarrow>
            if p' \<le> p then Inl Undefined
            else if landingPad = 0 then walk_call_sites m encoding pcOffset table_end p'
            else if start \<le> pcOffset \<and> pcOffset < start + len then Inr (Some landingPad)
            else walk_call_sites m encoding pcOffset table_end p'
      else Inr None)"
  by pat_completeness auto
termination
  by (relation "measure (\<lambda>(m, encoding, pcOffset, table_end, p). 2 ^ 64 - unat p)")
    (auto simp: word_less_nat_alt word_le_nat_alt not_le intro!: diff_less_mono2 less_le_trans [OF unat_less_exp_len])

declare walk_call_sites.simps [simp del]

text \<open>The header: an optional landing pad base, an optional type table, the encoding and length of the call
  site table.  The result is the encoding and the bounds of the table.\<close>

definition read_lsda_header :: "memory \<Rightarrow> addr \<Rightarrow> failure + byte \<times> addr \<times> addr" where
  "read_lsda_header m p =
     (let lpStartEncoding = m p; p = p + 1 in
      case (if lpStartEncoding \<noteq> DW_EH_PE_omit then readEncodedPointer m p lpStartEncoding else Inr (0, p)) of
        Inl e \<Rightarrow> Inl e
      | Inr (_, p) \<Rightarrow>
          let ttypeEncoding = m p; p = p + 1 in
          case (if ttypeEncoding \<noteq> DW_EH_PE_omit then readULEB128 m p else Inr (0, p)) of
            Inl e \<Rightarrow> Inl e
          | Inr (_, p) \<Rightarrow>
              let callSiteEncoding = m p; p = p + 1 in
              case readULEB128 m p of
                Inl e \<Rightarrow> Inl e
              | Inr (callSiteTableLength, p) \<Rightarrow>
                  Inr (callSiteEncoding, p, p + ucast (ucast callSiteTableLength :: su_int)))"

definition gcc_personality_v0 ::
  "memory \<Rightarrow> c_unsigned \<Rightarrow> addr \<Rightarrow> unwind_context \<Rightarrow> failure + reason \<times> unwind_context" where
  "gcc_personality_v0 m actions exceptionObject context =
     (if actions AND UA_SEARCH_PHASE \<noteq> 0 then Inr (URC_CONTINUE_UNWIND, context)
      else if lsda context = 0 then Inr (URC_CONTINUE_UNWIND, context)
      else
        let pc = ip context - 1;
            funcStart = region_start context;
            pcOffset = pc - funcStart
        in case read_lsda_header m (lsda context) of
             Inl e \<Rightarrow> Inl e
           | Inr (callSiteEncoding, table, table_end) \<Rightarrow>
               (case walk_call_sites m callSiteEncoding pcOffset table_end table of
                  Inl e \<Rightarrow> Inl e
                | Inr None \<Rightarrow> Inr (URC_CONTINUE_UNWIND, context)
                | Inr (Some landingPad) \<Rightarrow>
                    Inr (URC_INSTALL_CONTEXT,
                      context\<lparr>gr0 := exceptionObject, gr1 := 0, ip := funcStart + landingPad\<rparr>)))"


section \<open>Encoded data in memory\<close>

text \<open>The canonical ULEB128 form of a number, and the bytes of a value in the unsigned formats.\<close>

fun uleb :: "nat \<Rightarrow> byte list" where
  "uleb n = (if n < 128 then [of_nat n] else of_nat (n mod 128 + 128) # uleb (n div 128))"

declare uleb.simps [simp del]

definition encode_value :: "byte \<Rightarrow> nat \<Rightarrow> byte list" where
  "encode_value encoding v =
     (if encoding = DW_EH_PE_uleb128 then uleb v
      else if encoding = DW_EH_PE_udata2 then encode 2 (of_nat v)
      else if encoding = DW_EH_PE_udata4 then encode 4 (of_nat v)
      else encode 8 (of_nat v))"

definition representable :: "byte \<Rightarrow> nat \<Rightarrow> bool" where
  "representable encoding v \<longleftrightarrow>
     encoding = DW_EH_PE_uleb128 \<and> v < 2 ^ 31 \<or> encoding = DW_EH_PE_udata2 \<and> v < 2 ^ 16 \<or>
     encoding = DW_EH_PE_udata4 \<and> v < 2 ^ 32 \<or> (encoding = DW_EH_PE_absptr \<or> encoding = DW_EH_PE_udata8) \<and> v < 2 ^ 64"

definition holds :: "memory \<Rightarrow> addr \<Rightarrow> byte list \<Rightarrow> bool" where
  "holds m p bs \<longleftrightarrow> load_bytes m p (length bs) = bs"

lemma load_bytes_append: "load_bytes m p (j + k) = load_bytes m p j @ load_bytes m (p + of_nat j) k"
  by (induction j arbitrary: p) (simp_all add: load_bytes_Suc ac_simps)

lemma holds_append: "holds m p (xs @ ys) \<longleftrightarrow> holds m p xs \<and> holds m (p + of_nat (length xs)) ys"
  by (auto simp: holds_def load_bytes_append)

lemma holds_Nil [simp]: "holds m p []" by (simp add: holds_def)

lemma holds_Cons: "holds m p (b # bs) \<longleftrightarrow> m p = b \<and> holds m (p + 1) bs"
  by (auto simp: holds_def load_bytes_Suc)

lemma holds_store: "length bs \<le> 2 ^ 64 \<Longrightarrow> holds (store_bytes m p bs) p bs"
proof (induction bs arbitrary: m p)
  case (Cons b bs)
  have "p \<notin> region (p + 1) (length bs)"
  proof
    assume "p \<in> region (p + 1) (length bs)"
    then obtain i where i: "i < length bs" "p + 1 + of_nat i = p" by (auto simp: region_def)
    then have "of_nat (Suc i) = (0 :: addr)" by (simp add: algebra_simps)
    then have "2 ^ 64 dvd Suc i" using word_of_nat_eq_0_iff [where 'a = 64, of "Suc i"] by simp
    then show False using i(1) Cons.prems dvd_imp_le [of "2 ^ 64" "Suc i"] by simp
  qed
  then show ?case using Cons by (simp add: holds_Cons store_bytes_outside)
qed simp

section \<open>ULEB128\<close>

lemma byte_digit:
  assumes "n < 128"
  shows "unat (of_nat n AND 0x7f :: byte) = n" "(of_nat n :: byte) AND 0x80 = 0"
    "unat (of_nat (n + 128) AND 0x7f :: byte) = n" "(of_nat (n + 128) :: byte) AND 0x80 \<noteq> 0"
proof -
  have mask: "(0x7f :: byte) = mask 7" "(0x80 :: byte) = 2 ^ 7" by (simp_all add: mask_eq_exp_minus_1)
  have u: "unat (of_nat n :: byte) = n" "unat (of_nat (n + 128) :: byte) = n + 128"
    using assms by (simp_all only: unat_of_nat) simp_all
  show "unat (of_nat n AND 0x7f :: byte) = n" "unat (of_nat (n + 128) AND 0x7f :: byte) = n"
    unfolding mask unat_and_mask_low u using assms by simp_all
  have "(of_nat n :: byte) AND 2 ^ 7 = 0 \<longleftrightarrow> unat (of_nat n :: byte) < 2 ^ 7"
    by (rule and_exp_eq_0_iff) (use u assms in simp)
  then show "(of_nat n :: byte) AND 0x80 = 0" unfolding mask u using assms by simp
  have "(of_nat (n + 128) :: byte) AND 2 ^ 7 = 0 \<longleftrightarrow> unat (of_nat (n + 128) :: byte) < 2 ^ 7"
    by (rule and_exp_eq_0_iff) (use u assms in simp)
  then show "(of_nat (n + 128) :: byte) AND 0x80 \<noteq> 0" unfolding mask(2) u by simp
qed



lemma or_digit:
  fixes r :: addr
  assumes "unat r < 2 ^ s" "d * 2 ^ s < 2 ^ 31" "s < 32"
  shows "unat (r OR shl (of_nat d) s) = unat r + d * 2 ^ s"
proof -
  have "d < 2 ^ 31" using assms(2) by (metis le_less_trans less_le_not_le linorder_not_le mult_le_mono2 nat_mult_1_right one_le_numeral one_le_power)
  then have d: "unat (of_nat d :: addr) = d" by (simp add: unat_of_nat)
  have "unat (shl (of_nat d :: addr) s) = d * 2 ^ s"
    using assms(2) by (simp add: unat_shl d)
  then show ?thesis
    using unat_shl_or [OF assms(1), of "of_nat d"] by (simp add: or.commute)
qed

lemma digit_below_exp: "r < B \<Longrightarrow> q * B + r < c * B \<longleftrightarrow> q * B < c * B" for q r B c :: nat
proof (intro iffI)
  assume "r < B" "q * B < c * B"
  then have "Suc q * B \<le> c * B" by (intro mult_le_mono1) simp
  with \<open>r < B\<close> show "q * B + r < c * B" by simp
next
  assume "q * B + r < c * B"
  then show "q * B < c * B" by linarith
qed

lemma readULEB128_loop_canonical:
  assumes "holds m p (uleb n)" "unat r < 2 ^ s" "s \<le> 28 \<and> 7 dvd s \<or> 32 \<le> s"
  shows "readULEB128_loop m p r s =
    (if s < 32 \<and> n * 2 ^ s < 2 ^ 31 then Inr (r + of_nat (n * 2 ^ s), p + of_nat (length (uleb n)))
     else Inl Undefined)"
  using assms
proof (induction n arbitrary: p r s rule: uleb.induct)
  case (1 n)
  show ?case
  proof (cases "s < 32 \<and> (n mod 128) * 2 ^ s < 2 ^ 31")
    case False
    then have "\<not> (s < 32 \<and> n * 2 ^ s < 2 ^ 31)"
      using le_less_trans [OF mult_le_mono1 [OF mod_less_eq_dividend]] by blast
    moreover have "unat (m p AND 0x7f) = n mod 128"
      using 1(2) byte_digit [of "n mod 128"] by (subst (asm) uleb.simps) (auto simp: holds_Cons split: if_splits)
    ultimately show ?thesis using False by (subst readULEB128_loop.simps) auto
  next
    case True
    define r' where "r' = r OR shl (of_nat (n mod 128)) s"
    have r': "unat r' = unat r + (n mod 128) * 2 ^ s"
      unfolding r'_def using True 1(3) by (intro or_digit) auto
    have "unat r' < 2 ^ s + (n mod 128) * 2 ^ s" using r' 1(3) by simp
    also have "\<dots> \<le> 128 * 2 ^ s" using mult_le_mono1 [of "n mod 128 + 1" 128 "2 ^ s"] by simp
    finally have bound: "unat r' < 2 ^ (s + 7)" by (simp add: power_add)
    have eq: "r' = r + of_nat ((n mod 128) * 2 ^ s)"
      using word_of_unat_eq [OF r'] by simp
    show ?thesis
    proof (cases "n < 128")
      case small: True
      have "m p = of_nat n" using 1(2) small by (subst (asm) uleb.simps) (simp add: holds_Cons)
      then show ?thesis
        using small True byte_digit [OF small] eq
        by (subst readULEB128_loop.simps) (auto simp: r'_def uleb.simps [of n])
    next
      case large: False
      have digit: "n mod 128 < 128" by simp
      have tail: "m p = of_nat (n mod 128 + 128)" "holds m (p + 1) (uleb (n div 128))"
        using 1(2) large by (subst (asm) uleb.simps; simp add: holds_Cons)+
      have nxt: "s + 7 \<le> 28 \<and> 7 dvd s + 7 \<or> 32 \<le> s + 7"
      proof -
        obtain k where "s = 7 * k" using 1(4) True by auto
        then show ?thesis using 1(4) True by (cases "k \<le> 3") auto
      qed
      have "readULEB128_loop m p r s = readULEB128_loop m (p + 1) r' (s + 7)"
        using True tail(1) byte_digit(3,4) [OF digit]
        by (subst readULEB128_loop.simps) (simp add: r'_def del: of_nat_add)
      also have "\<dots> = (if s + 7 < 32 \<and> n div 128 * 2 ^ (s + 7) < 2 ^ 31
          then Inr (r' + of_nat (n div 128 * 2 ^ (s + 7)), p + 1 + of_nat (length (uleb (n div 128))))
          else Inl Undefined)"
        by (rule 1(1) [OF large tail(2) bound nxt])
      finally have loop: "readULEB128_loop m p r s = \<dots>" .
      have split: "n * 2 ^ s = n div 128 * 2 ^ (s + 7) + n mod 128 * 2 ^ s"
      proof -
        have "n * 2 ^ s = (n div 128 * 128 + n mod 128) * 2 ^ s" by simp
        also have "\<dots> = n div 128 * 128 * 2 ^ s + n mod 128 * 2 ^ s" by (rule add_mult_distrib)
        finally show ?thesis by (simp add: power_add ac_simps)
      qed
      have iff: "n * 2 ^ s < 2 ^ 31 \<longleftrightarrow> s + 7 < 32 \<and> n div 128 * 2 ^ (s + 7) < 2 ^ 31"
      proof (cases "s + 7 < 32")
        case True
        have "(2::nat) ^ 31 = 2 ^ (31 - (s + 7)) * 2 ^ (s + 7)" using True by (simp flip: power_add)
        moreover have "n mod 128 * 2 ^ s < 2 ^ (s + 7)" by (simp add: power_add)
        ultimately show ?thesis
          using True digit_below_exp [of "n mod 128 * 2 ^ s" "2 ^ (s + 7)" "n div 128" "2 ^ (31 - (s + 7))"]
          unfolding split by simp
      next
        case False
        then have "s = 28" using 1(4) \<open>s < 32 \<and> n mod 128 * 2 ^ s < 2 ^ 31\<close> by (auto elim: dvdE)
        then show ?thesis using large by simp
      qed
      have val: "r' + of_nat (n div 128 * 2 ^ (s + 7)) = r + of_nat (n * 2 ^ s)"
        unfolding eq split of_nat_add by (simp only: ac_simps)
      have "length (uleb n) = Suc (length (uleb (n div 128)))" using large by (subst uleb.simps) simp
      then have len: "p + 1 + of_nat (length (uleb (n div 128))) = p + of_nat (length (uleb n))" by simp
      show ?thesis
        unfolding loop iff val len using True by (simp only: simp_thms)
    qed
  qed
qed



lemma readULEB128_canonical:
  assumes "holds m p (uleb n)"
  shows "readULEB128 m p =
    (if n < 2 ^ 31 then Inr (of_nat n, p + of_nat (length (uleb n))) else Inl Undefined)"
  unfolding readULEB128_def using readULEB128_loop_canonical [OF assms, of 0 0] by simp

section \<open>Encoded values\<close>

lemma read_unsigned_encode:
  assumes "holds m p (encode n (of_nat v))" "v < 2 ^ (8 * n)" "n \<le> 8"
  shows "read_unsigned m p n = of_nat v"
proof -
  have "load_bytes m p n = encode n (of_nat v)" using assms(1) by (simp add: holds_def)
  then have "read_unsigned m p n = ucast (take_bit (8 * n) (of_nat v :: tu_int))"
    by (simp add: read_unsigned_def decode_encode)
  also have "\<dots> = of_nat v"
  proof (rule word_unat_eq_iff [THEN iffD2])
    have small: "v < 2 ^ 64" using assms(2,3) less_le_trans [of v "2 ^ (8 * n)" "2 ^ 64"] power_increasing [of "8 * n" 64 "2::nat"] by simp
    then have "unat (of_nat v :: tu_int) = v" by (simp add: unat_of_nat)
    then show "unat (ucast (take_bit (8 * n) (of_nat v :: tu_int)) :: addr) = unat (of_nat v :: addr)"
      using assms(2) small
      by (simp add: unsigned_ucast_eq unsigned_take_bit_eq take_bit_nat_eq_self unat_of_nat)
  qed
  finally show ?thesis .
qed

text \<open>The integer that is stored for a pointer, in any of the formats: its bytes, and the integers a format can
  hold.  The address it stands for is relative to its own position, or found in memory, as the encoding says.\<close>

definition stored_bytes :: "byte \<Rightarrow> int \<Rightarrow> byte list" where
  "stored_bytes encoding w =
     (let format = encoding AND 0x0F in
      if format = DW_EH_PE_uleb128 then uleb (nat w)
      else if format = DW_EH_PE_udata2 \<or> format = DW_EH_PE_sdata2 then encode 2 (word_of_int w)
      else if format = DW_EH_PE_udata4 \<or> format = DW_EH_PE_sdata4 then encode 4 (word_of_int w)
      else encode 8 (word_of_int w))"

definition format_holds :: "byte \<Rightarrow> int \<Rightarrow> bool" where
  "format_holds format w \<longleftrightarrow>
     format = DW_EH_PE_uleb128 \<and> 0 \<le> w \<and> w < 2 ^ 31 \<or>
     format = DW_EH_PE_udata2 \<and> 0 \<le> w \<and> w < 2 ^ 16 \<or>
     format = DW_EH_PE_udata4 \<and> 0 \<le> w \<and> w < 2 ^ 32 \<or>
     (format = DW_EH_PE_absptr \<or> format = DW_EH_PE_udata8) \<and> 0 \<le> w \<and> w < 2 ^ 64 \<or>
     format = DW_EH_PE_sdata2 \<and> - (2 ^ 15) \<le> w \<and> w < 2 ^ 15 \<or>
     format = DW_EH_PE_sdata4 \<and> - (2 ^ 31) \<le> w \<and> w < 2 ^ 31 \<or>
     format = DW_EH_PE_sdata8 \<and> - (2 ^ 63) \<le> w \<and> w < 2 ^ 63"

definition storable :: "byte \<Rightarrow> int \<Rightarrow> bool" where
  "storable encoding w \<longleftrightarrow>
     format_holds (encoding AND 0x0F) w \<and> (encoding AND 0x70 = DW_EH_PE_absptr \<or> encoding AND 0x70 = DW_EH_PE_pcrel)"

definition pointer_value :: "memory \<Rightarrow> byte \<Rightarrow> addr \<Rightarrow> int \<Rightarrow> addr" where
  "pointer_value m encoding p w =
     (let base = (if encoding AND 0x70 = DW_EH_PE_pcrel then p else 0);
          v = base + word_of_int w
      in if encoding AND DW_EH_PE_indirect \<noteq> 0 then read_unsigned m v 8 else v)"

lemmas formats = DW_EH_PE_omit_def DW_EH_PE_absptr_def DW_EH_PE_uleb128_def DW_EH_PE_udata2_def DW_EH_PE_udata4_def
  DW_EH_PE_udata8_def DW_EH_PE_sdata2_def DW_EH_PE_sdata4_def DW_EH_PE_sdata8_def

lemma read_signed_encode:
  assumes "holds m p (encode n (word_of_int w))" "0 < n" "n \<le> 8" "- (2 ^ (8 * n - 1)) \<le> w" "w < 2 ^ (8 * n - 1)"
  shows "read_signed m p n = word_of_int w"
proof -
  have "load_bytes m p n = encode n (word_of_int w)" using assms(1) by (simp add: holds_def)
  moreover have "uint (take_bit (8 * n) (word_of_int w :: tu_int)) = take_bit (8 * n) w"
    using assms(3) by (simp add: unsigned_take_bit_eq uint_word_of_int_eq min_def)
  moreover have "signed_take_bit (8 * n - 1) w = w"
    using assms(4,5) by (simp add: signed_take_bit_int_eq_self)
  moreover have "\<not> 8 * n \<le> 8 * n - 1" using assms(2) by simp
  ultimately show ?thesis
    by (simp only: read_signed_def decode_encode signed_take_bit_take_bit if_False)
qed

lemma read_encoded_value_stored:
  assumes "format_holds (encoding AND 0x0F) w" "holds m p (stored_bytes encoding w)"
  shows "read_encoded_value m p encoding = Inr (word_of_int w, p + of_nat (length (stored_bytes encoding w)))"
proof -
  define format where "format = encoding AND 0x0F"
  note defs = read_encoded_value_def stored_bytes_def Let_def format_def [symmetric]
  have unsigned: "read_unsigned m p n = word_of_int w"
    if "holds m p (encode n (word_of_int w))" "0 \<le> w" "w < 2 ^ (8 * n)" "n \<le> 8" for n
    using read_unsigned_encode [of m p n "nat w"] that by (simp add: nat_less_iff)
  from assms(1) show ?thesis
    unfolding format_def [symmetric] format_holds_def formats
  proof (elim disjE conjE, goal_cases)
    case 1
    then have "nat w < 2 ^ 31" by (simp add: nat_less_iff)
    then show ?case
      using 1 assms(2) readULEB128_canonical [of m p "nat w"] by (simp add: defs formats)
  next
    case 2
    then show ?case using assms(2) unsigned [of 2] by (simp add: defs formats)
  next
    case 3
    then show ?case using assms(2) unsigned [of 4] by (simp add: defs formats)
  next
    case 4
    then show ?case using assms(2) unsigned [of 8] by (simp add: defs formats)
  next
    case 5
    then show ?case using assms(2) unsigned [of 8] by (simp add: defs formats)
  next
    case 6
    then show ?case using assms(2) read_signed_encode [of m p 2 w] by (simp add: defs formats)
  next
    case 7
    then show ?case using assms(2) read_signed_encode [of m p 4 w] by (simp add: defs formats)
  next
    case 8
    then show ?case using assms(2) read_signed_encode [of m p 8 w] by (simp add: defs formats)
  qed
qed

lemma readEncodedPointer_stored:
  assumes "storable encoding w" "holds m p (stored_bytes encoding w)"
  shows "readEncodedPointer m p encoding = Inr (pointer_value m encoding p w, p + of_nat (length (stored_bytes encoding w)))"
proof -
  have format: "format_holds (encoding AND 0x0F) w"
    and relative: "encoding AND 0x70 = DW_EH_PE_absptr \<or> encoding AND 0x70 = DW_EH_PE_pcrel"
    using assms(1) by (simp_all add: storable_def)
  have "encoding \<noteq> DW_EH_PE_omit" using relative by (auto simp: formats DW_EH_PE_pcrel_def)
  then show ?thesis
    using relative unfolding readEncodedPointer_def read_encoded_value_stored [OF format assms(2)]
    by (auto simp: pointer_value_def Let_def formats DW_EH_PE_pcrel_def add.commute)
qed

text \<open>The unsigned formats, neither relative nor indirect.\<close>

lemma readEncodedPointer_encode:
  assumes "representable encoding v" "holds m p (encode_value encoding v)"
  shows "readEncodedPointer m p encoding = Inr (of_nat v, p + of_nat (length (encode_value encoding v)))"
proof -
  have v: "nat (int v) = v" "word_of_int (int v) = (of_nat v :: 'a::len word)" for v by simp_all
  have "storable encoding (int v) \<and> encode_value encoding v = stored_bytes encoding (int v) \<and>
      pointer_value m encoding p (int v) = of_nat v"
    using assms(1) unfolding representable_def formats
    by (elim disjE conjE)
      (simp_all add: storable_def format_holds_def encode_value_def stored_bytes_def pointer_value_def v
        formats DW_EH_PE_pcrel_def DW_EH_PE_indirect_def)
  then show ?thesis using readEncodedPointer_stored [of encoding "int v" m p] assms(2) by simp
qed

section \<open>The call site table\<close>

text \<open>A call site as it is stored: start, length, landing pad and action.\<close>

type_synonym stored_site = "int \<times> int \<times> int \<times> nat"

definition site_bytes :: "byte \<Rightarrow> stored_site \<Rightarrow> byte list" where
  "site_bytes encoding site =
     (case site of (start, len, pad, action) \<Rightarrow>
        stored_bytes encoding start @ stored_bytes encoding len @ stored_bytes encoding pad @ uleb action)"

definition site_storable :: "byte \<Rightarrow> stored_site \<Rightarrow> bool" where
  "site_storable encoding site \<longleftrightarrow>
     (case site of (start, len, pad, action) \<Rightarrow>
        storable encoding start \<and> storable encoding len \<and> storable encoding pad \<and> action < 2 ^ 31)"

definition table_bytes :: "byte \<Rightarrow> stored_site list \<Rightarrow> byte list" where
  "table_bytes encoding sites = concat (map (site_bytes encoding) sites)"

text \<open>The start, the length and the landing pad (0 for none) that a call site stored at \<open>p\<close> stands for.\<close>

type_synonym call_site = "nat \<times> nat \<times> nat"

definition site_at :: "memory \<Rightarrow> byte \<Rightarrow> addr \<Rightarrow> stored_site \<Rightarrow> call_site" where
  "site_at m encoding p site =
     (case site of (start, len, pad, action) \<Rightarrow>
        let p2 = p + of_nat (length (stored_bytes encoding start));
            p3 = p2 + of_nat (length (stored_bytes encoding len))
        in (unat (pointer_value m encoding p start), unat (pointer_value m encoding p2 len),
            unat (pointer_value m encoding p3 pad)))"

primrec sites_at :: "memory \<Rightarrow> byte \<Rightarrow> addr \<Rightarrow> stored_site list \<Rightarrow> call_site list" where
  "sites_at m encoding p [] = []"
| "sites_at m encoding p (site # sites) =
     site_at m encoding p site # sites_at m encoding (p + of_nat (length (site_bytes encoding site))) sites"

text \<open>A range does not pass the end of the address space.\<close>

definition range_ok :: "call_site \<Rightarrow> bool" where
  "range_ok site \<longleftrightarrow> (case site of (start, len, pad) \<Rightarrow> start + len < 2 ^ 64)"

text \<open>The specification: the landing pad of the first call site that has one and contains the offset.\<close>

fun find_pad :: "nat \<Rightarrow> call_site list \<Rightarrow> nat option" where
  "find_pad pc [] = None"
| "find_pad pc ((start, len, pad) # sites) =
     (if pad \<noteq> 0 \<and> start \<le> pc \<and> pc < start + len then Some pad else find_pad pc sites)"

lemma unat_of_nat_small: "v < 2 ^ 64 \<Longrightarrow> unat (of_nat v :: addr) = v"
  by (simp add: unat_of_nat)

lemma uleb_not_Nil: "uleb n \<noteq> []" by (subst uleb.simps) simp

lemma site_at_pad: "site_at m encoding p site = (start, len, pad) \<Longrightarrow> pad < 2 ^ 64"
  by (cases site) (auto simp: site_at_def Let_def intro!: order_less_le_trans [OF unsigned_less])

lemma read_call_site_stored:
  assumes "site_storable encoding site" "holds m p (site_bytes encoding site)" "site_at m encoding p site = (start, len, pad)"
  shows "read_call_site m encoding p =
    Inr ((of_nat start, of_nat len, of_nat pad), p + of_nat (length (site_bytes encoding site)))"
proof -
  obtain a b c d where site: "site = (a, b, c, d)" by (cases site)
  have ok: "storable encoding a" "storable encoding b" "storable encoding c" "d < 2 ^ 31"
    using assms(1) by (simp_all add: site_storable_def site)
  note bytes = assms(2)[unfolded site_bytes_def site prod.case holds_append]
  show ?thesis
    using assms(3) unfolding read_call_site_def site_bytes_def site_at_def site prod.case Let_def
    by (simp only: readEncodedPointer_stored [OF ok(1) bytes [THEN conjunct1]]
        readEncodedPointer_stored [OF ok(2) bytes [THEN conjunct2, THEN conjunct1]]
        readEncodedPointer_stored [OF ok(3) bytes [THEN conjunct2, THEN conjunct2, THEN conjunct1]]
        readULEB128_canonical [OF bytes [THEN conjunct2, THEN conjunct2, THEN conjunct2]]
        sum.case prod.case ok(4) if_True) (auto simp: ac_simps)
qed

lemma walk_call_sites_stored:
  assumes "\<forall>site\<in>set sites. site_storable encoding site" "holds m p (table_bytes encoding sites)"
    and "\<forall>site\<in>set (sites_at m encoding p sites). range_ok site"
    and "unat p + length (table_bytes encoding sites) < 2 ^ 64"
    and "table_end = p + of_nat (length (table_bytes encoding sites))"
  shows "walk_call_sites m encoding off table_end p =
    Inr (map_option of_nat (find_pad (unat off) (sites_at m encoding p sites)))"
  using assms
proof (induction sites arbitrary: p)
  case Nil
  then show ?case by (subst walk_call_sites.simps) (simp add: table_bytes_def)
next
  case (Cons site sites)
  obtain start len pad where at: "site_at m encoding p site = (start, len, pad)" by (cases "site_at m encoding p site")
  define k where "k = length (site_bytes encoding site)"
  define rest where "rest = length (table_bytes encoding sites)"
  have bytes: "table_bytes encoding (site # sites) = site_bytes encoding site @ table_bytes encoding sites"
    by (simp add: table_bytes_def)
  have k: "0 < k" using uleb_not_Nil by (simp add: k_def site_bytes_def split: prod.split)
  have fit: "unat p + (k + rest) < 2 ^ 64" using Cons.prems(4) by (simp add: bytes k_def rest_def)
  then have next_p: "unat (p + of_nat k) = unat p + k" and end_p: "unat table_end = unat p + (k + rest)"
    using Cons.prems(5) by (simp_all add: bytes k_def rest_def unat_plus_small unat_of_nat_small del: of_nat_add)
  have in_table: "p < table_end" using k end_p by (simp add: word_less_nat_alt)
  have holds: "holds m p (site_bytes encoding site)" "holds m (p + of_nat k) (table_bytes encoding sites)"
    using Cons.prems(2) by (simp_all add: bytes holds_append k_def)
  have ok: "site_storable encoding site" using Cons.prems(1) by simp
  have read: "read_call_site m encoding p = Inr ((of_nat start, of_nat len, of_nat pad), p + of_nat k)"
    using read_call_site_stored [OF ok holds(1) at] by (simp add: k_def)
  have ge: "\<not> p + of_nat k \<le> p" using next_p k by (simp add: word_le_nat_alt)
  have IH: "walk_call_sites m encoding off table_end (p + of_nat k) =
      Inr (map_option of_nat (find_pad (unat off) (sites_at m encoding (p + of_nat k) sites)))"
  proof (rule Cons.IH)
    show "\<forall>site\<in>set sites. site_storable encoding site" using Cons.prems(1) by simp
    show "\<forall>site\<in>set (sites_at m encoding (p + of_nat k) sites). range_ok site" using Cons.prems(3) by (simp add: k_def)
    show "unat (p + of_nat k) + length (table_bytes encoding sites) < 2 ^ 64"
      using fit next_p by (simp add: rest_def)
    show "table_end = p + of_nat k + of_nat (length (table_bytes encoding sites))"
      using Cons.prems(5) by (simp add: bytes k_def add.assoc)
  qed (rule holds(2))
  have nums: "start < 2 ^ 64" "len < 2 ^ 64" "pad < 2 ^ 64" "start + len < 2 ^ 64"
  proof -
    show "start + len < 2 ^ 64" using Cons.prems(3) by (simp add: at range_ok_def)
    then show "start < 2 ^ 64" "len < 2 ^ 64" by simp_all
    show "pad < 2 ^ 64" by (rule site_at_pad [OF at])
  qed
  have pad_iff: "(of_nat pad :: addr) = 0 \<longleftrightarrow> pad = 0"
    using unat_eq_zero [of "of_nat pad :: addr"] unfolding unat_of_nat_small [OF nums(3)] by (rule sym)
  have start_iff: "(of_nat start :: addr) \<le> off \<longleftrightarrow> start \<le> unat off"
    unfolding word_le_nat_alt unat_of_nat_small [OF nums(1)] by (rule refl)
  have end_iff: "off < of_nat start + of_nat len \<longleftrightarrow> unat off < start + len"
    using unat_of_nat_small [OF nums(4)] by (simp add: word_less_nat_alt)
  have walk: "walk_call_sites m encoding off table_end p =
      (if of_nat pad = (0 :: addr) then walk_call_sites m encoding off table_end (p + of_nat k)
       else if of_nat start \<le> off \<and> off < of_nat start + of_nat len then Inr (Some (of_nat pad))
       else walk_call_sites m encoding off table_end (p + of_nat k))"
    by (subst walk_call_sites.simps) (simp only: in_table read ge if_True if_False sum.case prod.case)
  have find: "find_pad (unat off) (sites_at m encoding p (site # sites)) =
      (if pad \<noteq> 0 \<and> start \<le> unat off \<and> unat off < start + len then Some pad
       else find_pad (unat off) (sites_at m encoding (p + of_nat k) sites))"
    by (simp add: at k_def)
  show ?case unfolding walk IH pad_iff start_iff end_iff find by simp
qed

section \<open>The language-specific data area\<close>

text \<open>The header: the landing pad base, if any, with its encoding; the encoding of the type table and the offset
  of its end, if there is one; the encoding of the call sites and the length \<open>n\<close> of their table.\<close>

definition header_bytes :: "(byte \<times> int) option \<Rightarrow> (byte \<times> nat) option \<Rightarrow> byte \<Rightarrow> nat \<Rightarrow> byte list" where
  "header_bytes lpStart ttype encoding n =
     (case lpStart of None \<Rightarrow> [DW_EH_PE_omit] | Some (lpEncoding, w) \<Rightarrow> lpEncoding # stored_bytes lpEncoding w) @
     (case ttype of None \<Rightarrow> [DW_EH_PE_omit] | Some (ttypeEncoding, offset) \<Rightarrow> ttypeEncoding # uleb offset) @
     encoding # uleb n"

definition lsda_bytes :: "(byte \<times> int) option \<Rightarrow> (byte \<times> nat) option \<Rightarrow> byte \<Rightarrow> stored_site list \<Rightarrow> byte list" where
  "lsda_bytes lpStart ttype encoding sites =
     header_bytes lpStart ttype encoding (length (table_bytes encoding sites)) @ table_bytes encoding sites"

definition lsda_storable :: "(byte \<times> int) option \<Rightarrow> (byte \<times> nat) option \<Rightarrow> byte \<Rightarrow> stored_site list \<Rightarrow> bool" where
  "lsda_storable lpStart ttype encoding sites \<longleftrightarrow>
     (case lpStart of None \<Rightarrow> True | Some (lpEncoding, w) \<Rightarrow> storable lpEncoding w) \<and>
     (case ttype of None \<Rightarrow> True | Some (ttypeEncoding, offset) \<Rightarrow> ttypeEncoding \<noteq> DW_EH_PE_omit \<and> offset < 2 ^ 31) \<and>
     list_all (site_storable encoding) sites \<and> length (table_bytes encoding sites) < 2 ^ 31"

lemma storable_not_omit: "storable encoding w \<Longrightarrow> encoding \<noteq> DW_EH_PE_omit"
  by (auto simp: storable_def formats DW_EH_PE_pcrel_def)

lemma read_lpStart:
  assumes "holds m p (case lpStart of None \<Rightarrow> [DW_EH_PE_omit] | Some (e, w) \<Rightarrow> e # stored_bytes e w)"
    and "case lpStart of None \<Rightarrow> True | Some (e, w) \<Rightarrow> storable e w"
  shows "\<exists>v. (if m p \<noteq> DW_EH_PE_omit then readEncodedPointer m (p + 1) (m p) else Inr (0, p + 1)) =
    Inr (v, p + of_nat (length (case lpStart of None \<Rightarrow> [DW_EH_PE_omit] | Some (e, w) \<Rightarrow> e # stored_bytes e w)))"
proof (cases lpStart)
  case None
  then show ?thesis using assms(1) by (simp add: holds_Cons)
next
  case (Some ew)
  obtain e w where ew: "ew = (e, w)" by (cases ew)
  have store: "storable e w" and head: "m p = e" and bytes: "holds m (p + 1) (stored_bytes e w)"
    using assms by (simp_all add: Some ew holds_Cons)
  show ?thesis
    using storable_not_omit [OF store] readEncodedPointer_stored [OF store bytes] by (simp add: Some ew head add.assoc)
qed

lemma read_ttype:
  assumes "holds m p (case ttype of None \<Rightarrow> [DW_EH_PE_omit] | Some (e, offset) \<Rightarrow> e # uleb offset)"
    and "case ttype of None \<Rightarrow> True | Some (e, offset) \<Rightarrow> e \<noteq> DW_EH_PE_omit \<and> offset < 2 ^ 31"
  shows "\<exists>v. (if m p \<noteq> DW_EH_PE_omit then readULEB128 m (p + 1) else Inr (0, p + 1)) =
    Inr (v, p + of_nat (length (case ttype of None \<Rightarrow> [DW_EH_PE_omit] | Some (e, offset) \<Rightarrow> e # uleb offset)))"
proof (cases ttype)
  case None
  then show ?thesis using assms(1) by (simp add: holds_Cons)
next
  case (Some en)
  obtain e n where en: "en = (e, n)" by (cases en)
  have "e \<noteq> DW_EH_PE_omit" "n < 2 ^ 31" "m p = e" "holds m (p + 1) (uleb n)"
    using assms by (simp_all add: Some en holds_Cons)
  then show ?thesis using readULEB128_canonical [of m "p + 1" n] by (simp add: Some en add.assoc)
qed

lemma read_lsda_header_stored:
  assumes "holds m p (lsda_bytes lpStart ttype encoding sites)" "lsda_storable lpStart ttype encoding sites"
  defines "n \<equiv> length (table_bytes encoding sites)"
  defines "q \<equiv> p + of_nat (length (header_bytes lpStart ttype encoding n))"
  shows "read_lsda_header m p = Inr (encoding, q, q + of_nat n)" "holds m q (table_bytes encoding sites)"
proof -
  define lp where "lp = (case lpStart of None \<Rightarrow> [DW_EH_PE_omit] | Some (e, w) \<Rightarrow> e # stored_bytes e w)"
  define tt where "tt = (case ttype of None \<Rightarrow> [DW_EH_PE_omit] | Some (e, offset) \<Rightarrow> e # uleb offset)"
  define p2 where "p2 = p + of_nat (length lp)"
  define p3 where "p3 = p2 + of_nat (length tt)"
  have header: "header_bytes lpStart ttype encoding n = lp @ tt @ encoding # uleb n"
    by (simp add: header_bytes_def lp_def tt_def)
  have q: "q = p3 + 1 + of_nat (length (uleb n))"
    by (simp add: q_def header p2_def p3_def add_ac)
  have bytes: "holds m p lp" "holds m p2 tt" "m p3 = encoding" "holds m (p3 + 1) (uleb n)"
    and table: "holds m q (table_bytes encoding sites)"
    using assms(1) by (simp_all add: lsda_bytes_def n_def [symmetric] header holds_append holds_Cons p2_def p3_def q_def add_ac)
  show "holds m q (table_bytes encoding sites)" by (rule table)
  have store: "case lpStart of None \<Rightarrow> True | Some (e, w) \<Rightarrow> storable e w"
    "case ttype of None \<Rightarrow> True | Some (e, offset) \<Rightarrow> e \<noteq> DW_EH_PE_omit \<and> offset < 2 ^ 31" and n: "n < 2 ^ 31"
    using assms(2) by (simp_all add: lsda_storable_def n_def)
  obtain v where v: "(if m p \<noteq> DW_EH_PE_omit then readEncodedPointer m (p + 1) (m p) else Inr (0, p + 1)) = Inr (v, p2)"
    using read_lpStart [OF bytes(1)[unfolded lp_def] store(1)] unfolding lp_def [symmetric] p2_def by blast
  obtain u where u: "(if m p2 \<noteq> DW_EH_PE_omit then readULEB128 m (p2 + 1) else Inr (0, p2 + 1)) = Inr (u, p3)"
    using read_ttype [OF bytes(2)[unfolded tt_def] store(2)] unfolding tt_def [symmetric] p3_def by blast
  have len: "ucast (ucast (of_nat n :: addr) :: su_int) = (of_nat n :: addr)"
    using n by (simp add: word_unat_eq_iff unsigned_ucast_eq unsigned_take_bit_eq unat_of_nat take_bit_nat_eq_self)
  show "read_lsda_header m p = Inr (encoding, q, q + of_nat n)"
    unfolding read_lsda_header_def Let_def
    by (simp only: v u bytes(3) readULEB128_canonical [OF bytes(4)] n len q sum.case prod.case if_True)
qed

section \<open>Properties\<close>

text \<open>C3. A frame whose language-specific data is written as the format defines it is entered at the landing pad of
  the first call site that contains the program counter and has one, with the exception in the first argument
  register; without such a call site, and in the search phase, unwinding continues.  The landing pad base and the
  type table may be present or omitted, and are skipped when present: a landing pad is always taken relative to the
  start of the function, also under a landing pad base.  Pointers may have each of the formats that the code
  supports, unsigned, signed or ULEB128, absolute or relative to their own position, direct or indirect; ULEB128
  numbers are in canonical form and below \<open>2 ^ 31\<close>, and ranges of call sites and the data do not wrap around.\<close>

theorem personality_finds_landing_pad:
  assumes "holds m (lsda context) (lsda_bytes lpStart ttype encoding sites)" "lsda_storable lpStart ttype encoding sites"
    and "table = lsda context + of_nat (length (header_bytes lpStart ttype encoding (length (table_bytes encoding sites))))"
    and "list_all range_ok (sites_at m encoding table sites)"
    and "unat (lsda context) + length (lsda_bytes lpStart ttype encoding sites) < 2 ^ 64" "lsda context \<noteq> 0"
  shows "gcc_personality_v0 m actions exc context =
    Inr (case (if actions AND UA_SEARCH_PHASE = 0
               then find_pad (unat (ip context - 1 - region_start context)) (sites_at m encoding table sites) else None) of
           None \<Rightarrow> (URC_CONTINUE_UNWIND, context)
         | Some pad \<Rightarrow> (URC_INSTALL_CONTEXT,
             context\<lparr>gr0 := exc, gr1 := 0, ip := region_start context + of_nat pad\<rparr>))"
proof -
  define n where "n = length (table_bytes encoding sites)"
  define h where "h = length (header_bytes lpStart ttype encoding n)"
  have header: "read_lsda_header m (lsda context) = Inr (encoding, table, table + of_nat n)"
    and bytes: "holds m table (table_bytes encoding sites)"
    using read_lsda_header_stored [OF assms(1,2)] assms(3) by (simp_all add: n_def)
  have fit: "unat (lsda context) + (h + n) < 2 ^ 64" using assms(5) by (simp add: lsda_bytes_def h_def n_def)
  then have small: "h < 2 ^ 64" by simp
  have "unat table = unat (lsda context) + h"
    using unat_plus_small [of "lsda context" "of_nat h"] fit unfolding assms(3) unat_of_nat_small [OF small]
    by (simp add: h_def n_def)
  then have "unat table + length (table_bytes encoding sites) < 2 ^ 64" using fit by (simp add: n_def)
  from walk_call_sites_stored [OF _ bytes _ this refl]
  have "walk_call_sites m encoding off (table + of_nat n) table =
      Inr (map_option of_nat (find_pad (unat off) (sites_at m encoding table sites)))" for off
    using assms(2,4) by (simp add: lsda_storable_def list_all_iff n_def)
  then show ?thesis
    using assms(6) by (simp add: gcc_personality_v0_def Let_def header split: option.splits)
qed

text \<open>A table with two call sites of signed 4-byte fields, the second one with a landing pad before the function,
  under a header with a landing pad base relative to its position and a type table.\<close>

definition two_sites :: "stored_site list" where
  "two_sites = [(0, 16, 0, 0), (16, 32, - 80, 1)]"

definition two_sites_lsda :: "byte list" where
  "two_sites_lsda = lsda_bytes (Some (DW_EH_PE_pcrel OR DW_EH_PE_sdata4, - 8)) (Some (0x9b, 300)) DW_EH_PE_sdata4 two_sites"

definition two_sites_memory :: memory where
  "two_sites_memory = store_bytes (\<lambda>_. 0) 4096 two_sites_lsda"

definition two_sites_context :: "addr \<Rightarrow> unwind_context" where
  "two_sites_context pc = \<lparr>lsda = 4096, region_start = 0x8000, ip = pc, gr0 = 1, gr1 = 2\<rparr>"

lemma two_sites_length:
  "length (stored_bytes DW_EH_PE_sdata4 w) = 4" "length (table_bytes DW_EH_PE_sdata4 two_sites) = 26"
  "length (header_bytes (Some (DW_EH_PE_pcrel OR DW_EH_PE_sdata4, - 8)) (Some (0x9b, 300)) DW_EH_PE_sdata4 26) = 10"
  by (simp_all add: table_bytes_def two_sites_def site_bytes_def stored_bytes_def header_bytes_def uleb.simps Let_def
      formats DW_EH_PE_pcrel_def)

lemma two_sites_lsda_length: "length two_sites_lsda = 36"
  by (simp add: two_sites_lsda_def lsda_bytes_def two_sites_length)

lemma two_sites_holds: "holds two_sites_memory 4096 two_sites_lsda"
  unfolding two_sites_memory_def by (rule holds_store) (simp add: two_sites_lsda_length)

lemma two_sites_storable:
  "lsda_storable (Some (DW_EH_PE_pcrel OR DW_EH_PE_sdata4, - 8)) (Some (0x9b, 300)) DW_EH_PE_sdata4 two_sites"
  by (simp add: lsda_storable_def two_sites_length(2))
    (simp add: two_sites_def site_storable_def storable_def format_holds_def formats DW_EH_PE_pcrel_def)

lemma two_sites_at: "sites_at m DW_EH_PE_sdata4 p two_sites = [(0, 16, 0), (16, 32, 2 ^ 64 - 80)]"
  by (simp add: two_sites_def site_at_def pointer_value_def Let_def formats DW_EH_PE_pcrel_def DW_EH_PE_indirect_def)

theorem personality_finds_landing_pad_witness:
  "gcc_personality_v0 two_sites_memory 2 7 (two_sites_context 0x8015) =
     Inr (URC_INSTALL_CONTEXT, two_sites_context 0x8015 \<lparr>gr0 := 7, gr1 := 0, ip := 0x7fb0\<rparr>)"
proof -
  let ?frame = "two_sites_context 0x8015"
  have "holds two_sites_memory (lsda ?frame) (lsda_bytes (Some (DW_EH_PE_pcrel OR DW_EH_PE_sdata4, - 8)) (Some (0x9b, 300))
      DW_EH_PE_sdata4 two_sites)"
    using two_sites_holds by (simp add: two_sites_lsda_def two_sites_context_def)
  from personality_finds_landing_pad [OF this two_sites_storable refl, where actions = 2 and exc = 7] show ?thesis
    using two_sites_lsda_length
    by (simp add: two_sites_at range_ok_def two_sites_lsda_def two_sites_context_def UA_SEARCH_PHASE_def)
qed

text \<open>C32. Reading undoes writing: a value in one of the unsigned formats is read back and the pointer moves past
  it; a ULEB128 number of \<open>2 ^ 31\<close> or more is undefined, because its digits are shifted as \<open>int\<close>.\<close>

theorem encoded_pointer_roundtrip:
  assumes "holds m p (encode_value encoding v)"
  shows "(representable encoding v \<longrightarrow>
      readEncodedPointer m p encoding = Inr (of_nat v, p + of_nat (length (encode_value encoding v)))) \<and>
    (encoding = DW_EH_PE_uleb128 \<and> 2 ^ 31 \<le> v \<longrightarrow> readEncodedPointer m p encoding = Inl Undefined)"
proof (intro conjI impI)
  assume big: "encoding = DW_EH_PE_uleb128 \<and> 2 ^ 31 \<le> v"
  then have "holds m p (uleb v)" using assms by (simp add: encode_value_def)
  then have "readULEB128 m p = Inl Undefined" using big by (simp add: readULEB128_canonical)
  then show "readEncodedPointer m p encoding = Inl Undefined"
    using big by (simp add: readEncodedPointer_def read_encoded_value_def Let_def DW_EH_PE_omit_def
        DW_EH_PE_absptr_def DW_EH_PE_uleb128_def)
qed (use assms in \<open>simp add: readEncodedPointer_encode\<close>)

theorem encoded_pointer_roundtrip_witness:
  "readEncodedPointer (store_bytes (\<lambda>_. 0) 64 (encode_value DW_EH_PE_udata2 513)) 64 DW_EH_PE_udata2 = Inr (513, 66)"
proof -
  have len: "length (encode_value DW_EH_PE_udata2 513) = 2"
    by (simp add: encode_value_def DW_EH_PE_udata2_def DW_EH_PE_uleb128_def)
  have "representable DW_EH_PE_udata2 513" by (simp add: representable_def)
  moreover have "holds (store_bytes (\<lambda>_. 0) 64 (encode_value DW_EH_PE_udata2 513)) 64 (encode_value DW_EH_PE_udata2 513)"
    by (rule holds_store) (simp add: len)
  ultimately show ?thesis using encoded_pointer_roundtrip by (fastforce simp: len)
qed

end
