(* ===== verification/Spec2Isabelle.thy ===== *)
theory Spec2Isabelle
  imports Bit_Count Udiv Sdiv Imul Overflow Shift_Compare Bit_Sum Fp_Compare Fp_Add Fp_Mul Fp_Div Fp_Power Fp_Convert Fp_Resize Fp_Complex Fp_X87 Atomic Emutls_Index Cpu_Model Personality
begin

text \<open>
  The run-time library of the hybrid Ada compiler for the MSP430, \<open>src/llvm-runtime/src\<close>: the C routines of
  the LLVM compiler-rt \<open>builtins\<close> library, with \<open>bridge.c\<close>, that a compiler calls for operations the processor
  does not have.  The compiler driver builds Ada programs with LLVM and MSP430 GCC and links them with this library.

  \<^bold>\<open>The program.\<close>  The library has no main loop.  It is a set of entry points with a fixed calling convention,
  in layers that call downwards: bit counts and half-word arithmetic; integer division, multiplication, checked
  arithmetic, shifts and comparisons; soft floating point in single, double and quadruple precision, whose
  routines work on the bit patterns with integer operations; conversions between all of these formats;
  powers and complex arithmetic over the soft floats; and four stateful parts, the locked atomics, emulated
  thread-local storage, the exception personality routine and the processor model.  The MSP430 build compiles
  \<open>mulosi4.c\<close>, \<open>mulodi4.c\<close> and \<open>bridge.c\<close>; the other files are in the repository and are modelled from their text.

  \<^bold>\<open>Theories and files.\<close>  Definitions have the names of the C functions, without the leading underscores.

  \<^item> \<open>Prelude\<close>: \<open>int_types.h\<close>, \<open>int_lib.h\<close>, the abort of \<open>int_util.c\<close>.  The C integer types are words of 32, 64
    and 128 bits; \<open>low_half\<close>, \<open>high_half\<close>, \<open>make_dword\<close> are the unions.  Lemma collections \<open>c_unat\<close>, \<open>c_int\<close>.
  \<^item> \<open>Bit_Count\<close>: \<open>clz\<close>, \<open>ctz\<close> and \<open>ffs\<close> routines.  \<open>Udiv\<close>: unsigned division.  \<open>Sdiv\<close>: signed division.
    \<open>Imul\<close>: multiplication, negation.  \<open>Overflow\<close>: trapping and overflow-reporting arithmetic.
    \<open>Shift_Compare\<close>: double-word shifts and comparisons.  \<open>Bit_Sum\<close>: population count, parity, byte swap.
  \<^item> \<open>Rounding\<close>: magnitudes and IEEE 754 rounding to nearest, ties to even, as the specification; no code.
    \<open>Fp_Lib\<close>: \<open>fp_lib.h\<close>, \<open>fp_mode.c\<close>; the locale \<open>fp_base\<close> is what the routines rely on in a format.
  \<^item> \<open>Fp_Compare\<close>: comparison, negation, \<open>bridge.c\<close>.  \<open>Fp_Add\<close>: \<open>fp_add_impl.inc\<close>, addition, subtraction.
    \<open>Fp_Mul\<close>: \<open>fp_mul_impl.inc\<close>.  \<open>Fp_Quad\<close>: the 128-bit product of \<open>fp_lib.h\<close> and its dropped carry.
    \<open>Reciprocal\<close>, \<open>Fp_Div\<close>: the three division routines.
  \<^item> \<open>Fp_Fix\<close>, \<open>Fp_Float\<close>, \<open>Fp_Convert\<close>: between floats and integers of 32, 64 and 128 bits.  \<open>Fp_Resize\<close>:
    \<open>fp_extend_impl.inc\<close>, \<open>fp_trunc_impl.inc\<close>, half precision included.  \<open>Fp_X87\<close>: integers and the 80-bit format.
  \<^item> \<open>Fp_Power\<close>: \<open>powisf2.c\<close>, \<open>powidf2.c\<close>, \<open>powitf2.c\<close>.  \<open>Fp_Scale\<close>: \<open>__compiler_rt_logbX\<close> and the functions of
    \<open>int_math.h\<close>.  \<open>Fp_Complex\<close>: complex multiplication and division.
  \<^item> \<open>Bytes\<close>: memory as bytes.  \<open>Interleave\<close>: threads, shared memory and spin locks.  \<open>Atomic\<close>: \<open>atomic.c\<close>.
  \<^item> \<open>Heap\<close>: \<open>malloc\<close>, \<open>realloc\<close>, \<open>free\<close> and static objects.  \<open>Emutls\<close>: the state and operations of \<open>emutls.c\<close>.
    \<open>Emutls_Inv\<close>, \<open>Emutls_Ops\<close>, \<open>Emutls_Calls\<close>, \<open>Emutls_Exit\<close>: its invariant and the proof of every operation.
    \<open>Emutls_Spec\<close>: the per-thread variables it implements.  \<open>Emutls_Index\<close>: the race for an index.
  \<^item> \<open>Personality\<close>: \<open>gcc_personality_v0.c\<close>.  \<open>Cpu_Model\<close>: \<open>cpu_model.c\<close>.

  \<^bold>\<open>What is shown.\<close>

  \<^item> Integers: every routine equals its mathematical operation on all operands, or states where C leaves it
    undefined; the trapping routines abort exactly when the result does not fit.  The contracts are the locales
    \<open>leading_zeros\<close>, \<open>trailing_zeros\<close>, \<open>unsigned_division\<close>, \<open>full_product\<close>, \<open>checked_unary\<close>, \<open>checked_binary\<close> and \<open>three_way\<close>,
    each interpreted on the routines that provide it.
  \<^item> Floating point: addition, multiplication, division and the conversions return the exact result
    rounded to nearest, ties to even, with overflow, gradual underflow, signed zeros, infinities and NaNs.  Division
    flushes results below the normal range, as its comments say, and with it the powers with a negative exponent.
    Conversions to signed integers wrap, instead of saturating, in the last binade below \<open>2 ^ N\<close>.  Quadruple multiplication is exact up to the carry
    that \<open>wideMultiply\<close> drops; \<open>multf3_not_rounded\<close> is an input where that shows.
  \<^item> Atomics: under the spin locks at most one thread is in a critical section, some thread can always go on, and
    every complete interleaving has the effect of the operations in some order (locales \<open>lock_discipline\<close>,
    \<open>guarded_threads\<close>).
  \<^item> Emulated thread-local storage: an invariant of the heap and of all threads, absence of undefined behaviour,
    refinement of the abstract per-thread variables (locale \<open>thread_variables\<close>), release of exactly the
    memory of a thread that ends, and unique indices under every interleaving.
  \<^item> The personality routine: the landing pad that is entered, for any header and pointer format that the code reads,
    and reading of encoded pointers against a writer.  The processor model: every feature against the
    bit of \<open>cpuid\<close> that reports it and the registers it needs, and the ranges of vendor, type and subtype.

  \<^bold>\<open>Conventions.\<close>

  \<^item> Signed and unsigned C types of one width are the same word type; the operators tell them apart.  Signed
    \<open>+\<close>, \<open>-\<close> and \<open>*\<close> wrap, as the library relies on (\<open>addv\<close> tests the wrapped sum).  A shift by the
    width or more, a division by zero and an access outside the objects of the program are values
    (\<open>None\<close>, \<open>Inl Undefined\<close>) where a routine can reach them; \<open>Inl Abort\<close> and \<open>Inl Aborted\<close> are calls of \<open>abort\<close>.
  \<^item> \<open>int\<close> and \<open>unsigned\<close> have 32 bits and pointers 64, as on the hosts of compiler-rt.  The MSP430 has an \<open>int\<close> of 16
    bits; the files it compiles use the fixed-width types.  C variables that hold exponents or
    distances, whose values stay below \<open>2 ^ 17\<close>, are integers.
  \<^item> The builtins of the compiler and the functions of \<open>libm\<close> that the sources call (\<open>__builtin_clz\<close>, \<open>fmax\<close>,
    \<open>scalbn\<close>, \<dots>) are given by their documented meaning.  The operators of C on \<open>float\<close>, \<open>double\<close> and quadruple
    \<open>long double\<close> are the routines of this library, which is what a target without floating-point hardware calls.
  \<^item> The calls of POSIX threads in \<open>emutls.c\<close> succeed, but for \<open>pthread_key_create\<close>, whose failure aborts: the code
    ignores the result of \<open>pthread_setspecific\<close>, and its error \<open>ENOMEM\<close> is not represented.
  \<^item> The threads of \<open>Interleave\<close> and \<open>Emutls_Index\<close> are sequentially consistent and interleave at single
    accesses.  Elsewhere in \<open>emutls.c\<close> one call is one step of its thread.

  \<^bold>\<open>Bounds.\<close>  Loops are structural recursion on the count that the code has, or \<open>function\<close>s with a measure; the only
  fuel is the number of destructor rounds of \<open>thread_exit\<close>, \<open>PTHREAD_DESTRUCTOR_ITERATIONS\<close> = 4, the least that
  POSIX grants, which suffices because at most one round is skipped (\<open>emutls_exit_terminates\<close>).  Emulated
  thread-local storage assumes fewer than \<open>2 ^ 59\<close> control objects, so that sizes of arrays do not wrap.  The
  addresses that \<open>malloc\<close> may return are the list \<open>candidates\<close>, a parameter: every behaviour of a conforming
  allocator, failure included, is a choice of the list.

  \<^bold>\<open>Not modelled.\<close>  The multiplication, division and powers of the x87 format (\<open>mulxc3.c\<close>, \<open>divxc3.c\<close>, \<open>powixf2.c\<close>): they
  rest on arithmetic of the processor that has no routine here.  The locks of FreeBSD and Apple in \<open>atomic.c\<close>, the
  Windows and \<open>posix_memalign\<close> variants in \<open>emutls.c\<close>, the SJLJ and ARM EHABI entry points of the personality: calls
  into other systems, compiled instead of what is modelled.  \<open>atomic_flag_*.c\<close> and the fences: one builtin each.
  The output before an abort (\<open>eprintf.c\<close>).  Platform glue without logic of the program (\<open>clear_cache.c\<close>,
  \<open>enable_execute_stack.c\<close>, \<open>trampoline_setup.c\<close>, \<open>apple_versioning.c\<close>, \<open>os_version_check.c\<close>, \<open>assembly.h\<close>).  The Ada run-time
  sources, the build scripts and the tests, which are not C of the library.
\<close>

end
